(* ===== verification/Nola_Prelude.thy ===== *)
theory Nola_Prelude
  imports Main "HOL-Library.Word" "HOL-Library.List_Lexorder" "HOL-Library.Sublist"
begin

section \<open>Shared vocabulary of the development\<close>

text \<open>
  What every component of the model uses: Go's byte slices and strings, its error values, the
  outcome of a call that may return, fail, panic or block, calls that thread a state, and
  64-bit signed arithmetic. The lemmas here are the automation of the component proofs; they
  are collected in the named theorems \<open>go_step\<close> (evaluation of threaded calls) and
  \<open>byte_order\<close> (the lexicographic order of byte strings).
\<close>

unbundle bit_operations_syntax

named_theorems go_step \<open>how threaded calls evaluate\<close>
named_theorems byte_order \<open>facts on the order of byte strings\<close>

subsection \<open>Bytes and strings\<close>

text \<open>
  A Go \<open>[]byte\<close> is a list of 8-bit words; a Go \<open>string\<close> is a byte string too and is a list of
  (8-bit) characters here, so that literals stay readable. The two conversions are Go's
  \<open>[]byte(s)\<close> and \<open>string(b)\<close>.
\<close>

type_synonym byte = "8 word"
type_synonym bytes = "byte list"

definition go_bytes :: "string \<Rightarrow> bytes" where
  "go_bytes s = map of_char s"

definition go_string :: "bytes \<Rightarrow> string" where
  "go_string b = map (\<lambda>w. char_of (unat w)) b"

text \<open>\<open>bytes.IndexByte\<close>: the first position of a byte, or -1.\<close>

fun index_byte :: "bytes \<Rightarrow> byte \<Rightarrow> int" where
  "index_byte [] c = -1"
| "index_byte (x # xs) c =
     (if x = c then 0 else (let i = index_byte xs c in if i < 0 then -1 else i + 1))"

subsection \<open>Errors and outcomes\<close>

text \<open>
  An error value: a message of \<open>fmt.Errorf\<close> or \<open>errors.New\<close> with its arguments, a message that
  wraps another error with the verb \<open>%w\<close>, or a sentinel variable that callers compare with
  \<open>errors.Is\<close>.
\<close>

datatype fmtarg = AStr string | AInt int | ABytes bytes

datatype goerr =
    Errorf string "fmtarg list"
  | Wrapf string "fmtarg list" goerr
  | Sentinel string

fun errors_is :: "goerr \<Rightarrow> goerr \<Rightarrow> bool" where
  "errors_is (Wrapf f as e) t = (Wrapf f as e = t \<or> errors_is e t)"
| "errors_is e t = (e = t)"

text \<open>
  What a call does: it returns a value, returns an error, panics, or cannot go on because a
  mutex that it needs is held.
\<close>

datatype 'a outcome = Ret 'a | Fail goerr | Panic string | Blocked

text \<open>A call on a state \<open>'s\<close>: the state is threaded also through failures and panics.\<close>

type_synonym ('s, 'a) call = "'s \<Rightarrow> 'a outcome \<times> 's"

definition ret :: "'a \<Rightarrow> ('s, 'a) call" where
  "ret a s = (Ret a, s)"

definition fail :: "goerr \<Rightarrow> ('s, 'a) call" where
  "fail e s = (Fail e, s)"

definition panic :: "string \<Rightarrow> ('s, 'a) call" where
  "panic m s = (Panic m, s)"

text \<open>
  Sequencing: \<open>v, err := m(); if err != nil { return err }; f(v)\<close>. A panic or a blocked call
  ends the sequence too.
\<close>

definition andThen :: "('s, 'a) call \<Rightarrow> ('a \<Rightarrow> ('s, 'b) call) \<Rightarrow> ('s, 'b) call" where
  "andThen m f s =
     (case m s of
        (Ret a, s') \<Rightarrow> f a s'
      | (Fail e, s') \<Rightarrow> (Fail e, s')
      | (Panic p, s') \<Rightarrow> (Panic p, s')
      | (Blocked, s') \<Rightarrow> (Blocked, s'))"

text \<open>\<open>if err != nil { return fmt.Errorf(..., err) }\<close> around a call.\<close>

definition onError :: "(goerr \<Rightarrow> goerr) \<Rightarrow> ('s, 'a) call \<Rightarrow> ('s, 'a) call" where
  "onError w m s =
     (case m s of
        (Fail e, s') \<Rightarrow> (Fail (w e), s')
      | (r, s') \<Rightarrow> (r, s'))"

text \<open>The same two on plain outcomes, for code without state.\<close>

fun obind :: "'a outcome \<Rightarrow> ('a \<Rightarrow> 'b outcome) \<Rightarrow> 'b outcome" where
  "obind (Ret a) f = f a"
| "obind (Fail e) f = Fail e"
| "obind (Panic p) f = Panic p"
| "obind Blocked f = Blocked"

subsection \<open>64-bit signed integers\<close>

text \<open>
  An \<open>int64\<close> is an \<open>int\<close> in the range of 64-bit two's complement; \<open>i64\<close> is the wrap-around
  of an arithmetic result into that range.
\<close>

definition i64 :: "int \<Rightarrow> int" where
  "i64 x = signed_take_bit 63 x"

definition is_i64 :: "int \<Rightarrow> bool" where
  "is_i64 x \<longleftrightarrow> - (2 ^ 63) \<le> x \<and> x < 2 ^ 63"

subsection \<open>Lemmas: conversions\<close>

definition answered :: "'a outcome \<Rightarrow> bool" where
  "answered r \<longleftrightarrow> (case r of Ret _ \<Rightarrow> True | Fail _ \<Rightarrow> True | _ \<Rightarrow> False)"

lemma answered_simps [simp]:
  "answered (Ret x)" "answered (Fail e)" "\<not> answered (Panic p)" "\<not> answered Blocked"
  by (simp_all add: answered_def)

lemma answered_cases: "answered r \<Longrightarrow> (\<exists>x. r = Ret x) \<or> (\<exists>e. r = Fail e)"
  by (cases r) simp_all

lemma unat_of_char: "unat (of_char c :: byte) = of_char c"
proof -
  have "(of_char c :: byte) = of_nat (of_char c)" by (rule of_nat_of_char [symmetric])
  moreover have "of_char c < (2::nat) ^ LENGTH(8)" using nat_of_char_less_256 [of c] by simp
  ultimately show ?thesis by (simp add: unsigned_of_nat take_bit_nat_eq_self)
qed

lemma of_char_char_of_unat: "of_char (char_of (unat w)) = (w :: byte)"
proof -
  have "unat w < 256" using unsigned_less [of w, where 'a = nat] by simp
  then have "of_char (char_of (unat w)) = unat w" by simp
  then have "(of_nat (of_char (char_of (unat w))) :: byte) = w" by simp
  then show ?thesis by (simp only: of_nat_of_char)
qed

lemma go_string_bytes [simp]: "go_string (go_bytes s) = s"
  by (simp add: go_string_def go_bytes_def unat_of_char o_def)

lemma go_bytes_string [simp]: "go_bytes (go_string b) = b"
  by (simp add: go_string_def go_bytes_def of_char_char_of_unat o_def)

lemma go_bytes_inject [simp]: "go_bytes s = go_bytes t \<longleftrightarrow> s = t"
  by (metis go_string_bytes)

lemma go_bytes_Nil [simp]: "go_bytes [] = []"
  by (simp add: go_bytes_def)

lemma go_bytes_Cons [simp]: "go_bytes (c # s) = of_char c # go_bytes s"
  by (simp add: go_bytes_def)

lemma go_bytes_append [simp]: "go_bytes (s @ t) = go_bytes s @ go_bytes t"
  by (simp add: go_bytes_def)

lemma length_go_bytes [simp]: "length (go_bytes s) = length s"
  by (simp add: go_bytes_def)

subsection \<open>Lemmas: the order of byte strings\<close>

lemma append_less_append [simp, byte_order]: "(a :: bytes) @ b < a @ c \<longleftrightarrow> b < c"
  by (induction a) auto

lemma less_append_self [simp, byte_order]: "(a :: bytes) < a @ c \<longleftrightarrow> c \<noteq> []"
  by (induction a) (cases c; simp)+

lemma le_append_self [byte_order]: "(a :: bytes) \<le> a @ c"
  by (induction a) auto

lemma prefix_le [byte_order]: "prefix (p :: bytes) x \<Longrightarrow> p \<le> x"
  by (auto simp: prefix_def le_append_self)

text \<open>The strings with a given prefix are an interval of the order.\<close>

lemma prefix_convex [byte_order]:
  "prefix (p :: bytes) x \<Longrightarrow> prefix p y \<Longrightarrow> x \<le> z \<Longrightarrow> z \<le> y \<Longrightarrow> prefix p z"
proof (induction p arbitrary: x y z)
  case Nil
  show ?case by simp
next
  case (Cons a p)
  obtain x' where x: "x = a # x'" "prefix p x'" using Cons.prems(1) by (auto simp: prefix_def)
  obtain y' where y: "y = a # y'" "prefix p y'" using Cons.prems(2) by (auto simp: prefix_def)
  obtain z' where z: "z = a # z'" "x' \<le> z'" "z' \<le> y'"
    using Cons.prems(3,4) x(1) y(1) by (cases z) auto
  from Cons.IH [OF x(2) y(2) z(2,3)] z(1) show ?case by simp
qed

subsection \<open>Lemmas: \<^const>\<open>index_byte\<close>\<close>

lemma index_byte_absent [simp]: "c \<notin> set b \<Longrightarrow> index_byte b c = -1"
  by (induction b) auto

lemma index_byte_ge: "-1 \<le> index_byte b c"
  by (induction b) (auto simp: Let_def)

lemma index_byte_neg_iff: "index_byte b c < 0 \<longleftrightarrow> c \<notin> set b"
  by (induction b) (auto simp: Let_def)

lemma index_byte_append [simp]:
  "c \<notin> set a \<Longrightarrow> index_byte (a @ c # b) c = int (length a)"
  by (induction a) (auto simp: Let_def)

subsection \<open>Lemmas: threaded calls\<close>

lemma ret_apply [simp, go_step]: "ret a s = (Ret a, s)"
  by (simp add: ret_def)

lemma fail_apply [simp, go_step]: "fail e s = (Fail e, s)"
  by (simp add: fail_def)

lemma panic_apply [simp, go_step]: "panic p s = (Panic p, s)"
  by (simp add: panic_def)

lemma andThen_Ret [go_step]: "m s = (Ret a, s') \<Longrightarrow> andThen m f s = f a s'"
  by (simp add: andThen_def)

lemma andThen_Fail [go_step]: "m s = (Fail e, s') \<Longrightarrow> andThen m f s = (Fail e, s')"
  by (simp add: andThen_def)

lemma andThen_Panic [go_step]: "m s = (Panic e, s') \<Longrightarrow> andThen m f s = (Panic e, s')"
  by (simp add: andThen_def)

lemma andThen_Blocked [go_step]: "m s = (Blocked, s') \<Longrightarrow> andThen m f s = (Blocked, s')"
  by (simp add: andThen_def)

lemma onError_Ret [go_step]: "m s = (Ret a, s') \<Longrightarrow> onError w m s = (Ret a, s')"
  by (simp add: onError_def)

lemma onError_Fail [go_step]: "m s = (Fail e, s') \<Longrightarrow> onError w m s = (Fail (w e), s')"
  by (simp add: onError_def)

lemma onError_Panic [go_step]: "m s = (Panic e, s') \<Longrightarrow> onError w m s = (Panic e, s')"
  by (simp add: onError_def)

lemma onError_Blocked [go_step]: "m s = (Blocked, s') \<Longrightarrow> onError w m s = (Blocked, s')"
  by (simp add: onError_def)

text \<open>Inversion: how a sequence can have returned.\<close>

lemma andThen_Ret_cases:
  assumes "andThen m f s = (Ret b, s'')"
  obtains a s' where "m s = (Ret a, s')" and "f a s' = (Ret b, s'')"
  using assms by (auto simp: andThen_def split: prod.splits outcome.splits)

lemma onError_Ret_iff: "onError w m s = (Ret b, s') \<longleftrightarrow> m s = (Ret b, s')"
  by (auto simp: onError_def split: prod.splits outcome.splits)

lemma obind_Ret_iff: "obind m f = Ret b \<longleftrightarrow> (\<exists>a. m = Ret a \<and> f a = Ret b)"
  by (cases m) auto

subsection \<open>Lemmas: 64-bit arithmetic\<close>

lemma i64_id [simp]: "is_i64 x \<Longrightarrow> i64 x = x"
  by (simp add: i64_def is_i64_def signed_take_bit_int_eq_self)

lemma is_i64_i64 [simp]: "is_i64 (i64 x)"
  unfolding i64_def is_i64_def
  using signed_take_bit_int_greater_eq_minus_exp [of 63 x] signed_take_bit_int_less_exp [of 63 x]
  by simp

end
