(* ===== verification/Tuple_Layer.thy ===== *)
theory Tuple_Layer
  imports Nola_Prelude
begin

section \<open>The tuple layer: \<open>virtual/registry/tuple/tuple.go\<close>\<close>

text \<open>
  Tuples of typed elements are packed into byte strings that sort like the tuples; the registry
  builds every key of its store this way. This theory holds the packer (\<open>Pack\<close>,
  \<open>PackWithVersionstamp\<close>) and the unpacker (\<open>Unpack\<close>), function by function; panics are the
  outcome \<^const>\<open>Panic\<close>. The round trip is proved in \<open>Tuple_Roundtrip\<close>, the shape and the order of
  the packed keys in \<open>Tuple_Order\<close>.

  Floating point elements are their IEEE bit patterns (what \<open>math.Float32bits\<close> returns); \<open>int\<close>,
  \<open>int64\<close>, \<open>uint\<close> and \<open>uint64\<close> elements are 64-bit words, read as signed or unsigned as the
  element's constructor says. Input slices of the unpacker have no spare capacity, so that a
  slice expression beyond the length panics.
\<close>

subsection \<open>Elements\<close>

record Versionstamp =
  TransactionVersion :: bytes  \<comment> \<open>\<open>[10]byte\<close>\<close>
  UserVersion :: "16 word"

datatype tupleElement =
    TTuple "tupleElement list"
  | TNil
  | TInt "64 word"
  | TInt64 "64 word"
  | TUint "64 word"
  | TUint64 "64 word"
  | TBigInt int
  | TBytes bytes
  | TKeyConvertible bytes
  | TString string
  | TFloat32 "32 word"
  | TFloat64 "64 word"
  | TBool bool
  | TUUID bytes  \<comment> \<open>\<open>[16]byte\<close>\<close>
  | TVersionstamp Versionstamp
  | TOther  \<comment> \<open>a value of any other Go type\<close>

type_synonym tuple = "tupleElement list"

definition incompleteTransactionVersion :: bytes where
  "incompleteTransactionVersion = replicate 10 0xFF"

definition versionstampLength :: nat where
  "versionstampLength = 12"

definition IncompleteVersionstamp :: "16 word \<Rightarrow> Versionstamp" where
  "IncompleteVersionstamp u =
     \<lparr>TransactionVersion = incompleteTransactionVersion, UserVersion = u\<rparr>"

subsection \<open>Big-endian integers (\<open>encoding/binary\<close>, \<open>math/big\<close>)\<close>

text \<open>The low \<open>n\<close> bytes of a number, most significant first, and the number they denote.\<close>

fun be_bytes :: "nat \<Rightarrow> nat \<Rightarrow> bytes" where
  "be_bytes 0 v = []"
| "be_bytes (Suc n) v = be_bytes n (v div 256) @ [of_nat v]"

definition be_val :: "bytes \<Rightarrow> nat" where
  "be_val bs = foldl (\<lambda>a b. a * 256 + unat b) 0 bs"

text \<open>\<open>big.Int.Bytes\<close>: the absolute value without leading zeros.\<close>

fun big_bytes :: "nat \<Rightarrow> bytes" where
  "big_bytes v = (if v = 0 then [] else big_bytes (v div 256) @ [of_nat v])"

declare big_bytes.simps [simp del]

subsection \<open>Type codes and size limits\<close>

definition nilCode :: byte where "nilCode = 0x00"
definition bytesCode :: byte where "bytesCode = 0x01"
definition stringCode :: byte where "stringCode = 0x02"
definition nestedCode :: byte where "nestedCode = 0x05"
definition intZeroCode :: byte where "intZeroCode = 0x14"
definition posIntEnd :: byte where "posIntEnd = 0x1d"
definition negIntStart :: byte where "negIntStart = 0x0b"
definition floatCode :: byte where "floatCode = 0x20"
definition doubleCode :: byte where "doubleCode = 0x21"
definition falseCode :: byte where "falseCode = 0x26"
definition trueCode :: byte where "trueCode = 0x27"
definition uuidCode :: byte where "uuidCode = 0x30"
definition versionstampCode :: byte where "versionstampCode = 0x33"

definition sizeLimits :: "64 word list" where
  "sizeLimits =
     [2 ^ (0 * 8) - 1, 2 ^ (1 * 8) - 1, 2 ^ (2 * 8) - 1, 2 ^ (3 * 8) - 1, 2 ^ (4 * 8) - 1,
      2 ^ (5 * 8) - 1, 2 ^ (6 * 8) - 1, 2 ^ (7 * 8) - 1, 2 ^ (8 * 8) - 1]"

text \<open>The loop reads the table from index \<open>n\<close> on; running off its end would panic.\<close>

fun bisectFrom :: "64 word list \<Rightarrow> 64 word \<Rightarrow> nat \<Rightarrow> nat outcome" where
  "bisectFrom [] u n = Panic ''index out of range''"
| "bisectFrom (l # ls) u n = (if l < u then bisectFrom ls u (n + 1) else Ret n)"

definition bisectLeft :: "64 word \<Rightarrow> nat outcome" where
  "bisectLeft u = bisectFrom sizeLimits u 0"

definition adjustFloatBytes :: "bytes \<Rightarrow> bool \<Rightarrow> bytes" where
  "adjustFloatBytes b encode =
     (if (encode \<and> b ! 0 AND 0x80 \<noteq> 0x00) \<or> (\<not> encode \<and> b ! 0 AND 0x80 = 0x00)
      then map (\<lambda>x. x XOR 0xff) b
      else b[0 := b ! 0 XOR 0x80])"

subsection \<open>The packer\<close>

record packer =
  versionstampPos :: int
  buf :: bytes

definition newPacker :: packer where
  "newPacker = \<lparr>versionstampPos = -1, buf = []\<rparr>"

definition putByte :: "packer \<Rightarrow> byte \<Rightarrow> packer" where
  "putByte p b = p\<lparr>buf := buf p @ [b]\<rparr>"

definition putBytes :: "packer \<Rightarrow> bytes \<Rightarrow> packer" where
  "putBytes p b = p\<lparr>buf := buf p @ b\<rparr>"

text \<open>The loop copies up to and including each zero byte and puts \<open>0xFF\<close> after it.\<close>

function putBytesNil :: "packer \<Rightarrow> bytes \<Rightarrow> int \<Rightarrow> packer" where
  "putBytesNil p b i =
     (if 0 \<le> i \<and> b \<noteq> []
      then putBytesNil (putByte (putBytes p (take (nat i + 1) b)) 0xFF)
             (drop (nat i + 1) b) (index_byte (drop (nat i + 1) b) 0x00)
      else putBytes p b)"
  by pat_completeness auto
termination
  by (relation "measure (\<lambda>(p, b, i). length b)") auto

declare putBytesNil.simps [simp del]

definition encodeBytes :: "packer \<Rightarrow> byte \<Rightarrow> bytes \<Rightarrow> packer" where
  "encodeBytes p code b =
     (let p = putByte p code;
          i = index_byte b 0x00;
          p = (if 0 \<le> i then putBytesNil p b i else putBytes p b)
      in putByte p 0x00)"

definition encodeUint :: "packer \<Rightarrow> 64 word \<Rightarrow> packer outcome" where
  "encodeUint p i =
     (if i = 0 then Ret (putByte p intZeroCode)
      else obind (bisectLeft i) (\<lambda>n.
        let p = putByte p (intZeroCode + of_nat n)
        in Ret (putBytes p (drop (8 - n) (be_bytes 8 (unat i))))))"

definition encodeInt :: "packer \<Rightarrow> 64 word \<Rightarrow> packer outcome" where
  "encodeInt p i =
     (if 0 \<le> sint i then encodeUint p i
      else obind (bisectLeft (- i)) (\<lambda>n.
        let p = putByte p (intZeroCode - of_nat n);
            offsetEncoded = sizeLimits ! n + i
        in Ret (putBytes p (drop (8 - n) (be_bytes 8 (unat offsetEncoded))))))"

definition encodeBigInt :: "packer \<Rightarrow> int \<Rightarrow> packer outcome" where
  "encodeBigInt p i =
     (let len = length (big_bytes (nat \<bar>i\<bar>)) in
      if len > 0xff then Panic ''Integer magnitude is too large (more than 255 bytes)''
      else if 0 \<le> i then
        (let intBytes = big_bytes (nat \<bar>i\<bar>);
             p = (if len > 8 then putByte (putByte p posIntEnd) (of_nat (length intBytes))
                  else putByte p (intZeroCode + of_nat len))
         in Ret (putBytes p intBytes))
      else
        (let add = 2 ^ (len * 8) - 1;
             transformed = i + add;
             intBytes = big_bytes (nat \<bar>transformed\<bar>);
             p = (if len > 8 then putByte (putByte p negIntStart) (of_nat len XOR 0xff)
                  else putByte p (intZeroCode - of_nat len));
             p = putBytes p (replicate (len - length intBytes) 0x00)
         in Ret (putBytes p intBytes)))"

definition encodeFloat :: "packer \<Rightarrow> 32 word \<Rightarrow> packer" where
  "encodeFloat p f =
     putBytes (putByte p floatCode) (adjustFloatBytes (be_bytes 4 (unat f)) True)"

definition encodeDouble :: "packer \<Rightarrow> 64 word \<Rightarrow> packer" where
  "encodeDouble p d =
     putBytes (putByte p doubleCode) (adjustFloatBytes (be_bytes 8 (unat d)) True)"

definition encodeUUID :: "packer \<Rightarrow> bytes \<Rightarrow> packer" where
  "encodeUUID p u = putBytes (putByte p uuidCode) u"

text \<open>\<open>Versionstamp.Bytes\<close>.\<close>

definition versionstampBytes :: "Versionstamp \<Rightarrow> bytes" where
  "versionstampBytes v = TransactionVersion v @ be_bytes 2 (unat (UserVersion v))"

definition encodeVersionstamp :: "packer \<Rightarrow> Versionstamp \<Rightarrow> packer outcome" where
  "encodeVersionstamp p v =
     (let p = putByte p versionstampCode;
          isIncomplete = (TransactionVersion v = incompleteTransactionVersion) in
      if isIncomplete \<and> versionstampPos p \<noteq> -1
      then Panic ''Tuple can only contain one incomplete versionstamp''
      else
        (let p = (if isIncomplete
                  then p\<lparr>versionstampPos := signed_take_bit 31 (int (length (buf p)))\<rparr> else p)
         in Ret (putBytes p (versionstampBytes v))))"

text \<open>
  \<open>encodeTuple\<close>: its loop over the elements is \<open>encodeElements\<close>, its type switch
  \<open>encodeElement\<close>.
\<close>

fun encodeTuple :: "packer \<Rightarrow> tuple \<Rightarrow> bool \<Rightarrow> bool \<Rightarrow> packer outcome"
  and encodeElements :: "packer \<Rightarrow> tuple \<Rightarrow> bool \<Rightarrow> bool \<Rightarrow> packer outcome"
  and encodeElement :: "packer \<Rightarrow> tupleElement \<Rightarrow> bool \<Rightarrow> bool \<Rightarrow> packer outcome"
where
  "encodeTuple p t nested versionstamps =
     (let p = (if nested then putByte p nestedCode else p) in
      obind (encodeElements p t nested versionstamps) (\<lambda>p.
        Ret (if nested then putByte p 0x00 else p)))"
| "encodeElements p [] nested versionstamps = Ret p"
| "encodeElements p (e # t) nested versionstamps =
     obind (encodeElement p e nested versionstamps) (\<lambda>p.
       encodeElements p t nested versionstamps)"
| "encodeElement p (TTuple t) nested versionstamps = encodeTuple p t True versionstamps"
| "encodeElement p TNil nested versionstamps =
     (let p = putByte p nilCode in Ret (if nested then putByte p 0xff else p))"
| "encodeElement p (TInt i) nested versionstamps = encodeInt p i"
| "encodeElement p (TInt64 i) nested versionstamps = encodeInt p i"
| "encodeElement p (TUint i) nested versionstamps = encodeUint p i"
| "encodeElement p (TUint64 i) nested versionstamps = encodeUint p i"
| "encodeElement p (TBigInt i) nested versionstamps = encodeBigInt p i"
| "encodeElement p (TBytes b) nested versionstamps = Ret (encodeBytes p bytesCode b)"
| "encodeElement p (TKeyConvertible k) nested versionstamps = Ret (encodeBytes p bytesCode k)"
| "encodeElement p (TString s) nested versionstamps =
     Ret (encodeBytes p stringCode (go_bytes s))"
| "encodeElement p (TFloat32 f) nested versionstamps = Ret (encodeFloat p f)"
| "encodeElement p (TFloat64 d) nested versionstamps = Ret (encodeDouble p d)"
| "encodeElement p (TBool b) nested versionstamps =
     Ret (putByte p (if b then trueCode else falseCode))"
| "encodeElement p (TUUID u) nested versionstamps = Ret (encodeUUID p u)"
| "encodeElement p (TVersionstamp v) nested versionstamps =
     (if \<not> versionstamps \<and> TransactionVersion v = incompleteTransactionVersion
      then Panic ''Incomplete Versionstamp included in vanilla tuple pack''
      else encodeVersionstamp p v)"
| "encodeElement p TOther nested versionstamps = Panic ''unencodable element''"

definition Pack :: "tuple \<Rightarrow> bytes outcome" where
  "Pack t = obind (encodeTuple newPacker t False False) (\<lambda>p. Ret (buf p))"

fun countIncompleteVersionstamps :: "tuple \<Rightarrow> nat"
  and countIncompleteElement :: "tupleElement \<Rightarrow> nat"
where
  "countIncompleteVersionstamps [] = 0"
| "countIncompleteVersionstamps (e # t) =
     countIncompleteElement e + countIncompleteVersionstamps t"
| "countIncompleteElement (TVersionstamp v) =
     (if TransactionVersion v = incompleteTransactionVersion then 1 else 0)"
| "countIncompleteElement (TTuple t) = countIncompleteVersionstamps t"
| "countIncompleteElement _ = 0"

definition HasIncompleteVersionstamp :: "tuple \<Rightarrow> bool outcome" where
  "HasIncompleteVersionstamp t =
     (let incompleteCount = countIncompleteVersionstamps t in
      if incompleteCount > 1
      then Fail (Errorf ''Tuple can only contain one incomplete versionstamp'' [])
      else Ret (incompleteCount \<ge> 1))"

text \<open>
  \<open>PackWithVersionstamp\<close>; a nil prefix is the empty list, which adds nothing. The four bytes at
  the end are the position of the versionstamp as a little-endian \<open>uint32\<close>.
\<close>

definition PackWithVersionstamp :: "tuple \<Rightarrow> bytes \<Rightarrow> bytes outcome" where
  "PackWithVersionstamp t prfx =
     obind (HasIncompleteVersionstamp t) (\<lambda>hasVersionstamp.
       if \<not> hasVersionstamp
       then Fail (Errorf ''no incomplete versionstamp included in tuple pack with versionstamp'' [])
       else obind (encodeTuple (putBytes newPacker prfx) t False True) (\<lambda>p.
         Ret (buf p @ rev (be_bytes 4 (nat (versionstampPos p mod 2 ^ 32))))))"

subsection \<open>The unpacker\<close>

function findTerminatorLoop :: "bytes \<Rightarrow> int \<Rightarrow> int" where
  "findTerminatorLoop bp len =
     (let idx = index_byte bp 0x00;
          len = len + idx in
      if idx + 1 = int (length bp) \<or> bp ! nat (idx + 1) \<noteq> 0xFF then len
      else findTerminatorLoop (drop (nat (idx + 2)) bp) (len + 2))"
  by pat_completeness auto
termination
proof (relation "measure (\<lambda>(bp, len). length bp)", goal_cases)
  case 1
  show ?case by simp
next
  case (2 bp len idx len')
  then have "0 < nat (idx + 2)" using index_byte_ge [of bp 0] by simp
  moreover from 2 have "bp \<noteq> []" by auto
  ultimately show ?case by simp
qed

declare findTerminatorLoop.simps [simp del]

definition findTerminator :: "bytes \<Rightarrow> int" where
  "findTerminator b = findTerminatorLoop b 0"

text \<open>\<open>bytes.Replace(s, {0x00, 0xFF}, {0x00}, -1)\<close>.\<close>

fun unescape :: "bytes \<Rightarrow> bytes" where
  "unescape [] = []"
| "unescape [x] = [x]"
| "unescape (x # y # xs) =
     (if x = 0x00 \<and> y = 0xFF then 0x00 # unescape xs else x # unescape (y # xs))"

definition sliceOutOfRange :: string where
  "sliceOutOfRange = ''slice bounds out of range''"

definition decodeBytes :: "bytes \<Rightarrow> (bytes \<times> nat) outcome" where
  "decodeBytes b =
     (let idx = findTerminator (drop 1 b) in
      if idx < 0 \<or> int (length b) < idx + 1 then Panic sliceOutOfRange
      else Ret (unescape (take (nat idx) (drop 1 b)), nat idx + 2))"

definition decodeString :: "bytes \<Rightarrow> (string \<times> nat) outcome" where
  "decodeString b = obind (decodeBytes b) (\<lambda>(bp, idx). Ret (go_string bp, idx))"

definition decodeInt :: "bytes \<Rightarrow> (tupleElement \<times> nat) outcome" where
  "decodeInt b =
     (if b ! 0 = intZeroCode then Ret (TInt64 0, 1)
      else
        (let m = int (unat (b ! 0)) - int (unat intZeroCode);
             neg = (m < 0);
             n = nat \<bar>m\<bar> in
         if length b < n + 1 then Panic sliceOutOfRange
         else
           (let ret = (of_nat (be_val (replicate (8 - n) 0 @ take n (drop 1 b))) :: 64 word) in
            if neg then Ret (TInt64 (ret - sizeLimits ! n), n + 1)
            else if 0 < sint ret then Ret (TInt64 ret, n + 1)
            else Ret (TUint64 ret, n + 1))))"

definition decodeBigInt :: "bytes \<Rightarrow> (tupleElement \<times> nat) outcome" where
  "decodeBigInt b =
     (let tagged = (b ! 0 = negIntStart \<or> b ! 0 = posIntEnd) in
      if tagged \<and> length b < 2 then Panic ''index out of range''
      else
        (let len = (if tagged
                    then unat (if b ! 0 = negIntStart then b ! 1 XOR 0xff else b ! 1) else 8);
             offset = (if tagged then 2 else 1) in
         if length b < len + offset then Panic sliceOutOfRange
         else
           (let val = int (be_val (take len (drop offset b)));
                val = (if b ! 0 < intZeroCode then val - (2 ^ (len * 8) - 1) else val) in
            if val = - (2 ^ 63) then Ret (TInt64 (of_int val), len + offset)
            else Ret (TBigInt val, len + offset))))"

definition decodeFloat :: "bytes \<Rightarrow> 32 word \<times> nat" where
  "decodeFloat b = (of_nat (be_val (adjustFloatBytes (take 4 (drop 1 b)) False)), 5)"

definition decodeDouble :: "bytes \<Rightarrow> 64 word \<times> nat" where
  "decodeDouble b = (of_nat (be_val (adjustFloatBytes (take 8 (drop 1 b)) False)), 9)"

definition decodeUUID :: "bytes \<Rightarrow> bytes \<times> nat" where
  "decodeUUID b = (take 16 (drop 1 b), 17)"

definition decodeVersionstamp :: "bytes \<Rightarrow> Versionstamp \<times> nat" where
  "decodeVersionstamp b =
     (\<lparr>TransactionVersion = take 10 (drop 1 b),
       UserVersion = of_nat (be_val (take 2 (drop 11 b)))\<rparr>, versionstampLength + 1)"

text \<open>
  The cases of the switch of \<open>decodeTuple\<close> that neither end the loop nor recurse, on the input
  from position \<open>i\<close> on (\<open>b\<close> is not empty).
\<close>

definition decodeElement :: "bytes \<Rightarrow> nat \<Rightarrow> (tupleElement \<times> nat) outcome" where
  "decodeElement b i =
     (let c = b ! 0 in
      if c = bytesCode then obind (decodeBytes b) (\<lambda>(el, off). Ret (TBytes el, off))
      else if c = stringCode then obind (decodeString b) (\<lambda>(el, off). Ret (TString el, off))
      else if negIntStart + 1 < c \<and> c < posIntEnd then decodeInt b
      else if negIntStart + 1 = c \<and> length b < 2 then Panic ''index out of range''
      else if negIntStart + 1 = c \<and> b ! 1 AND 0x80 \<noteq> 0 then decodeInt b
      else if negIntStart \<le> c \<and> c \<le> posIntEnd then decodeBigInt b
      else if c = floatCode then
        (if length b < 5
         then Fail (Errorf ''insufficient bytes to decode float starting at position %d'' [AInt (int i)])
         else Ret (TFloat32 (fst (decodeFloat b)), snd (decodeFloat b)))
      else if c = doubleCode then
        (if length b < 9
         then Fail (Errorf ''insufficient bytes to decode double starting at position %d'' [AInt (int i)])
         else Ret (TFloat64 (fst (decodeDouble b)), snd (decodeDouble b)))
      else if c = trueCode then Ret (TBool True, 1)
      else if c = falseCode then Ret (TBool False, 1)
      else if c = uuidCode then
        (if length b < 17
         then Fail (Errorf ''insufficient bytes to decode UUID starting at position %d'' [AInt (int i)])
         else Ret (TUUID (fst (decodeUUID b)), snd (decodeUUID b)))
      else if c = versionstampCode then
        (if length b < versionstampLength + 1
         then Fail (Errorf ''insufficient bytes to decode Versionstamp starting at position %d'' [AInt (int i)])
         else Ret (TVersionstamp (fst (decodeVersionstamp b)), snd (decodeVersionstamp b)))
      else Fail (Errorf ''unable to decode tuple element with unknown typecode %02x'' [AInt (uint c)]))"

text \<open>
  The loop of \<open>decodeTuple\<close> from position \<open>i\<close>, with the elements decoded so far. The recursion
  follows offsets that the decoders return, so it is bounded by fuel; \<open>None\<close> is running out of
  it, which \<open>Tuple_Roundtrip\<close> shows never happens with more fuel than input bytes.
\<close>

fun decodeLoop :: "nat \<Rightarrow> bytes \<Rightarrow> nat \<Rightarrow> bool \<Rightarrow> tuple \<Rightarrow> (tuple \<times> nat) outcome option" where
  "decodeLoop 0 b i nested t = None"
| "decodeLoop (Suc fuel) b i nested t =
     (if \<not> i < length b then Some (Ret (t, i))
      else if b ! i = nilCode then
        (if \<not> nested then decodeLoop fuel b (i + 1) nested (t @ [TNil])
         else if i + 1 < length b \<and> b ! (i + 1) = 0xff
         then decodeLoop fuel b (i + 2) nested (t @ [TNil])
         else Some (Ret (t, i + 1)))
      else if b ! i = nestedCode then
        (case decodeLoop fuel (drop (i + 1) b) 0 True [] of
           None \<Rightarrow> None
         | Some (Ret (el, off)) \<Rightarrow> decodeLoop fuel b (i + off + 1) nested (t @ [TTuple el])
         | Some (Fail e) \<Rightarrow> Some (Fail e)
         | Some (Panic e) \<Rightarrow> Some (Panic e)
         | Some Blocked \<Rightarrow> Some Blocked)
      else
        (case decodeElement (drop i b) i of
           Ret (el, off) \<Rightarrow> decodeLoop fuel b (i + off) nested (t @ [el])
         | Fail e \<Rightarrow> Some (Fail e)
         | Panic e \<Rightarrow> Some (Panic e)
         | Blocked \<Rightarrow> Some Blocked))"

declare decodeLoop.simps(2) [simp del]

definition decodeTuple :: "bytes \<Rightarrow> bool \<Rightarrow> (tuple \<times> nat) outcome" where
  "decodeTuple b nested =
     (case decodeLoop (Suc (length b)) b 0 nested [] of
        Some r \<Rightarrow> r | None \<Rightarrow> Panic ''out of fuel'')"

definition Unpack :: "bytes \<Rightarrow> tuple outcome" where
  "Unpack b = obind (decodeTuple b False) (\<lambda>(t, _). Ret t)"

end
