(* ===== verification/Tuple_Roundtrip.thy ===== *)
theory Tuple_Roundtrip
  imports Tuple_Layer
begin

section \<open>Packing and unpacking tuples: round trip\<close>

text \<open>
  A description of the packed form without the packer's state (\<open>encE\<close>, \<open>encs\<close>), the proof that
  the packer produces it, and the proof that the unpacker reads it back, up to the normalisation
  of types that the package documents.
\<close>

subsection \<open>The packed form\<close>

fun esc :: "bytes \<Rightarrow> bytes" where
  "esc [] = []"
| "esc (x # xs) = (if x = 0x00 then 0x00 # 0xFF # esc xs else x # esc xs)"

text \<open>The number of bytes of the magnitude of an integer.\<close>

definition magLen :: "nat \<Rightarrow> nat" where
  "magLen v = length (big_bytes v)"

definition intEnc :: "int \<Rightarrow> bytes" where
  "intEnc z =
     (let n = magLen (nat \<bar>z\<bar>) in
      if 0 \<le> z
      then (if n > 8 then [posIntEnd, of_nat n] else [intZeroCode + of_nat n])
             @ be_bytes n (nat z)
      else (if n > 8 then [negIntStart, of_nat n XOR 0xff] else [intZeroCode - of_nat n])
             @ be_bytes n (256 ^ n - 1 - nat (- z)))"

fun encE :: "bool \<Rightarrow> tupleElement \<Rightarrow> bytes"
  and encs :: "bool \<Rightarrow> tuple \<Rightarrow> bytes"
where
  "encs nested [] = []"
| "encs nested (e # t) = encE nested e @ encs nested t"
| "encE nested (TTuple t) = nestedCode # encs True t @ [0x00]"
| "encE nested TNil = (if nested then [nilCode, 0xff] else [nilCode])"
| "encE nested (TInt i) = intEnc (sint i)"
| "encE nested (TInt64 i) = intEnc (sint i)"
| "encE nested (TUint i) = intEnc (uint i)"
| "encE nested (TUint64 i) = intEnc (uint i)"
| "encE nested (TBigInt z) = intEnc z"
| "encE nested (TBytes b) = bytesCode # esc b @ [0x00]"
| "encE nested (TKeyConvertible b) = bytesCode # esc b @ [0x00]"
| "encE nested (TString s) = stringCode # esc (go_bytes s) @ [0x00]"
| "encE nested (TFloat32 f) = floatCode # adjustFloatBytes (be_bytes 4 (unat f)) True"
| "encE nested (TFloat64 f) = doubleCode # adjustFloatBytes (be_bytes 8 (unat f)) True"
| "encE nested (TBool b) = [if b then trueCode else falseCode]"
| "encE nested (TUUID u) = uuidCode # u"
| "encE nested (TVersionstamp v) = versionstampCode # versionstampBytes v"
| "encE nested TOther = []"

text \<open>
  The tuples that \<open>Pack\<close> accepts: arrays have their Go length, big integers fit in 255 bytes, no
  incomplete versionstamp, no element of an unsupported type.
\<close>

fun packableE :: "tupleElement \<Rightarrow> bool"
  and packable :: "tuple \<Rightarrow> bool"
where
  "packable [] = True"
| "packable (e # t) = (packableE e \<and> packable t)"
| "packableE (TTuple t) = packable t"
| "packableE (TBigInt z) = (magLen (nat \<bar>z\<bar>) \<le> 255)"
| "packableE (TUUID u) = (length u = 16)"
| "packableE (TVersionstamp v) =
     (length (TransactionVersion v) = 10 \<and> TransactionVersion v \<noteq> incompleteTransactionVersion)"
| "packableE TOther = False"
| "packableE _ = True"

text \<open>The type normalisation of a round trip.\<close>

definition normInt :: "int \<Rightarrow> tupleElement" where
  "normInt z =
     (if - (2 ^ 63) \<le> z \<and> z < 2 ^ 63 then TInt64 (of_int z)
      else if 0 \<le> z \<and> z < 2 ^ 64 then TUint64 (of_int z)
      else TBigInt z)"

fun norm :: "tupleElement \<Rightarrow> tupleElement"
  and norms :: "tuple \<Rightarrow> tuple"
where
  "norms [] = []"
| "norms (e # t) = norm e # norms t"
| "norm (TTuple t) = TTuple (norms t)"
| "norm (TInt i) = normInt (sint i)"
| "norm (TInt64 i) = normInt (sint i)"
| "norm (TUint i) = normInt (uint i)"
| "norm (TUint64 i) = normInt (uint i)"
| "norm (TBigInt z) = normInt z"
| "norm (TKeyConvertible b) = TBytes b"
| "norm e = e"

lemmas type_codes = nilCode_def bytesCode_def stringCode_def nestedCode_def intZeroCode_def
  posIntEnd_def negIntStart_def floatCode_def doubleCode_def falseCode_def trueCode_def
  uuidCode_def versionstampCode_def

subsection \<open>Big-endian numbers\<close>

lemma length_be_bytes [simp]: "length (be_bytes n v) = n"
  by (induction n arbitrary: v) auto

lemma be_val_Nil [simp]: "be_val [] = 0"
  by (simp add: be_val_def)

lemma be_val_snoc [simp]: "be_val (bs @ [b]) = be_val bs * 256 + unat b"
  by (simp add: be_val_def)

lemma unat_of_nat_byte: "unat (of_nat v :: byte) = v mod 256"
  by (simp add: unsigned_of_nat take_bit_eq_mod)

lemma be_val_be_bytes: "be_val (be_bytes n v) = v mod 256 ^ n"
proof (induction n arbitrary: v)
  case (Suc n)
  have "be_val (be_bytes (Suc n) v) = (v div 256) mod 256 ^ n * 256 + v mod 256"
    by (simp add: Suc unat_of_nat_byte)
  also have "\<dots> = v mod 256 ^ Suc n"
    using mod_mult2_eq [of v 256 "256 ^ n"] by (simp add: mult.commute)
  finally show ?case .
qed simp

lemma be_val_replicate_0 [simp]: "be_val (replicate k 0 @ bs) = be_val bs"
proof -
  have "foldl (\<lambda>a b. a * 256 + unat b) 0 (replicate k (0 :: byte)) = 0"
    by (induction k) auto
  then show ?thesis by (simp add: be_val_def)
qed

lemma be_bytes_be_val: "length bs = n \<Longrightarrow> be_bytes n (be_val bs) = bs"
proof (induction bs arbitrary: n rule: rev_induct)
  case (snoc b bs)
  have "unat (of_nat (be_val bs * 256) :: byte) = 0"
    by (simp only: unat_of_nat_byte) simp
  then have zero: "(of_nat (be_val bs * 256) :: byte) = 0" by (simp only: unat_eq_0)
  have "(of_nat (be_val bs * 256 + unat b) :: byte) = of_nat (be_val bs * 256) + of_nat (unat b)"
    by (simp only: of_nat_add)
  then have "(of_nat (be_val bs * 256 + unat b) :: byte) = b" by (simp only: zero) simp
  moreover have "(be_val bs * 256 + unat b) div 256 = be_val bs"
    using unsigned_less [of b, where 'a = nat] by simp
  ultimately show ?case using snoc by auto
qed simp

lemma drop_be_bytes: "n \<le> m \<Longrightarrow> drop (m - n) (be_bytes m v) = be_bytes n v"
proof (induction m arbitrary: n v)
  case (Suc m)
  show ?case
  proof (cases n)
    case 0
    then show ?thesis by simp
  next
    case (Suc k)
    with Suc.prems Suc.IH [of k "v div 256"] show ?thesis by simp
  qed
qed simp

lemma big_bytes_0 [simp]: "big_bytes 0 = []"
  by (simp add: big_bytes.simps)

lemma big_bytes_be: "big_bytes v = be_bytes (magLen v) v"
proof (induction v rule: big_bytes.induct)
  case (1 v)
  show ?case
  proof (cases "v = 0")
    case False
    then have "big_bytes v = big_bytes (v div 256) @ [of_nat v]"
      by (subst big_bytes.simps) simp
    with 1 False show ?thesis by (simp add: magLen_def)
  qed (simp add: magLen_def)
qed

lemma magLen_0 [simp]: "magLen 0 = 0"
  by (simp add: magLen_def)

lemma magLen_pos: "v \<noteq> 0 \<Longrightarrow> magLen v = Suc (magLen (v div 256))"
  unfolding magLen_def by (subst big_bytes.simps) simp

lemma magLen_upper: "v < 256 ^ magLen v"
proof (induction v rule: less_induct)
  case (less v)
  show ?case
  proof (cases "v = 0")
    case False
    then have "v div 256 < 256 ^ magLen (v div 256)" using less by simp
    then have "v < 256 * 256 ^ magLen (v div 256)" by linarith
    with False show ?thesis by (simp add: magLen_pos)
  qed simp
qed

lemma magLen_lower: "v \<noteq> 0 \<Longrightarrow> 256 ^ (magLen v - 1) \<le> v"
proof (induction v rule: less_induct)
  case (less v)
  show ?case
  proof (cases "v div 256 = 0")
    case True
    then have "magLen v - 1 = 0" using less.prems by (simp add: magLen_pos)
    with less.prems show ?thesis by simp
  next
    case False
    then have "256 ^ (magLen (v div 256) - 1) \<le> v div 256" using less by simp
    then have "256 * 256 ^ (magLen (v div 256) - 1) \<le> v" by linarith
    moreover have "magLen (v div 256) = Suc (magLen (v div 256) - 1)"
      using False by (simp add: magLen_pos)
    ultimately show ?thesis
      using less.prems magLen_pos [of v] by (metis diff_Suc_1 power_Suc)
  qed
qed

lemma magLen_eqI: "256 ^ n \<le> v \<Longrightarrow> v < 256 ^ Suc n \<Longrightarrow> magLen v = Suc n"
proof -
  assume a: "256 ^ n \<le> v" and b: "v < 256 ^ Suc n"
  have v: "v \<noteq> 0" using a by (metis not_exp_less_eq_0_int of_nat_0 gr_zeroI power_eq_0_iff zero_le le_zero_eq zero_neq_numeral)
  have "(256::nat) ^ n < 256 ^ magLen v" using a magLen_upper [of v] by linarith
  then have 1: "n < magLen v" by simp
  have "(256::nat) ^ (magLen v - 1) < 256 ^ Suc n" using b magLen_lower [OF v] by linarith
  then have "magLen v - 1 < Suc n" by (rule power_less_imp_less_exp [rotated]) simp
  with 1 show ?thesis by linarith
qed

lemma magLen_le: "v < 256 ^ n \<Longrightarrow> magLen v \<le> n"
proof (cases "v = 0")
  case False
  assume "v < 256 ^ n"
  then have "(256::nat) ^ (magLen v - 1) < 256 ^ n" using magLen_lower [OF False] by linarith
  then have "magLen v - 1 < n" using power_less_imp_less_exp [of 256] by simp
  then show ?thesis by linarith
qed simp

lemma magLen_le_iff: "magLen v \<le> n \<longleftrightarrow> v < 256 ^ n"
proof
  assume "magLen v \<le> n"
  then have "(256::nat) ^ magLen v \<le> 256 ^ n" by (rule power_increasing) simp
  with magLen_upper [of v] show "v < 256 ^ n" by linarith
qed (rule magLen_le)

subsection \<open>The packer writes the packed form\<close>

lemma sizeLimits_nth: "k \<le> 8 \<Longrightarrow> unat (sizeLimits ! k) = 256 ^ k - 1"
proof -
  assume "k \<le> 8"
  then have "k \<in> set [0, 1, 2, 3, 4, 5, 6, 7, 8]" by auto
  then show ?thesis by (auto simp: sizeLimits_def)
qed

lemma length_sizeLimits [simp]: "length sizeLimits = 9"
  by (simp add: sizeLimits_def)

lemma sizeLimits_less_iff: "k \<le> 8 \<Longrightarrow> sizeLimits ! k < u \<longleftrightarrow> 256 ^ k \<le> unat u"
  by (simp add: word_less_nat_alt sizeLimits_nth Suc_le_eq [symmetric] less_eq_Suc_le)

lemma unat_lt_256_8: "unat (u :: 64 word) < 256 ^ 8"
  using unsigned_less [of u, where 'a = nat] by simp

lemma magLen_word: "magLen (unat (u :: 64 word)) \<le> 8"
  by (simp only: magLen_le_iff unat_lt_256_8)

lemma bisectFrom_magLen:
  assumes "k \<le> magLen (unat u)"
  shows "bisectFrom (drop k sizeLimits) u k = Ret (magLen (unat u))"
proof -
  have len: "magLen (unat u) \<le> 8" by (rule magLen_word)
  show ?thesis
    using assms
  proof (induction k rule: inc_induct)
    case base
    have "\<not> sizeLimits ! magLen (unat u) < u"
      using len magLen_upper [of "unat u"] by (simp add: sizeLimits_less_iff)
    with len show ?case
      by (simp add: Cons_nth_drop_Suc [of "magLen (unat u)" sizeLimits, symmetric])
  next
    case (step n)
    then have "\<not> magLen (unat u) \<le> n" by simp
    then have "256 ^ n \<le> unat u" by (simp only: magLen_le_iff not_less)
    moreover have "n \<le> 8" using step.hyps len by linarith
    ultimately have "sizeLimits ! n < u" by (simp only: sizeLimits_less_iff)
    with step len show ?case
      by (simp add: Cons_nth_drop_Suc [of n sizeLimits, symmetric])
  qed
qed

lemma bisectLeft_magLen: "bisectLeft u = Ret (magLen (unat u))"
  using bisectFrom_magLen [of 0 u] by (simp add: bisectLeft_def)

lemma putByte_append: "putByte p b = putBytes p [b]"
  by (simp add: putByte_def putBytes_def)

lemma putBytes_putBytes [simp]: "putBytes (putBytes p a) b = putBytes p (a @ b)"
  by (simp add: putBytes_def)

lemma putBytes_Nil [simp]: "putBytes p [] = p"
  by (simp add: putBytes_def)

lemma encodeUint_enc: "encodeUint p i = Ret (putBytes p (intEnc (uint i)))"
proof (cases "i = 0")
  case True
  then show ?thesis by (simp add: encodeUint_def intEnc_def putByte_append)
next
  case False
  have len: "magLen (unat i) \<le> 8" by (rule magLen_word)
  have "nat (uint i) = unat i" by simp
  with False len show ?thesis
    by (simp add: encodeUint_def intEnc_def putByte_append bisectLeft_magLen Let_def drop_be_bytes)
qed

lemma unat_of_int64: "0 \<le> k \<Longrightarrow> k < 2 ^ 64 \<Longrightarrow> unat (of_int k :: 64 word) = nat k"
  by (simp add: unsigned_of_int take_bit_int_eq_self)

lemma unat_uminus_neg:
  assumes "sint (i :: 64 word) < 0"
  shows "unat (- i) = nat (- sint i)"
proof -
  have b: "- (2 ^ 63) \<le> sint i" using sint_greater_eq [of i] by simp
  have "- i = of_int (- sint i)" by simp
  with unat_of_int64 [of "- sint i"] assms b show ?thesis by (simp del: of_int_minus)
qed

lemma int_complement: "V < 256 ^ n \<Longrightarrow> int (256 ^ n - 1 - V) = 256 ^ n - 1 - int V"
  using of_nat_diff [of "1 + V" "256 ^ n"] by simp

lemma encodeInt_enc: "encodeInt p i = Ret (putBytes p (intEnc (sint i)))"
proof (cases "0 \<le> sint i")
  case True
  have "sint i < 2 ^ 64" using sint_less [of i] by simp
  with True unat_of_int64 [of "sint i"] have "unat i = nat (sint i)" by simp
  with True have "uint i = sint i" by (metis int_nat_eq uint_nat)
  with True show ?thesis by (simp add: encodeInt_def encodeUint_enc)
next
  case False
  define V where "V = nat (- sint i)"
  define n where "n = magLen V"
  have V: "unat (- i) = V" using False by (simp add: V_def unat_uminus_neg)
  have n8: "n \<le> 8" unfolding n_def using V magLen_word by metis
  have lt: "V < 256 ^ n" by (simp add: n_def magLen_upper)
  have "sizeLimits ! n = of_nat (unat (sizeLimits ! n))" by simp
  also have "\<dots> = of_nat (256 ^ n - 1)" by (simp only: sizeLimits_nth [OF n8])
  finally have "sizeLimits ! n + i = of_int (int (256 ^ n - 1) + sint i)" by simp
  also have "int (256 ^ n - 1) + sint i = int (256 ^ n - 1 - V)"
    using False int_complement [of 0 n] unfolding int_complement [OF lt] by (simp add: V_def)
  finally have "sizeLimits ! n + i = of_nat (256 ^ n - 1 - V)" by simp
  moreover have "256 ^ n - 1 - V < 256 ^ 8"
  proof -
    have "(256::nat) ^ n \<le> 256 ^ 8" using n8 by (rule power_increasing) simp
    with lt show ?thesis by linarith
  qed
  ultimately have off: "unat (sizeLimits ! n + i) = 256 ^ n - 1 - V"
    by (simp add: unsigned_of_nat take_bit_nat_eq_self)
  have V': "nat \<bar>sint i\<bar> = V" using False by (simp add: V_def)
  show ?thesis
    using False n8
    by (simp add: encodeInt_def bisectLeft_magLen V n_def [symmetric] off Let_def putByte_append
        drop_be_bytes intEnc_def V' V_def [symmetric])
qed

lemma length_big_bytes: "length (big_bytes v) = magLen v"
  by (simp add: magLen_def)

lemma pad_big_bytes: "v < 256 ^ n \<Longrightarrow> replicate (n - magLen v) 0 @ big_bytes v = be_bytes n v"
proof -
  assume v: "v < 256 ^ n"
  then have "magLen v \<le> n" by (simp add: magLen_le_iff)
  then have "length (replicate (n - magLen v) 0 @ big_bytes v) = n" by (simp add: length_big_bytes)
  moreover have "be_val (replicate (n - magLen v) 0 @ big_bytes v) = v"
    using magLen_upper [of v] by (simp add: big_bytes_be [of v] be_val_be_bytes)
  ultimately show ?thesis using be_bytes_be_val by metis
qed

lemma encodeBigInt_enc:
  assumes "magLen (nat \<bar>z\<bar>) \<le> 255"
  shows "encodeBigInt p z = Ret (putBytes p (intEnc z))"
proof (cases "0 \<le> z")
  case True
  with assms show ?thesis
    by (simp add: encodeBigInt_def intEnc_def length_big_bytes Let_def putByte_append
        big_bytes_be [of "nat z"])
next
  case False
  define V where "V = nat (- z)"
  define n where "n = magLen V"
  have V: "nat \<bar>z\<bar> = V" using False by (simp add: V_def)
  have lt: "V < 256 ^ n" by (simp add: n_def magLen_upper)
  have "(2::int) ^ (n * 8) = 256 ^ n" by (simp add: power_mult mult.commute [of n 8])
  with False have "z + (2 ^ (n * 8) - 1) = int (256 ^ n - 1 - V)"
    unfolding int_complement [OF lt] by (simp add: V_def)
  then have tr: "nat \<bar>z + (2 ^ (n * 8) - 1)\<bar> = 256 ^ n - 1 - V"
    by (simp only: abs_of_nat nat_int)
  have "256 ^ n - 1 - V < 256 ^ n" using lt by linarith
  from pad_big_bytes [OF this] False assms show ?thesis
    by (simp add: encodeBigInt_def intEnc_def V length_big_bytes n_def [symmetric] tr Let_def
        putByte_append V_def [symmetric] append_assoc [symmetric] del: append_assoc)
qed

lemma esc_no_zero: "0 \<notin> set b \<Longrightarrow> esc b = b"
  by (induction b) auto

lemma esc_append [simp]: "esc (a @ b) = esc a @ esc b"
  by (induction a) auto

lemma index_byte_split:
  assumes "c \<in> set b"
  obtains a r where "b = a @ c # r" and "c \<notin> set a" and "index_byte b c = int (length a)"
proof -
  obtain a r where "b = a @ c # r" "c \<notin> set a" using split_list_first [OF assms] by blast
  with that show ?thesis by simp
qed

lemma putBytesNil_esc: "putBytesNil p b (index_byte b 0) = putBytes p (esc b)"
proof (induction b arbitrary: p rule: length_induct)
  case (1 b)
  show ?case
  proof (cases "0 \<in> set b")
    case True
    then obtain a r where b: "b = a @ 0 # r" and a: "0 \<notin> set a"
      and i: "index_byte b 0 = int (length a)" by (rule index_byte_split)
    have "putBytesNil p b (index_byte b 0)
        = putBytesNil (putByte (putBytes p (a @ [0])) 0xFF) r (index_byte r 0)"
      by (subst putBytesNil.simps) (simp add: b a)
    also have "\<dots> = putBytes (putByte (putBytes p (a @ [0])) 0xFF) (esc r)"
      using 1 b by simp
    finally show ?thesis by (simp add: b esc_no_zero [OF a] putByte_append)
  next
    case False
    then show ?thesis by (subst putBytesNil.simps) (simp add: esc_no_zero)
  qed
qed

lemma encodeBytes_enc: "encodeBytes p c b = putBytes p (c # esc b @ [0])"
proof (cases "0 \<in> set b")
  case True
  then have "0 \<le> index_byte b 0" using index_byte_neg_iff [of b 0] by linarith
  then show ?thesis
    by (simp add: encodeBytes_def Let_def putByte_append putBytesNil_esc)
next
  case False
  then show ?thesis
    by (simp add: encodeBytes_def Let_def putByte_append esc_no_zero)
qed

lemma encodeVersionstamp_enc:
  "TransactionVersion v \<noteq> incompleteTransactionVersion \<Longrightarrow>
   encodeVersionstamp p v = Ret (putBytes p (versionstampCode # versionstampBytes v))"
  by (simp add: encodeVersionstamp_def putByte_append)

lemmas encode_encs = encodeInt_enc encodeUint_enc encodeBigInt_enc encodeBytes_enc
  encodeVersionstamp_enc

lemma encodeElement_enc:
  "packable t \<Longrightarrow> encodeTuple p t nested vs
     = Ret (putBytes p (if nested then encE True (TTuple t) else encs False t))"
  "packable t \<Longrightarrow> encodeElements p t nested vs = Ret (putBytes p (encs nested t))"
  "packableE e \<Longrightarrow> encodeElement p e nested vs = Ret (putBytes p (encE nested e))"
proof (induction p t nested vs and p t nested vs and p e nested vs
    rule: encodeTuple_encodeElements_encodeElement.induct)
qed (auto simp: encode_encs putByte_append Let_def encodeFloat_def encodeDouble_def encodeUUID_def)

lemma Pack_encs: "packable t \<Longrightarrow> Pack t = Ret (encs False t)"
  by (simp add: Pack_def encodeElement_enc newPacker_def putBytes_def)

subsection \<open>Reading the elements back\<close>

text \<open>What may follow an element: nothing, or a byte other than \<open>0xFF\<close>.\<close>

definition okRest :: "bytes \<Rightarrow> bool" where
  "okRest r \<longleftrightarrow> r = [] \<or> hd r \<noteq> 0xFF"

lemma okRest_simps [simp]: "okRest []" "okRest (x # r) \<longleftrightarrow> x \<noteq> 0xFF"
  by (simp_all add: okRest_def)

lemma unescape_no_zero: "0 \<notin> set b \<Longrightarrow> unescape b = b"
  by (induction b rule: unescape.induct) auto

lemma unescape_esc: "unescape (esc b) = b"
proof (induction b)
  case (Cons x b)
  show ?case
  proof (cases "x = 0")
    case False
    then show ?thesis using Cons by (cases "esc b") auto
  qed (simp add: Cons)
qed simp

lemma findTerminatorLoop_step:
  "0 \<notin> set a \<Longrightarrow> findTerminatorLoop (a @ 0 # 0xFF # t) n
     = findTerminatorLoop t (n + int (length a) + 2)"
  by (subst findTerminatorLoop.simps) (simp add: Let_def nat_add_distrib nth_append)

lemma findTerminatorLoop_esc:
  "okRest r \<Longrightarrow> findTerminatorLoop (esc b @ 0 # r) n = n + int (length (esc b))"
proof (induction b arbitrary: n rule: length_induct)
  case (1 b)
  show ?case
  proof (cases "0 \<in> set b")
    case True
    then obtain a s where b: "b = a @ 0 # s" and a: "0 \<notin> set a"
      by (rule index_byte_split)
    have e: "esc b @ 0 # r = a @ 0 # 0xFF # esc s @ 0 # r" by (simp add: b esc_no_zero [OF a])
    have "findTerminatorLoop (esc b @ 0 # r) n
        = findTerminatorLoop (esc s @ 0 # r) (n + int (length a) + 2)"
      unfolding e by (rule findTerminatorLoop_step [OF a])
    also have "\<dots> = n + int (length a) + 2 + int (length (esc s))"
      using 1 b by simp
    finally show ?thesis by (simp add: b esc_no_zero [OF a])
  next
    case False
    then have e: "esc b = b" by (rule esc_no_zero)
    have i: "index_byte (b @ 0 # r) 0 = int (length b)" by (simp add: False)
    have "int (length b) + 1 = int (length (b @ 0 # r)) \<or> (b @ 0 # r) ! nat (int (length b) + 1) \<noteq> 0xFF"
      using "1.prems" by (cases r) (auto simp: nth_append nat_add_distrib)
    then show ?thesis
      unfolding e by (subst findTerminatorLoop.simps) (simp only: i Let_def if_True)
  qed
qed

lemma decodeBytes_enc:
  "okRest r \<Longrightarrow> decodeBytes (c # esc b @ 0 # r) = Ret (b, length (esc b) + 2)"
  by (simp add: decodeBytes_def findTerminator_def findTerminatorLoop_esc unescape_esc)

subsection \<open>Reading integers back\<close>

lemma le8_cases: "n \<le> (8::nat) \<Longrightarrow> n \<in> {0, 1, 2, 3, 4, 5, 6, 7, 8}"
  by auto

lemma unat_pos_code: "n \<le> 8 \<Longrightarrow> unat (intZeroCode + of_nat n) = 20 + n"
  by (drule le8_cases) (auto simp: intZeroCode_def)

lemma unat_neg_code: "n \<le> 8 \<Longrightarrow> unat (intZeroCode - of_nat n) = 20 - n"
  by (drule le8_cases) (auto simp: intZeroCode_def)

lemma decodeInt_pos:
  assumes n: "0 < n" "n \<le> 8" and v: "v < 256 ^ n"
  shows "decodeInt ((intZeroCode + of_nat n) # be_bytes n v @ r)
       = Ret (if 0 < sint (of_nat v :: 64 word) then TInt64 (of_nat v) else TUint64 (of_nat v), n + 1)"
proof -
  have "unat (intZeroCode + of_nat n) \<noteq> unat intZeroCode"
    using n unat_pos_code [of n] by (simp add: intZeroCode_def)
  then have c: "intZeroCode + of_nat n \<noteq> intZeroCode" by metis
  have m: "int (unat (intZeroCode + of_nat n)) - int (unat intZeroCode) = int n"
    using n by (simp add: unat_pos_code) (simp add: intZeroCode_def)
  show ?thesis
    unfolding decodeInt_def
    using c v m n by (simp add: Let_def be_val_be_bytes del: of_nat_numeral)
qed

lemma decodeInt_neg:
  assumes n: "0 < n" "n \<le> 8" and v: "0 < V" "V < 256 ^ n"
  shows "decodeInt ((intZeroCode - of_nat n) # be_bytes n (256 ^ n - 1 - V) @ r)
       = Ret (TInt64 (of_int (- int V)), n + 1)"
proof -
  have "unat (intZeroCode - of_nat n) \<noteq> unat intZeroCode"
    using n unat_neg_code [of n] by (simp add: intZeroCode_def)
  then have c: "intZeroCode - of_nat n \<noteq> intZeroCode" by metis
  have m: "int (unat (intZeroCode - of_nat n)) - int (unat intZeroCode) = - int n"
    using n by (simp add: unat_neg_code) (simp add: intZeroCode_def)
  have w: "256 ^ n - 1 - V < 256 ^ n" using v by linarith
  have "sizeLimits ! n = of_nat (unat (sizeLimits ! n))" by simp
  also have "\<dots> = of_nat (256 ^ n - 1)" by (simp only: sizeLimits_nth [OF n(2)])
  also have "\<dots> = of_int (int (256 ^ n - 1))" by (simp only: of_int_of_nat_eq)
  also have "int (256 ^ n - 1) = 256 ^ n - 1" using int_complement [of 0 n] by simp
  finally have sl: "sizeLimits ! n = of_int (256 ^ n - 1)" .
  have "(of_nat (256 ^ n - 1 - V) :: 64 word) = of_int (256 ^ n - 1 - int V)"
    unfolding int_complement [OF v(2), symmetric] by (simp only: of_int_of_nat_eq)
  then have d: "(of_nat (256 ^ n - 1 - V) :: 64 word) - sizeLimits ! n = of_int (- int V)"
    unfolding sl by simp
  show ?thesis
    unfolding decodeInt_def
    using c m n d w by (simp add: Let_def be_val_be_bytes)
qed

lemma pow_256: "(256::int) ^ n = 2 ^ (n * 8)"
  by (simp add: power_mult mult.commute [of n 8])

lemma unat_len_byte: "n \<le> 255 \<Longrightarrow> unat (of_nat n :: byte) = n"
  by (simp add: unat_of_nat_byte)

lemma xor_xor_byte: "(a XOR b) XOR b = (a :: byte)"
  by (simp add: xor.assoc)

lemma decodeBigInt_pos:
  assumes "n \<le> 255" and "v < 256 ^ n"
  shows "decodeBigInt (posIntEnd # of_nat n # be_bytes n v @ r) = Ret (TBigInt (int v), n + 2)"
proof -
  have c: "\<not> posIntEnd < intZeroCode" "posIntEnd \<noteq> negIntStart" by (simp_all add: type_codes)
  show ?thesis
    unfolding decodeBigInt_def
    using c assms by (simp add: Let_def unat_len_byte be_val_be_bytes)
qed

lemma decodeBigInt_neg:
  assumes "n \<le> 255" and V: "V < 256 ^ n" and min: "int V \<noteq> 2 ^ 63"
  shows "decodeBigInt (negIntStart # (of_nat n XOR 0xff) # be_bytes n (256 ^ n - 1 - V) @ r)
       = Ret (TBigInt (- int V), n + 2)"
proof -
  have c: "negIntStart < intZeroCode" "posIntEnd \<noteq> negIntStart" by (simp_all add: type_codes)
  have "256 ^ n - 1 - V < 256 ^ n" using V by linarith
  then have val: "int (be_val (be_bytes n (256 ^ n - 1 - V))) - (2 ^ (n * 8) - 1) = - int V"
    unfolding be_val_be_bytes using int_complement [OF V] by (simp only: mod_less pow_256)
  show ?thesis
    unfolding decodeBigInt_def
    using c assms(1) min val
    by (simp add: Let_def unat_len_byte xor_xor_byte del: be_bytes.simps)
qed

lemma decodeBigInt_neg8:
  assumes V: "V < 256 ^ 8"
  shows "decodeBigInt ((intZeroCode - 8) # be_bytes 8 (256 ^ 8 - 1 - V) @ r)
       = Ret (if int V = 2 ^ 63 then TInt64 (of_int (- int V)) else TBigInt (- int V), 9)"
proof -
  have c: "intZeroCode - 8 < intZeroCode" "intZeroCode - 8 \<noteq> negIntStart"
    "intZeroCode - 8 \<noteq> posIntEnd" by (simp_all add: type_codes)
  have "256 ^ 8 - 1 - V < 256 ^ 8" using V by linarith
  then have val: "int (be_val (be_bytes 8 (256 ^ 8 - 1 - V))) - (2 ^ (8 * 8) - 1) = - int V"
    unfolding be_val_be_bytes using int_complement [OF V] by (simp only: mod_less pow_256)
  define bs where "bs = be_bytes 8 (256 ^ 8 - 1 - V)"
  have len: "length bs = 8" by (simp only: bs_def length_be_bytes)
  have "decodeBigInt ((intZeroCode - 8) # bs @ r) =
     (if - int V = - (2 ^ 63) then Ret (TInt64 (of_int (- int V)), 8 + 1) else Ret (TBigInt (- int V), 8 + 1))"
    unfolding decodeBigInt_def
    using c val len unfolding bs_def [symmetric] by (simp add: Let_def)
  then show ?thesis unfolding bs_def by (auto simp del: be_bytes.simps)
qed

lemma and_80_iff: "b AND 0x80 = 0 \<longleftrightarrow> \<not> bit (b :: byte) 7"
proof -
  have "(0x80 :: byte) = push_bit 7 1" by simp
  then show ?thesis by (metis and_exp_eq_0_iff_not_bit push_bit_of_1)
qed

lemma high_bit_iff: "b AND 0x80 \<noteq> 0 \<longleftrightarrow> 128 \<le> unat (b :: byte)"
proof -
  have "b AND 0x80 = 0 \<longleftrightarrow> \<not> bit b 7" by (rule and_80_iff)
  moreover have "bit b 7 \<longleftrightarrow> 128 \<le> unat b"
  proof -
    have "bit b 7 \<longleftrightarrow> odd (unat b div 2 ^ 7)"
      by (simp only: bit_iff_odd [symmetric]) (simp add: bit_unsigned_iff)
    moreover have lt: "unat b < 256" using unsigned_less [of b, where 'a = nat] by simp
    have "unat b div 2 ^ 7 = (if 128 \<le> unat b then 1 else 0)"
      using lt by (cases "128 \<le> unat b") (auto intro!: div_nat_eqI)
    ultimately show ?thesis by simp
  qed
  ultimately show ?thesis by simp
qed

lemma hd_be_bytes: "be_bytes (Suc n) v = of_nat (v div 256 ^ n) # be_bytes n v"
proof (induction n arbitrary: v)
  case (Suc n)
  have "be_bytes (Suc (Suc n)) v = be_bytes (Suc n) (v div 256) @ [of_nat v]" by simp
  also have "\<dots> = of_nat (v div 256 div 256 ^ n) # be_bytes n (v div 256) @ [of_nat v]"
    by (simp only: Suc append_Cons)
  also have "v div 256 div 256 ^ n = v div 256 ^ Suc n"
    by (simp add: div_mult2_eq [symmetric])
  finally show ?case by simp
qed simp

lemma top_bit_8: "w < 256 ^ 8 \<Longrightarrow> be_bytes 8 w ! 0 AND 0x80 \<noteq> 0 \<longleftrightarrow> 2 ^ 63 \<le> w"
proof -
  assume w: "w < 256 ^ 8"
  have e: "(256::nat) ^ 8 = 2 ^ 64" "(256::nat) ^ 7 = 2 ^ 56" by simp_all
  have "be_bytes 8 w ! 0 = of_nat (w div 256 ^ 7)"
    using hd_be_bytes [of 7 w] by (simp only: numeral_eq_Suc pred_numeral_simps) simp
  then have "be_bytes 8 w ! 0 AND 0x80 \<noteq> 0 \<longleftrightarrow> 128 \<le> (w div 2 ^ 56) mod 256"
    by (simp only: high_bit_iff unat_of_nat_byte e)
  also have "\<dots> \<longleftrightarrow> 2 ^ 63 \<le> w" using w by (simp add: less_eq_div_iff_mult_less_eq)
  finally show ?thesis .
qed

text \<open>Which integers fall to which decoder: the first byte decides.\<close>

lemma decodeElement_int_code:
  assumes "12 < unat c" and "unat c < 29"
  shows "decodeElement (c # bs) i = decodeInt (c # bs)"
proof -
  have "negIntStart + 1 < c" "c < posIntEnd"
    using assms by (simp_all add: type_codes word_less_nat_alt)
  moreover from assms have "c \<noteq> bytesCode" "c \<noteq> stringCode" by (auto simp: type_codes)
  ultimately show ?thesis by (simp add: decodeElement_def)
qed

lemma decodeElement_pos_code:
  assumes "n \<le> 8"
  shows "decodeElement ((intZeroCode + of_nat n) # bs) i = decodeInt ((intZeroCode + of_nat n) # bs)"
  using assms by (intro decodeElement_int_code) (simp_all add: unat_pos_code)

lemma decodeElement_neg_code:
  assumes "0 < n" "n \<le> 7"
  shows "decodeElement ((intZeroCode - of_nat n) # bs) i = decodeInt ((intZeroCode - of_nat n) # bs)"
  using assms by (intro decodeElement_int_code) (simp_all add: unat_neg_code)

lemma decodeElement_neg8_code:
  "decodeElement ((intZeroCode - 8) # x # bs) i =
     (if x AND 0x80 \<noteq> 0 then decodeInt ((intZeroCode - 8) # x # bs)
      else decodeBigInt ((intZeroCode - 8) # x # bs))"
  by (simp add: decodeElement_def type_codes)

lemma decodeElement_big_code:
  "decodeElement (posIntEnd # bs) i = decodeBigInt (posIntEnd # bs)"
  "decodeElement (negIntStart # bs) i = decodeBigInt (negIntStart # bs)"
  by (simp_all add: decodeElement_def type_codes)

lemma normInt_word:
  assumes "0 < v" and "v < 2 ^ 64"
  shows "(if 0 < sint (of_nat v :: 64 word) then TInt64 (of_nat v) else TUint64 (of_nat v))
       = normInt (int v)"
proof (cases "v < 2 ^ 63")
  case True
  then have "signed_take_bit 63 (int v) = int v" by (intro signed_take_bit_int_eq_self) simp_all
  then have "sint (of_nat v :: 64 word) = int v" by (simp add: signed_of_nat)
  with True assms show ?thesis by (simp add: normInt_def)
next
  case False
  have "bit (int v) 63"
  proof -
    have "v div 2 ^ 63 = 1" using False assms by (intro div_nat_eqI) simp_all
    then have "odd (int v div 2 ^ 63)"
      by (metis odd_one even_of_nat of_nat_div of_nat_numeral of_nat_power)
    then show ?thesis by (simp only: bit_iff_odd not_False_eq_True)
  qed
  then have "sint (of_nat v :: 64 word) < 0"
    by (simp add: signed_of_nat signed_take_bit_negative_iff)
  with False assms show ?thesis by (simp add: normInt_def)
qed

lemma decodeElement_intEnc_pos:
  assumes n: "magLen v \<le> 255"
  shows "decodeElement (intEnc (int v) @ r) i = Ret (normInt (int v), length (intEnc (int v)))"
proof -
  consider "v = 0" | "v \<noteq> 0" "magLen v \<le> 8" | "8 < magLen v" by linarith
  then show ?thesis
  proof cases
    case 1
    have "decodeElement ((intZeroCode + of_nat 0) # r) i = Ret (TInt64 0, 1)"
      by (subst decodeElement_pos_code) (simp_all add: decodeInt_def)
    with 1 show ?thesis by (simp add: intEnc_def normInt_def)
  next
    case 2
    have lt: "v < 256 ^ 8" using 2 by (simp only: magLen_le_iff)
    have "decodeElement ((intZeroCode + of_nat (magLen v)) # be_bytes (magLen v) v @ r) i
        = Ret (normInt (int v), magLen v + 1)"
    proof -
      have pos: "0 < magLen v" using 2 by (simp add: magLen_pos)
      have "v < 2 ^ 64" using lt by simp
      with 2 have w: "(if 0 < sint (of_nat v :: 64 word) then TInt64 (of_nat v) else TUint64 (of_nat v))
          = normInt (int v)" by (intro normInt_word) simp_all
      show ?thesis
        using decodeInt_pos [OF pos 2(2) magLen_upper]
        by (simp only: decodeElement_pos_code [OF 2(2)] w)
    qed
    with 2 show ?thesis by (simp add: intEnc_def Let_def)
  next
    case 3
    then have "\<not> v < 256 ^ 8" by (simp only: magLen_le_iff [symmetric] not_le)
    then have norm: "normInt (int v) = TBigInt (int v)" by (simp add: normInt_def)
    have "decodeElement (posIntEnd # of_nat (magLen v) # be_bytes (magLen v) v @ r) i
        = Ret (TBigInt (int v), magLen v + 2)"
      using n magLen_upper [of v] by (simp add: decodeElement_big_code decodeBigInt_pos)
    with 3 norm show ?thesis by (simp add: intEnc_def Let_def)
  qed
qed

lemma decodeElement_neg8:
  assumes V: "0 < V" "V < 256 ^ 8"
  shows "decodeElement ((intZeroCode - 8) # be_bytes 8 (256 ^ 8 - 1 - V) @ r) i
       = Ret (normInt (- int V), 9)"
proof -
  define bs where "bs = be_bytes 8 (256 ^ 8 - 1 - V)"
  have "length bs = 8" by (simp only: bs_def length_be_bytes)
  then obtain x xs where bs: "bs = x # xs" by (cases bs) auto
  have "256 ^ 8 - 1 - V < 256 ^ 8" using V by linarith
  then have "x AND 0x80 \<noteq> 0 \<longleftrightarrow> 2 ^ 63 \<le> 256 ^ 8 - 1 - V"
    using top_bit_8 [of "256 ^ 8 - 1 - V"] unfolding bs_def [symmetric] bs by simp
  also have "\<dots> \<longleftrightarrow> V < 2 ^ 63" using V by auto
  finally have hb: "x AND 0x80 \<noteq> 0 \<longleftrightarrow> V < 2 ^ 63" .
  show ?thesis
  proof (cases "V < 2 ^ 63")
    case True
    with hb bs have "decodeElement ((intZeroCode - 8) # bs @ r) i = decodeInt ((intZeroCode - 8) # bs @ r)"
      by (simp add: decodeElement_neg8_code)
    also have "\<dots> = Ret (TInt64 (of_int (- int V)), 8 + 1)"
      unfolding bs_def using decodeInt_neg [of 8 V r] V by simp
    finally show ?thesis unfolding bs_def using True by (simp add: normInt_def)
  next
    case False
    with hb bs have "decodeElement ((intZeroCode - 8) # bs @ r) i = decodeBigInt ((intZeroCode - 8) # bs @ r)"
      by (simp add: decodeElement_neg8_code)
    also have "\<dots> = Ret (if int V = 2 ^ 63 then TInt64 (of_int (- int V)) else TBigInt (- int V), 9)"
      unfolding bs_def by (rule decodeBigInt_neg8 [OF V(2)])
    finally show ?thesis unfolding bs_def using False by (auto simp: normInt_def)
  qed
qed

lemma intEnc_neg:
  "0 < V \<Longrightarrow> intEnc (- int V) =
     (if magLen V > 8 then [negIntStart, of_nat (magLen V) XOR 0xff]
      else [intZeroCode - of_nat (magLen V)]) @ be_bytes (magLen V) (256 ^ magLen V - 1 - V)"
  by (simp add: intEnc_def Let_def)

lemma decodeElement_intEnc_neg:
  assumes V: "0 < V" and n: "magLen V \<le> 255"
  shows "decodeElement (intEnc (- int V) @ r) i = Ret (normInt (- int V), length (intEnc (- int V)))"
proof -
  have up: "V < 256 ^ magLen V" by (rule magLen_upper)
  have pos: "0 < magLen V" using V by (simp add: magLen_pos)
  consider "magLen V \<le> 7" | "magLen V = 8" | "8 < magLen V" by linarith
  then show ?thesis
  proof cases
    case 1
    have "V < 256 ^ 7" using 1 by (simp only: magLen_le_iff)
    then have norm: "normInt (- int V) = TInt64 (of_int (- int V))" by (simp add: normInt_def)
    have n8: "magLen V \<le> 8" using 1 by simp
    have "decodeElement ((intZeroCode - of_nat (magLen V))
             # be_bytes (magLen V) (256 ^ magLen V - 1 - V) @ r) i
        = Ret (normInt (- int V), magLen V + 1)"
      using decodeInt_neg [OF pos n8 V up] by (simp only: decodeElement_neg_code [OF pos 1] norm)
    with 1 V show ?thesis by (simp add: intEnc_neg)
  next
    case 2
    have "decodeElement ((intZeroCode - 8) # be_bytes 8 (256 ^ 8 - 1 - V) @ r) i
        = Ret (normInt (- int V), 9)"
      using decodeElement_neg8 [OF V] up 2 by simp
    with 2 V show ?thesis by (simp add: intEnc_neg del: be_bytes.simps)
  next
    case 3
    then have "\<not> V < 256 ^ 8" by (simp only: magLen_le_iff [symmetric] not_le)
    then have big: "2 ^ 64 \<le> V" by simp
    then have norm: "normInt (- int V) = TBigInt (- int V)" by (simp add: normInt_def)
    have "int V \<noteq> 2 ^ 63" using big by simp
    from decodeBigInt_neg [OF n up this]
    have "decodeElement (negIntStart # (of_nat (magLen V) XOR 0xff)
              # be_bytes (magLen V) (256 ^ magLen V - 1 - V) @ r) i
        = Ret (TBigInt (- int V), magLen V + 2)"
      by (simp only: decodeElement_big_code)
    with 3 V norm show ?thesis by (simp add: intEnc_neg)
  qed
qed

lemma decodeElement_intEnc:
  assumes "magLen (nat \<bar>z\<bar>) \<le> 255"
  shows "decodeElement (intEnc z @ r) i = Ret (normInt z, length (intEnc z))"
proof (cases "0 \<le> z")
  case True
  with assms decodeElement_intEnc_pos [of "nat z" r i] show ?thesis by simp
next
  case False
  then have "- int (nat (- z)) = z" by simp
  with False assms decodeElement_intEnc_neg [of "nat (- z)" r i] show ?thesis by simp
qed

lemma magLen_sint: "magLen (nat \<bar>sint (i :: 64 word)\<bar>) \<le> 255"
proof -
  have "\<bar>sint i\<bar> < 2 ^ 64" using sint_greater_eq [of i] sint_less [of i] by simp
  then have "nat \<bar>sint i\<bar> < 256 ^ 8" by (simp add: nat_less_iff)
  then have "magLen (nat \<bar>sint i\<bar>) \<le> 8" by (simp only: magLen_le_iff)
  then show ?thesis by simp
qed

lemma magLen_uint: "magLen (nat \<bar>uint (i :: 64 word)\<bar>) \<le> 255"
  using magLen_word [of i] by simp

subsection \<open>Reading the other elements back\<close>

lemma adjustFloatBytes_inverse:
  assumes "b \<noteq> []"
  shows "adjustFloatBytes (adjustFloatBytes b True) False = b"
proof -
  obtain x xs where b: "b = x # xs" using assms by (cases b) auto
  have 1: "(x XOR 0xff) AND 0x80 = 0 \<longleftrightarrow> \<not> x AND 0x80 = 0"
    by (simp only: and_80_iff) (simp add: bit_xor_iff)
  have 2: "(x XOR 0x80) AND 0x80 = 0 \<longleftrightarrow> \<not> x AND 0x80 = 0"
    by (simp only: and_80_iff) (simp add: bit_xor_iff)
  show ?thesis
    using 1 2 by (cases "x AND 0x80 = 0") (simp_all add: b adjustFloatBytes_def xor_xor_byte o_def)
qed

lemma length_adjustFloatBytes [simp]: "length (adjustFloatBytes b e) = length b"
  by (simp add: adjustFloatBytes_def)

lemma be_bytes_nonempty: "0 < n \<Longrightarrow> be_bytes n v \<noteq> []"
  by (metis length_be_bytes less_numeral_extra(3) list.size(3))

lemma be_val_word: "LENGTH('a::len) = 8 * n \<Longrightarrow> (of_nat (be_val (be_bytes n (unat w))) :: 'a word) = w"
proof -
  assume l: "LENGTH('a) = 8 * n"
  have "unat w < 256 ^ n" using unsigned_less [of w, where 'a = nat] l by (simp add: power_mult)
  then show ?thesis by (simp add: be_val_be_bytes)
qed

lemma decodeElement_float: "decodeElement (encE nested (TFloat32 f) @ r) i = Ret (TFloat32 f, 5)"
proof -
  define bs where "bs = adjustFloatBytes (be_bytes 4 (unat f)) True"
  have "length bs = 4" by (simp add: bs_def del: be_bytes.simps)
  moreover have "adjustFloatBytes bs False = be_bytes 4 (unat f)"
    unfolding bs_def by (rule adjustFloatBytes_inverse) (simp add: be_bytes_nonempty del: be_bytes.simps)
  moreover have "(of_nat (be_val (be_bytes 4 (unat f))) :: 32 word) = f" by (rule be_val_word) simp
  ultimately show ?thesis
    by (simp add: bs_def [symmetric] decodeElement_def decodeFloat_def type_codes Let_def
        del: be_bytes.simps)
qed

lemma decodeElement_double: "decodeElement (encE nested (TFloat64 f) @ r) i = Ret (TFloat64 f, 9)"
proof -
  define bs where "bs = adjustFloatBytes (be_bytes 8 (unat f)) True"
  have "length bs = 8" by (simp add: bs_def del: be_bytes.simps)
  moreover have "adjustFloatBytes bs False = be_bytes 8 (unat f)"
    unfolding bs_def by (rule adjustFloatBytes_inverse) (simp add: be_bytes_nonempty del: be_bytes.simps)
  moreover have "(of_nat (be_val (be_bytes 8 (unat f))) :: 64 word) = f" by (rule be_val_word) simp
  ultimately show ?thesis
    by (simp add: bs_def [symmetric] decodeElement_def decodeDouble_def type_codes Let_def
        del: be_bytes.simps)
qed

lemma decodeElement_uuid:
  "length u = 16 \<Longrightarrow> decodeElement (encE nested (TUUID u) @ r) i = Ret (TUUID u, 17)"
  by (simp add: decodeElement_def decodeUUID_def type_codes)

lemma decodeElement_versionstamp:
  assumes "length (TransactionVersion v) = 10"
  shows "decodeElement (encE nested (TVersionstamp v) @ r) i = Ret (TVersionstamp v, 13)"
proof -
  define bs where "bs = be_bytes 2 (unat (UserVersion v))"
  have l: "length bs = 2" by (simp add: bs_def del: be_bytes.simps)
  have u: "(of_nat (be_val bs) :: 16 word) = UserVersion v"
    unfolding bs_def by (rule be_val_word) simp
  have "decodeVersionstamp (versionstampCode # (TransactionVersion v @ bs) @ r)
      = (\<lparr>TransactionVersion = TransactionVersion v, UserVersion = UserVersion v\<rparr>, 13)"
    using assms l u by (simp add: decodeVersionstamp_def versionstampLength_def)
  then show ?thesis
    using assms l
    by (simp add: versionstampBytes_def bs_def [symmetric] decodeElement_def
        versionstampLength_def type_codes)
qed

lemma decodeElement_bytes:
  assumes "okRest r"
  shows "decodeElement (bytesCode # esc b @ 0 # r) i = Ret (TBytes b, length (esc b) + 2)"
  using decodeBytes_enc [OF assms, of bytesCode b] by (simp add: decodeElement_def type_codes)

lemma decodeElement_string:
  assumes "okRest r"
  shows "decodeElement (stringCode # esc (go_bytes s) @ 0 # r) i
       = Ret (TString s, length (esc (go_bytes s)) + 2)"
  using decodeBytes_enc [OF assms, of stringCode "go_bytes s"]
  by (simp add: decodeElement_def decodeString_def type_codes)

lemma decodeElement_bool:
  "decodeElement (encE nested (TBool v) @ r) i = Ret (TBool v, 1)"
  by (simp add: decodeElement_def type_codes)

fun compound :: "tupleElement \<Rightarrow> bool" where
  "compound (TTuple t) = True"
| "compound TNil = True"
| "compound e = False"

text \<open>Every element but a tuple and nil is read back by the cases of the switch.\<close>

lemma decodeElement_enc:
  assumes "packableE e" "\<not> compound e" "okRest r"
  shows "decodeElement (encE nested e @ r) i = Ret (norm e, length (encE nested e))"
  using assms
proof (cases e)
  case (TInt w)
  then show ?thesis using decodeElement_intEnc [OF magLen_sint] by simp
next
  case (TInt64 w)
  then show ?thesis using decodeElement_intEnc [OF magLen_sint] by simp
next
  case (TUint w)
  then show ?thesis using decodeElement_intEnc [OF magLen_uint] by simp
next
  case (TUint64 w)
  then show ?thesis using decodeElement_intEnc [OF magLen_uint] by simp
next
  case (TFloat32 f)
  then show ?thesis using decodeElement_float by (simp del: be_bytes.simps)
next
  case (TFloat64 f)
  then show ?thesis using decodeElement_double by (simp del: be_bytes.simps)
next
  case (TUUID u)
  then show ?thesis using decodeElement_uuid assms by simp
next
  case (TVersionstamp v)
  then show ?thesis using decodeElement_versionstamp assms by (simp add: versionstampBytes_def)
next
  case (TBool v)
  then show ?thesis using decodeElement_bool [of nested v] by simp
qed (simp_all add: decodeElement_intEnc decodeElement_bytes decodeElement_string)

subsection \<open>The first byte of an encoded element\<close>

lemma hd_intEnc: "intEnc z \<noteq> [] \<and> hd (intEnc z) \<noteq> 0xFF \<and> hd (intEnc z) \<noteq> nilCode
    \<and> hd (intEnc z) \<noteq> nestedCode"
proof -
  define n where "n = magLen (nat \<bar>z\<bar>)"
  have "n > 8 \<or> n \<in> {0, 1, 2, 3, 4, 5, 6, 7, 8}" using le8_cases [of n] by linarith
  then show ?thesis
    unfolding intEnc_def n_def [symmetric] Let_def by (auto simp: type_codes)
qed

lemma encE_hd:
  "packableE e \<Longrightarrow> encE nested e \<noteq> [] \<and> hd (encE nested e) \<noteq> 0xFF
     \<and> (\<not> compound e \<longrightarrow> hd (encE nested e) \<noteq> nilCode \<and> hd (encE nested e) \<noteq> nestedCode)"
  using hd_intEnc by (cases e) (auto simp: type_codes)

lemma encE_head:
  assumes "packableE e"
  obtains x xs where "encE nested e = x # xs" "x \<noteq> 0xFF"
    "\<not> compound e \<Longrightarrow> x \<noteq> nilCode \<and> x \<noteq> nestedCode"
  using encE_hd [OF assms, of nested] by (cases "encE nested e") auto

lemma okRest_encs: "packable t \<Longrightarrow> okRest r \<Longrightarrow> okRest (encs nested t @ r)"
  by (cases t) (auto elim!: encE_head [of _ nested])

subsection \<open>The loop reads a packed tuple back\<close>

text \<open>The three kinds of steps of the loop.\<close>

lemma decodeLoop_nil:
  "decodeLoop (Suc fuel) (pre @ encE nested TNil @ rest) (length pre) nested t
   = decodeLoop fuel (pre @ encE nested TNil @ rest) (length pre + length (encE nested TNil))
       nested (t @ [TNil])"
  by (simp add: decodeLoop.simps(2) nth_append)

lemma decodeLoop_plain:
  assumes "packableE e" "\<not> compound e" "okRest rest"
  shows "decodeLoop (Suc fuel) (pre @ encE nested e @ rest) (length pre) nested t
       = decodeLoop fuel (pre @ encE nested e @ rest) (length pre + length (encE nested e))
           nested (t @ [norm e])"
proof -
  obtain x xs where x: "encE nested e = x # xs" "x \<noteq> nilCode" "x \<noteq> nestedCode"
    using encE_head [OF assms(1)] assms(2) by metis
  from decodeElement_enc [OF assms, of nested] have "decodeElement ((x # xs) @ rest) (length pre)
      = Ret (norm e, length (x # xs))" by (simp only: x(1))
  with x show ?thesis by (simp add: decodeLoop.simps(2))
qed

lemma decodeLoop_end:
  assumes "okRest rest"
  shows "decodeLoop (Suc fuel) (pre @ 0x00 # rest) (length pre) True t
       = Some (Ret (t, length pre + 1))"
  using assms by (cases rest) (simp_all add: decodeLoop.simps(2) nth_append nilCode_def)

lemma decodeLoop_nested:
  assumes "decodeLoop fuel (encs True ts @ 0x00 # rest) 0 True []
         = Some (Ret (us, length (encs True ts) + 1))"
  shows "decodeLoop (Suc fuel) (pre @ encE nested (TTuple ts) @ rest) (length pre) nested t
       = decodeLoop fuel (pre @ encE nested (TTuple ts) @ rest)
           (length pre + length (encE nested (TTuple ts))) nested (t @ [TTuple us])"
  using assms by (simp add: decodeLoop.simps(2) type_codes)

text \<open>
  \<open>reads nested code us\<close>: wherever the loop meets \<open>code\<close> with more fuel than bytes left, it appends
  the elements \<open>us\<close> and goes on behind \<open>code\<close>, again with more fuel than bytes left.
\<close>

definition reads :: "bool \<Rightarrow> bytes \<Rightarrow> tuple \<Rightarrow> bool" where
  "reads nested code us \<longleftrightarrow>
     (\<forall>pre rest fuel t. okRest rest \<and> length (code @ rest) < fuel \<longrightarrow>
        (\<exists>fuel' > length rest.
           decodeLoop fuel (pre @ code @ rest) (length pre) nested t
           = decodeLoop fuel' (pre @ code @ rest) (length pre + length code) nested (t @ us)))"

lemma readsD:
  assumes "reads nested code us" "okRest rest" "length (code @ rest) < fuel"
  obtains fuel' where "length rest < fuel'"
    "decodeLoop fuel (pre @ code @ rest) (length pre) nested t
     = decodeLoop fuel' (pre @ code @ rest) (length pre + length code) nested (t @ us)"
  using assms unfolding reads_def by blast

text \<open>A single step of the loop over at least one byte is enough.\<close>

lemma reads_step:
  assumes "code \<noteq> []"
    and "\<And>pre rest fuel t. okRest rest \<Longrightarrow> length (code @ rest) < Suc fuel \<Longrightarrow>
      decodeLoop (Suc fuel) (pre @ code @ rest) (length pre) nested t
      = decodeLoop fuel (pre @ code @ rest) (length pre + length code) nested (t @ us)"
  shows "reads nested code us"
  unfolding reads_def
proof (intro allI impI, elim conjE)
  fix pre rest :: bytes and fuel t
  assume ok: "okRest rest" and fuel: "length (code @ rest) < fuel"
  then obtain f where f: "fuel = Suc f" by (cases fuel) auto
  have "length rest < f" using fuel f assms(1) by (cases code) auto
  with assms(2) [OF ok] fuel f show "\<exists>fuel' > length rest.
      decodeLoop fuel (pre @ code @ rest) (length pre) nested t
      = decodeLoop fuel' (pre @ code @ rest) (length pre + length code) nested (t @ us)"
    by blast
qed

lemma reads_append:
  assumes a: "reads nested a us" and b: "reads nested b vs"
    and ok: "\<And>r. okRest r \<Longrightarrow> okRest (b @ r)"
  shows "reads nested (a @ b) (us @ vs)"
  unfolding reads_def
proof (intro allI impI, elim conjE)
  fix pre rest :: bytes and fuel t
  assume r: "okRest rest" and "length ((a @ b) @ rest) < fuel"
  then have "length (a @ (b @ rest)) < fuel" by simp
  from readsD [OF a ok [OF r] this] obtain f1 where f1: "length (b @ rest) < f1"
    "decodeLoop fuel (pre @ a @ b @ rest) (length pre) nested t
     = decodeLoop f1 (pre @ a @ b @ rest) (length pre + length a) nested (t @ us)" .
  from readsD [OF b r f1(1), of "pre @ a" "t @ us"] f1(2)
  show "\<exists>fuel' > length rest.
      decodeLoop fuel (pre @ (a @ b) @ rest) (length pre) nested t
      = decodeLoop fuel' (pre @ (a @ b) @ rest) (length pre + length (a @ b)) nested (t @ us @ vs)"
    by (auto simp: add.assoc)
qed

lemma reads_nested:
  assumes "reads True (encs True ts) us"
  shows "reads nested (encE nested (TTuple ts)) [TTuple us]"
proof (rule reads_step)
  fix pre rest :: bytes and fuel t
  assume ok: "okRest rest" and fuel: "length (encE nested (TTuple ts) @ rest) < Suc fuel"
  have 1: "okRest (0x00 # rest)" "length (encs True ts @ 0x00 # rest) < fuel" using fuel by auto
  from readsD [OF assms this, of "[]" "[]"] obtain f where "Suc (length rest) < f"
    "decodeLoop fuel (encs True ts @ 0x00 # rest) 0 True []
     = decodeLoop f (encs True ts @ 0x00 # rest) (length (encs True ts)) True us" by auto
  then have "decodeLoop fuel (encs True ts @ 0x00 # rest) 0 True []
     = Some (Ret (us, length (encs True ts) + 1))"
    using decodeLoop_end [OF ok, of "f - 1" "encs True ts" us] by (cases f) auto
  then show "decodeLoop (Suc fuel) (pre @ encE nested (TTuple ts) @ rest) (length pre) nested t
       = decodeLoop fuel (pre @ encE nested (TTuple ts) @ rest)
           (length pre + length (encE nested (TTuple ts))) nested (t @ [TTuple us])"
    by (rule decodeLoop_nested)
qed simp

lemma reads_plain:
  "packableE e \<Longrightarrow> \<not> compound e \<Longrightarrow> reads nested (encE nested e) [norm e]"
  by (rule reads_step) (simp add: encE_hd, rule decodeLoop_plain)

lemma reads_nil: "reads nested (encE nested TNil) [TNil]"
  by (rule reads_step) (simp, rule decodeLoop_nil)

lemma reads_enc:
  "packableE e \<Longrightarrow> reads nested (encE nested e) [norm e]"
  "packable ts \<Longrightarrow> reads nested (encs nested ts) (norms ts)"
proof (induction nested e and nested ts rule: encE_encs.induct)
  case (1 nested)
  then show ?case by (auto simp: reads_def)
next
  case (2 nested e ts)
  then show ?case
    using reads_append [of nested "encE nested e" "[norm e]" "encs nested ts" "norms ts"]
    by (simp add: okRest_encs)
next
  case (3 nested ts)
  then show ?case using reads_nested [of ts "norms ts" nested] by simp
next
  case (4 nested)
  then show ?case using reads_nil by simp
qed (rule reads_plain, assumption, simp)+

lemma Unpack_encs:
  assumes "packable ts"
  shows "Unpack (encs False ts) = Ret (norms ts)"
proof -
  have "length (encs False ts @ []) < Suc (length (encs False ts))" by simp
  from readsD [OF reads_enc(2) [OF assms] _ this, of "[]" "[]"] obtain f where
    "0 < f" "decodeLoop (Suc (length (encs False ts))) (encs False ts) 0 False []
     = decodeLoop f (encs False ts) (length (encs False ts)) False (norms ts)" by auto
  then show ?thesis
    by (cases f) (simp_all add: Unpack_def decodeTuple_def decodeLoop.simps(2))
qed

subsection \<open>The loop of the unpacker ends\<close>

lemma decodeElement_advances: "decodeElement b i = Ret (el, off) \<Longrightarrow> 0 < off"
  by (auto simp: decodeElement_def decodeBytes_def decodeString_def decodeInt_def decodeBigInt_def
      decodeFloat_def decodeDouble_def decodeUUID_def decodeVersionstamp_def Let_def
      obind_Ret_iff split: if_splits)

lemma decodeLoop_total: "length b - i < fuel \<Longrightarrow> decodeLoop fuel b i nested t \<noteq> None"
proof (induction fuel arbitrary: b i nested t)
  case (Suc fuel)
  have sub: "decodeLoop fuel (drop (i + 1) b) 0 True [] \<noteq> None" if "i < length b"
    using Suc.IH [of "drop (i + 1) b" 0] Suc.prems that by simp
  have later: "decodeLoop fuel b (i + k) n u \<noteq> None" if "i < length b" "0 < k" for k n u
    using Suc.IH [of b "i + k"] Suc.prems that by simp
  show ?case
  proof (cases "i < length b")
    case True
    then show ?thesis
      using sub later [of 1] later [of 2] later [of "_ + 1"] later decodeElement_advances
      by (auto simp: decodeLoop.simps(2) add.assoc split: option.split outcome.split)
  qed (simp add: decodeLoop.simps(2))
qed simp

lemma decodeLoop_mono: "decodeLoop fuel b i nested t = Some r \<Longrightarrow> decodeLoop (fuel + k) b i nested t = Some r"
proof (induction fuel arbitrary: b i nested t r)
  case (Suc fuel)
  then show ?case
    by (auto simp: decodeLoop.simps(2) split: if_splits option.split_asm outcome.split_asm)
qed simp

text \<open>
  \<^bold>\<open>C37\<close> (Unpack ends). On every input the loop of \<open>decodeTuple\<close> finishes with one unit of fuel more
  than there are bytes, and any larger amount gives the same result: the unpacker always returns,
  fails or panics, it never loops.
\<close>

theorem decodeTuple_terminates:
  "\<exists>r. \<forall>k. decodeLoop (Suc (length b) + k) b 0 nested [] = Some r \<and> decodeTuple b nested = r"
proof -
  obtain r where r: "decodeLoop (Suc (length b)) b 0 nested [] = Some r"
    using decodeLoop_total [of b 0 "Suc (length b)" nested "[]"] by auto
  with decodeLoop_mono [OF r] show ?thesis by (auto simp: decodeTuple_def)
qed

text \<open>
  \<^bold>\<open>C8\<close> (round trip of the tuple layer). Every packable tuple is packed without a panic, and
  unpacking the result gives the tuple back, with the integer types normalised to \<open>int64\<close>,
  \<open>uint64\<close> or \<open>*big.Int\<close> (the smallest that holds the value) and keys read as byte slices.
\<close>

theorem Pack_Unpack:
  assumes "packable t"
  shows "\<exists>b. Pack t = Ret b \<and> Unpack b = Ret (norms t)"
  using Pack_encs [OF assms] Unpack_encs [OF assms] by blast

theorem Pack_Unpack_witness:
  "\<exists>b. Pack [TString ''a'', TTuple [TNil, TInt64 5], TBytes [0, 1], TBigInt (- (2 ^ 70))] = Ret b
     \<and> Unpack b = Ret (norms [TString ''a'', TTuple [TNil, TInt64 5], TBytes [0, 1], TBigInt (- (2 ^ 70))])"
proof -
  have "magLen (2 ^ 70) \<le> 255" by (rule magLen_le) simp
  then show ?thesis by (intro Pack_Unpack) simp
qed

text \<open>
  Malformed input. \<open>Unpack\<close> is documented to return an error when the key does not
  encode a well-formed tuple; a byte string element without terminator panics instead.
\<close>

lemma Unpack_malformed_panics:
  "Unpack [bytesCode] = Panic sliceOutOfRange \<and> Unpack [stringCode] = Panic sliceOutOfRange
   \<and> Unpack [intZeroCode + 2, 0x01] = Panic sliceOutOfRange"
  by (simp add: Unpack_def decodeTuple_def decodeLoop.simps decodeElement_def decodeString_def decodeBytes_def
      findTerminator_def findTerminatorLoop.simps decodeInt_def type_codes)

end
