(* ===== verification/Tuple_Order.thy ===== *)
theory Tuple_Order
  imports Tuple_Roundtrip
begin

section \<open>The order, injectivity and prefixes of packed tuples\<close>

text \<open>
  The registry relies on three facts of the packed form: different tuples have different keys, a
  range scan over a prefix meets exactly the keys of the longer tuples, and keys sort like tuples.
  The order of tuples is defined on the elements (\<open>elt_less\<close>, \<open>tup_less\<close>) without reference to the
  packed form.
\<close>

subsection \<open>The order of tuples\<close>

fun rank :: "tupleElement \<Rightarrow> nat" where
  "rank TNil = 0"
| "rank (TBytes _) = 1"
| "rank (TKeyConvertible _) = 1"
| "rank (TString _) = 2"
| "rank (TTuple _) = 3"
| "rank (TInt _) = 4"
| "rank (TInt64 _) = 4"
| "rank (TUint _) = 4"
| "rank (TUint64 _) = 4"
| "rank (TBigInt _) = 4"
| "rank (TFloat32 _) = 5"
| "rank (TFloat64 _) = 6"
| "rank (TBool _) = 7"
| "rank (TUUID _) = 8"
| "rank (TVersionstamp _) = 9"
| "rank TOther = 10"

fun intValue :: "tupleElement \<Rightarrow> int" where
  "intValue (TInt i) = sint i"
| "intValue (TInt64 i) = sint i"
| "intValue (TUint i) = uint i"
| "intValue (TUint64 i) = uint i"
| "intValue (TBigInt z) = z"
| "intValue _ = 0"

text \<open>
  IEEE patterns of \<open>n\<close> bytes sort as sign and magnitude: the negative ones below the others, and
  among them the larger magnitude first.
\<close>

definition floatKey :: "nat \<Rightarrow> nat \<Rightarrow> nat" where
  "floatKey n b = (if 2 ^ (8 * n - 1) \<le> b then 256 ^ n - 1 - b else b + 2 ^ (8 * n - 1))"

fun byteString :: "tupleElement \<Rightarrow> bytes" where
  "byteString (TBytes b) = b"
| "byteString (TKeyConvertible b) = b"
| "byteString (TString s) = go_bytes s"
| "byteString (TUUID u) = u"
| "byteString (TVersionstamp v) = versionstampBytes v"
| "byteString _ = []"

fun numKey :: "tupleElement \<Rightarrow> int" where
  "numKey (TFloat32 f) = int (floatKey 4 (unat f))"
| "numKey (TFloat64 f) = int (floatKey 8 (unat f))"
| "numKey (TBool b) = (if b then 1 else 0)"
| "numKey e = intValue e"

definition plain_less :: "tupleElement \<Rightarrow> tupleElement \<Rightarrow> bool" where
  "plain_less e f \<longleftrightarrow> rank e < rank f
     \<or> rank e = rank f \<and> (byteString e < byteString f \<or> numKey e < numKey f)"

fun elt_less :: "tupleElement \<Rightarrow> tupleElement \<Rightarrow> bool"
  and tup_less :: "tuple \<Rightarrow> tuple \<Rightarrow> bool"
where
  "elt_less e f =
     (case e of
        TTuple t \<Rightarrow> (case f of TTuple u \<Rightarrow> tup_less t u | _ \<Rightarrow> plain_less e f)
      | _ \<Rightarrow> plain_less e f)"
| "tup_less [] us = (us \<noteq> [])"
| "tup_less (e # ts) us =
     (case us of [] \<Rightarrow> False
      | f # us' \<Rightarrow> elt_less e f \<or> norm e = norm f \<and> tup_less ts us')"

declare elt_less.simps [simp del]

subsection \<open>Escaped byte strings\<close>

lemma byte_pos: "(x :: byte) \<noteq> 0 \<Longrightarrow> 0 < x"
  by (simp add: word_gt_0)

lemma byte_less_FF: "(x :: byte) \<noteq> 0xFF \<Longrightarrow> x < 0xFF"
proof -
  assume "x \<noteq> 0xFF"
  then have "unat x \<noteq> unat (0xFF :: byte)" using unsigned_word_eqI by blast
  moreover have "unat x < 256" using unsigned_less [of x, where 'a = nat] by simp
  ultimately show ?thesis by (simp add: word_less_nat_alt)
qed

lemma okRest_less: "okRest r \<Longrightarrow> r < 0xFF # t"
  by (cases r) (auto simp: byte_less_FF)

lemma esc_less:
  "s < s' \<Longrightarrow> okRest r \<Longrightarrow> esc s @ 0 # r < esc s' @ 0 # r'"
proof (induction s arbitrary: s')
  case Nil
  then obtain y ys where s': "s' = y # ys" by (cases s') auto
  show ?case
  proof (cases "y = 0")
    case True
    have "r < 0xFF # esc ys @ 0 # r'"
      using Nil(2) by (rule okRest_less)
    with True s' show ?thesis by simp
  qed (simp add: s' byte_pos)
next
  case (Cons x s)
  then obtain y ys where s': "s' = y # ys" by (cases s') auto
  with Cons show ?case by (auto simp: byte_pos)
qed

subsection \<open>Big-endian numbers\<close>

lemma be_bytes_less:
  "a < b \<Longrightarrow> b < 256 ^ n \<Longrightarrow> be_bytes n a @ r < be_bytes n b @ r'"
proof (induction n arbitrary: a b)
  case (Suc n)
  define x y where "x = a div 256 ^ n" and "y = b div 256 ^ n"
  have y: "y < 256" using Suc.prems(2) by (simp add: y_def less_mult_imp_div_less)
  have xy: "x \<le> y" using Suc.prems(1) by (simp add: x_def y_def div_le_mono)
  have ux: "unat (of_nat x :: byte) = x" "unat (of_nat y :: byte) = y"
    using xy y by (simp_all add: unat_of_nat_byte)
  show ?case
  proof (cases "x = y")
    case False
    then have "(of_nat x :: byte) < of_nat y" using xy ux by (simp add: word_less_nat_alt)
    then show ?thesis by (simp add: hd_be_bytes x_def y_def del: be_bytes.simps)
  next
    case True
    have "a mod 256 ^ n < b mod 256 ^ n"
      using Suc.prems(1) True div_mult_mod_eq [of a "256 ^ n"] div_mult_mod_eq [of b "256 ^ n"]
      unfolding x_def y_def by (metis add_less_cancel_left)
    then have "be_bytes n (a mod 256 ^ n) @ r < be_bytes n (b mod 256 ^ n) @ r'"
      by (rule Suc.IH) simp
    moreover have "be_bytes n (v mod 256 ^ n) = be_bytes n v" for v
      by (metis be_bytes_be_val be_val_be_bytes length_be_bytes)
    ultimately show ?thesis using True by (simp add: hd_be_bytes x_def y_def del: be_bytes.simps)
  qed
qed simp

text \<open>The byte that announces a number of \<open>n\<close> bytes, and the length byte of a big one.\<close>

definition posHead :: "nat \<Rightarrow> bytes" where
  "posHead n = (if n > 8 then [posIntEnd, of_nat n] else [intZeroCode + of_nat n])"

definition negHead :: "nat \<Rightarrow> bytes" where
  "negHead n = (if n > 8 then [negIntStart, of_nat n XOR 0xff] else [intZeroCode - of_nat n])"

lemma intEnc_pos_head: "0 \<le> z \<Longrightarrow> intEnc z = posHead (magLen (nat z)) @ be_bytes (magLen (nat z)) (nat z)"
  by (simp add: intEnc_def posHead_def Let_def)

lemma intEnc_neg_head: "z < 0 \<Longrightarrow>
    intEnc z = negHead (magLen (nat (- z)))
      @ be_bytes (magLen (nat (- z))) (256 ^ magLen (nat (- z)) - 1 - nat (- z))"
  by (simp add: intEnc_def negHead_def Let_def)

lemma unat_not_byte: "n \<le> 255 \<Longrightarrow> unat (of_nat n XOR 0xff :: byte) = 255 - n"
proof -
  assume n: "n \<le> 255"
  have ff: "(0xff :: byte) = - 1" by simp
  have "(of_nat n :: byte) XOR 0xff = NOT (of_nat n)" by (simp only: ff bit.xor_one_right)
  also have "\<dots> = - of_nat n - 1" by (rule not_eq_complement)
  also have "\<dots> = of_nat (255 - n)" using n by (simp add: of_nat_diff)
  finally show ?thesis by (simp add: unat_of_nat_byte)
qed

lemma posHead_less: "n < m \<Longrightarrow> m \<le> 255 \<Longrightarrow> posHead n @ r < posHead m @ r'"
  using unat_len_byte [of n] unat_len_byte [of m] unat_pos_code [of n] unat_pos_code [of m]
  by (auto simp: posHead_def word_less_nat_alt posIntEnd_def)

lemma negHead_less: "n < m \<Longrightarrow> m \<le> 255 \<Longrightarrow> negHead m @ r < negHead n @ r'"
  using unat_not_byte [of n] unat_not_byte [of m] unat_neg_code [of n] unat_neg_code [of m]
  by (auto simp: negHead_def word_less_nat_alt negIntStart_def)

lemma neg_posHead_less: "0 < n \<Longrightarrow> negHead n @ r < posHead m @ r'"
  using unat_neg_code [of n] unat_pos_code [of m]
  by (auto simp: posHead_def negHead_def word_less_nat_alt type_codes)

lemma intEnc_less:
  assumes "z < w" "magLen (nat \<bar>z\<bar>) \<le> 255" "magLen (nat \<bar>w\<bar>) \<le> 255"
  shows "intEnc z @ r < intEnc w @ r'"
proof -
  consider "0 \<le> z" | "z < 0" "0 \<le> w" | "w < 0" by linarith
  then show ?thesis
  proof cases
    case 1
    define a b where "a = nat z" and "b = nat w"
    have ab: "a < b" "0 \<le> w" using assms(1) 1 by (simp_all add: a_def b_def)
    have "a < 256 ^ magLen b" using ab(1) magLen_upper [of b] by linarith
    then have "magLen a \<le> magLen b" by (rule magLen_le)
    then consider "magLen a < magLen b" | "magLen a = magLen b" by linarith
    then have "(posHead (magLen a) @ be_bytes (magLen a) a) @ r < (posHead (magLen b) @ be_bytes (magLen b) b) @ r'"
      using posHead_less [of "magLen a" "magLen b"] be_bytes_less [OF ab(1) magLen_upper] assms(3) ab
      by cases (simp_all add: b_def)
    with 1 ab(2) show ?thesis by (simp add: intEnc_pos_head a_def b_def)
  next
    case 2
    have "0 < magLen (nat (- z))" using 2 by (simp add: magLen_pos)
    from neg_posHead_less [OF this] 2 show ?thesis by (simp add: intEnc_neg_head intEnc_pos_head)
  next
    case 3
    define a b where "a = nat (- z)" and "b = nat (- w)"
    have ab: "b < a" "z < 0" using assms(1) 3 by (simp_all add: a_def b_def)
    have up: "a < 256 ^ magLen a" "b < 256 ^ magLen b" by (rule magLen_upper)+
    have "b < 256 ^ magLen a" using ab(1) up(1) by linarith
    then have "magLen b \<le> magLen a" by (rule magLen_le)
    then consider "magLen b < magLen a" | "magLen a = magLen b" by linarith
    then have "(negHead (magLen a) @ be_bytes (magLen a) (256 ^ magLen a - 1 - a)) @ r
        < (negHead (magLen b) @ be_bytes (magLen b) (256 ^ magLen b - 1 - b)) @ r'"
    proof cases
      case 1
      then show ?thesis using negHead_less [of "magLen b" "magLen a"] assms(2) ab by (simp add: a_def)
    next
      case 2
      have "256 ^ magLen a - 1 - a < 256 ^ magLen b - 1 - b" using 2 up ab(1) by simp
      from be_bytes_less [OF this] up(2) 2 show ?thesis by simp
    qed
    with 3 ab(2) show ?thesis by (simp add: intEnc_neg_head a_def b_def)
  qed
qed

subsection \<open>Floating point patterns\<close>

lemma divmod_256: "w = Q * 256 + R \<Longrightarrow> R < 256 \<Longrightarrow> w div 256 = Q \<and> w mod 256 = (R :: nat)"
  by simp

lemma complement_be_bytes:
  "v < 256 ^ n \<Longrightarrow> map (\<lambda>x. x XOR 0xff) (be_bytes n v) = be_bytes n (256 ^ n - 1 - v)"
proof (induction n arbitrary: v)
  case (Suc n)
  define w where "w = 256 ^ Suc n - 1 - v"
  have q: "v div 256 < 256 ^ n" using Suc.prems by (simp add: less_mult_imp_div_less)
  have "w = (256 ^ n - 1 - v div 256) * 256 + (255 - v mod 256)"
  proof -
    have v: "v = v div 256 * 256 + v mod 256" by simp
    have m: "v mod 256 \<le> 255" using mod_less_divisor [of 256 v] by linarith
    have "(256 ^ n - 1 - v div 256) * 256 = 256 ^ n * 256 - 256 - v div 256 * 256"
      by (simp add: diff_mult_distrib)
    moreover have "v div 256 * 256 + 256 \<le> 256 ^ n * 256" using q by (simp add: Suc_leI flip: mult_Suc)
    ultimately show ?thesis using v m unfolding w_def by simp
  qed
  from divmod_256 [OF this]
  have "w div 256 = 256 ^ n - 1 - v div 256" "w mod 256 = 255 - v mod 256" by simp_all
  moreover have "of_nat v XOR 0xff = (of_nat w :: byte)"
  proof -
    have "(of_nat v :: byte) = of_nat (v mod 256)"
      by (rule unsigned_word_eqI [where 'a = nat]) (simp add: unat_of_nat_byte)
    then have "unat (of_nat v XOR 0xff :: byte) = 255 - v mod 256"
      using unat_not_byte [of "v mod 256"] by simp
    with calculation(2) show ?thesis
      by (intro unsigned_word_eqI [where 'a = nat]) (simp add: unat_of_nat_byte)
  qed
  ultimately show ?case using Suc.IH [OF q] by (simp add: w_def)
qed simp

lemma flip_top_be_bytes:
  assumes "v < 128 * 256 ^ n"
  shows "(be_bytes (Suc n) v)[0 := be_bytes (Suc n) v ! 0 XOR 0x80] = be_bytes (Suc n) (v + 128 * 256 ^ n)"
proof -
  define q where "q = v div 256 ^ n"
  have q: "q < 128" using assms by (simp add: q_def less_mult_imp_div_less)
  have "(of_nat q :: byte) XOR 0x80 = of_nat (q + 128)"
  proof -
    have 80: "(0x80 :: byte) = push_bit 7 1" by simp
    have "unat (of_nat q :: byte) < 128" using q by (simp add: unat_of_nat_byte)
    then have "\<not> bit (of_nat q :: byte) 7"
      using high_bit_iff [of "of_nat q"] and_80_iff [of "of_nat q"] by linarith
    then have "(of_nat q :: byte) AND 0x80 = 0" by (rule and_80_iff [THEN iffD2])
    then have "(of_nat q :: byte) XOR 0x80 = of_nat q + 0x80"
      by (metis disjunctive_xor_eq_or disjunctive_add_eq_or)
    then show ?thesis by simp
  qed
  moreover have "(v + 128 * 256 ^ n) div 256 ^ n = q + 128" by (simp add: q_def)
  moreover have "be_bytes n (v + 128 * 256 ^ n) = be_bytes n v"
    by (metis be_bytes_be_val be_val_be_bytes length_be_bytes mod_mult_self1)
  ultimately show ?thesis by (simp add: hd_be_bytes q_def del: be_bytes.simps)
qed

lemma two_power_8: "(2::nat) ^ (8 * Suc n - 1) = 128 * 256 ^ n"
proof -
  have "8 * Suc n - 1 = 8 * n + 7" by simp
  then show ?thesis by (simp add: power_add power_mult)
qed

lemma adjustFloatBytes_key:
  assumes "v < 256 ^ Suc n"
  shows "adjustFloatBytes (be_bytes (Suc n) v) True = be_bytes (Suc n) (floatKey (Suc n) v)"
proof -
  have q: "v div 256 ^ n < 256" using assms by (simp add: less_mult_imp_div_less)
  have "be_bytes (Suc n) v ! 0 = of_nat (v div 256 ^ n)" by (simp add: hd_be_bytes del: be_bytes.simps)
  then have top: "be_bytes (Suc n) v ! 0 AND 0x80 \<noteq> 0 \<longleftrightarrow> 128 * 256 ^ n \<le> v"
    using q by (simp only: high_bit_iff unat_of_nat_byte mod_less)
      (simp add: less_eq_div_iff_mult_less_eq)
  show ?thesis
  proof (cases "128 * 256 ^ n \<le> v")
    case True
    with top complement_be_bytes [OF assms] show ?thesis
      unfolding adjustFloatBytes_def floatKey_def two_power_8 by (simp del: be_bytes.simps power_Suc)
  next
    case False
    with top flip_top_be_bytes [of v n] show ?thesis
      unfolding adjustFloatBytes_def floatKey_def two_power_8 by (simp del: be_bytes.simps power_Suc)
  qed
qed

lemma floatKey_less: "v < 256 ^ Suc n \<Longrightarrow> floatKey (Suc n) v < 256 ^ Suc n"
  unfolding floatKey_def two_power_8 by auto

lemma float_less:
  assumes "floatKey n v < floatKey n w" "v < 256 ^ n" "w < 256 ^ n" "0 < n"
  shows "adjustFloatBytes (be_bytes n v) True @ r < adjustFloatBytes (be_bytes n w) True @ r'"
proof -
  obtain k where n: "n = Suc k" using assms(4) by (cases n) auto
  from be_bytes_less [OF assms(1)] floatKey_less [of w k] assms(2,3)
  show ?thesis by (simp only: n adjustFloatBytes_key)
qed

lemma same_length_less: "length a = length b \<Longrightarrow> (a :: bytes) < b \<Longrightarrow> a @ r < b @ r'"
  by (induction a b rule: list_induct2) auto

subsection \<open>Elements and tuples\<close>

definition codeLo :: "nat list" where
  "codeLo = [0, 1, 2, 5, 11, 32, 33, 38, 48, 51]"

definition codeHi :: "nat list" where
  "codeHi = [0, 1, 2, 5, 29, 32, 33, 39, 48, 51]"

lemma intEnc_code: "\<exists>x xs. intEnc z = x # xs \<and> 11 \<le> unat x \<and> unat x \<le> 29"
proof -
  define n where "n = magLen (nat \<bar>z\<bar>)"
  show ?thesis
    unfolding intEnc_def n_def [symmetric] Let_def
    using unat_pos_code [of n] unat_neg_code [of n] by (auto simp: posIntEnd_def negIntStart_def)
qed

lemma encE_code:
  "packableE e \<Longrightarrow> \<exists>x xs. encE nested e = x # xs \<and> codeLo ! rank e \<le> unat x \<and> unat x \<le> codeHi ! rank e"
  using intEnc_code by (cases e) (auto simp: codeLo_def codeHi_def type_codes)

lemma packable_rank: "packableE e \<Longrightarrow> rank e \<le> 9"
  by (cases e) auto

lemma code_gap: "r < s \<Longrightarrow> s \<le> 9 \<Longrightarrow> codeHi ! r < codeLo ! s"
proof -
  assume a: "r < s" "s \<le> 9"
  then have "s \<in> {1, 2, 3, 4, 5, 6, 7, 8, 9}" "r \<in> {0, 1, 2, 3, 4, 5, 6, 7, 8}" by auto
  with a show ?thesis by (auto simp: codeLo_def codeHi_def)
qed

lemma rank_less: 
  assumes "rank e < rank f" "packableE e" "packableE f"
  shows "encE nested e @ r < encE nested f @ r'"
proof -
  obtain x xs y ys where "encE nested e = x # xs" "encE nested f = y # ys"
    "unat x \<le> codeHi ! rank e" "codeLo ! rank f \<le> unat y"
    using encE_code assms(2,3) by meson
  with code_gap [OF assms(1) packable_rank [OF assms(3)]] show ?thesis
    by (simp add: word_less_nat_alt)
qed

lemma intValue_bound: "packableE e \<Longrightarrow> magLen (nat \<bar>intValue e\<bar>) \<le> 255"
  using magLen_uint by (cases e) (simp_all add: magLen_sint)

lemma encE_int: "rank e = 4 \<Longrightarrow> encE nested e = intEnc (intValue e) \<and> numKey e = intValue e
    \<and> byteString e = []"
  by (cases e) auto

lemma unat_bound: "LENGTH('a::len) = 8 * n \<Longrightarrow> unat (w :: 'a word) < 256 ^ n"
  using unsigned_less [of w, where 'a = nat] by (simp add: power_mult)

lemma float32_less:
  "floatKey 4 (unat a) < floatKey 4 (unat b) \<Longrightarrow>
     adjustFloatBytes (be_bytes 4 (unat (a :: 32 word))) True @ r
     < adjustFloatBytes (be_bytes 4 (unat (b :: 32 word))) True @ r'"
  by (rule float_less) (assumption | rule unat_bound | simp)+

lemma float64_less:
  "floatKey 8 (unat a) < floatKey 8 (unat b) \<Longrightarrow>
     adjustFloatBytes (be_bytes 8 (unat (a :: 64 word))) True @ r
     < adjustFloatBytes (be_bytes 8 (unat (b :: 64 word))) True @ r'"
  by (rule float_less) (assumption | rule unat_bound | simp)+

lemma length_versionstampBytes:
  "length (TransactionVersion v) = 10 \<Longrightarrow> length (versionstampBytes v) = 12"
  by (simp add: versionstampBytes_def)

lemma plain_less_enc:
  assumes less: "plain_less e f" and p: "packableE e" "packableE f" and ok: "okRest r"
  shows "encE nested e @ r < encE nested f @ r'"
proof (cases "rank e < rank f")
  case True
  then show ?thesis by (rule rank_less [OF _ p])
next
  case False
  with less have same: "rank e = rank f" "byteString e < byteString f \<or> numKey e < numKey f"
    by (auto simp: plain_less_def)
  show ?thesis
  proof (cases "rank e = 4")
    case True
    with same encE_int [of e] encE_int [of f] have "intValue e < intValue f" by auto
    from intEnc_less [OF this intValue_bound [OF p(1)] intValue_bound [OF p(2)]]
    show ?thesis using True same encE_int by simp
  next
    case False
    show ?thesis
      using same p False esc_less [OF _ ok]
      by (cases e; cases f) (auto simp: type_codes same_length_less length_versionstampBytes
          float32_less float64_less simp del: be_bytes.simps split: if_splits)
  qed
qed

lemma sint_of_int64: "- (2 ^ 63) \<le> z \<Longrightarrow> z < 2 ^ 63 \<Longrightarrow> sint (of_int z :: 64 word) = z"
  by (simp add: signed_of_int signed_take_bit_int_eq_self)

lemma uint_of_int64: "0 \<le> z \<Longrightarrow> z < 2 ^ 64 \<Longrightarrow> uint (of_int z :: 64 word) = z"
  by (simp add: unsigned_of_int take_bit_int_eq_self)

lemma encE_normInt: "encE nested (normInt z) = intEnc z"
  by (simp add: normInt_def sint_of_int64 uint_of_int64)

lemma encE_norm:
  "encE nested (norm e) = encE nested e"
  "encs nested (norms ts) = encs nested ts"
  by (induction nested e and nested ts rule: encE_encs.induct) (simp_all add: encE_normInt)

lemma norm_eq_enc: "norm e = norm f \<Longrightarrow> encE nested e = encE nested f"
  by (metis encE_norm(1))

lemma nested_end_less:
  assumes "packable us" "us \<noteq> []" "okRest r"
  shows "0 # r < encs True us @ 0 # r'"
proof -
  obtain f us' where us: "us = f # us'" using assms(2) by (cases us) auto
  show ?thesis
  proof (cases "f = TNil")
    case True
    then show ?thesis using okRest_less [OF assms(3)] us by (simp add: nilCode_def)
  next
    case False
    then have "0 < rank f" by (cases f) auto
    with rank_less [of TNil f True "[]"] assms(1) us
    have "[0, 0xff] < encE True f @ encs True us' @ 0 # r'" by (simp add: nilCode_def)
    moreover have "hd (encE True f) \<noteq> 0"
      using encE_hd [of f True] assms(1) us False by (cases f) (auto simp: type_codes)
    ultimately show ?thesis
      using encE_hd [of f True] assms(1) us by (cases "encE True f") (auto simp: byte_pos)
  qed
qed

lemma elt_less_enc:
  "elt_less e f \<Longrightarrow> packableE e \<Longrightarrow> packableE f \<Longrightarrow> okRest r \<Longrightarrow>
     encE nested e @ r < encE nested f @ r'"
  "tup_less ts us \<Longrightarrow> packable ts \<Longrightarrow> packable us \<Longrightarrow> okRest r \<Longrightarrow>
     encs True ts @ 0 # r < encs True us @ 0 # r'"
proof (induction e f and ts us arbitrary: nested r r' and r r' rule: elt_less_tup_less.induct)
  case (1 e f)
  show ?case
  proof (cases "\<exists>t u. e = TTuple t \<and> f = TTuple u")
    case True
    then obtain t u where e: "e = TTuple t" "f = TTuple u" by blast
    with 1 have "encs True t @ 0 # r < encs True u @ 0 # r'" by (simp add: elt_less.simps)
    with e show ?thesis by simp
  next
    case False
    with 1(2) have "plain_less e f" by (auto simp: elt_less.simps split: tupleElement.splits)
    from plain_less_enc [OF this 1(3-5)] show ?thesis .
  qed
next
  case (2 us)
  then show ?case using nested_end_less by simp
next
  case (3 e ts us)
  then obtain f us' where us: "us = f # us'" by (auto split: list.splits)
  have ok: "okRest (encs True ts @ 0 # r)" using 3 by (simp add: okRest_encs)
  from 3(3) us have "elt_less e f \<or> norm e = norm f \<and> tup_less ts us'" by simp
  then show ?case
  proof
    assume "elt_less e f"
    with 3 us ok show ?thesis by simp
  next
    assume a: "norm e = norm f \<and> tup_less ts us'"
    with 3 us have "encs True ts @ 0 # r < encs True us' @ 0 # r'" by simp
    with a us norm_eq_enc [of e f] show ?thesis by simp
  qed
qed

lemma tup_less_enc:
  "tup_less ts us \<Longrightarrow> packable ts \<Longrightarrow> packable us \<Longrightarrow> encs False ts < encs False us"
proof (induction ts arbitrary: us)
  case Nil
  then obtain f us' where "us = f # us'" "packableE f" by (cases us) auto
  with encE_hd [of f False] show ?case by (cases "encE False f") auto
next
  case (Cons e ts)
  then obtain f us' where us: "us = f # us'" by (auto split: list.splits)
  have ok: "okRest (encs False ts)" using Cons okRest_encs [of ts "[]" False] by simp
  from Cons(2) us have "elt_less e f \<or> norm e = norm f \<and> tup_less ts us'" by simp
  then show ?case
  proof
    assume "elt_less e f"
    with Cons us ok show ?thesis by (simp add: elt_less_enc)
  next
    assume "norm e = norm f \<and> tup_less ts us'"
    with Cons us norm_eq_enc [of e f] show ?thesis by simp
  qed
qed

text \<open>
  \<^bold>\<open>C7\<close> (order of packed tuples). The byte strings of two packable tuples sort as the tuples do:
  element by element, a proper prefix first; elements of different types by type, integers by
  value whatever their width, strings and byte strings lexicographically, floating point numbers
  by sign and magnitude, nested tuples recursively.
\<close>

theorem Pack_order:
  assumes "packable t" "packable u" "tup_less t u"
  shows "\<exists>a b. Pack t = Ret a \<and> Pack u = Ret b \<and> a < b"
  using assms tup_less_enc by (auto simp: Pack_encs)

theorem Pack_order_witness:
  "\<exists>a b. Pack [TString ''modules'', TInt 2] = Ret a \<and> Pack [TString ''modules'', TInt 300, TNil] = Ret b \<and> a < b"
  by (rule Pack_order) (simp_all add: elt_less.simps plain_less_def)

subsection \<open>Different tuples have different keys\<close>

lemma encs_inject:
  assumes "packable t" "packable u"
  shows "encs False t = encs False u \<longleftrightarrow> norms t = norms u"
  using Unpack_encs [OF assms(1)] Unpack_encs [OF assms(2)] encE_norm(2)
  by (metis outcome.inject(1))

text \<open>
  Injectivity of \<open>Pack\<close>. Two packable tuples have the same key exactly if they are equal up
  to the integer types, so no two entities of the registry can share a key by accident.
\<close>

lemma Pack_injective:
  assumes "packable t" "packable u"
  shows "Pack t = Pack u \<longleftrightarrow> norms t = norms u"
  using assms by (simp add: Pack_encs encs_inject)

subsection \<open>Prefixes\<close>

lemma esc_prefix:
  "okRest r \<Longrightarrow> prefix (esc s @ 0 # p) (esc s' @ 0 # r) \<longleftrightarrow>
     s = s' \<and> prefix p r \<or> (\<exists>s''. s' = s @ 0 # s'' \<and> prefix p (0xFF # esc s'' @ 0 # r))"
proof (induction s arbitrary: s')
  case Nil
  then show ?case by (cases s') auto
next
  case (Cons x s)
  show ?case
  proof (cases s')
    case Nil
    with Cons.prems show ?thesis by (cases r) auto
  next
    case (Cons y ys)
    with Cons.IH [OF Cons.prems, of ys] show ?thesis by auto
  qed
qed

lemma esc_prefix_inner:
  assumes "okRest r" "okRest p" "p \<noteq> []"
  shows "prefix (esc s @ 0 # p) (esc s' @ 0 # r) \<longleftrightarrow> s = s' \<and> prefix p r"
  using assms(2,3) by (subst esc_prefix [OF assms(1)], cases p) auto

lemma esc_prefix_last:
  assumes "okRest r"
  shows "prefix (esc s @ [0]) (esc s' @ 0 # r) \<longleftrightarrow> s = s' \<or> (\<exists>s''. s' = s @ 0 # s'')"
  using esc_prefix [OF assms, of s "[]" s'] by auto

text \<open>\<open>l\<close> itself, or \<open>l\<close> followed by a NUL byte and more.\<close>

definition nulExt :: "string \<Rightarrow> string \<Rightarrow> bool" where
  "nulExt l s \<longleftrightarrow> s = l \<or> (\<exists>s''. s = l @ CHR 0x00 # s'')"

lemma of_char_eq_0: "of_char c = (0 :: byte) \<longleftrightarrow> c = CHR 0x00"
proof
  assume "of_char c = (0 :: byte)"
  then have "unat (of_char c :: byte) = 0" by simp
  then have "of_char c = (of_char (CHR 0x00) :: nat)" by (simp add: unat_of_char)
  then show "c = CHR 0x00" by (simp only: of_char_eq_iff)
qed simp

lemma nulExt_bytes:
  "nulExt l s \<longleftrightarrow> go_bytes l = go_bytes s \<or> (\<exists>b. go_bytes s = go_bytes l @ 0 # b)"
proof -
  have "(\<exists>b. go_bytes s = go_bytes l @ 0 # b) \<longleftrightarrow> (\<exists>s''. s = l @ CHR 0x00 # s'')"
  proof
    assume "\<exists>b. go_bytes s = go_bytes l @ 0 # b"
    then obtain b where "go_bytes s = go_bytes (l @ CHR 0x00 # go_string b)" by auto
    then show "\<exists>s''. s = l @ CHR 0x00 # s''" by (auto simp only: go_bytes_inject)
  qed auto
  then show ?thesis by (auto simp: nulExt_def)
qed

lemma nulExt_free: "CHR 0x00 \<notin> set s \<Longrightarrow> nulExt l s \<longleftrightarrow> s = l"
  by (auto simp: nulExt_def)

lemma encE_not_string:
  assumes "packableE e" "\<And>s. e \<noteq> TString s"
  shows "\<not> prefix (stringCode # a) (encE nested e @ b) \<and> norm e \<noteq> TString s"
proof -
  have "rank e \<noteq> 2" using assms(2) by (cases e) auto
  moreover from this have "codeHi ! rank e < 2 \<or> 2 < codeLo ! rank e"
  proof -
    have "codeHi ! 2 = 2" "codeLo ! 2 = 2" by (simp_all add: codeLo_def codeHi_def)
    then show ?thesis
      using code_gap [of "rank e" 2] code_gap [of 2 "rank e"] packable_rank [OF assms(1)] \<open>rank e \<noteq> 2\<close>
      by (cases "rank e < 2") simp_all
  qed
  moreover obtain x xs where "encE nested e = x # xs" "codeLo ! rank e \<le> unat x" "unat x \<le> codeHi ! rank e"
    using encE_code [OF assms(1)] by meson
  ultimately have "\<not> prefix (stringCode # a) (encE nested e @ b)" by (auto simp: stringCode_def)
  moreover have "norm e \<noteq> TString s" using assms(2) by (cases e) (auto simp: normInt_def)
  ultimately show ?thesis by simp
qed

lemma encs_strings_ne: "ss \<noteq> [] \<Longrightarrow> encs False (map TString ss) \<noteq> [] \<and> okRest (encs False (map TString ss))"
  by (cases ss) (auto simp: stringCode_def)

lemma packable_strings [simp]: "packable (map TString ss)"
  by (induction ss) auto

lemma norms_strings [simp]: "norms (map TString ss) = map TString ss"
  by (induction ss) auto

lemma encs_prefix:
  "packable u \<Longrightarrow>
   prefix (encs False (map TString (ss @ [l]))) (encs False u) \<longleftrightarrow>
     (\<exists>s v. norms u = map TString ss @ TString s # v \<and> nulExt l s)"
proof (induction ss arbitrary: u)
  case Nil
  show ?case
  proof (cases u)
    case (Cons e us)
    have ok: "okRest (encs False us)" using Nil Cons okRest_encs [of us "[]" False] by simp
    show ?thesis
    proof (cases "\<exists>s. e = TString s")
      case True
      with Cons esc_prefix_last [OF ok, of "go_bytes l"] show ?thesis by (auto simp: nulExt_bytes)
    next
      case False
      with Nil Cons encE_not_string [of e] show ?thesis by auto
    qed
  qed simp
next
  case (Cons s0 ss)
  let ?p = "encs False (map TString (ss @ [l]))"
  show ?case
  proof (cases u)
    case (Cons e us)
    have ok: "okRest (encs False us)" using Cons.prems Cons okRest_encs [of us "[]" False] by simp
    show ?thesis
    proof (cases "\<exists>s. e = TString s")
      case True
      then obtain s where e: "e = TString s" by blast
      have "prefix (encs False (map TString ((s0 # ss) @ [l]))) (encs False u)
          \<longleftrightarrow> s0 = s \<and> prefix ?p (encs False us)"
        using esc_prefix_inner [OF ok, of ?p "go_bytes s0" "go_bytes s"]
          encs_strings_ne [of "ss @ [l]"] Cons e by simp
      with Cons.IH [of us] Cons.prems Cons e show ?thesis by auto
    next
      case False
      with Cons.prems Cons encE_not_string [of e] show ?thesis by auto
    qed
  qed simp
qed

text \<open>
  Prefix scans. The keys below the key of a tuple of strings are exactly the keys of the
  tuples that start with these strings, except that the last string may be continued by a NUL
  byte: a scan is exact as long as identifiers contain no NUL.
\<close>

lemma Pack_prefix:
  assumes "packable u"
  shows "\<exists>a b. Pack (map TString (ss @ [l])) = Ret a \<and> Pack u = Ret b
     \<and> (prefix a b \<longleftrightarrow> (\<exists>s v. norms u = map TString ss @ TString s # v \<and> nulExt l s))"
  using encs_prefix [OF assms] assms packable_strings [of "ss @ [l]"]
  by (intro exI [of _ "encs False (map TString (ss @ [l]))"] exI [of _ "encs False u"])
    (simp add: Pack_encs del: map_append)

end
