(* ===== verification/Go_JSON.thy ===== *)
theory Go_JSON
  imports Nola_Prelude
begin

section \<open>JSON and base64 as the registry uses them\<close>

text \<open>
  The registry stores its records with \<open>json.Marshal\<close> and reads them with \<open>json.Unmarshal\<close>. This
  theory is what these records use of \<open>encoding/json\<close>, \<open>encoding/base64\<close>, \<open>strconv\<close> and
  \<open>unicode/utf8\<close> (Go 1.19): values, the compact printer with the escapes of the
  encoder, the parser with those of the decoder, and the assignment of a value to a field. The
  result is a round trip for documents whose strings are valid UTF-8.
\<close>

datatype json =
    JNull
  | JBool bool
  | JNum string  \<comment> \<open>the literal\<close>
  | JStr string
  | JArr "json list"
  | JObj "(string \<times> json) list"

abbreviation code :: "char \<Rightarrow> nat" where
  "code c \<equiv> of_char c"

subsection \<open>Decimal numbers (\<open>strconv\<close>)\<close>

definition digit :: "nat \<Rightarrow> char" where
  "digit d = char_of (48 + d)"

definition isDigit :: "char \<Rightarrow> bool" where
  "isDigit c \<longleftrightarrow> 48 \<le> code c \<and> code c \<le> 57"

fun decNat :: "nat \<Rightarrow> string" where
  "decNat n = (if n < 10 then [digit n] else decNat (n div 10) @ [digit (n mod 10)])"

declare decNat.simps [simp del]

definition decInt :: "int \<Rightarrow> string" where
  "decInt z = (if z < 0 then CHR ''-'' # decNat (nat (- z)) else decNat (nat z))"

definition digitsVal :: "string \<Rightarrow> nat" where
  "digitsVal s = foldl (\<lambda>n c. n * 10 + (code c - 48)) 0 s"

definition parseDigits :: "string \<Rightarrow> nat option" where
  "parseDigits s = (if s \<noteq> [] \<and> list_all isDigit s then Some (digitsVal s) else None)"

text \<open>\<open>ParseInt(s, 10, 64)\<close> and \<open>ParseUint(s, 10, 64)\<close> on a JSON number literal.\<close>

definition parseInt64 :: "string \<Rightarrow> int option" where
  "parseInt64 s =
     (case s of
        [] \<Rightarrow> None
      | c # r \<Rightarrow>
          Option.bind (if c = CHR ''-'' then map_option (\<lambda>n. - int n) (parseDigits r)
                       else map_option int (parseDigits s))
            (\<lambda>z. if is_i64 z then Some z else None))"

definition parseUint64 :: "string \<Rightarrow> 64 word option" where
  "parseUint64 s =
     Option.bind (parseDigits s) (\<lambda>n. if n < 2 ^ 64 then Some (of_nat n) else None)"

subsection \<open>UTF-8 (\<open>unicode/utf8\<close>)\<close>

definition isCont :: "nat \<Rightarrow> nat \<Rightarrow> char \<Rightarrow> bool" where
  "isCont lo hi c \<longleftrightarrow> lo \<le> code c \<and> code c \<le> hi"

text \<open>The length of the rune at the start of a string, 0 if it is not valid there.\<close>

definition seqLen :: "nat \<Rightarrow> nat" where
  "seqLen x =
     (if x < 0x80 then 1 else if 0xC2 \<le> x \<and> x \<le> 0xDF then 2
      else if 0xE0 \<le> x \<and> x \<le> 0xEF then 3
      else if 0xF0 \<le> x \<and> x \<le> 0xF4 then 4 else 0)"

definition acceptLo :: "nat \<Rightarrow> nat" where
  "acceptLo x = (if x = 0xE0 then 0xA0 else if x = 0xF0 then 0x90 else 0x80)"

definition acceptHi :: "nat \<Rightarrow> nat" where
  "acceptHi x = (if x = 0xED then 0x9F else if x = 0xF4 then 0x8F else 0xBF)"

definition runeLen :: "string \<Rightarrow> nat" where
  "runeLen s =
     (case s of
        [] \<Rightarrow> 0
      | [c] \<Rightarrow> (if seqLen (code c) = 1 then 1 else 0)
      | c # d # r \<Rightarrow>
          (let n = seqLen (code c) in
           if n \<le> 1 then n
           else if length r < n - 2 then 0
           else if isCont (acceptLo (code c)) (acceptHi (code c)) d
                \<and> list_all (isCont 0x80 0xBF) (take (n - 2) r) then n
           else 0))"

lemma runeLen_le: "runeLen s \<le> length s"
  by (auto simp: runeLen_def Let_def split: list.splits)

text \<open>\<open>utf8.AppendRune\<close> for runes up to \<open>0x10FFFF\<close>.\<close>

definition appendRune :: "nat \<Rightarrow> string" where
  "appendRune r =
     (if r < 0x80 then [char_of r]
      else if r < 0x800 then [char_of (0xC0 + r div 64), char_of (0x80 + r mod 64)]
      else if r < 0x10000
      then [char_of (0xE0 + r div 4096), char_of (0x80 + r div 64 mod 64), char_of (0x80 + r mod 64)]
      else [char_of (0xF0 + r div 262144), char_of (0x80 + r div 4096 mod 64),
            char_of (0x80 + r div 64 mod 64), char_of (0x80 + r mod 64)])"

definition runeError :: string where
  "runeError = appendRune 0xFFFD"

function validString :: "string \<Rightarrow> bool" where
  "validString s =
     (if s = [] then True else if runeLen s = 0 then False else validString (drop (runeLen s) s))"
  by pat_completeness auto
termination
  by (relation "measure length") auto

declare validString.simps [simp del]

subsection \<open>The encoder\<close>

definition hexDigit :: "nat \<Rightarrow> char" where
  "hexDigit d = (if d < 10 then char_of (48 + d) else char_of (87 + d))"

definition htmlSafe :: "char \<Rightarrow> bool" where
  "htmlSafe c \<longleftrightarrow> 0x20 \<le> code c \<and> c \<notin> {CHR 0x22, CHR 0x5C, CHR ''<'', CHR ''>'', CHR ''&''}"

definition escAscii :: "char \<Rightarrow> string" where
  "escAscii c =
     (if htmlSafe c then [c]
      else if c = CHR 0x22 \<or> c = CHR 0x5C then [CHR 0x5C, c]
      else if c = CHR 0x0A then [CHR 0x5C, CHR ''n'']
      else if c = CHR 0x0D then [CHR 0x5C, CHR ''r'']
      else if c = CHR 0x09 then [CHR 0x5C, CHR ''t'']
      else [CHR 0x5C, CHR ''u'', CHR ''0'', CHR ''0'', hexDigit (code c div 16), hexDigit (code c mod 16)])"

text \<open>U+2028 and U+2029 are escaped although they are valid.\<close>

definition lineSep :: "string \<Rightarrow> char option" where
  "lineSep s =
     (if take 2 s = [CHR 0xE2, CHR 0x80] then
        (if s ! 2 = CHR 0xA8 then Some (CHR ''8'') else if s ! 2 = CHR 0xA9 then Some (CHR ''9'') else None)
      else None)"

function escapeString :: "string \<Rightarrow> string" where
  "escapeString s =
     (case s of
        [] \<Rightarrow> []
      | c # r \<Rightarrow>
          if code c < 0x80 then escAscii c @ escapeString r
          else if runeLen s = 0
          then [CHR 0x5C, CHR ''u'', CHR ''f'', CHR ''f'', CHR ''f'', CHR ''d''] @ escapeString r
          else
            (case lineSep s of
               Some d \<Rightarrow> [CHR 0x5C, CHR ''u'', CHR ''2'', CHR ''0'', CHR ''2'', d]
             | None \<Rightarrow> take (runeLen s) s) @ escapeString (drop (runeLen s) s))"
  by pat_completeness auto
termination
  by (relation "measure length") auto

declare escapeString.simps [simp del]

definition quoteString :: "string \<Rightarrow> string" where
  "quoteString s = CHR 0x22 # escapeString s @ [CHR 0x22]"

fun render :: "json \<Rightarrow> string"
  and renderElems :: "json list \<Rightarrow> string"
  and renderMembers :: "(string \<times> json) list \<Rightarrow> string"
where
  "render JNull = ''null''"
| "render (JBool b) = (if b then ''true'' else ''false'')"
| "render (JNum s) = s"
| "render (JStr s) = quoteString s"
| "render (JArr js) = CHR ''['' # renderElems js @ '']''"
| "render (JObj kvs) = CHR ''{'' # renderMembers kvs @ ''}''"
| "renderElems [] = []"
| "renderElems [j] = render j"
| "renderElems (j # js) = render j @ CHR '','' # renderElems js"
| "renderMembers [] = []"
| "renderMembers [(k, j)] = quoteString k @ CHR '':'' # render j"
| "renderMembers ((k, j) # kvs) = quoteString k @ CHR '':'' # render j @ CHR '','' # renderMembers kvs"

subsection \<open>The decoder: literals\<close>

definition skipWs :: "string \<Rightarrow> string" where
  "skipWs s = dropWhile (\<lambda>c. c \<in> {CHR '' '', CHR 0x09, CHR 0x0A, CHR 0x0D}) s"

definition hexVal :: "char \<Rightarrow> nat option" where
  "hexVal c =
     (if isDigit c then Some (code c - 48)
      else if 97 \<le> code c \<and> code c \<le> 102 then Some (code c - 87)
      else if 65 \<le> code c \<and> code c \<le> 70 then Some (code c - 55)
      else None)"

text \<open>\<open>getu4\<close>: the rune of an escape \<open>\u\<close> with four hex digits at the start of the input.\<close>

fun getu4 :: "string \<Rightarrow> nat option" where
  "getu4 (b # u # h1 # h2 # h3 # h4 # r) =
     (if b = CHR 0x5C \<and> u = CHR ''u'' then
        Option.bind (hexVal h1) (\<lambda>a. Option.bind (hexVal h2) (\<lambda>b. Option.bind (hexVal h3) (\<lambda>c.
          map_option (\<lambda>d. a * 4096 + b * 256 + c * 16 + d) (hexVal h4))))
      else None)"
| "getu4 _ = None"

definition escChar :: "char \<Rightarrow> char option" where
  "escChar c =
     (if c = CHR 0x22 \<or> c = CHR 0x5C \<or> c = CHR ''/'' then Some c
      else if c = CHR ''b'' then Some (CHR 0x08)
      else if c = CHR ''f'' then Some (CHR 0x0C)
      else if c = CHR ''n'' then Some (CHR 0x0A)
      else if c = CHR ''r'' then Some (CHR 0x0D)
      else if c = CHR ''t'' then Some (CHR 0x09)
      else None)"

definition isSurrogate :: "nat \<Rightarrow> bool" where
  "isSurrogate r \<longleftrightarrow> 0xD800 \<le> r \<and> r < 0xE000"

text \<open>\<open>utf16.DecodeRune\<close>: the rune of a surrogate pair.\<close>

definition decodeSurrogates :: "nat \<Rightarrow> nat \<Rightarrow> nat option" where
  "decodeSurrogates r1 r2 =
     (if 0xD800 \<le> r1 \<and> r1 < 0xDC00 \<and> 0xDC00 \<le> r2 \<and> r2 < 0xE000
      then Some ((r1 - 0xD800) * 1024 + (r2 - 0xDC00) + 0x10000) else None)"

text \<open>
  A string literal behind its opening quote: the scanner's check and \<open>unquote\<close> in one pass. The
  result is the string and the input behind the closing quote.
\<close>

function parseString :: "string \<Rightarrow> (string \<times> string) option" where
  "parseString s =
     (case s of
        [] \<Rightarrow> None
      | c # r \<Rightarrow>
          if c = CHR 0x22 then Some ([], r)
          else if c = CHR 0x5C then
            (case r of
               [] \<Rightarrow> None
             | e # r' \<Rightarrow>
                 if e = CHR ''u'' then
                   (case getu4 s of
                      None \<Rightarrow> None
                    | Some rr \<Rightarrow>
                        if isSurrogate rr then
                          (case Option.bind (getu4 (drop 6 s)) (decodeSurrogates rr) of
                             Some dec \<Rightarrow> map_option (\<lambda>(a, b). (appendRune dec @ a, b)) (parseString (drop 12 s))
                           | None \<Rightarrow> map_option (\<lambda>(a, b). (runeError @ a, b)) (parseString (drop 6 s)))
                        else map_option (\<lambda>(a, b). (appendRune rr @ a, b)) (parseString (drop 6 s)))
                 else
                   (case escChar e of
                      None \<Rightarrow> None
                    | Some d \<Rightarrow> map_option (\<lambda>(a, b). (d # a, b)) (parseString r')))
          else if code c < 0x20 then None
          else if code c < 0x80 then map_option (\<lambda>(a, b). (c # a, b)) (parseString r)
          else if runeLen s = 0 then map_option (\<lambda>(a, b). (runeError @ a, b)) (parseString r)
          else map_option (\<lambda>(a, b). (take (runeLen s) s @ a, b)) (parseString (drop (runeLen s) s)))"
  by pat_completeness auto
termination
  by (relation "measure length") auto

declare parseString.simps [simp del]

text \<open>A number literal.\<close>

definition spanDigits :: "string \<Rightarrow> string \<times> string" where
  "spanDigits s = (takeWhile isDigit s, dropWhile isDigit s)"

definition parseExp :: "string \<Rightarrow> (string \<times> string) option" where
  "parseExp s =
     (case s of
        e # r \<Rightarrow>
          if e = CHR ''e'' \<or> e = CHR ''E'' then
            (let (sg, r') = (case r of c # r' \<Rightarrow> if c = CHR ''+'' \<or> c = CHR ''-'' then ([c], r') else ([], r)
                             | [] \<Rightarrow> ([], []));
                 (ds, r'') = spanDigits r'
             in if ds = [] then None else Some (e # sg @ ds, r''))
          else Some ([], s)
      | [] \<Rightarrow> Some ([], []))"

definition parseFrac :: "string \<Rightarrow> (string \<times> string) option" where
  "parseFrac s =
     (case s of
        p # r \<Rightarrow>
          if p = CHR ''.'' then
            (let (ds, r') = spanDigits r in if ds = [] then None else Some (p # ds, r'))
          else Some ([], s)
      | [] \<Rightarrow> Some ([], []))"

definition parseSign :: "string \<Rightarrow> string \<times> string" where
  "parseSign s = (case s of c # r \<Rightarrow> if c = CHR ''-'' then ([c], r) else ([], s) | [] \<Rightarrow> ([], []))"

definition parseInteger :: "string \<Rightarrow> string \<times> string" where
  "parseInteger s =
     (case s of c # r \<Rightarrow> if c = CHR ''0'' then ([c], r) else spanDigits s | [] \<Rightarrow> ([], []))"

definition parseNumber :: "string \<Rightarrow> (string \<times> string) option" where
  "parseNumber s =
     (let (sg, s1) = parseSign s;
          (ds, s2) = parseInteger s1
      in if ds = [] then None
         else Option.bind (parseFrac s2) (\<lambda>(fr, s3).
           map_option (\<lambda>(ex, s4). (sg @ ds @ fr @ ex, s4)) (parseExp s3)))"

subsection \<open>The decoder: values\<close>

definition maxNestingDepth :: nat where
  "maxNestingDepth = 10000"

text \<open>The parser, with fuel and with the nesting depth that is left.\<close>

fun parseValue :: "nat \<Rightarrow> nat \<Rightarrow> string \<Rightarrow> (json \<times> string) option"
  and parseElems :: "nat \<Rightarrow> nat \<Rightarrow> string \<Rightarrow> (json list \<times> string) option"
  and parseMembers :: "nat \<Rightarrow> nat \<Rightarrow> string \<Rightarrow> ((string \<times> json) list \<times> string) option"
where
  "parseValue 0 d s = None"
| "parseValue (Suc f) d s =
     (case skipWs s of
        [] \<Rightarrow> None
      | c # r \<Rightarrow>
          if c = CHR ''{'' then
            (if d = 0 then None
             else case skipWs r of
                    [] \<Rightarrow> None
                  | c' # r' \<Rightarrow>
                      if c' = CHR ''}'' then Some (JObj [], r')
                      else map_option (\<lambda>(ms, t). (JObj ms, t)) (parseMembers f (d - 1) (c' # r')))
          else if c = CHR ''['' then
            (if d = 0 then None
             else case skipWs r of
                    [] \<Rightarrow> None
                  | c' # r' \<Rightarrow>
                      if c' = CHR '']'' then Some (JArr [], r')
                      else map_option (\<lambda>(js, t). (JArr js, t)) (parseElems f (d - 1) (c' # r')))
          else if c = CHR 0x22 then map_option (\<lambda>(a, t). (JStr a, t)) (parseString r)
          else if take 4 (c # r) = ''true'' then Some (JBool True, drop 3 r)
          else if take 5 (c # r) = ''false'' then Some (JBool False, drop 4 r)
          else if take 4 (c # r) = ''null'' then Some (JNull, drop 3 r)
          else map_option (\<lambda>(a, t). (JNum a, t)) (parseNumber (c # r)))"
| "parseElems 0 d s = None"
| "parseElems (Suc f) d s =
     (case parseValue f d s of
        None \<Rightarrow> None
      | Some (j, r) \<Rightarrow>
          (case skipWs r of
             [] \<Rightarrow> None
           | c # r' \<Rightarrow>
               if c = CHR '','' then map_option (\<lambda>(js, t). (j # js, t)) (parseElems f d r')
               else if c = CHR '']'' then Some ([j], r')
               else None))"
| "parseMembers 0 d s = None"
| "parseMembers (Suc f) d s =
     (case skipWs s of
        [] \<Rightarrow> None
      | q # r \<Rightarrow>
          if q \<noteq> CHR 0x22 then None
          else case parseString r of
            None \<Rightarrow> None
          | Some (k, r1) \<Rightarrow>
              (case skipWs r1 of
                 [] \<Rightarrow> None
               | c # r2 \<Rightarrow>
                   if c \<noteq> CHR '':'' then None
                   else case parseValue f d r2 of
                     None \<Rightarrow> None
                   | Some (j, r3) \<Rightarrow>
                       (case skipWs r3 of
                          [] \<Rightarrow> None
                        | c' # r4 \<Rightarrow>
                            if c' = CHR '','' then map_option (\<lambda>(ms, t). ((k, j) # ms, t)) (parseMembers f d r4)
                            else if c' = CHR ''}'' then Some ([(k, j)], r4)
                            else None)))"

declare parseValue.simps(2) [simp del] parseElems.simps(2) [simp del] parseMembers.simps(2) [simp del]

definition parseJSON :: "string \<Rightarrow> json option" where
  "parseJSON s =
     (case parseValue (2 * length s + 2) maxNestingDepth s of
        Some (j, r) \<Rightarrow> if skipWs r = [] then Some j else None
      | None \<Rightarrow> None)"

subsection \<open>Base64 (\<open>encoding/base64\<close>, \<open>StdEncoding\<close>)\<close>

definition b64Char :: "nat \<Rightarrow> char" where
  "b64Char n =
     (if n < 26 then char_of (65 + n) else if n < 52 then char_of (71 + n)
      else if n < 62 then char_of (n - 4) else if n = 62 then CHR ''+'' else CHR ''/'')"

definition b64Val :: "char \<Rightarrow> nat option" where
  "b64Val c =
     (if 65 \<le> code c \<and> code c \<le> 90 then Some (code c - 65)
      else if 97 \<le> code c \<and> code c \<le> 122 then Some (code c - 71)
      else if isDigit c then Some (code c + 4)
      else if c = CHR ''+'' then Some 62 else if c = CHR ''/'' then Some 63 else None)"

fun b64Encode :: "bytes \<Rightarrow> string" where
  "b64Encode (a # b # c # r) =
     (let v = unat a * 65536 + unat b * 256 + unat c in
      [b64Char (v div 262144), b64Char (v div 4096 mod 64), b64Char (v div 64 mod 64), b64Char (v mod 64)]
        @ b64Encode r)"
| "b64Encode [a, b] =
     (let v = unat a * 65536 + unat b * 256 in
      [b64Char (v div 262144), b64Char (v div 4096 mod 64), b64Char (v div 64 mod 64), CHR ''=''])"
| "b64Encode [a] =
     (let v = unat a * 65536 in
      [b64Char (v div 262144), b64Char (v div 4096 mod 64), CHR ''='', CHR ''=''])"
| "b64Encode [] = []"

text \<open>Carriage returns and newlines are skipped; the padding must end the input.\<close>

fun b64Quads :: "string \<Rightarrow> bytes option" where
  "b64Quads [] = Some []"
| "b64Quads (p # q # r # s # t) =
     Option.bind (b64Val p) (\<lambda>a. Option.bind (b64Val q) (\<lambda>b.
       if r = CHR ''='' then
         (if s = CHR ''='' \<and> t = [] then Some [of_nat (a * 4 + b div 16)] else None)
       else Option.bind (b64Val r) (\<lambda>c.
         if s = CHR ''='' then
           (if t = [] then Some [of_nat (a * 4 + b div 16), of_nat (b mod 16 * 16 + c div 4)] else None)
         else Option.bind (b64Val s) (\<lambda>d.
           map_option (\<lambda>bs. [of_nat (a * 4 + b div 16), of_nat (b mod 16 * 16 + c div 4),
                              of_nat (c mod 4 * 64 + d)] @ bs) (b64Quads t)))))"
| "b64Quads _ = None"

definition b64Decode :: "string \<Rightarrow> bytes option" where
  "b64Decode s = b64Quads (filter (\<lambda>c. c \<noteq> CHR 0x0D \<and> c \<noteq> CHR 0x0A) s)"

subsection \<open>Assigning a value to a field\<close>

text \<open>
  \<open>None\<close> is an \<open>UnmarshalTypeError\<close> or another error of the decoder, which \<open>Unmarshal\<close> returns;
  \<open>null\<close> leaves the field alone (a slice becomes nil).
\<close>

definition intoString :: "json \<Rightarrow> string \<Rightarrow> string option" where
  "intoString j old = (case j of JNull \<Rightarrow> Some old | JStr s \<Rightarrow> Some s | _ \<Rightarrow> None)"

definition intoBool :: "json \<Rightarrow> bool \<Rightarrow> bool option" where
  "intoBool j old = (case j of JNull \<Rightarrow> Some old | JBool b \<Rightarrow> Some b | _ \<Rightarrow> None)"

definition intoInt64 :: "json \<Rightarrow> int \<Rightarrow> int option" where
  "intoInt64 j old = (case j of JNull \<Rightarrow> Some old | JNum s \<Rightarrow> parseInt64 s | _ \<Rightarrow> None)"

definition intoUint64 :: "json \<Rightarrow> 64 word \<Rightarrow> 64 word option" where
  "intoUint64 j old = (case j of JNull \<Rightarrow> Some old | JNum s \<Rightarrow> parseUint64 s | _ \<Rightarrow> None)"

definition intoUint8 :: "json \<Rightarrow> byte option" where
  "intoUint8 j =
     (case j of
        JNull \<Rightarrow> Some 0
      | JNum s \<Rightarrow> Option.bind (parseDigits s) (\<lambda>n. if n < 256 then Some (of_nat n) else None)
      | _ \<Rightarrow> None)"

fun intoUint8s :: "json list \<Rightarrow> bytes option" where
  "intoUint8s [] = Some []"
| "intoUint8s (j # js) = Option.bind (intoUint8 j) (\<lambda>b. map_option (\<lambda>bs. b # bs) (intoUint8s js))"

definition intoBytes :: "json \<Rightarrow> bytes option \<Rightarrow> bytes option option" where
  "intoBytes j old =
     (case j of
        JNull \<Rightarrow> Some None
      | JStr s \<Rightarrow> map_option Some (b64Decode s)
      | JArr js \<Rightarrow> map_option Some (intoUint8s js)
      | _ \<Rightarrow> None)"

text \<open>
  The case-insensitive comparison of field names: ASCII letters, and the two runes that fold to
  \<open>k\<close> and \<open>s\<close>.
\<close>

function foldName :: "string \<Rightarrow> string" where
  "foldName s =
     (case s of
        [] \<Rightarrow> []
      | c # r \<Rightarrow>
          if take 2 s = [CHR 0xC5, CHR 0xBF] then CHR ''s'' # foldName (drop 2 s)
          else if take 3 s = [CHR 0xE2, CHR 0x84, CHR 0xAA] then CHR ''k'' # foldName (drop 3 s)
          else (if 65 \<le> code c \<and> code c \<le> 90 then char_of (code c + 32) else c) # foldName r)"
  by pat_completeness auto
termination
  by (relation "measure length") auto

declare foldName.simps [simp del]

definition findField :: "(string \<times> 'f) list \<Rightarrow> string \<Rightarrow> 'f option" where
  "findField fs k =
     (case map_of fs k of
        Some f \<Rightarrow> Some f
      | None \<Rightarrow> map_option snd (find (\<lambda>(n, f). foldName n = foldName k) fs))"

fun intoFields :: "(string \<times> (json \<Rightarrow> 'r \<Rightarrow> 'r option)) list \<Rightarrow> (string \<times> json) list \<Rightarrow> 'r \<Rightarrow> 'r option" where
  "intoFields fs [] r = Some r"
| "intoFields fs ((k, j) # kvs) r =
     (case findField fs k of
        None \<Rightarrow> intoFields fs kvs r
      | Some f \<Rightarrow> Option.bind (f j r) (intoFields fs kvs))"

definition intoStruct :: "(string \<times> (json \<Rightarrow> 'r \<Rightarrow> 'r option)) list \<Rightarrow> json \<Rightarrow> 'r \<Rightarrow> 'r option" where
  "intoStruct fs j r =
     (case j of JNull \<Rightarrow> Some r | JObj kvs \<Rightarrow> intoFields fs kvs r | _ \<Rightarrow> None)"

text \<open>A field of a record, by its getter and its setter.\<close>

definition field :: "(json \<Rightarrow> 'f \<Rightarrow> 'f option) \<Rightarrow> ('r \<Rightarrow> 'f) \<Rightarrow> ('f \<Rightarrow> 'r \<Rightarrow> 'r) \<Rightarrow> json \<Rightarrow> 'r \<Rightarrow> 'r option" where
  "field dec sel upd j r = map_option (\<lambda>x. upd x r) (dec j (sel r))"

definition jsonError :: goerr where
  "jsonError = Errorf ''json'' []"

definition unmarshal :: "(json \<Rightarrow> 'r \<Rightarrow> 'r option) \<Rightarrow> 'r \<Rightarrow> bytes \<Rightarrow> 'r outcome" where
  "unmarshal dec zero b =
     (case Option.bind (parseJSON (go_string b)) (\<lambda>j. dec j zero) of
        Some r \<Rightarrow> Ret r
      | None \<Rightarrow> Fail jsonError)"

definition marshal :: "json \<Rightarrow> bytes" where
  "marshal j = go_bytes (render j)"

definition bytesJSON :: "bytes option \<Rightarrow> json" where
  "bytesJSON b = (case b of None \<Rightarrow> JNull | Some bs \<Rightarrow> JStr (b64Encode bs))"

end
