(* ===== verification/Go_JSON_Roundtrip.thy ===== *)
theory Go_JSON_Roundtrip
  imports Go_JSON
begin

section \<open>The JSON round trip\<close>

text \<open>
  What the encoder writes the decoder reads back: string literals of valid UTF-8, decimal numbers,
  base64, and values built from them.
\<close>

subsection \<open>Strings\<close>

lemma hexVal_hexDigit: "d < 16 \<Longrightarrow> hexVal (hexDigit d) = Some d"
  by (auto simp: hexVal_def hexDigit_def isDigit_def)

lemma code_less: "code c < 256"
  by (rule nat_of_char_less_256)

lemma char_eq_code: "c = d \<longleftrightarrow> code c = code d"
  by (simp only: of_char_eq_iff)

lemma appendRune_ascii: "code c < 128 \<Longrightarrow> appendRune (code c) = [c]"
  by (simp add: appendRune_def)

lemma validString_Cons:
  "validString (c # r) \<Longrightarrow> 0 < runeLen (c # r) \<and> validString (drop (runeLen (c # r)) (c # r))"
  by (subst (asm) validString.simps) (auto split: if_splits)

lemma lineSep_chars:
  "char_of (226 :: nat) = CHR 0xE2" "char_of (128 :: nat) = CHR 0x80" "char_of (168 :: nat) = CHR 0xA8"
  "char_of (169 :: nat) = CHR 0xA9"
proof -
  have "code (CHR 0xE2) = 226" "code (CHR 0x80) = 128" "code (CHR 0xA8) = 168" "code (CHR 0xA9) = 169"
    by simp_all
  then show "char_of (226 :: nat) = CHR 0xE2" "char_of (128 :: nat) = CHR 0x80"
    "char_of (168 :: nat) = CHR 0xA8" "char_of (169 :: nat) = CHR 0xA9"
    by (metis char_of_char)+
qed

text \<open>A prefix that decodes to \<open>u\<close> in front of a string that decodes to \<open>a\<close>.\<close>

definition readsAs :: "string \<Rightarrow> string \<Rightarrow> bool" where
  "readsAs p u \<longleftrightarrow> (\<forall>s a b. parseString s = Some (a, b) \<longrightarrow> parseString (p @ s) = Some (u @ a, b))"

lemma readsAsD:
  "readsAs p u \<Longrightarrow> parseString s = Some (a, b) \<Longrightarrow> parseString (p @ s) = Some (u @ a, b)"
  by (simp add: readsAs_def)

lemma readsAs_plain: "0x20 \<le> code c \<Longrightarrow> code c < 0x80 \<Longrightarrow> c \<noteq> CHR 0x22 \<Longrightarrow> c \<noteq> CHR 0x5C \<Longrightarrow> readsAs [c] [c]"
  unfolding readsAs_def by (subst (2) parseString.simps) simp

lemma readsAs_esc: "e \<noteq> CHR ''u'' \<Longrightarrow> escChar e = Some d \<Longrightarrow> readsAs [CHR 0x5C, e] [d]"
  unfolding readsAs_def by (subst (2) parseString.simps) simp

lemma readsAs_u:
  assumes "hexVal a = Some w" "hexVal b = Some x" "hexVal c = Some y" "hexVal d = Some z"
    and "r = w * 4096 + x * 256 + y * 16 + z" "\<not> isSurrogate r"
  shows "readsAs [CHR 0x5C, CHR ''u'', a, b, c, d] (appendRune r)"
  unfolding readsAs_def using assms by (subst (2) parseString.simps) simp

lemma readsAs_escAscii: "code c < 0x80 \<Longrightarrow> readsAs (escAscii c) [c]"
proof -
  assume c: "code c < 0x80"
  consider "htmlSafe c" | "\<not> htmlSafe c" "c \<in> {CHR 0x22, CHR 0x5C, CHR 0x0A, CHR 0x0D, CHR 0x09}"
    | "\<not> htmlSafe c" "c \<notin> {CHR 0x22, CHR 0x5C, CHR 0x0A, CHR 0x0D, CHR 0x09}" by blast
  then show ?thesis
  proof cases
    case 1
    then show ?thesis using c readsAs_plain [of c] by (auto simp: escAscii_def htmlSafe_def)
  next
    case 2
    then show ?thesis using c by (auto simp: escAscii_def escChar_def intro!: readsAs_esc)
  next
    case 3
    have "hexVal (CHR ''0'') = Some 0" by (simp add: hexVal_def isDigit_def)
    moreover have "code c div 16 < 16" using c by simp
    moreover have "code c = 0 * 4096 + 0 * 256 + code c div 16 * 16 + code c mod 16"
      by (simp only: mult_0 add_0 div_mult_mod_eq)
    ultimately have "readsAs [CHR 0x5C, CHR ''u'', CHR ''0'', CHR ''0'', hexDigit (code c div 16), hexDigit (code c mod 16)]
        (appendRune (code c))"
      using c by (intro readsAs_u) (assumption | simp add: hexVal_hexDigit isSurrogate_def)+
    with 3 c show ?thesis by (auto simp: escAscii_def appendRune_ascii)
  qed
qed

lemma runeLen_take:
  assumes "0 < runeLen s"
  shows "runeLen (take (runeLen s) s @ t) = runeLen s"
proof -
  obtain c r where s: "s = c # r" using assms by (cases s) (auto simp: runeLen_def)
  show ?thesis
  proof (cases "seqLen (code c) = 1")
    case True
    then have "runeLen (c # u) = 1" for u by (cases u) (simp_all add: runeLen_def)
    then show ?thesis by (simp add: s)
  next
    case False
    then obtain d r' where r: "r = d # r'" using assms s by (cases r) (auto simp: runeLen_def)
    obtain k where "runeLen s = Suc (Suc k)" "seqLen (code c) = Suc (Suc k)" "k \<le> length r'"
      "isCont (acceptLo (code c)) (acceptHi (code c)) d" "list_all (isCont 0x80 0xBF) (take k r')"
      using assms False s r
      by (cases "seqLen (code c)"; cases "seqLen (code c) - 1")
        (auto simp: runeLen_def Let_def split: if_splits)
    then show ?thesis by (simp add: s r runeLen_def)
  qed
qed

lemma readsAs_rune:
  assumes "0 < runeLen (c # r)" "0x80 \<le> code c"
  shows "readsAs (take (runeLen (c # r)) (c # r)) (take (runeLen (c # r)) (c # r))"
  unfolding readsAs_def
proof (intro allI impI)
  fix s a b
  assume p: "parseString s = Some (a, b)"
  define n where "n = runeLen (c # r)"
  obtain k where k: "n = Suc k" using assms(1) unfolding n_def by (cases "runeLen (c # r)") auto
  have "length (take n (c # r)) = n" using runeLen_le [of "c # r"] by (simp add: n_def)
  then have l: "length (take k r) = k" by (simp add: k)
  have "runeLen (take n (c # r) @ s) = n" unfolding n_def by (rule runeLen_take [OF assms(1)])
  then have "runeLen (c # take k r @ s) = Suc k" by (simp add: k)
  moreover have "c \<noteq> CHR 0x22" "c \<noteq> CHR 0x5C" using assms(2) by auto
  ultimately have "parseString (c # take k r @ s) = Some ((c # take k r) @ a, b)"
    using assms(2) p l by (subst parseString.simps) simp
  then show "parseString (take (runeLen (c # r)) (c # r) @ s) = Some (take (runeLen (c # r)) (c # r) @ a, b)"
    unfolding n_def [symmetric] by (simp add: k)
qed

lemma readsAs_lineSep:
  assumes "lineSep s = Some d" "0 < runeLen s"
  shows "readsAs [CHR 0x5C, CHR ''u'', CHR ''2'', CHR ''0'', CHR ''2'', d] (take (runeLen s) s)"
proof -
  obtain c1 c2 r where s: "s = c1 # c2 # r" "c1 = CHR 0xE2" "c2 = CHR 0x80"
    using assms(1) by (cases s; cases "tl s") (auto simp: lineSep_def split: if_splits)
  then obtain c3 t where r: "r = c3 # t" using assms(2) by (cases r) (auto simp: runeLen_def seqLen_def)
  have d: "c3 = CHR 0xA8 \<and> d = CHR ''8'' \<or> c3 = CHR 0xA9 \<and> d = CHR ''9''"
    using assms(1) s r by (auto simp: lineSep_def split: if_splits)
  have n: "runeLen s = 3" using s r d by (auto simp: runeLen_def isCont_def seqLen_def acceptLo_def acceptHi_def)
  have h: "hexVal (CHR ''2'') = Some 2" "hexVal (CHR ''0'') = Some 0" "hexVal (CHR ''8'') = Some 8"
    "hexVal (CHR ''9'') = Some 9" by (simp_all add: hexVal_def isDigit_def)
  from d show ?thesis
  proof
    assume d: "c3 = CHR 0xA8 \<and> d = CHR ''8''"
    have "readsAs [CHR 0x5C, CHR ''u'', CHR ''2'', CHR ''0'', CHR ''2'', d] (appendRune 0x2028)"
      using d h by (intro readsAs_u) (auto simp: isSurrogate_def)
    with d s r n show ?thesis by (simp add: appendRune_def lineSep_chars)
  next
    assume d: "c3 = CHR 0xA9 \<and> d = CHR ''9''"
    have "readsAs [CHR 0x5C, CHR ''u'', CHR ''2'', CHR ''0'', CHR ''2'', d] (appendRune 0x2029)"
      using d h by (intro readsAs_u) (auto simp: isSurrogate_def)
    with d s r n show ?thesis by (simp add: appendRune_def lineSep_chars)
  qed
qed

lemma parseString_escape:
  "validString s \<Longrightarrow> parseString (escapeString s @ CHR 0x22 # rest) = Some (s, rest)"
proof (induction s rule: escapeString.induct)
  case (1 s)
  show ?case
  proof (cases s)
    case Nil
    then show ?thesis by (subst parseString.simps) (simp add: escapeString.simps)
  next
    case (Cons c r)
    have pos: "0 < runeLen s" and rest: "validString (drop (runeLen s) s)"
      using 1(4) validString_Cons [of c r] unfolding Cons by simp_all
    show ?thesis
    proof (cases "code c < 0x80")
      case True
      then have "runeLen s = 1" using Cons by (cases r) (simp_all add: runeLen_def seqLen_def)
      with rest Cons have "validString r" by simp
      with 1(1) [OF Cons True] readsAs_escAscii [OF True] show ?thesis
        unfolding readsAs_def using Cons True by (simp add: escapeString.simps [of "c # r"])
    next
      case False
      with 1(3) [OF Cons] pos rest
      have "parseString (escapeString (drop (runeLen s) s) @ CHR 0x22 # rest) = Some (drop (runeLen s) s, rest)"
        by simp
      moreover have "\<exists>p. escapeString s = p @ escapeString (drop (runeLen s) s) \<and> readsAs p (take (runeLen s) s)"
        using readsAs_lineSep [of s] readsAs_rune [of c r] pos False Cons
        by (cases "lineSep s") (simp_all add: escapeString.simps [of "c # r"])
      ultimately show ?thesis using readsAsD by fastforce
    qed
  qed
qed

subsection \<open>Numbers\<close>

lemma isDigit_digit [simp]: "d < 10 \<Longrightarrow> isDigit (digit d)"
  by (simp add: isDigit_def digit_def)

lemma code_digit: "d < 10 \<Longrightarrow> code (digit d) = 48 + d"
  by (simp add: digit_def)

lemma decNat_digits: "decNat n \<noteq> [] \<and> list_all isDigit (decNat n)"
proof (induction n rule: decNat.induct)
  case (1 n)
  then show ?case by (subst (1 2) decNat.simps) simp
qed

lemma digitsVal_decNat: "digitsVal (decNat n) = n"
proof (induction n rule: decNat.induct)
  case (1 n)
  show ?case
  proof (cases "n < 10")
    case True
    then show ?thesis by (subst decNat.simps) (simp add: digitsVal_def code_digit)
  next
    case False
    with 1 have "digitsVal (decNat (n div 10)) = n div 10" by simp
    with False show ?thesis by (subst decNat.simps) (simp add: digitsVal_def code_digit)
  qed
qed

lemma parseDigits_decNat [simp]: "parseDigits (decNat n) = Some n"
  using decNat_digits [of n] by (simp add: parseDigits_def digitsVal_decNat)

lemma decNat_not_minus: "decNat n = c # r \<Longrightarrow> c \<noteq> CHR ''-''"
  using decNat_digits [of n] by (auto simp: isDigit_def)

lemma parseInt64_decInt: "is_i64 z \<Longrightarrow> parseInt64 (decInt z) = Some z"
proof (cases "z < 0")
  case True
  assume "is_i64 z"
  with True show ?thesis by (simp add: decInt_def parseInt64_def)
next
  case False
  assume z: "is_i64 z"
  obtain c r where cr: "decNat (nat z) = c # r" using decNat_digits by (cases "decNat (nat z)") auto
  have "parseDigits (c # r) = Some (nat z)" by (simp add: cr [symmetric])
  with z False cr decNat_not_minus [OF cr] show ?thesis by (simp add: decInt_def parseInt64_def)
qed

lemma parseUint64_dec: "parseUint64 (decInt (uint w)) = Some w"
  using unsigned_less [of w, where 'a = nat] by (simp add: decInt_def parseUint64_def)

text \<open>What may follow a number for it to end there.\<close>

definition numEnd :: "string \<Rightarrow> bool" where
  "numEnd s \<longleftrightarrow> s = [] \<or> hd s \<in> {CHR '','', CHR '']'', CHR ''}''}"

lemma numEnd_parse:
  assumes "numEnd s"
  shows "parseFrac s = Some ([], s)" "parseExp s = Some ([], s)"
  using assms by (cases s; auto simp: numEnd_def parseFrac_def parseExp_def)+

lemma numEnd_span:
  assumes "numEnd s" "list_all isDigit ds"
  shows "spanDigits (ds @ s) = (ds, s)"
proof -
  have "takeWhile isDigit s = [] \<and> dropWhile isDigit s = s"
    using assms(1) by (cases s) (auto simp: numEnd_def isDigit_def)
  with assms(2) show ?thesis by (simp add: spanDigits_def list_all_iff)
qed

lemma decNat_head: "n \<noteq> 0 \<Longrightarrow> decNat n = c # r \<Longrightarrow> c \<noteq> CHR ''0''"
proof (induction n arbitrary: r rule: decNat.induct)
  case (1 n)
  show ?case
  proof (cases "n < 10")
    case True
    then have "c = digit n" using 1(3) by (simp add: decNat.simps [of n])
    then show ?thesis using True 1(2) by (auto simp: char_eq_code code_digit)
  next
    case False
    then obtain r' where "decNat (n div 10) = c # r'"
      using 1(3) decNat_digits [of "n div 10"] by (cases "decNat (n div 10)") (auto simp: decNat.simps [of n])
    with 1(1) False show ?thesis by simp
  qed
qed

lemma parseInteger_decNat:
  assumes "numEnd s"
  shows "parseInteger (decNat n @ s) = (decNat n, s)"
proof (cases "n = 0")
  case True
  have "digit 0 = CHR ''0''" by (simp add: char_eq_code digit_def)
  with True show ?thesis by (simp add: decNat.simps parseInteger_def)
next
  case False
  obtain c r where cr: "decNat n = c # r" using decNat_digits by (cases "decNat n") auto
  have "spanDigits (decNat n @ s) = (decNat n, s)"
    using decNat_digits by (intro numEnd_span [OF assms]) simp
  with decNat_head [OF False cr] cr show ?thesis by (simp add: parseInteger_def)
qed

lemma parseNumber_decInt:
  assumes "numEnd s"
  shows "parseNumber (decInt z @ s) = Some (decInt z, s)"
proof -
  define sg n where "sg = (if z < 0 then ''-'' else [])" and "n = nat (if z < 0 then - z else z)"
  have d: "decInt z = sg @ decNat n" by (simp add: decInt_def sg_def n_def)
  obtain c r where cr: "decNat n = c # r" using decNat_digits by (cases "decNat n") auto
  have "parseSign (sg @ decNat n @ s) = (sg, decNat n @ s)"
    using decNat_not_minus [OF cr] by (auto simp: parseSign_def sg_def cr)
  then show ?thesis
    using decNat_digits [of n] by (simp add: d parseNumber_def parseInteger_decNat [OF assms] numEnd_parse [OF assms])
qed

subsection \<open>Base64\<close>

lemma b64Val_b64Char: "n < 64 \<Longrightarrow> b64Val (b64Char n) = Some n"
  by (auto simp: b64Val_def b64Char_def isDigit_def)

lemma b64Char_ok: "n < 64 \<Longrightarrow> b64Char n \<noteq> CHR ''='' \<and> b64Char n \<noteq> CHR 0x0D \<and> b64Char n \<noteq> CHR 0x0A"
  by (auto simp: b64Char_def char_eq_code)

lemma b64Char_valid: "n < 64 \<Longrightarrow> code (b64Char n) < 128"
  by (auto simp: b64Char_def)

text \<open>Three bytes as four 6-bit groups: \<open>a = 4 g1 + h\<close>, and so on.\<close>

lemma b64_groups:
  fixes g1 g2 g3 g4 :: nat
  assumes "g2 < 64" "g3 < 64" "g4 < 64" and v: "v = ((g1 * 64 + g2) * 64 + g3) * 64 + g4"
  shows "v div 262144 = g1" "v div 4096 mod 64 = g2" "v div 64 mod 64 = g3" "v mod 64 = g4"
proof -
  have d: "x div 64 = q \<and> x mod 64 = r" if "x = q * 64 + r" "r < 64" for x q r :: nat
    using that by simp
  note 1 = d [OF v assms(3)]
  note 2 = d [OF conjunct1 [OF 1] assms(2)]
  note 3 = d [OF conjunct1 [OF 2] assms(1)]
  have "v div 4096 = v div 64 div 64" "v div 262144 = v div 64 div 64 div 64"
    by (simp_all add: div_mult2_eq [symmetric])
  with 1 2 3 show "v div 262144 = g1" "v div 4096 mod 64 = g2" "v div 64 mod 64 = g3" "v mod 64 = g4"
    by simp_all
qed

lemma divmod_split:
  fixes x :: nat
  assumes "x < p * q" "0 < p"
  obtains h l where "x = h * p + l" "l < p" "h < q"
  using assms that [of "x div p" "x mod p"] by (simp add: less_mult_imp_div_less mult.commute)

lemma unat_byte: "unat (x :: byte) < 256"
  using unsigned_less [of x, where 'a = nat] by simp

lemma of_nat_unat_byte: "unat (x :: byte) = n \<Longrightarrow> of_nat n = x"
  by auto

lemma b64Quads_encode: "b64Quads (b64Encode bs) = Some bs"
proof (induction bs rule: b64Encode.induct)
  case (1 a b c r)
  obtain a1 a0 where a: "unat a = a1 * 4 + a0" "a0 < 4" "a1 < 64"
    using divmod_split [of "unat a" 4 64] unat_byte [of a] by auto
  obtain b1 b0 where b: "unat b = b1 * 16 + b0" "b0 < 16" "b1 < 16"
    using divmod_split [of "unat b" 16 16] unat_byte [of b] by auto
  obtain c1 c0 where c: "unat c = c1 * 64 + c0" "c0 < 64" "c1 < 4"
    using divmod_split [of "unat c" 64 4] unat_byte [of c] by auto
  define v where "v = unat a * 65536 + unat b * 256 + unat c"
  have g: "a0 * 16 + b1 < 64" "b0 * 4 + c1 < 64" using a b c by simp_all
  have "v = ((a1 * 64 + (a0 * 16 + b1)) * 64 + (b0 * 4 + c1)) * 64 + c0"
    by (simp add: v_def a b c)
  note v = b64_groups [OF g c(2) this]
  have "(a0 * 16 + b1) div 16 = a0" "(a0 * 16 + b1) mod 16 = b1" "(b0 * 4 + c1) div 4 = b0"
    "(b0 * 4 + c1) mod 4 = c1" using b c by simp_all
  then show ?case
    using 1 g a(2,3) b(2,3) c(2,3) of_nat_unat_byte [OF a(1)] of_nat_unat_byte [OF b(1)] of_nat_unat_byte [OF c(1)]
    by (simp add: v_def [symmetric] v b64Val_b64Char b64Char_ok del: of_nat_add of_nat_mult)
next
  case (2 a b)
  obtain a1 a0 where a: "unat a = a1 * 4 + a0" "a0 < 4" "a1 < 64"
    using divmod_split [of "unat a" 4 64] unat_byte [of a] by auto
  obtain b1 b0 where b: "unat b = b1 * 16 + b0" "b0 < 16" "b1 < 16"
    using divmod_split [of "unat b" 16 16] unat_byte [of b] by auto
  define v where "v = unat a * 65536 + unat b * 256"
  have g: "a0 * 16 + b1 < 64" "b0 * 4 < 64" using a b by simp_all
  have "v = ((a1 * 64 + (a0 * 16 + b1)) * 64 + b0 * 4) * 64 + 0" by (simp add: v_def a b)
  note v = b64_groups [OF g _ this]
  have "(a0 * 16 + b1) div 16 = a0" "(a0 * 16 + b1) mod 16 = b1" using b by simp_all
  then show ?case
    using g a(2,3) b(2,3) of_nat_unat_byte [OF a(1)] of_nat_unat_byte [OF b(1)]
    by (simp add: v_def [symmetric] v b64Val_b64Char b64Char_ok del: of_nat_add of_nat_mult)
next
  case (3 a)
  obtain a1 a0 where a: "unat a = a1 * 4 + a0" "a0 < 4" "a1 < 64"
    using divmod_split [of "unat a" 4 64] unat_byte [of a] by auto
  define v where "v = unat a * 65536"
  have g: "a0 * 16 < 64" using a by simp
  have "v = ((a1 * 64 + a0 * 16) * 64 + 0) * 64 + 0" by (simp add: v_def a)
  note v = b64_groups [OF g _ _ this]
  show ?case
    using g a(2,3) of_nat_unat_byte [OF a(1)]
    by (simp add: v_def [symmetric] v b64Val_b64Char b64Char_ok del: of_nat_add of_nat_mult)
qed simp

lemma b64_chars: "list_all (\<lambda>c. code c < 128 \<and> c \<noteq> CHR 0x0D \<and> c \<noteq> CHR 0x0A) (b64Encode bs)"
proof -
  have v: "v div 262144 < 64" if "v < 16777216" for v :: nat using that by simp
  have s: "unat a * 65536 + unat b * 256 + unat c < 16777216" "unat a * 65536 + unat b * 256 < 16777216"
    "unat a * 65536 < 16777216" for a b c :: byte
    using unat_byte [of a] unat_byte [of b] unat_byte [of c] by simp_all
  have "unat a div 4 < 64" for a :: byte using unat_byte [of a] by simp
  then show ?thesis
    by (induction bs rule: b64Encode.induct)
      (simp_all add: Let_def b64Char_ok b64Char_valid v [OF s(1)] v [OF s(2)] v [OF s(3)])
qed

lemma b64Decode_encode: "b64Decode (b64Encode bs) = Some bs"
proof -
  have "filter (\<lambda>c. c \<noteq> CHR 0x0D \<and> c \<noteq> CHR 0x0A) (b64Encode bs) = b64Encode bs"
    using b64_chars [of bs] by (auto simp: list_all_iff)
  then show ?thesis by (simp add: b64Decode_def b64Quads_encode)
qed

lemma validString_ascii: "list_all (\<lambda>c. code c < 128) s \<Longrightarrow> validString s"
proof (induction s)
  case (Cons c s)
  then have "runeLen (c # s) = 1" by (cases s) (simp_all add: runeLen_def seqLen_def)
  with Cons show ?case by (subst validString.simps) simp
qed (simp add: validString.simps)

lemma validString_b64: "validString (b64Encode bs)"
  using b64_chars [of bs] by (intro validString_ascii) (auto simp: list_all_iff)

subsection \<open>Values\<close>

text \<open>The documents of the registry: no arrays, integer numbers, valid strings.\<close>

fun wfJ :: "json \<Rightarrow> bool"
  and wfMembers :: "(string \<times> json) list \<Rightarrow> bool"
where
  "wfJ JNull = True"
| "wfJ (JBool b) = True"
| "wfJ (JNum s) = (\<exists>z. s = decInt z)"
| "wfJ (JStr s) = validString s"
| "wfJ (JArr js) = False"
| "wfJ (JObj kvs) = wfMembers kvs"
| "wfMembers [] = True"
| "wfMembers ((k, j) # kvs) = (validString k \<and> wfJ j \<and> wfMembers kvs)"

fun jdepth :: "json \<Rightarrow> nat"
  and mdepth :: "(string \<times> json) list \<Rightarrow> nat"
where
  "jdepth (JObj kvs) = Suc (mdepth kvs)"
| "jdepth j = 0"
| "mdepth [] = 0"
| "mdepth ((k, j) # kvs) = max (jdepth j) (mdepth kvs)"

fun jfuel :: "json \<Rightarrow> nat"
  and mfuel :: "(string \<times> json) list \<Rightarrow> nat"
where
  "jfuel (JObj kvs) = Suc (mfuel kvs)"
| "jfuel j = 1"
| "mfuel [] = 0"
| "mfuel ((k, j) # kvs) = Suc (jfuel j + mfuel kvs)"

lemma skipWs_nonblank: "c \<notin> {CHR '' '', CHR 0x09, CHR 0x0A, CHR 0x0D} \<Longrightarrow> skipWs (c # s) = c # s"
  by (simp add: skipWs_def)

lemma decInt_head: "\<exists>c r. decInt z = c # r \<and> (isDigit c \<or> c = CHR ''-'')"
  using decNat_digits [of "nat z"] by (cases "decNat (nat z)") (auto simp: decInt_def)

lemma parseValue_num:
  assumes "numEnd rest"
  shows "parseValue (Suc f) d (decInt z @ rest) = Some (JNum (decInt z), rest)"
proof -
  obtain c r where c: "decInt z = c # r" "isDigit c \<or> c = CHR ''-''" using decInt_head by blast
  have code: "45 \<le> code c" "code c \<le> 57" using c(2) by (auto simp: isDigit_def)
  then have "c \<notin> {CHR '' '', CHR 0x09, CHR 0x0A, CHR 0x0D, CHR ''{'', CHR ''['', CHR 0x22, CHR ''t'', CHR ''f'', CHR ''n''}"
    by auto
  with parseNumber_decInt [OF assms, of z] c(1) show ?thesis
    by (simp add: parseValue.simps skipWs_nonblank)
qed

lemma parseValue_string:
  "validString s \<Longrightarrow> parseValue (Suc f) d (quoteString s @ rest) = Some (JStr s, rest)"
  by (simp add: parseValue.simps quoteString_def skipWs_nonblank parseString_escape)

lemma parseMembers_step:
  assumes "validString k" "parseValue f d (v @ c # rest) = Some (j, c # rest)" "c \<in> {CHR '','', CHR ''}''}"
  shows "parseMembers (Suc f) d (quoteString k @ CHR '':'' # v @ c # rest) =
    (if c = CHR '','' then map_option (\<lambda>(ms, t). ((k, j) # ms, t)) (parseMembers f d rest)
     else Some ([(k, j)], rest))"
proof -
  have "skipWs (c # rest) = c # rest" using assms(3) by (intro skipWs_nonblank) auto
  with assms show ?thesis
    by (auto simp: parseMembers.simps quoteString_def skipWs_nonblank parseString_escape)
qed

lemma renderMembers_head: "kvs \<noteq> [] \<Longrightarrow> \<exists>r. renderMembers kvs = CHR 0x22 # r"
  by (cases kvs rule: renderMembers.cases) (auto simp: quoteString_def)

lemma parse_render:
  "wfJ j \<Longrightarrow> numEnd rest \<Longrightarrow> jdepth j \<le> d \<Longrightarrow> jfuel j \<le> f \<Longrightarrow>
     parseValue f d (render j @ rest) = Some (j, rest)"
  "js = (js :: json list)"
  "wfMembers kvs \<Longrightarrow> kvs \<noteq> [] \<Longrightarrow> mdepth kvs \<le> d \<Longrightarrow> mfuel kvs \<le> f \<Longrightarrow>
     parseMembers f d (renderMembers kvs @ CHR ''}'' # rest') = Some (kvs, rest')"
proof (induction j and js and kvs arbitrary: f d rest and f d and f d rest'
    rule: render_renderElems_renderMembers.induct)
  case (3 s)
  then show ?case using parseValue_num by (cases f) auto
next
  case (4 s)
  then show ?case using parseValue_string by (cases f) auto
next
  case (6 kvs)
  obtain g where f: "f = Suc g" using 6 by (cases f) auto
  obtain e where d: "d = Suc e" using 6 by (cases d) auto
  show ?case
  proof (cases "kvs = []")
    case True
    with f d show ?thesis by (simp add: parseValue.simps skipWs_nonblank)
  next
    case False
    then obtain r where r: "renderMembers kvs = CHR 0x22 # r" using renderMembers_head by blast
    have "parseMembers g e (renderMembers kvs @ CHR ''}'' # rest) = Some (kvs, rest)"
      using 6 False f d by simp
    with f d r show ?thesis by (simp add: parseValue.simps skipWs_nonblank)
  qed
next
  case (11 k j)
  obtain g where f: "f = Suc g" using 11 by (cases f) auto
  have "parseValue g d (render j @ CHR ''}'' # rest') = Some (j, CHR ''}'' # rest')"
    using 11 f by (simp add: numEnd_def)
  from parseMembers_step [OF _ this] 11 f show ?case by simp
next
  case (12 k j kv kvs)
  obtain g where f: "f = Suc g" using 12 by (cases f) auto
  let ?r = "renderMembers (kv # kvs) @ CHR ''}'' # rest'"
  have "parseValue g d (render j @ CHR '','' # ?r) = Some (j, CHR '','' # ?r)"
    using 12 f by (simp add: numEnd_def)
  moreover have "parseMembers g d ?r = Some (kv # kvs, rest')" using 12 f by simp
  ultimately show ?case using parseMembers_step [of k g d "render j" "CHR '',''" ?r j] 12 f by simp
qed (auto simp: parseValue.simps skipWs_nonblank gr0_conv_Suc Suc_le_eq)

lemma fuel_render:
  "jfuel j \<le> 2 * length (render j) + 1"
  "js = (js :: json list)"
  "mfuel kvs \<le> 2 * length (renderMembers kvs)"
  by (induction j and js and kvs rule: render_renderElems_renderMembers.induct)
    (auto simp: quoteString_def)

lemma parseJSON_render:
  assumes "wfJ j" "jdepth j \<le> maxNestingDepth"
  shows "parseJSON (render j) = Some j"
  using parse_render(1) [OF assms(1) _ assms(2), of "[]" "2 * length (render j) + 2"] fuel_render(1) [of j]
  by (simp add: parseJSON_def numEnd_def skipWs_def)

lemma unmarshal_marshal:
  assumes "wfJ j" "jdepth j \<le> maxNestingDepth" "dec j zero = Some r"
  shows "unmarshal dec zero (marshal j) = Ret r"
  using assms by (simp add: unmarshal_def marshal_def parseJSON_render)

end
