(* ===== verification/Tuple_Values.thy ===== *)
theory Tuple_Values
  imports Tuple_Order Go_JSON_Roundtrip
begin

section \<open>Keys, ranges and printed forms of tuples: \<open>virtual/registry/tuple/tuple.go\<close>\<close>

text \<open>
  The rest of \<open>tuple.go\<close>: keys and key selectors, the range of the keys below a tuple, and the
  printers. A \<open>KeyConvertible\<close> is the key that it converts to. Two things of Go's library are parameters
  of the printers: which runes beyond Latin-1 its tables call printable, and how \<open>%v\<close> prints floating point numbers, big integers and
  values of user-defined types.
\<close>

subsection \<open>Keys and ranges\<close>

definition concatBytes :: "bytes \<Rightarrow> bytes \<Rightarrow> bytes" where
  "concatBytes a b = a @ b"

definition tupleKey :: "tuple \<Rightarrow> bytes outcome" where
  "tupleKey t = Pack t"

definition FDBRangeKeys :: "tuple \<Rightarrow> (bytes \<times> bytes) outcome" where
  "FDBRangeKeys t = obind (Pack t) (\<lambda>p. Ret (concatBytes p [0x00], concatBytes p [0xFF]))"

record KeySelector =
  ks_Key :: bytes
  ks_OrEqual :: bool
  ks_Offset :: int

definition FDBKeySelector :: "KeySelector \<Rightarrow> KeySelector" where
  "FDBKeySelector ks = ks"

definition LastLessThan :: "bytes \<Rightarrow> KeySelector" where
  "LastLessThan key = \<lparr>ks_Key = key, ks_OrEqual = False, ks_Offset = 0\<rparr>"

definition LastLessOrEqual :: "bytes \<Rightarrow> KeySelector" where
  "LastLessOrEqual key = \<lparr>ks_Key = key, ks_OrEqual = True, ks_Offset = 0\<rparr>"

definition FirstGreaterThan :: "bytes \<Rightarrow> KeySelector" where
  "FirstGreaterThan key = \<lparr>ks_Key = key, ks_OrEqual = True, ks_Offset = 1\<rparr>"

definition FirstGreaterOrEqual :: "bytes \<Rightarrow> KeySelector" where
  "FirstGreaterOrEqual key = \<lparr>ks_Key = key, ks_OrEqual = False, ks_Offset = 1\<rparr>"

definition RangeKeySelectors :: "tuple \<Rightarrow> (KeySelector \<times> KeySelector) outcome" where
  "RangeKeySelectors t = obind (FDBRangeKeys t) (\<lambda>(b, e). Ret (FirstGreaterOrEqual b, FirstGreaterOrEqual e))"

subsection \<open>Printers\<close>

definition hexByte :: "byte \<Rightarrow> string" where
  "hexByte b = [hexDigit (unat b div 16), hexDigit (unat b mod 16)]"

definition printByte :: "byte \<Rightarrow> string" where
  "printByte b =
     (if 32 \<le> b \<and> b < 127 \<and> b \<noteq> 0x5C then [char_of (unat b)]
      else if b = 0x5C then [CHR 0x5C, CHR 0x5C]
      else CHR 0x5C # CHR ''x'' # hexByte b)"

fun Printable :: "bytes \<Rightarrow> string" where
  "Printable [] = []"
| "Printable (b # d) = printByte b @ Printable d"

definition keyString :: "bytes \<Rightarrow> string" where
  "keyString k = Printable k"

definition hexBytes :: "bytes \<Rightarrow> string" where
  "hexBytes bs = concat (map hexByte bs)"

definition uuidString :: "bytes \<Rightarrow> string" where
  "uuidString u =
     hexBytes (take 4 u) @ ''-'' @ hexBytes (take 2 (drop 4 u)) @ ''-'' @ hexBytes (take 2 (drop 6 u)) @ ''-''
       @ hexBytes (take 2 (drop 8 u)) @ ''-'' @ hexBytes (drop 10 u)"

definition versionstampString :: "Versionstamp \<Rightarrow> string" where
  "versionstampString vs =
     ''Versionstamp('' @ Printable (TransactionVersion vs) @ '', '' @ decNat (unat (UserVersion vs)) @ '')''"

text \<open>\<open>strconv.Quote\<close>: a byte that is not valid UTF-8 and a rune that is not printable are escaped.\<close>

definition isPrint :: "(nat \<Rightarrow> bool) \<Rightarrow> nat \<Rightarrow> bool" where
  "isPrint wide r = (if r \<le> 0xFF then 0x20 \<le> r \<and> r < 0x7F \<or> 0xA1 \<le> r \<and> r \<noteq> 0xAD else wide r)"

definition runeValue :: "string \<Rightarrow> nat" where
  "runeValue s =
     (case map code s of
        [a] \<Rightarrow> a
      | [a, b] \<Rightarrow> (a - 0xC0) * 64 + (b - 0x80)
      | [a, b, c] \<Rightarrow> (a - 0xE0) * 4096 + (b - 0x80) * 64 + (c - 0x80)
      | [a, b, c, d] \<Rightarrow> (a - 0xF0) * 262144 + (b - 0x80) * 4096 + (c - 0x80) * 64 + (d - 0x80)
      | _ \<Rightarrow> 0)"

fun hexDigits :: "nat \<Rightarrow> nat \<Rightarrow> string" where
  "hexDigits 0 r = []"
| "hexDigits (Suc n) r = hexDigits n (r div 16) @ [hexDigit (r mod 16)]"

definition escapedRune :: "(nat \<Rightarrow> bool) \<Rightarrow> string \<Rightarrow> string" where
  "escapedRune wide s =
     (let r = runeValue s in
      if r = 0x22 \<or> r = 0x5C then CHR 0x5C # s
      else if isPrint wide r then s
      else if r = 7 then [CHR 0x5C, CHR ''a'']
      else if r = 8 then [CHR 0x5C, CHR ''b'']
      else if r = 12 then [CHR 0x5C, CHR ''f'']
      else if r = 10 then [CHR 0x5C, CHR ''n'']
      else if r = 13 then [CHR 0x5C, CHR ''r'']
      else if r = 9 then [CHR 0x5C, CHR ''t'']
      else if r = 11 then [CHR 0x5C, CHR ''v'']
      else if r < 0x20 \<or> r = 0x7F then CHR 0x5C # CHR ''x'' # hexDigits 2 r
      else if r < 0x10000 then CHR 0x5C # CHR ''u'' # hexDigits 4 r
      else CHR 0x5C # CHR ''U'' # hexDigits 8 r)"

function quoteRunes :: "(nat \<Rightarrow> bool) \<Rightarrow> string \<Rightarrow> string" where
  "quoteRunes wide s =
     (case s of
        [] \<Rightarrow> []
      | c # s' \<Rightarrow>
          if runeLen s = 0 then CHR 0x5C # CHR ''x'' # hexDigits 2 (code c) @ quoteRunes wide s'
          else escapedRune wide (take (runeLen s) s) @ quoteRunes wide (drop (runeLen s) s))"
  by pat_completeness auto
termination
  by (relation "measure (\<lambda>(wide, s). length s)") auto

declare quoteRunes.simps [simp del]

definition quoteGo :: "(nat \<Rightarrow> bool) \<Rightarrow> string \<Rightarrow> string" where
  "quoteGo wide s = CHR 0x22 # quoteRunes wide s @ [CHR 0x22]"

text \<open>\<open>printTuple\<close>. The formats of \<open>%v\<close> that are not given by \<open>other\<close> are those of integers, booleans and versionstamps.\<close>

fun printTuple :: "(nat \<Rightarrow> bool) \<Rightarrow> (tupleElement \<Rightarrow> string) \<Rightarrow> tuple \<Rightarrow> string"
  and printElements :: "(nat \<Rightarrow> bool) \<Rightarrow> (tupleElement \<Rightarrow> string) \<Rightarrow> tuple \<Rightarrow> string"
  and printElement :: "(nat \<Rightarrow> bool) \<Rightarrow> (tupleElement \<Rightarrow> string) \<Rightarrow> tupleElement \<Rightarrow> string"
where
  "printTuple wide other t = ''('' @ printElements wide other t @ '')''"
| "printElements wide other [] = []"
| "printElements wide other (e # t) =
     printElement wide other e @ (if t \<noteq> [] then '', '' else []) @ printElements wide other t"
| "printElement wide other (TTuple t) = printTuple wide other t"
| "printElement wide other TNil = ''<nil>''"
| "printElement wide other (TString s) = quoteGo wide s"
| "printElement wide other (TUUID u) = ''UUID('' @ uuidString u @ '')''"
| "printElement wide other (TBytes b) = CHR ''b'' # CHR 0x22 # Printable b @ [CHR 0x22]"
| "printElement wide other (TInt i) = decInt (sint i)"
| "printElement wide other (TInt64 i) = decInt (sint i)"
| "printElement wide other (TUint i) = decNat (unat i)"
| "printElement wide other (TUint64 i) = decNat (unat i)"
| "printElement wide other (TBool v) = (if v then ''true'' else ''false'')"
| "printElement wide other (TVersionstamp vs) = versionstampString vs"
| "printElement wide other e = other e"

definition tupleString :: "(nat \<Rightarrow> bool) \<Rightarrow> (tupleElement \<Rightarrow> string) \<Rightarrow> tuple \<Rightarrow> string" where
  "tupleString wide other t = printTuple wide other t"

subsection \<open>The printed form of a key\<close>

text \<open>The reader of what \<open>Printable\<close> prints.\<close>

fun readPrintable :: "string \<Rightarrow> bytes option" where
  "readPrintable [] = Some []"
| "readPrintable (c # s) =
     (if c \<noteq> CHR 0x5C then map_option (\<lambda>d. of_char c # d) (readPrintable s)
      else case s of
             c' # s' \<Rightarrow>
               if c' = CHR 0x5C then map_option (\<lambda>d. 0x5C # d) (readPrintable s')
               else (case s' of
                       h # l # s'' \<Rightarrow>
                         (case (hexVal h, hexVal l) of
                            (Some a, Some b) \<Rightarrow> map_option (\<lambda>d. of_nat (a * 16 + b) # d) (readPrintable s'')
                          | _ \<Rightarrow> None)
                     | _ \<Rightarrow> None)
           | [] \<Rightarrow> None)"

lemma of_char_char_of_byte: "(of_char (char_of (unat (b :: byte)) :: char) :: byte) = b"
  using of_char_char_of_unat [of b] by simp

lemma char_of_byte_eq: "char_of (unat (b :: byte)) = (c :: char) \<longleftrightarrow> b = of_char c"
  by (metis char_of_char of_char_char_of_byte unat_of_char)

text \<open>A printed key determines the key, and consists of printable ASCII only.\<close>

lemma nibbles: "unat (b :: byte) div 16 < 16" "unat b mod 16 < 16"
  using unsigned_less [of b, where 'a = nat] by simp_all

lemma printByte_cases:
  obtains "b = 0x5C" "printByte b = [CHR 0x5C, CHR 0x5C]"
  | "32 \<le> b" "b < 127" "b \<noteq> 0x5C" "printByte b = [char_of (unat b)]"
  | "printByte b = CHR 0x5C # CHR ''x'' # hexByte b"
  unfolding printByte_def by (cases "b = 0x5C"; cases "32 \<le> b \<and> b < 127") auto

lemma readPrintable_byte: "readPrintable (printByte b @ s) = map_option ((#) b) (readPrintable s)"
proof (cases b rule: printByte_cases)
  case 2
  have "char_of (unat b) \<noteq> CHR 0x5C" unfolding char_of_byte_eq using 2(3) by simp
  with 2(4) show ?thesis by (simp add: of_char_char_of_byte)
next
  case 3
  have "of_nat (unat b div 16 * 16 + unat b mod 16) = b" by (simp only: div_mult_mod_eq) simp
  with 3 nibbles [of b] show ?thesis by (simp add: hexByte_def hexVal_hexDigit)
qed simp

lemma Printable_roundtrip: "readPrintable (Printable b) = Some b"
  by (induction b) (simp_all add: readPrintable_byte del: readPrintable.simps(2))

lemma hexDigit_code: "d < 16 \<Longrightarrow> 48 \<le> code (hexDigit d) \<and> code (hexDigit d) \<le> 102"
  by (simp add: hexDigit_def)

lemma printByte_printable: "list_all (\<lambda>c. 32 \<le> code c \<and> code c < 127) (printByte b)"
proof (cases b rule: printByte_cases)
  case 2
  have "code (char_of (unat b)) = unat b" using unsigned_less [of b, where 'a = nat] by simp
  with 2 show ?thesis by (simp add: word_le_nat_alt word_less_nat_alt)
next
  case 3
  with hexDigit_code [OF nibbles(1) [of b]] hexDigit_code [OF nibbles(2) [of b]] show ?thesis by (simp add: hexByte_def)
qed simp

lemma Printable_printable: "list_all (\<lambda>c. 32 \<le> code c \<and> code c < 127) (Printable b)"
  using printByte_printable by (induction b) simp_all

lemma length_hexBytes [simp]: "length (hexBytes bs) = 2 * length bs"
  by (induction bs) (simp_all add: hexBytes_def hexByte_def)

lemma length_uuidString: "length u = 16 \<Longrightarrow> length (uuidString u) = 36"
  by (simp add: uuidString_def)

subsection \<open>The range of a tuple\<close>

lemma decodeLoop_extends:
  "decodeLoop fuel b i nested t = Some (Ret (res, j)) \<Longrightarrow> prefix t res"
proof (induction fuel arbitrary: b i nested t res j)
  case (Suc fuel)
  have later: "prefix t res" if "decodeLoop fuel b k n (t @ x) = Some (Ret (res, j))" for k n x
    using Suc.IH [OF that] by (meson append_prefixD)
  show ?case using Suc.prems later
    by (auto simp: decodeLoop.simps(2) split: if_splits option.splits outcome.splits prod.splits)
qed simp

lemma encs_append: "encs nested (t @ u) = encs nested t @ encs nested u"
  by (induction t) auto

lemma norms_map: "norms t = map norm t"
  by (induction t) auto

lemma packable_append: "packable (t @ u) \<longleftrightarrow> packable t \<and> packable u"
  by (induction t) auto

text \<open>
  The unpacker reads a packed tuple back wherever the byte behind it is not the escape \<open>0xFF\<close>; so a key that continues the key of \<open>t\<close> with another
  byte is the key of a tuple that continues \<open>t\<close>.
\<close>

lemma encs_continued:
  assumes "packable t" "packable u" "encs False u = encs False t @ rest" "okRest rest"
  shows "prefix (norms t) (norms u)"
proof -
  let ?k = "encs False u"
  have "length (encs False t @ rest) < Suc (length ?k)" using assms(3) by simp
  from readsD [OF reads_enc(2) [OF assms(1)] assms(4) this, of "[]" "[]"] obtain f where
    "decodeLoop (Suc (length ?k)) ?k 0 False [] = decodeLoop f ?k (length (encs False t)) False (norms t)"
    using assms(3) by auto
  moreover obtain j where "decodeLoop (Suc (length ?k)) ?k 0 False [] = Some (Ret (norms u, j))"
    using Unpack_encs [OF assms(2)]
    by (auto simp: Unpack_def decodeTuple_def obind_Ret_iff split: option.splits)
  ultimately show ?thesis using decodeLoop_extends by metis
qed

lemma between_range:
  "p @ [0x00] \<le> k \<and> k < p @ [0xFF] \<longleftrightarrow> (\<exists>x r. k = p @ x # r \<and> x \<noteq> (0xFF :: byte))"
proof (cases "prefix p k")
  case True
  then obtain r where r: "k = p @ r" by (auto simp: prefix_def)
  have "p @ [0x00] \<le> p @ r \<longleftrightarrow> r \<noteq> []" by (cases r) (auto simp flip: not_less)
  moreover have "x # r' < [0xFF :: byte] \<longleftrightarrow> x \<noteq> 0xFF" for x r' using byte_less_FF by auto
  ultimately show ?thesis using r by (cases r) auto
next
  case False
  then show ?thesis using prefix_convex [of p "p @ [0x00]" "p @ [0xFF]" k] less_imp_le [of k "p @ [0xFF]"] by auto
qed

text \<open>
  \<^bold>\<open>C36\<close> (the range of a tuple is exact). Between the two keys of \<open>FDBRangeKeys\<close> lie the keys of exactly those tuples that properly continue
  the tuple, whatever types its elements have, as the comment of the function says: no string or nested tuple that merely continues the last
  element falls into the range.
\<close>

theorem FDBRangeKeys_exact:
  assumes "packable t" "packable u"
  shows "\<exists>b e k. FDBRangeKeys t = Ret (b, e) \<and> Pack u = Ret k \<and> (b \<le> k \<and> k < e \<longleftrightarrow> strict_prefix (norms t) (norms u))"
proof -
  let ?p = "encs False t" and ?k = "encs False u"
  have "(\<exists>x r. ?k = ?p @ x # r \<and> x \<noteq> 0xFF) \<longleftrightarrow> strict_prefix (norms t) (norms u)"
  proof
    assume "\<exists>x r. ?k = ?p @ x # r \<and> x \<noteq> 0xFF"
    then obtain x r where x: "?k = ?p @ x # r" "x \<noteq> 0xFF" by blast
    with encs_continued [OF assms x(1)] encs_inject [OF assms] show "strict_prefix (norms t) (norms u)" by (auto simp: strict_prefix_def)
  next
    assume "strict_prefix (norms t) (norms u)"
    then obtain v where v: "norms u = norms t @ v" "v \<noteq> []" by (auto simp: strict_prefix_def prefix_def)
    define u1 u2 where "u1 = take (length t) u" and "u2 = drop (length t) u"
    have u: "u = u1 @ u2" "norms u1 = norms t" "norms u2 = v"
      using v(1) by (simp_all add: u1_def u2_def norms_map take_map [symmetric] drop_map [symmetric])
    have "encs False u1 = ?p" using u(2) encE_norm(2) [of False u1] encE_norm(2) [of False t] by simp
    then have k: "?k = ?p @ encs False u2" by (simp add: u(1) encs_append)
    obtain e us where us: "u2 = e # us" using u(3) v(2) by (cases u2) auto
    then have "packableE e" using assms(2) u(1) by (simp add: packable_append)
    then obtain x xs where "encE False e = x # xs" "x \<noteq> 0xFF" by (rule encE_head)
    with k us show "\<exists>x r. ?k = ?p @ x # r \<and> x \<noteq> 0xFF" by simp
  qed
  then have "?p @ [0x00] \<le> ?k \<and> ?k < ?p @ [0xFF] \<longleftrightarrow> strict_prefix (norms t) (norms u)" by (simp only: between_range)
  then show ?thesis using assms by (simp add: FDBRangeKeys_def concatBytes_def Pack_encs)
qed

theorem FDBRangeKeys_exact_witness:
  "\<exists>b e k k'. FDBRangeKeys [TString ''a''] = Ret (b, e) \<and> Pack [TString ''a'', TNil] = Ret k \<and> b \<le> k \<and> k < e
    \<and> Pack [TString (''a'' @ [CHR 0x00])] = Ret k' \<and> \<not> (b \<le> k' \<and> k' < e)"
  using FDBRangeKeys_exact [of "[TString ''a'']" "[TString ''a'', TNil]"] FDBRangeKeys_exact [of "[TString ''a'']" "[TString (''a'' @ [CHR 0x00])]"]
  by (auto simp: strict_prefix_def)

end
