(* ===== verification/Virtual_Types.thy ===== *)
theory Virtual_Types
  imports Nola_Prelude
begin

section \<open>Identifiers and actor references: \<open>virtual/types\<close>\<close>

text \<open>
  The namespaced identifiers that key the in-memory tables, and the references that the registry
  hands out: a virtual part that names the actor and a physical part that locates its activation.
\<close>

subsection \<open>\<open>namespace.go\<close>\<close>

record NamespacedID =
  nid_Namespace :: string
  nid_ID :: string
  nid_IDType :: string

definition NewNamespacedID :: "string \<Rightarrow> string \<Rightarrow> string \<Rightarrow> NamespacedID" where
  "NewNamespacedID namespace i idType =
     \<lparr>nid_Namespace = namespace, nid_ID = i, nid_IDType = idType\<rparr>"

record NamespacedActorID =
  naid_Namespace :: string
  naid_ID :: string
  naid_Module :: string
  naid_IDType :: string

definition NewNamespacedActorID :: "string \<Rightarrow> string \<Rightarrow> string \<Rightarrow> string \<Rightarrow> NamespacedActorID" where
  "NewNamespacedActorID namespace i module idType =
     \<lparr>naid_Namespace = namespace, naid_ID = i, naid_Module = module, naid_IDType = idType\<rparr>"

record NamespacedIDNoType =
  nint_Namespace :: string
  nint_ID :: string

definition NewNamespacedIDNoType :: "string \<Rightarrow> string \<Rightarrow> NamespacedIDNoType" where
  "NewNamespacedIDNoType namespace i = \<lparr>nint_Namespace = namespace, nint_ID = i\<rparr>"

subsection \<open>\<open>req.go\<close>\<close>

datatype ActorOptions = ActorOptions

record CreateIfNotExist =
  cine_Options :: ActorOptions
  cine_InstantiatePayload :: bytes

record InvokeActorRequest =
  iar_ActorID :: string
  iar_ModuleID :: string
  iar_Operation :: string
  iar_Payload :: bytes
  iar_CreateIfNotExist :: CreateIfNotExist

subsection \<open>\<open>virtual_ref.go\<close>\<close>

definition IDTypeActor :: string where "IDTypeActor = ''actor''"
definition IDTypeWorker :: string where "IDTypeWorker = ''worker''"

record virtualRef =
  vr_namespace :: string
  vr_moduleID :: string
  vr_actorID :: string
  vr_generation :: "64 word"
  vr_idType :: string

definition newVirtualActorReference ::
  "string \<Rightarrow> string \<Rightarrow> string \<Rightarrow> 64 word \<Rightarrow> string \<Rightarrow> virtualRef outcome" where
  "newVirtualActorReference namespace moduleID actorID generation idType =
     (if namespace = [] then Fail (Errorf ''namespace cannot be empty'' [])
      else if moduleID = [] then Fail (Errorf ''moduleID cannot be empty'' [])
      else if actorID = [] then Fail (Errorf ''moduleID cannot be empty'' [])
      else if generation \<le> 0 then Fail (Errorf ''generation must be >0'' [])
      else Ret \<lparr>vr_namespace = namespace, vr_moduleID = moduleID, vr_actorID = actorID,
                vr_generation = generation, vr_idType = idType\<rparr>)"

definition NewVirtualWorkerReference :: "string \<Rightarrow> string \<Rightarrow> string \<Rightarrow> virtualRef outcome" where
  "NewVirtualWorkerReference namespace moduleID actorID =
     newVirtualActorReference namespace moduleID actorID 1 IDTypeWorker"

definition NewVirtualActorReference :: "string \<Rightarrow> string \<Rightarrow> string \<Rightarrow> 64 word \<Rightarrow> virtualRef outcome" where
  "NewVirtualActorReference namespace moduleID actorID generation =
     newVirtualActorReference namespace moduleID actorID generation IDTypeActor"

definition vrActorID :: "virtualRef \<Rightarrow> NamespacedActorID" where
  "vrActorID l = NewNamespacedActorID (vr_namespace l) (vr_actorID l) (vr_moduleID l) (vr_idType l)"

definition vrModuleID :: "virtualRef \<Rightarrow> NamespacedID" where
  "vrModuleID l = NewNamespacedID (vr_namespace l) (vr_moduleID l) (vr_idType l)"

subsection \<open>\<open>ref.go\<close>\<close>

record actorRef =
  ar_virtualRef :: virtualRef
  ar_serverID :: string
  ar_serverVersion :: int
  ar_address :: string

definition NewActorReference ::
  "string \<Rightarrow> int \<Rightarrow> string \<Rightarrow> string \<Rightarrow> string \<Rightarrow> string \<Rightarrow> 64 word \<Rightarrow> actorRef outcome" where
  "NewActorReference serverID serverVersion address namespace moduleID actorID generation =
     (case NewVirtualActorReference namespace moduleID actorID generation of
        Fail e \<Rightarrow> Fail (Wrapf ''NewActorReference: error creating new virtual reference: %w'' [] e)
      | Ret virtual \<Rightarrow>
          if serverID = [] then Fail (Errorf ''serverID cannot be empty'' [])
          else if address = [] then Fail (Errorf ''address cannot be empty'' [])
          else Ret \<lparr>ar_virtualRef = virtual, ar_serverID = serverID,
                    ar_serverVersion = serverVersion, ar_address = address\<rparr>
      | Panic p \<Rightarrow> Panic p
      | Blocked \<Rightarrow> Blocked)"

definition arNamespace :: "actorRef \<Rightarrow> string" where
  "arNamespace l = vr_namespace (ar_virtualRef l)"

definition arActorID :: "actorRef \<Rightarrow> NamespacedActorID" where
  "arActorID l = vrActorID (ar_virtualRef l)"

definition arModuleID :: "actorRef \<Rightarrow> NamespacedID" where
  "arModuleID l = vrModuleID (ar_virtualRef l)"

definition arGeneration :: "actorRef \<Rightarrow> 64 word" where
  "arGeneration l = vr_generation (ar_virtualRef l)"

subsection \<open>Properties\<close>

text \<open>
  A reference is created exactly if every identifier is non-empty and the
  generation is positive; every other input is an error, never a panic. The methods of a created
  reference return what it was created with.
\<close>

lemma NewActorReference_spec:
  "NewActorReference sid ver addr ns m a gen =
     (if sid \<noteq> [] \<and> addr \<noteq> [] \<and> ns \<noteq> [] \<and> m \<noteq> [] \<and> a \<noteq> [] \<and> gen \<noteq> 0
      then Ret \<lparr>ar_virtualRef = \<lparr>vr_namespace = ns, vr_moduleID = m, vr_actorID = a,
                                 vr_generation = gen, vr_idType = IDTypeActor\<rparr>,
                ar_serverID = sid, ar_serverVersion = ver, ar_address = addr\<rparr>
      else Fail (if ns = [] then Wrapf ''NewActorReference: error creating new virtual reference: %w'' []
                                  (Errorf ''namespace cannot be empty'' [])
                 else if m = [] \<or> a = [] then Wrapf ''NewActorReference: error creating new virtual reference: %w'' []
                                  (Errorf ''moduleID cannot be empty'' [])
                 else if gen = 0 then Wrapf ''NewActorReference: error creating new virtual reference: %w'' []
                                  (Errorf ''generation must be >0'' [])
                 else if sid = [] then Errorf ''serverID cannot be empty'' []
                 else Errorf ''address cannot be empty'' []))"
  by (simp add: NewActorReference_def NewVirtualActorReference_def newVirtualActorReference_def)

text \<open>
  Actors and workers do not collide. An actor and a worker with the same namespace, module and
  identifier have different keys for the in-memory tables, and two actor references share a key only
  if they name the same actor.
\<close>

lemma reference_keys:
  assumes "NewVirtualActorReference ns m a gen = Ret r"
    and "NewVirtualActorReference ns' m' a' gen' = Ret r'"
    and "NewVirtualWorkerReference ns' m' a' = Ret w"
  shows "vrActorID r \<noteq> vrActorID w \<and> vrModuleID r \<noteq> vrModuleID w
    \<and> (vrActorID r = vrActorID r' \<longleftrightarrow> ns = ns' \<and> m = m' \<and> a = a')"
  using assms
  by (auto simp: NewVirtualActorReference_def NewVirtualWorkerReference_def newVirtualActorReference_def
      vrActorID_def vrModuleID_def NewNamespacedActorID_def NewNamespacedID_def IDTypeActor_def IDTypeWorker_def
      split: if_splits)

end
