(* ===== verification/Registry_Data.thy ===== *)
theory Registry_Data
  imports Go_JSON_Roundtrip Virtual_Types Tuple_Order
begin

section \<open>The data of the registry\<close>

text \<open>
  The types of \<open>virtual/registry/types.go\<close>, the records that \<open>virtual/registry/kv_registry.go\<close> stores
  with their JSON form, and the keys under which it stores them.
\<close>

subsection \<open>\<open>registry/types.go\<close>\<close>

record ModuleOptions =
  AllowEmptyModuleBytes :: bool

record HeartbeatState =
  hs_NumActivatedActors :: int
  hs_Address :: string

record HeartbeatResult =
  hr_VersionStamp :: int
  hr_HeartbeatTTL :: int
  hr_ServerVersion :: int

subsection \<open>Stored records\<close>

record activation =
  act_ServerID :: string
  act_ServerVersion :: int

record registeredActor =
  ra_Opts :: ActorOptions
  ra_ModuleID :: string
  ra_Generation :: "64 word"
  ra_Activation :: activation

record registeredModule =
  rm_Bytes :: "bytes option"  \<comment> \<open>\<open>None\<close> is the nil slice\<close>
  rm_Opts :: ModuleOptions

record serverState =
  ss_ServerID :: string
  ss_LastHeartbeatedAt :: int
  ss_HeartbeatState :: HeartbeatState
  ss_ServerVersion :: int

definition newActivation :: "string \<Rightarrow> int \<Rightarrow> activation" where
  "newActivation serverID serverVersion =
     \<lparr>act_ServerID = serverID, act_ServerVersion = serverVersion\<rparr>"

text \<open>The zero values.\<close>

definition zeroActivation :: activation where
  "zeroActivation = newActivation [] 0"

definition zeroActor :: registeredActor where
  "zeroActor = \<lparr>ra_Opts = ActorOptions, ra_ModuleID = [], ra_Generation = 0, ra_Activation = zeroActivation\<rparr>"

definition zeroModule :: registeredModule where
  "zeroModule = \<lparr>rm_Bytes = None, rm_Opts = \<lparr>AllowEmptyModuleBytes = False\<rparr>\<rparr>"

definition zeroServer :: serverState where
  "zeroServer =
     \<lparr>ss_ServerID = [], ss_LastHeartbeatedAt = 0,
      ss_HeartbeatState = \<lparr>hs_NumActivatedActors = 0, hs_Address = []\<rparr>, ss_ServerVersion = 0\<rparr>"

subsection \<open>Their JSON form\<close>

definition actorJSON :: "registeredActor \<Rightarrow> json" where
  "actorJSON ra =
     JObj [(''Opts'', JObj []),
           (''ModuleID'', JStr (ra_ModuleID ra)),
           (''Generation'', JNum (decInt (uint (ra_Generation ra)))),
           (''Activation'',
              JObj [(''ServerID'', JStr (act_ServerID (ra_Activation ra))),
                    (''ServerVersion'', JNum (decInt (act_ServerVersion (ra_Activation ra))))])]"

definition moduleJSON :: "registeredModule \<Rightarrow> json" where
  "moduleJSON rm =
     JObj [(''Bytes'', bytesJSON (rm_Bytes rm)),
           (''Opts'', JObj [(''AllowEmptyModuleBytes'', JBool (AllowEmptyModuleBytes (rm_Opts rm)))])]"

definition serverJSON :: "serverState \<Rightarrow> json" where
  "serverJSON ss =
     JObj [(''ServerID'', JStr (ss_ServerID ss)),
           (''LastHeartbeatedAt'', JNum (decInt (ss_LastHeartbeatedAt ss))),
           (''HeartbeatState'',
              JObj [(''NumActivatedActors'', JNum (decInt (hs_NumActivatedActors (ss_HeartbeatState ss)))),
                    (''Address'', JStr (hs_Address (ss_HeartbeatState ss)))]),
           (''ServerVersion'', JNum (decInt (ss_ServerVersion ss)))]"

definition intoActorOptions :: "json \<Rightarrow> ActorOptions \<Rightarrow> ActorOptions option" where
  "intoActorOptions = intoStruct []"

definition intoActivation :: "json \<Rightarrow> activation \<Rightarrow> activation option" where
  "intoActivation =
     intoStruct [(''ServerID'', field intoString act_ServerID (\<lambda>x. act_ServerID_update (\<lambda>_. x))),
                 (''ServerVersion'', field intoInt64 act_ServerVersion (\<lambda>x. act_ServerVersion_update (\<lambda>_. x)))]"

definition intoActor :: "json \<Rightarrow> registeredActor \<Rightarrow> registeredActor option" where
  "intoActor =
     intoStruct [(''Opts'', field intoActorOptions ra_Opts (\<lambda>x. ra_Opts_update (\<lambda>_. x))),
                 (''ModuleID'', field intoString ra_ModuleID (\<lambda>x. ra_ModuleID_update (\<lambda>_. x))),
                 (''Generation'', field intoUint64 ra_Generation (\<lambda>x. ra_Generation_update (\<lambda>_. x))),
                 (''Activation'', field intoActivation ra_Activation (\<lambda>x. ra_Activation_update (\<lambda>_. x)))]"

definition intoModuleOptions :: "json \<Rightarrow> ModuleOptions \<Rightarrow> ModuleOptions option" where
  "intoModuleOptions =
     intoStruct [(''AllowEmptyModuleBytes'',
       field intoBool AllowEmptyModuleBytes (\<lambda>x. AllowEmptyModuleBytes_update (\<lambda>_. x)))]"

definition intoModule :: "json \<Rightarrow> registeredModule \<Rightarrow> registeredModule option" where
  "intoModule =
     intoStruct [(''Bytes'', field intoBytes rm_Bytes (\<lambda>x. rm_Bytes_update (\<lambda>_. x))),
                 (''Opts'', field intoModuleOptions rm_Opts (\<lambda>x. rm_Opts_update (\<lambda>_. x)))]"

definition intoHeartbeatState :: "json \<Rightarrow> HeartbeatState \<Rightarrow> HeartbeatState option" where
  "intoHeartbeatState =
     intoStruct [(''NumActivatedActors'', field intoInt64 hs_NumActivatedActors (\<lambda>x. hs_NumActivatedActors_update (\<lambda>_. x))),
                 (''Address'', field intoString hs_Address (\<lambda>x. hs_Address_update (\<lambda>_. x)))]"

definition intoServer :: "json \<Rightarrow> serverState \<Rightarrow> serverState option" where
  "intoServer =
     intoStruct [(''ServerID'', field intoString ss_ServerID (\<lambda>x. ss_ServerID_update (\<lambda>_. x))),
                 (''LastHeartbeatedAt'', field intoInt64 ss_LastHeartbeatedAt (\<lambda>x. ss_LastHeartbeatedAt_update (\<lambda>_. x))),
                 (''HeartbeatState'', field intoHeartbeatState ss_HeartbeatState (\<lambda>x. ss_HeartbeatState_update (\<lambda>_. x))),
                 (''ServerVersion'', field intoInt64 ss_ServerVersion (\<lambda>x. ss_ServerVersion_update (\<lambda>_. x)))]"

definition marshalActor :: "registeredActor \<Rightarrow> bytes" where
  "marshalActor ra = marshal (actorJSON ra)"

definition unmarshalActor :: "bytes \<Rightarrow> registeredActor outcome" where
  "unmarshalActor b = unmarshal intoActor zeroActor b"

definition marshalModule :: "registeredModule \<Rightarrow> bytes" where
  "marshalModule rm = marshal (moduleJSON rm)"

definition unmarshalModule :: "bytes \<Rightarrow> registeredModule outcome" where
  "unmarshalModule b = unmarshal intoModule zeroModule b"

definition marshalServer :: "serverState \<Rightarrow> bytes" where
  "marshalServer ss = marshal (serverJSON ss)"

definition unmarshalServer :: "bytes \<Rightarrow> serverState outcome" where
  "unmarshalServer b = unmarshal intoServer zeroServer b"

subsection \<open>The values that survive storage\<close>

definition wfActor :: "registeredActor \<Rightarrow> bool" where
  "wfActor ra \<longleftrightarrow> validString (ra_ModuleID ra) \<and> validString (act_ServerID (ra_Activation ra))
     \<and> is_i64 (act_ServerVersion (ra_Activation ra))"

definition wfServer :: "serverState \<Rightarrow> bool" where
  "wfServer ss \<longleftrightarrow> validString (ss_ServerID ss) \<and> validString (hs_Address (ss_HeartbeatState ss))
     \<and> is_i64 (ss_LastHeartbeatedAt ss) \<and> is_i64 (hs_NumActivatedActors (ss_HeartbeatState ss))
     \<and> is_i64 (ss_ServerVersion ss)"

lemma validString_Nil [simp]: "validString []"
  by (simp add: validString.simps)

lemma names_valid [simp]:
  "validString ''Opts''" "validString ''ModuleID''" "validString ''Generation''" "validString ''Activation''"
  "validString ''ServerID''" "validString ''ServerVersion''" "validString ''Bytes''"
  "validString ''AllowEmptyModuleBytes''" "validString ''LastHeartbeatedAt''" "validString ''HeartbeatState''"
  "validString ''NumActivatedActors''" "validString ''Address''"
  by (rule validString_ascii, simp)+

lemma wfJ_dec [simp]: "wfJ (JNum (decInt z))"
  by auto

lemmas into_defs = intoStruct_def findField_def field_def intoString_def intoInt64_def intoUint64_def
  intoBool_def intoBytes_def

lemma actor_roundtrip:
  assumes "wfActor ra"
  shows "unmarshalActor (marshalActor ra) = Ret ra"
  unfolding unmarshalActor_def marshalActor_def
proof (rule unmarshal_marshal)
  show "wfJ (actorJSON ra)" using assms by (simp add: actorJSON_def wfActor_def del: wfJ.simps(3))
  show "jdepth (actorJSON ra) \<le> maxNestingDepth" by (simp add: actorJSON_def maxNestingDepth_def)
  show "intoActor (actorJSON ra) zeroActor = Some ra"
    using assms
    by (cases "ra_Opts ra")
      (simp add: actorJSON_def intoActor_def intoActorOptions_def intoActivation_def into_defs zeroActor_def
        zeroActivation_def newActivation_def parseInt64_decInt parseUint64_dec wfActor_def)
qed

lemma module_roundtrip: "unmarshalModule (marshalModule rm) = Ret rm"
  unfolding unmarshalModule_def marshalModule_def
proof (rule unmarshal_marshal)
  show "wfJ (moduleJSON rm)"
    by (simp add: moduleJSON_def bytesJSON_def validString_b64 split: option.split)
  show "jdepth (moduleJSON rm) \<le> maxNestingDepth"
    by (simp add: moduleJSON_def bytesJSON_def maxNestingDepth_def split: option.split)
  show "intoModule (moduleJSON rm) zeroModule = Some rm"
    by (simp add: moduleJSON_def bytesJSON_def intoModule_def intoModuleOptions_def into_defs zeroModule_def
        b64Decode_encode split: option.split)
qed

lemma server_roundtrip:
  assumes "wfServer ss"
  shows "unmarshalServer (marshalServer ss) = Ret ss"
  unfolding unmarshalServer_def marshalServer_def
proof (rule unmarshal_marshal)
  show "wfJ (serverJSON ss)" using assms by (simp add: serverJSON_def wfServer_def del: wfJ.simps(3))
  show "jdepth (serverJSON ss) \<le> maxNestingDepth" by (simp add: serverJSON_def maxNestingDepth_def)
  show "intoServer (serverJSON ss) zeroServer = Some ss"
    using assms
    by (simp add: serverJSON_def intoServer_def intoHeartbeatState_def into_defs zeroServer_def
        parseInt64_decInt wfServer_def)
qed

text \<open>
  \<^bold>\<open>C38\<close> (records survive storage). What the registry stores it reads back unchanged: registered
  modules always, registered actors and server states as long as their strings are valid UTF-8
  and their numbers are 64-bit integers.
\<close>

theorem stored_records_roundtrip:
  assumes "wfActor ra" "wfServer ss"
  shows "unmarshalActor (marshalActor ra) = Ret ra \<and> unmarshalServer (marshalServer ss) = Ret ss
    \<and> unmarshalModule (marshalModule rm) = Ret rm"
  using actor_roundtrip [OF assms(1)] server_roundtrip [OF assms(2)] module_roundtrip by simp

lemma wf_zero: "wfActor zeroActor" "wfServer zeroServer"
  by (simp_all add: wfActor_def wfServer_def zeroActor_def zeroServer_def zeroActivation_def newActivation_def is_i64_def)

theorem stored_records_roundtrip_witness:
  "unmarshalActor (marshalActor zeroActor) = Ret zeroActor \<and> unmarshalServer (marshalServer zeroServer) = Ret zeroServer
   \<and> unmarshalModule (marshalModule \<lparr>rm_Bytes = Some [0, 255], rm_Opts = \<lparr>AllowEmptyModuleBytes = True\<rparr>\<rparr>)
       = Ret \<lparr>rm_Bytes = Some [0, 255], rm_Opts = \<lparr>AllowEmptyModuleBytes = True\<rparr>\<rparr>"
  by (rule stored_records_roundtrip [OF wf_zero])

subsection \<open>Keys\<close>

text \<open>The result of \<open>Pack\<close>, which does not panic on the tuples of the registry.\<close>

definition packed :: "tuple \<Rightarrow> bytes" where
  "packed t = (case Pack t of Ret b \<Rightarrow> b | _ \<Rightarrow> [])"

definition getModulePrefix :: "string \<Rightarrow> string \<Rightarrow> bytes" where
  "getModulePrefix namespace moduleID = packed [TString namespace, TString ''modules'', TString moduleID]"

definition getModulePartKey :: "string \<Rightarrow> string \<Rightarrow> int \<Rightarrow> bytes" where
  "getModulePartKey namespace moduleID part =
     packed [TString namespace, TString ''modules'', TString moduleID, TInt (of_int part)]"

definition getActorKey :: "string \<Rightarrow> string \<Rightarrow> string \<Rightarrow> bytes" where
  "getActorKey namespace actorID moduleID =
     packed [TString namespace, TString ''actors'', TString moduleID, TString actorID, TString ''state'']"

definition getActoKVKey :: "string \<Rightarrow> string \<Rightarrow> string \<Rightarrow> bytes \<Rightarrow> bytes" where
  "getActoKVKey namespace actorID moduleID key =
     packed [TString namespace, TString ''actors'', TString moduleID, TString actorID, TString ''kv'', TBytes key]"

definition getServerKey :: "string \<Rightarrow> bytes" where
  "getServerKey serverID = packed [TString ''servers'', TString serverID]"

definition getServersPrefix :: bytes where
  "getServersPrefix = packed [TString ''servers'']"

lemmas key_defs = getModulePrefix_def getModulePartKey_def getActorKey_def getActoKVKey_def getServerKey_def
  getServersPrefix_def

lemma packed_encs: "packable t \<Longrightarrow> packed t = encs False t"
  by (simp add: packed_def Pack_encs)

lemma packed_inject: "packable t \<Longrightarrow> packable u \<Longrightarrow> packed t = packed u \<longleftrightarrow> norms t = norms u"
  by (simp add: packed_encs encs_inject)

lemma packed_prefix:
  "packable u \<Longrightarrow> prefix (packed (map TString (ss @ [l]))) (packed u) \<longleftrightarrow>
     (\<exists>s v. norms u = map TString ss @ TString s # v \<and> nulExt l s)"
  using encs_prefix packable_strings [of "ss @ [l]"] by (simp only: packed_encs)

definition isPart :: "int \<Rightarrow> bool" where
  "isPart i \<longleftrightarrow> 0 \<le> i \<and> i < 2 ^ 63"

lemma sint_part: "isPart i \<Longrightarrow> sint (of_int i :: 64 word) = i"
  by (simp add: isPart_def sint_of_int64)

lemma norm_part: "isPart i \<Longrightarrow> norm (TInt (of_int i)) = TInt64 (of_int i)"
  by (simp add: sint_part normInt_def) (simp add: isPart_def)

lemma of_int_part_inject: "isPart i \<Longrightarrow> isPart j \<Longrightarrow> (of_int i :: 64 word) = of_int j \<longleftrightarrow> i = j"
  by (metis sint_part)

text \<open>No two entities share a key.\<close>

lemma actorKey_inject [simp]:
  "getActorKey ns a m = getActorKey ns' a' m' \<longleftrightarrow> ns = ns' \<and> a = a' \<and> m = m'"
  by (auto simp: key_defs packed_inject)

lemma kvKey_inject [simp]:
  "getActoKVKey ns a m k = getActoKVKey ns' a' m' k' \<longleftrightarrow> ns = ns' \<and> a = a' \<and> m = m' \<and> k = k'"
  by (auto simp: key_defs packed_inject)

lemma serverKey_inject [simp]: "getServerKey i = getServerKey j \<longleftrightarrow> i = j"
  by (simp add: key_defs packed_inject)

lemma partKey_inject:
  assumes "isPart i" "isPart j"
  shows "getModulePartKey ns m i = getModulePartKey ns' m' j \<longleftrightarrow> ns = ns' \<and> m = m' \<and> i = j"
proof -
  have "getModulePartKey ns m i = getModulePartKey ns' m' j \<longleftrightarrow>
      ns = ns' \<and> m = m' \<and> norm (TInt (of_int i)) = norm (TInt (of_int j))"
    by (simp add: key_defs packed_inject del: norm.simps(2))
  then show ?thesis using assms by (simp add: norm_part of_int_part_inject del: norm.simps(2))
qed

lemma keys_disjoint [simp]:
  "getActorKey ns a m \<noteq> getActoKVKey ns' a' m' k"
  "getActorKey ns a m \<noteq> getModulePartKey ns' m' i"
  "getActorKey ns a m \<noteq> getServerKey j"
  "getActoKVKey ns a m k \<noteq> getModulePartKey ns' m' i"
  "getActoKVKey ns a m k \<noteq> getServerKey j"
  "getModulePartKey ns m i \<noteq> getServerKey j"
  by (simp_all add: key_defs packed_inject)

lemmas keys_disjoint_sym [simp] = keys_disjoint [symmetric]

text \<open>Which keys a scan over the servers and over a module meets.\<close>

lemma servers_prefix:
  "prefix getServersPrefix (getServerKey sid)"
  "prefix getServersPrefix (getActorKey ns a m) \<longleftrightarrow> nulExt ''servers'' ns"
  "prefix getServersPrefix (getActoKVKey ns a m k) \<longleftrightarrow> nulExt ''servers'' ns"
  "prefix getServersPrefix (getModulePartKey ns m i) \<longleftrightarrow> nulExt ''servers'' ns"
  using packed_prefix [of _ "[]" "''servers''"] by (simp_all add: key_defs) (simp add: nulExt_def)

lemma module_prefix:
  "\<not> prefix (getModulePrefix ns m) (getServerKey j)"
  "\<not> prefix (getModulePrefix ns m) (getActorKey ns' a' m')"
  "\<not> prefix (getModulePrefix ns m) (getActoKVKey ns' a' m' k)"
  "prefix (getModulePrefix ns m) (getModulePartKey ns' m' i) \<longleftrightarrow> ns = ns' \<and> nulExt m m'"
  using packed_prefix [of _ "[ns, ''modules'']" m] by (auto simp add: key_defs)

lemma partKey_less:
  assumes "isPart i" "isPart j" "i < j"
  shows "getModulePartKey ns m i < getModulePartKey ns m j"
  using tup_less_enc [of "[TString ns, TString ''modules'', TString m, TInt (of_int i)]"
      "[TString ns, TString ''modules'', TString m, TInt (of_int j)]"] assms
  by (simp add: key_defs packed_encs elt_less.simps plain_less_def sint_part)

end
