(* ===== verification/KV_Store.thy ===== *)
theory KV_Store
  imports Nola_Prelude
begin

section \<open>The key-value interface: \<open>virtual/registry/kv/kv.go\<close>\<close>

text \<open>
  The interfaces \<open>Transaction\<close> and \<open>Store\<close> as records of operations on the state \<open>'s\<close> of an
  implementation; \<open>'a\<close> is the type of the values that a transaction function returns as \<open>any\<close>.
  The locale \<open>kv_store\<close> states what the registry relies on. It is interpreted on the
  in-memory store in \<open>Local_KV\<close> and on FoundationDB in \<open>FDB_Store\<close>.
\<close>

record 's transaction =
  tPut :: "bytes \<Rightarrow> bytes \<Rightarrow> ('s, unit) call"
  tGet :: "bytes \<Rightarrow> ('s, bytes option) call"
  tIterPrefix :: "bytes \<Rightarrow> ('s, (bytes \<times> bytes) list) call"
  tGetVersionStamp :: "('s, int) call"
  tCommit :: "('s, unit) call"
  tCancel :: "('s, unit) call"

record ('s, 'a) store =
  kBeginTransaction :: "('s, 's transaction) call"
  kTransact :: "('s transaction \<Rightarrow> ('s, 'a) call) \<Rightarrow> ('s, 'a) call"
  kClose :: "('s, unit) call"
  kUnsafeWipeAll :: "('s, unit) call"

text \<open>
  The interface's \<open>IterPrefix\<close> takes a callback. The callbacks of the registry only read and write
  local variables (here the accumulator), never the store, so \<^const>\<open>tIterPrefix\<close> gives the pairs that
  are visited and \<open>iterPrefix\<close> runs the callback on them in order, up to its first error.
\<close>

fun iterCallback :: "(bytes \<Rightarrow> bytes \<Rightarrow> 'c \<Rightarrow> 'c outcome) \<Rightarrow> (bytes \<times> bytes) list \<Rightarrow> 'c \<Rightarrow> 'c outcome" where
  "iterCallback fn [] acc = Ret acc"
| "iterCallback fn ((k, v) # kvs) acc = obind (fn k v acc) (iterCallback fn kvs)"

definition iterPrefix ::
  "'s transaction \<Rightarrow> bytes \<Rightarrow> (bytes \<Rightarrow> bytes \<Rightarrow> 'c \<Rightarrow> 'c outcome) \<Rightarrow> 'c \<Rightarrow> ('s, 'c) call" where
  "iterPrefix tr prfx fn acc =
     andThen (tIterPrefix tr prfx) (\<lambda>kvs s. (iterCallback fn kvs acc, s))"

text \<open>A sequence of puts, and the map that it leaves.\<close>

fun puts :: "'s transaction \<Rightarrow> (bytes \<times> bytes) list \<Rightarrow> ('s, unit) call" where
  "puts tr [] = ret ()"
| "puts tr ((k, v) # kvs) = andThen (tPut tr k v) (\<lambda>_. puts tr kvs)"

fun updAll :: "(bytes \<times> bytes) list \<Rightarrow> (bytes \<rightharpoonup> bytes) \<Rightarrow> (bytes \<rightharpoonup> bytes)" where
  "updAll [] m = m"
| "updAll ((k, v) # kvs) m = updAll kvs (m(k \<mapsto> v))"

lemma iterCallback_append:
  "iterCallback fn (xs @ ys) acc = obind (iterCallback fn xs acc) (iterCallback fn ys)"
proof (induction xs arbitrary: acc)
  case (Cons kv xs)
  obtain k v where "kv = (k, v)" by force
  then show ?case using Cons by (cases "fn k v acc") auto
qed simp

lemma iterCallback_collect:
  "iterCallback (\<lambda>k v acc. Ret (acc @ f k v)) kvs acc = Ret (acc @ concat (map (\<lambda>(k, v). f k v) kvs))"
  by (induction kvs arbitrary: acc) auto

subsection \<open>The contract\<close>

text \<open>
  The pairs of a finite map below a prefix, in key order: \<open>scan p m kvs\<close>.
\<close>

definition scan :: "bytes \<Rightarrow> (bytes \<rightharpoonup> bytes) \<Rightarrow> (bytes \<times> bytes) list \<Rightarrow> bool" where
  "scan p m kvs \<longleftrightarrow> sorted_wrt (<) (map fst kvs)
     \<and> (\<forall>k v. (k, v) \<in> set kvs \<longleftrightarrow> prefix p k \<and> m k = Some v)"

lemma sorted_wrt_set_unique:
  fixes xs ys :: "'b :: linorder list"
  shows "sorted_wrt (<) xs \<Longrightarrow> sorted_wrt (<) ys \<Longrightarrow> set xs = set ys \<Longrightarrow> xs = ys"
  by (simp add: sorted_wrt_iff_nth_less strict_sorted_iff strict_sorted_equal)

lemma scan_unique:
  assumes "scan p m xs" "scan p m ys"
  shows "xs = ys"
proof -
  have s: "set xs = set ys" using assms by (auto simp: scan_def)
  then have "map fst xs = map fst ys"
    using assms sorted_wrt_set_unique [of "map fst xs" "map fst ys"] by (simp add: scan_def)
  moreover have "snd (xs ! i) = snd (ys ! i)" if "i < length xs" for i
  proof -
    have l: "length xs = length ys" using calculation by (rule map_eq_imp_length_eq)
    have f: "fst (xs ! i) = fst (ys ! i)" using calculation that l by (metis nth_map)
    have "xs ! i \<in> set xs" "ys ! i \<in> set ys" using that l by simp_all
    then have "m (fst (xs ! i)) = Some (snd (xs ! i))" "m (fst (ys ! i)) = Some (snd (ys ! i))"
      using assms by (metis prod.collapse scan_def)+
    with f show ?thesis by simp
  qed
  ultimately have "map fst xs = map fst ys" "map snd xs = map snd ys"
    by (auto intro!: nth_equalityI dest: map_eq_imp_length_eq)
  then show ?thesis by (metis zip_map_fst_snd)
qed

text \<open>Prefixes below which not all keys follow: those with a byte other than the largest one.\<close>

definition properPrefix :: "bytes \<Rightarrow> bool" where
  "properPrefix p \<longleftrightarrow> (\<exists>b \<in> set p. b \<noteq> 0xFF)"

text \<open>
  A store with its transactions. \<open>idle\<close> are the states in which no transaction is open, \<open>busy\<close>
  those inside one; \<open>contents\<close> is the map that the store holds and \<open>stamp\<close> the version stamp that
  the next call of \<open>GetVersionStamp\<close> returns (about a million per second, so that it stays below
  the largest \<open>time.Duration\<close>, in microseconds, for 292 years). \<open>upd\<close>, \<open>tick\<close>, \<open>enter\<close>,
  \<open>leave\<close> and \<open>rollback\<close> are the state changes of a put, a stamp, the begin, the end and the
  abandoning of a transaction function. Time passes with stamps and at the end of transactions. What
  a panic leaves behind differs between the stores and is not part of the contract.
\<close>

locale kv_store =
  fixes st :: "('s, 'a) store"
    and tr :: "'s transaction"
    and idle :: "'s \<Rightarrow> bool"
    and busy :: "'s \<Rightarrow> bool"
    and contents :: "'s \<Rightarrow> bytes \<rightharpoonup> bytes"
    and stamp :: "'s \<Rightarrow> int"
    and upd :: "bytes \<Rightarrow> bytes \<Rightarrow> 's \<Rightarrow> 's"
    and tick :: "'s \<Rightarrow> 's"
    and enter :: "'s \<Rightarrow> 's"
    and leave :: "'s \<Rightarrow> 's"
    and rollback :: "'s \<Rightarrow> 's \<Rightarrow> 's"
  assumes put: "busy s \<Longrightarrow> tPut tr k v s = (Ret (), upd k v s)"
    and get: "busy s \<Longrightarrow> tGet tr k s = (Ret (contents s k), s)"
    and iter: "busy s \<Longrightarrow> properPrefix p \<Longrightarrow> \<exists>kvs. tIterPrefix tr p s = (Ret kvs, s) \<and> scan p (contents s) kvs"
    and version: "busy s \<Longrightarrow> tGetVersionStamp tr s = (Ret (stamp s), tick s)"
    and transact: "idle s \<Longrightarrow> fn tr (enter s) = (r, s') \<Longrightarrow> busy s' \<Longrightarrow> answered r \<Longrightarrow> kTransact st fn s =
      (case r of Ret a \<Rightarrow> (Ret a, leave s') | _ \<Rightarrow> (r, rollback s s'))"
    and busy_upd: "busy s \<Longrightarrow> busy (upd k v s)"
    and busy_tick: "busy s \<Longrightarrow> busy (tick s)"
    and busy_enter: "idle s \<Longrightarrow> busy (enter s)"
    and idle_rollback: "idle s \<Longrightarrow> busy s' \<Longrightarrow> idle (rollback s s')"
    and idle_leave: "busy s \<Longrightarrow> idle (leave s)"
    and contents_upd: "busy s \<Longrightarrow> contents (upd k v s) = (contents s)(k \<mapsto> v)"
    and contents_tick: "busy s \<Longrightarrow> contents (tick s) = contents s"
    and contents_enter: "idle s \<Longrightarrow> contents (enter s) = contents s"
    and contents_leave: "busy s \<Longrightarrow> contents (leave s) = contents s"
    and contents_rollback: "idle s \<Longrightarrow> busy s' \<Longrightarrow> contents (rollback s s') = contents s"
    and stamp_range: "busy s \<Longrightarrow> 0 \<le> stamp s \<and> stamp s * 1000 < 2 ^ 63"
    and stamp_tick: "busy s \<Longrightarrow> stamp s \<le> stamp (tick s)"
    and stamp_upd: "busy s \<Longrightarrow> stamp (upd k v s) = stamp s"
    and stamp_enter: "idle s \<Longrightarrow> stamp (enter s) = stamp s"
    and stamp_leave: "busy s \<Longrightarrow> stamp s \<le> stamp (leave s)"
    and stamp_rollback: "idle s \<Longrightarrow> busy s' \<Longrightarrow> stamp s' \<le> stamp (rollback s s')"
begin

lemmas kv_simps = put get version busy_upd busy_tick busy_enter idle_rollback idle_leave contents_upd
  contents_tick contents_enter contents_leave contents_rollback stamp_upd stamp_enter

text \<open>How a transaction function that keeps the transaction open ends.\<close>

lemma transact_Ret:
  assumes "idle s" "fn tr (enter s) = (Ret a, s')" "busy s'"
  shows "kTransact st fn s = (Ret a, leave s') \<and> idle (leave s') \<and> contents (leave s') = contents s'
    \<and> stamp s' \<le> stamp (leave s')"
  using transact [of s fn _ s'] assms by (simp add: kv_simps stamp_leave)

lemma transact_Fail:
  assumes "idle s" "fn tr (enter s) = (Fail e, s')" "busy s'"
  obtains s'' where "kTransact st fn s = (Fail e, s'')" "idle s''" "contents s'' = contents s"
    "stamp s' \<le> stamp s''"
  using transact [of s fn _ s'] assms by (simp add: kv_simps stamp_rollback)

lemma puts_updAll:
  "busy s \<Longrightarrow> \<exists>s'. puts tr kvs s = (Ret (), s') \<and> busy s' \<and> contents s' = updAll kvs (contents s)
     \<and> stamp s' = stamp s"
proof (induction kvs arbitrary: s)
  case (Cons kv kvs)
  obtain k v where "kv = (k, v)" by force
  with Cons.IH [of "upd k v s"] Cons.prems show ?case
    by (simp add: kv_simps andThen_def del: fun_upd_apply)
qed simp

lemma iter_scan:
  assumes "busy s" "properPrefix p" "scan p (contents s) kvs"
  shows "tIterPrefix tr p s = (Ret kvs, s)"
  using iter [OF assms(1,2)] scan_unique [OF assms(3)] by blast

lemma iterPrefix_scan:
  assumes "busy s" "properPrefix p"
  obtains kvs where "scan p (contents s) kvs" "iterPrefix tr p fn acc s = (iterCallback fn kvs acc, s)"
  using iter [OF assms] by (auto simp: iterPrefix_def andThen_def)

end

text \<open>
  Transactions that stay open between calls: \<open>snapshot\<close> is what a cancellation restores.
\<close>

locale kv_open_transactions = kv_store st tr idle busy contents stamp upd tick enter leave rollback
  for st :: "('s, 'a) store" and tr and idle :: "'s \<Rightarrow> bool" and busy and contents and stamp and upd and tick
    and enter and leave and rollback +
  fixes opn :: "'s \<Rightarrow> 's"
    and snapshot :: "'s \<Rightarrow> (bytes \<rightharpoonup> bytes) option"
    and commit :: "'s \<Rightarrow> 's"
    and cancel :: "'s \<Rightarrow> 's"
  assumes begin_transaction: "idle s \<Longrightarrow> kBeginTransaction st s = (Ret tr, opn s)"
    and busy_opn: "idle s \<Longrightarrow> busy (opn s)"
    and contents_opn: "idle s \<Longrightarrow> contents (opn s) = contents s"
    and stamp_opn: "idle s \<Longrightarrow> stamp (opn s) = stamp s"
    and snapshot_opn: "idle s \<Longrightarrow> snapshot (opn s) = Some (contents s)"
    and snapshot_upd: "busy s \<Longrightarrow> snapshot (upd k v s) = snapshot s"
    and snapshot_tick: "busy s \<Longrightarrow> snapshot (tick s) = snapshot s"
    and commit: "busy s \<Longrightarrow> snapshot s = Some c \<Longrightarrow> tCommit tr s = (Ret (), commit s)"
    and cancel: "busy s \<Longrightarrow> snapshot s = Some c \<Longrightarrow> tCancel tr s = (Ret (), cancel s)"
    and idle_commit: "busy s \<Longrightarrow> snapshot s = Some c \<Longrightarrow> idle (commit s) \<and> contents (commit s) = contents s
      \<and> stamp s \<le> stamp (commit s)"
    and idle_cancel: "busy s \<Longrightarrow> snapshot s = Some c \<Longrightarrow> idle (cancel s) \<and> contents (cancel s) = c
      \<and> stamp s \<le> stamp (cancel s)"
begin

lemmas open_simps = begin_transaction busy_opn contents_opn stamp_opn snapshot_opn snapshot_upd
  snapshot_tick

lemma puts_snapshot:
  "busy s \<Longrightarrow> puts tr kvs s = (Ret (), s') \<Longrightarrow> snapshot s' = snapshot s"
proof (induction kvs arbitrary: s)
  case (Cons kv kvs)
  obtain k v where "kv = (k, v)" by force
  with Cons.IH [of "upd k v s"] Cons.prems show ?case by (simp add: kv_simps open_simps andThen_def)
qed simp

text \<open>An open transaction is atomic: committed puts all stay, cancelled ones all go.\<close>

lemma open_transaction_atomic:
  assumes "idle s"
  obtains s1 s2 where "kBeginTransaction st s = (Ret tr, s1)" "puts tr kvs s1 = (Ret (), s2)"
    "\<exists>s3. tCommit tr s2 = (Ret (), s3) \<and> idle s3 \<and> contents s3 = updAll kvs (contents s)"
    "\<exists>s3. tCancel tr s2 = (Ret (), s3) \<and> idle s3 \<and> contents s3 = contents s"
proof -
  obtain s2 where s2: "puts tr kvs (opn s) = (Ret (), s2)" "busy s2"
    "contents s2 = updAll kvs (contents s)"
    using puts_updAll [OF busy_opn [OF assms]] assms by (auto simp: open_simps)
  have "snapshot s2 = Some (contents s)"
    using puts_snapshot [OF busy_opn [OF assms] s2(1)] assms by (simp add: open_simps)
  with s2 commit idle_commit cancel idle_cancel begin_transaction [OF assms] that show ?thesis
    by metis
qed

end

end
