(* ===== verification/KV_Registry.thy ===== *)
theory KV_Registry
  imports Registry_Data KV_Store
begin

section \<open>The registry: \<open>virtual/registry/kv_registry.go\<close>\<close>

text \<open>
  Every operation of \<open>kvRegistry\<close> on a store \<open>st\<close> of the interface \<open>kv.Store\<close>, as a call on the
  store's state. Values that pass through \<open>any\<close> are the datatype \<open>goany\<close>; a failed type
  assertion is a panic. A variable that a transaction function captures and assigns
  (\<open>serverVersion\<close> of \<open>Heartbeat\<close>) travels with its result.

  \<open>GetVersionStamp\<close> is the call that runs the function of its \<open>singleflight.Group\<close>; the calls that
  wait for it get the same result. \<open>sort.Slice\<close> is modelled by a stable sort, which is what it is for up to twelve
  elements; only the first element of the result, one with a least key, is used.
\<close>

subsection \<open>Constants and helpers\<close>

definition HeartbeatTTL :: int where
  "HeartbeatTTL = 5 * 1000000000"  \<comment> \<open>nanoseconds, a \<open>time.Duration\<close>\<close>

definition errActorDoesNotExist :: goerr where
  "errActorDoesNotExist = Sentinel ''actor does not exist''"

definition IsActorDoesNotExistErr :: "goerr \<Rightarrow> bool" where
  "IsActorDoesNotExistErr err = errors_is err errActorDoesNotExist"

definition versionSince :: "int \<Rightarrow> int \<Rightarrow> int outcome" where
  "versionSince cur prev =
     (let since = i64 (cur - prev) in
      if since < 0 then Panic ''versionstamp did not increase monotonically''
      else Ret (i64 (since * 1000)))"

text \<open>A call whose error result the code drops, and an outcome without effect on the state.\<close>

definition ignoring :: "('s, 'a) call \<Rightarrow> ('s, unit) call" where
  "ignoring m s =
     (case m s of
        (Ret a, s') \<Rightarrow> (Ret (), s')
      | (Fail e, s') \<Rightarrow> (Ret (), s')
      | (Panic p, s') \<Rightarrow> (Panic p, s')
      | (Blocked, s') \<Rightarrow> (Blocked, s'))"

definition lift :: "'a outcome \<Rightarrow> ('s, 'a) call" where
  "lift r s = (r, s)"

definition wrap :: "string \<Rightarrow> goerr \<Rightarrow> goerr" where
  "wrap f e = Wrapf f [] e"

datatype goany =
    AnyNil
  | AnyRegisterModuleResult
  | AnyRegisteredModule registeredModule
  | AnyCreateActorResult
  | AnyActorReferences "actorRef list"
  | AnyInt64 int
  | AnyHeartbeat int int  \<comment> \<open>the stamp, and the captured \<open>serverVersion\<close>\<close>

definition badAssertion :: string where
  "badAssertion = ''interface conversion''"

subsection \<open>Modules\<close>

definition maxPart :: nat where
  "maxPart = 99999"

function putParts :: "'s transaction \<Rightarrow> string \<Rightarrow> string \<Rightarrow> int \<Rightarrow> bytes \<Rightarrow> ('s, unit) call" where
  "putParts tr namespace moduleID i marshaled =
     (if marshaled = [] then ret ()
      else
        (let numBytes = min maxPart (length marshaled) in
         andThen (ignoring (tPut tr (getModulePartKey namespace moduleID i) (take numBytes marshaled))) (\<lambda>_.
           putParts tr namespace moduleID (i64 (i + 1)) (drop numBytes marshaled))))"
  by pat_completeness auto
termination
  by (relation "measure (\<lambda>(tr, ns, m, i, b). length b)") (auto simp: maxPart_def)

declare putParts.simps [simp del]

text \<open>The functions that are given to \<open>Transact\<close> are definitions of their own, named \<open>...Tx\<close>.\<close>

definition registerModuleTx ::
  "string \<Rightarrow> string \<Rightarrow> bytes option \<Rightarrow> ModuleOptions \<Rightarrow> 's transaction \<Rightarrow> ('s, goany) call" where
  "registerModuleTx namespace moduleID moduleBytes opts tr =
     andThen (tGet tr (getModulePartKey namespace moduleID 0)) (\<lambda>v.
       if v \<noteq> None then
         (if AllowEmptyModuleBytes opts then ret AnyRegisterModuleResult
          else fail (Errorf ''error creating module: %s in namespace: %s, already exists''
                       [AStr moduleID, AStr namespace]))
       else
         andThen (putParts tr namespace moduleID 0
                    (marshalModule \<lparr>rm_Bytes = moduleBytes, rm_Opts = opts\<rparr>))
           (\<lambda>_. ret AnyRegisterModuleResult))"

definition RegisterModule ::
  "('s, goany) store \<Rightarrow> string \<Rightarrow> string \<Rightarrow> bytes option \<Rightarrow> ModuleOptions \<Rightarrow> ('s, unit) call" where
  "RegisterModule st namespace moduleID moduleBytes opts =
     andThen (onError (wrap ''RegisterModule: error: %w'')
                (kTransact st (registerModuleTx namespace moduleID moduleBytes opts)))
       (\<lambda>r. case r of AnyRegisterModuleResult \<Rightarrow> ret () | _ \<Rightarrow> panic badAssertion)"

definition getModuleTx :: "string \<Rightarrow> string \<Rightarrow> 's transaction \<Rightarrow> ('s, goany) call" where
  "getModuleTx namespace moduleID tr =
     andThen (iterPrefix tr (getModulePrefix namespace moduleID)
                (\<lambda>k v (moduleBytes, i). Ret (moduleBytes @ v, i + 1)) ([], 0 :: nat))
       (\<lambda>(moduleBytes, i).
         if i = 0 then fail (Errorf ''error getting module: %s, does not exist in namespace: %s''
                               [AStr moduleID, AStr namespace])
         else andThen (onError (wrap ''error unmarshaling stored module: %w'')
                         (lift (unmarshalModule moduleBytes)))
                (\<lambda>rm. ret (AnyRegisteredModule rm)))"

definition GetModule ::
  "('s, goany) store \<Rightarrow> string \<Rightarrow> string \<Rightarrow> ('s, bytes option \<times> ModuleOptions) call" where
  "GetModule st namespace moduleID =
     andThen (onError (wrap ''GetModule: error: %w'') (kTransact st (getModuleTx namespace moduleID)))
       (\<lambda>r. case r of AnyRegisteredModule result \<Rightarrow> ret (rm_Bytes result, rm_Opts result)
             | _ \<Rightarrow> panic badAssertion)"

subsection \<open>Actors\<close>

definition getActorBytes :: "'s transaction \<Rightarrow> bytes \<Rightarrow> ('s, bytes option) call" where
  "getActorBytes tr actorKey =
     onError (\<lambda>e. Errorf ''error getting actor bytes for key: %s'' [AStr []]) (tGet tr actorKey)"

definition getActor :: "'s transaction \<Rightarrow> bytes \<Rightarrow> ('s, registeredActor option) call" where
  "getActor tr actorKey =
     andThen (getActorBytes tr actorKey) (\<lambda>v.
       case v of
         None \<Rightarrow> ret None
       | Some actorBytes \<Rightarrow>
           andThen (onError (wrap ''error unmarshaling registered actor: %w'') (lift (unmarshalActor actorBytes)))
             (\<lambda>ra. ret (Some ra)))"

definition createActor ::
  "'s transaction \<Rightarrow> string \<Rightarrow> string \<Rightarrow> string \<Rightarrow> ActorOptions \<Rightarrow> ('s, unit) call" where
  "createActor tr namespace actorID moduleID opts =
     (let actorKey = getActorKey namespace actorID moduleID;
          moduleKey = getModulePartKey namespace moduleID 0 in
      andThen (getActorBytes tr actorKey) (\<lambda>v.
        if v \<noteq> None then
          fail (Errorf ''error creating actor with ID: %s, already exists in namespace: %s''
                  [AStr actorID, AStr namespace])
        else andThen (tGet tr moduleKey) (\<lambda>w.
          if w = None then
            fail (Errorf ''error creating actor, module: %s does not exist in namespace: %s''
                    [AStr moduleID, AStr namespace])
          else andThen (ignoring (tPut tr actorKey
                  (marshalActor \<lparr>ra_Opts = opts, ra_ModuleID = moduleID, ra_Generation = 1,
                                 ra_Activation = zeroActivation\<rparr>))) (\<lambda>_.
            ret ()))))"

definition createActorTx ::
  "string \<Rightarrow> string \<Rightarrow> string \<Rightarrow> ActorOptions \<Rightarrow> 's transaction \<Rightarrow> ('s, goany) call" where
  "createActorTx namespace actorID moduleID opts tr =
     andThen (createActor tr namespace actorID moduleID opts) (\<lambda>_. ret AnyCreateActorResult)"

definition CreateActor ::
  "('s, goany) store \<Rightarrow> string \<Rightarrow> string \<Rightarrow> string \<Rightarrow> ActorOptions \<Rightarrow> ('s, unit) call" where
  "CreateActor st namespace actorID moduleID opts =
     andThen (onError (wrap ''CreateActor: error: %w'')
                (kTransact st (createActorTx namespace actorID moduleID opts)))
       (\<lambda>r. case r of AnyCreateActorResult \<Rightarrow> ret () | _ \<Rightarrow> panic badAssertion)"

definition incGenerationTx :: "string \<Rightarrow> string \<Rightarrow> string \<Rightarrow> 's transaction \<Rightarrow> ('s, goany) call" where
  "incGenerationTx namespace actorID moduleID tr =
     (let actorKey = getActorKey namespace actorID moduleID in
      andThen (getActor tr actorKey) (\<lambda>found.
        case found of
          None \<Rightarrow>
            fail (Errorf ''error incrementing generation for actor with ID: %s, actor does not exist in namespace: %s''
                    [AStr actorID, AStr namespace])
        | Some ra \<Rightarrow>
            andThen (ignoring (tPut tr actorKey
                (marshalActor (ra\<lparr>ra_Generation := ra_Generation ra + 1\<rparr>)))) (\<lambda>_.
              ret AnyNil)))"

definition IncGeneration :: "('s, goany) store \<Rightarrow> string \<Rightarrow> string \<Rightarrow> string \<Rightarrow> ('s, unit) call" where
  "IncGeneration st namespace actorID moduleID =
     andThen (onError (wrap ''IncGeneration: error: %w'')
                (kTransact st (incGenerationTx namespace actorID moduleID)))
       (\<lambda>_. ret ())"

subsection \<open>Activations\<close>

definition invariantViolated :: "string \<Rightarrow> string \<Rightarrow> goerr" where
  "invariantViolated actorID namespace =
     Wrapf ''[invariant violated] error ensuring activation of actor with ID: %s, does not exist in namespace: %s, err: %w''
       [AStr actorID, AStr namespace] errActorDoesNotExist"

text \<open>The first part of \<open>EnsureActivation\<close>: the registered actor, created if it does not exist.\<close>

definition ensureActor :: "'s transaction \<Rightarrow> string \<Rightarrow> string \<Rightarrow> string \<Rightarrow> ('s, registeredActor) call" where
  "ensureActor tr namespace actorID moduleID =
     (let actorKey = getActorKey namespace actorID moduleID;
          getting = wrap ''EnsureActivation: error getting actor: %w'' in
      andThen (onError getting (getActor tr actorKey)) (\<lambda>found.
        case found of
          Some ra \<Rightarrow> ret ra
        | None \<Rightarrow>
            andThen (onError (wrap ''EnsureActivation: error creating actor: %w'')
                       (createActor tr namespace actorID moduleID ActorOptions)) (\<lambda>_.
            andThen (onError getting (getActor tr actorKey)) (\<lambda>found.
              case found of
                Some ra \<Rightarrow> ret ra
              | None \<Rightarrow> fail (invariantViolated actorID namespace)))))"

text \<open>The state of the server of the current activation, if there is one.\<close>

definition activationServer ::
  "'s transaction \<Rightarrow> string \<Rightarrow> registeredActor \<Rightarrow> ('s, serverState option) call" where
  "activationServer tr actorID ra =
     andThen (tGet tr (getServerKey (act_ServerID (ra_Activation ra)))) (\<lambda>v.
       case v of
         None \<Rightarrow> ret None
       | Some b \<Rightarrow>
           andThen (onError (\<lambda>e. Errorf ''error unmarsaling server state with ID: %s'' [AStr actorID])
                      (lift (unmarshalServer b)))
             (\<lambda>server. ret (Some server)))"

text \<open>The callback that collects the live servers.\<close>

definition collectLive :: "int \<Rightarrow> bytes \<Rightarrow> bytes \<Rightarrow> serverState list \<Rightarrow> serverState list outcome" where
  "collectLive vs k v liveServers =
     (case unmarshalServer v of
        Fail e \<Rightarrow> Fail (wrap ''error unmarshaling server state: %w'' e)
      | Panic p \<Rightarrow> Panic p
      | Blocked \<Rightarrow> Blocked
      | Ret currServer \<Rightarrow>
          obind (versionSince vs (ss_LastHeartbeatedAt currServer)) (\<lambda>since.
            Ret (if since < HeartbeatTTL then liveServers @ [currServer] else liveServers)))"

text \<open>
  The second part: keep the activation if its server is alive, or choose the live server with the
  fewest actors and store the new activation. The result is the server's id, version and address.
\<close>

definition chooseServer ::
  "'s transaction \<Rightarrow> bytes \<Rightarrow> registeredActor \<Rightarrow> int \<Rightarrow> ('s, string \<times> int \<times> string) call" where
  "chooseServer tr actorKey ra vs =
     andThen (iterPrefix tr getServersPrefix (collectLive vs) []) (\<lambda>liveServers.
       case sort_key (\<lambda>s. hs_NumActivatedActors (ss_HeartbeatState s)) liveServers of
         [] \<Rightarrow> fail (Errorf ''0 live servers available for new activation'' [])
       | s # _ \<Rightarrow>
           andThen (ignoring (tPut tr actorKey
               (marshalActor (ra\<lparr>ra_Activation := newActivation (ss_ServerID s) (ss_ServerVersion s)\<rparr>)))) (\<lambda>_.
             ret (ss_ServerID s, ss_ServerVersion s, hs_Address (ss_HeartbeatState s))))"

definition ensureActivationTx :: "string \<Rightarrow> string \<Rightarrow> string \<Rightarrow> 's transaction \<Rightarrow> ('s, goany) call" where
  "ensureActivationTx namespace actorID moduleID tr =
     andThen (ensureActor tr namespace actorID moduleID) (\<lambda>ra.
     andThen (activationServer tr actorID ra) (\<lambda>found.
     andThen (onError (wrap ''error getting versionstamp: %w'') (tGetVersionStamp tr)) (\<lambda>vs.
     andThen (lift (versionSince vs (case found of None \<Rightarrow> 0 | Some server \<Rightarrow> ss_LastHeartbeatedAt server)))
       (\<lambda>timeSinceLastHeartbeat.
     andThen (case found of
         Some server \<Rightarrow>
           if act_ServerID (ra_Activation ra) \<noteq> [] \<and> timeSinceLastHeartbeat < HeartbeatTTL
           then ret (act_ServerID (ra_Activation ra), ss_ServerVersion server,
                     hs_Address (ss_HeartbeatState server))
           else chooseServer tr (getActorKey namespace actorID moduleID) ra vs
       | None \<Rightarrow> chooseServer tr (getActorKey namespace actorID moduleID) ra vs)
       (\<lambda>(serverID, serverVersion, serverAddress).
     andThen (onError (wrap ''error creating new actor reference: %w'')
                (lift (NewActorReference serverID serverVersion serverAddress namespace
                         (ra_ModuleID ra) actorID (ra_Generation ra)))) (\<lambda>ref.
       ret (AnyActorReferences [ref])))))))"

definition EnsureActivation ::
  "('s, goany) store \<Rightarrow> string \<Rightarrow> string \<Rightarrow> string \<Rightarrow> ('s, actorRef list) call" where
  "EnsureActivation st namespace actorID moduleID =
     andThen (onError (wrap ''EnsureActivation: error: %w'')
                (kTransact st (ensureActivationTx namespace actorID moduleID)))
       (\<lambda>r. case r of AnyActorReferences references \<Rightarrow> ret references | _ \<Rightarrow> panic badAssertion)"

subsection \<open>Version stamps and heartbeats\<close>

definition getVersionStampTx :: "'s transaction \<Rightarrow> ('s, goany) call" where
  "getVersionStampTx tr = andThen (tGetVersionStamp tr) (\<lambda>vs. ret (AnyInt64 vs))"

definition GetVersionStamp :: "('s, goany) store \<Rightarrow> ('s, int) call" where
  "GetVersionStamp st =
     andThen (onError (wrap ''GetVersionStamp: error: %w'') (kTransact st getVersionStampTx))
       (\<lambda>v. case v of AnyInt64 i \<Rightarrow> ret i | _ \<Rightarrow> panic badAssertion)"

text \<open>The state that a heartbeat starts from: the stored one, or a new one of version 1.\<close>

definition heartbeatServer :: "'s transaction \<Rightarrow> string \<Rightarrow> bytes option \<Rightarrow> ('s, serverState) call" where
  "heartbeatServer tr serverID v =
     (case v of
        None \<Rightarrow>
          andThen (onError (wrap ''error getting versionstamp: %w'') (tGetVersionStamp tr)) (\<lambda>vs.
            ret (zeroServer\<lparr>ss_ServerID := serverID, ss_ServerVersion := 1, ss_LastHeartbeatedAt := vs\<rparr>))
      | Some b \<Rightarrow> onError (wrap ''error unmarshaling server state: %w'') (lift (unmarshalServer b)))"

definition heartbeatTx :: "string \<Rightarrow> HeartbeatState \<Rightarrow> 's transaction \<Rightarrow> ('s, goany) call" where
  "heartbeatTx serverID heartbeatState tr =
     (let key = getServerKey serverID in
      andThen (onError (wrap ''error getting server state: %w'') (tGet tr key)) (\<lambda>v.
      andThen (heartbeatServer tr serverID v) (\<lambda>state.
      andThen (onError (wrap ''error getting versionstamp: %w'') (tGetVersionStamp tr)) (\<lambda>vs.
      andThen (lift (versionSince vs (ss_LastHeartbeatedAt state))) (\<lambda>timeSinceLastHeartbeat.
        let serverVersion = (if timeSinceLastHeartbeat \<ge> HeartbeatTTL then i64 (ss_ServerVersion state + 1)
                             else ss_ServerVersion state);
            state = state\<lparr>ss_ServerVersion := serverVersion, ss_LastHeartbeatedAt := vs,
                          ss_HeartbeatState := heartbeatState\<rparr> in
        andThen (ignoring (tPut tr key (marshalServer state))) (\<lambda>_.
        andThen (tGetVersionStamp tr) (\<lambda>versionStamp.
          ret (AnyHeartbeat versionStamp serverVersion))))))))"

definition Heartbeat ::
  "('s, goany) store \<Rightarrow> string \<Rightarrow> HeartbeatState \<Rightarrow> ('s, HeartbeatResult) call" where
  "Heartbeat st serverID heartbeatState =
     andThen (onError (wrap ''Heartbeat: error: %w'') (kTransact st (heartbeatTx serverID heartbeatState)))
       (\<lambda>r. case r of
              AnyHeartbeat versionStamp serverVersion \<Rightarrow>
                ret \<lparr>hr_VersionStamp = versionStamp, hr_HeartbeatTTL = HeartbeatTTL div 1000,
                     hr_ServerVersion = serverVersion\<rparr>
            | _ \<Rightarrow> panic badAssertion)"

subsection \<open>Actor transactions\<close>

record 's kvTransaction =
  kt_namespace :: string
  kt_actorID :: string
  kt_moduleID :: string
  kt_tr :: "'s transaction"

definition newKVTransaction :: "string \<Rightarrow> string \<Rightarrow> string \<Rightarrow> 's transaction \<Rightarrow> 's kvTransaction" where
  "newKVTransaction namespace actorID moduleID tr =
     \<lparr>kt_namespace = namespace, kt_actorID = actorID, kt_moduleID = moduleID, kt_tr = tr\<rparr>"

definition ktGet :: "'s kvTransaction \<Rightarrow> bytes \<Rightarrow> ('s, bytes option) call" where
  "ktGet tr key = tGet (kt_tr tr) (getActoKVKey (kt_namespace tr) (kt_actorID tr) (kt_moduleID tr) key)"

definition ktPut :: "'s kvTransaction \<Rightarrow> bytes \<Rightarrow> bytes \<Rightarrow> ('s, unit) call" where
  "ktPut tr key value =
     tPut (kt_tr tr) (getActoKVKey (kt_namespace tr) (kt_actorID tr) (kt_moduleID tr) key) value"

definition ktCommit :: "'s kvTransaction \<Rightarrow> ('s, unit) call" where
  "ktCommit tr = tCommit (kt_tr tr)"

definition ktCancel :: "'s kvTransaction \<Rightarrow> ('s, unit) call" where
  "ktCancel tr = tCancel (kt_tr tr)"

text \<open>The deferred cancellation of \<open>BeginTransaction\<close>: on an error, not on a panic.\<close>

definition cancelOnError :: "'s transaction \<Rightarrow> ('s, 'a) call \<Rightarrow> ('s, 'a) call" where
  "cancelOnError tr m s =
     (case m s of
        (Fail e, s') \<Rightarrow>
          (case tCancel tr s' of
             (Panic p, s'') \<Rightarrow> (Panic p, s'')
           | (Blocked, s'') \<Rightarrow> (Blocked, s'')
           | (_, s'') \<Rightarrow> (Fail e, s''))
      | r \<Rightarrow> r)"

definition BeginTransaction ::
  "('s, goany) store \<Rightarrow> string \<Rightarrow> string \<Rightarrow> string \<Rightarrow> string \<Rightarrow> int \<Rightarrow> ('s, 's kvTransaction) call" where
  "BeginTransaction st namespace actorID moduleID serverID serverVersion =
     andThen (onError (wrap ''kvRegistry: beginTransaction: error beginning transaction: %w'') (kBeginTransaction st))
       (\<lambda>kvTr. cancelOnError kvTr (
         andThen (onError (wrap ''kvRegistry: beginTransaction: error getting actor key: %w'')
                    (getActor kvTr (getActorKey namespace actorID moduleID))) (\<lambda>found.
           case found of
             None \<Rightarrow>
               fail (Errorf ''kvRegistry: beginTransaction: cannot perform KV Get for actor: %s(%s) that does not exist''
                       [AStr actorID, AStr moduleID])
           | Some ra \<Rightarrow>
               if act_ServerID (ra_Activation ra) \<noteq> serverID then
                 fail (Errorf ''kvRegistry: beginTransaction: cannot begin transaction because server IDs do not match: %s != %s''
                         [AStr (act_ServerID (ra_Activation ra)), AStr serverID])
               else if act_ServerVersion (ra_Activation ra) \<noteq> serverVersion then
                 fail (Errorf ''kvRegistry: beginTransaction: cannot begin transaction because server versions do not match: %d != %d''
                         [AInt (act_ServerVersion (ra_Activation ra)), AInt serverVersion])
               else ret (newKVTransaction namespace actorID moduleID kvTr))))"

definition kvClose :: "('s, goany) store \<Rightarrow> ('s, unit) call" where
  "kvClose st = kClose st"

definition kvUnsafeWipeAll :: "('s, goany) store \<Rightarrow> ('s, unit) call" where
  "kvUnsafeWipeAll st = kUnsafeWipeAll st"

end
