(* ===== verification/Registry_Spec.thy ===== *)
theory Registry_Spec
  imports KV_Registry
begin

section \<open>What the registry promises\<close>

text \<open>
  An abstract state of the registry, as four finite maps without keys and JSON, and the relation
  \<open>represents\<close> between it and the contents of a store. The locale \<open>registry_store\<close> shows, for every
  store that keeps the contract \<open>kv_store\<close>, what each operation of \<open>KV_Registry\<close> does to the
  abstract state.
\<close>

subsection \<open>The abstract state\<close>

record regState =
  a_modules :: "string \<times> string \<rightharpoonup> registeredModule"  \<comment> \<open>namespace, module\<close>
  a_actors :: "string \<times> string \<times> string \<rightharpoonup> registeredActor"  \<comment> \<open>namespace, actor, module\<close>
  a_storage :: "string \<times> string \<times> string \<times> bytes \<rightharpoonup> bytes"  \<comment> \<open>namespace, actor, module, key\<close>
  a_servers :: "string \<rightharpoonup> serverState"

definition emptyRegistry :: regState where
  "emptyRegistry = \<lparr>a_modules = Map.empty, a_actors = Map.empty, a_storage = Map.empty, a_servers = Map.empty\<rparr>"

text \<open>Namespaces and module identifiers for which the scans of the registry are exact.\<close>

definition okNs :: "string \<Rightarrow> bool" where
  "okNs ns \<longleftrightarrow> \<not> nulExt ''servers'' ns"

definition okId :: "string \<Rightarrow> bool" where
  "okId m \<longleftrightarrow> CHR 0x00 \<notin> set m"

text \<open>The states in which every record survives storage and no heartbeat lies in the future.\<close>

definition wfState :: "int \<Rightarrow> regState \<Rightarrow> bool" where
  "wfState now A \<longleftrightarrow>
     (\<forall>ns a m ra. a_actors A (ns, a, m) = Some ra \<longrightarrow> okNs ns \<and> wfActor ra \<and> ra_ModuleID ra = m)
   \<and> (\<forall>i ss. a_servers A i = Some ss \<longrightarrow> wfServer ss \<and> ss_ServerID ss = i
        \<and> 0 \<le> ss_LastHeartbeatedAt ss \<and> ss_LastHeartbeatedAt ss \<le> now)
   \<and> (\<forall>ns a m k v. a_storage A (ns, a, m, k) = Some v \<longrightarrow> okNs ns)
   \<and> (\<forall>ns m rm. a_modules A (ns, m) = Some rm \<longrightarrow> okNs ns \<and> okId m \<and> length (marshalModule rm) < 2 ^ 63)"

lemma wfStateD:
  assumes "wfState t A"
  shows "a_actors A (ns, a, m) = Some ra \<Longrightarrow> okNs ns \<and> wfActor ra \<and> ra_ModuleID ra = m"
    "a_servers A i = Some ss \<Longrightarrow> wfServer ss \<and> ss_ServerID ss = i \<and> 0 \<le> ss_LastHeartbeatedAt ss
       \<and> ss_LastHeartbeatedAt ss \<le> t"
    "a_storage A (ns, a, m, k) = Some v \<Longrightarrow> okNs ns"
    "a_modules A (ns, m) = Some rm \<Longrightarrow> okNs ns \<and> okId m \<and> length (marshalModule rm) < 2 ^ 63"
  using assms unfolding wfState_def by blast+

subsection \<open>The abstract operations\<close>

text \<open>
  A result or \<open>None\<close> for an error, and the state afterwards. A version stamp that an operation reads
  is an argument.
\<close>

definition aRegisterModule :: "string \<Rightarrow> string \<Rightarrow> registeredModule \<Rightarrow> regState \<Rightarrow> unit option \<times> regState" where
  "aRegisterModule ns m rm A =
     (if a_modules A (ns, m) \<noteq> None
      then (if AllowEmptyModuleBytes (rm_Opts rm) then Some () else None, A)
      else (Some (), A\<lparr>a_modules := (a_modules A)((ns, m) \<mapsto> rm)\<rparr>))"

definition aGetModule :: "string \<Rightarrow> string \<Rightarrow> regState \<Rightarrow> (bytes option \<times> ModuleOptions) option" where
  "aGetModule ns m A = map_option (\<lambda>rm. (rm_Bytes rm, rm_Opts rm)) (a_modules A (ns, m))"

definition newActor :: "ActorOptions \<Rightarrow> string \<Rightarrow> registeredActor" where
  "newActor opts m = \<lparr>ra_Opts = opts, ra_ModuleID = m, ra_Generation = 1, ra_Activation = zeroActivation\<rparr>"

definition setActor :: "string \<Rightarrow> string \<Rightarrow> string \<Rightarrow> registeredActor \<Rightarrow> regState \<Rightarrow> regState" where
  "setActor ns a m ra A = A\<lparr>a_actors := (a_actors A)((ns, a, m) \<mapsto> ra)\<rparr>"

definition aCreateActor ::
  "string \<Rightarrow> string \<Rightarrow> string \<Rightarrow> ActorOptions \<Rightarrow> regState \<Rightarrow> unit option \<times> regState" where
  "aCreateActor ns a m opts A =
     (if a_actors A (ns, a, m) \<noteq> None \<or> a_modules A (ns, m) = None then (None, A)
      else (Some (), setActor ns a m (newActor opts m) A))"

definition aIncGeneration :: "string \<Rightarrow> string \<Rightarrow> string \<Rightarrow> regState \<Rightarrow> unit option \<times> regState" where
  "aIncGeneration ns a m A =
     (case a_actors A (ns, a, m) of
        None \<Rightarrow> (None, A)
      | Some ra \<Rightarrow> (Some (), setActor ns a m (ra\<lparr>ra_Generation := ra_Generation ra + 1\<rparr>) A))"

text \<open>
  A server is alive for five seconds after its heartbeat, in microseconds of the version stamp.
\<close>

definition aliveAt :: "int \<Rightarrow> serverState \<Rightarrow> bool" where
  "aliveAt t ss \<longleftrightarrow> t - ss_LastHeartbeatedAt ss < 5000000"

text \<open>
  A heartbeat at stamp \<open>t\<close>, with \<open>t0\<close> the stamp that is read first for a server without a record: the version is
  raised if the previous heartbeat is too old.
\<close>

definition heartbeatVersion :: "string \<Rightarrow> int \<Rightarrow> int \<Rightarrow> regState \<Rightarrow> int" where
  "heartbeatVersion i t0 t A =
     (case a_servers A i of
        None \<Rightarrow> if t - t0 < 5000000 then 1 else 2
      | Some ss \<Rightarrow> if aliveAt t ss then ss_ServerVersion ss else i64 (ss_ServerVersion ss + 1))"

definition aHeartbeat :: "string \<Rightarrow> HeartbeatState \<Rightarrow> int \<Rightarrow> int \<Rightarrow> regState \<Rightarrow> regState" where
  "aHeartbeat i hs t0 t A =
     A\<lparr>a_servers := (a_servers A)(i \<mapsto>
        \<lparr>ss_ServerID = i, ss_LastHeartbeatedAt = t, ss_HeartbeatState = hs,
         ss_ServerVersion = heartbeatVersion i t0 t A\<rparr>)\<rparr>"

text \<open>
  An activation: the registered actor, created on demand; its server if it is alive; otherwise
  a live server with the fewest actors. The result is a reference and the new state.
\<close>

definition actorFor :: "string \<Rightarrow> string \<Rightarrow> string \<Rightarrow> regState \<Rightarrow> registeredActor option" where
  "actorFor ns a m A =
     (case a_actors A (ns, a, m) of
        Some ra \<Rightarrow> Some ra
      | None \<Rightarrow> if a_modules A (ns, m) = None then None else Some (newActor ActorOptions m))"

definition keptServer :: "int \<Rightarrow> registeredActor \<Rightarrow> regState \<Rightarrow> serverState option" where
  "keptServer t ra A =
     (if act_ServerID (ra_Activation ra) = [] then None
      else case a_servers A (act_ServerID (ra_Activation ra)) of
             None \<Rightarrow> None
           | Some ss \<Rightarrow> if aliveAt t ss then Some ss else None)"

definition leastLoaded :: "int \<Rightarrow> regState \<Rightarrow> serverState \<Rightarrow> bool" where
  "leastLoaded t A ss \<longleftrightarrow> a_servers A (ss_ServerID ss) = Some ss \<and> aliveAt t ss
     \<and> (\<forall>i ss'. a_servers A i = Some ss' \<and> aliveAt t ss' \<longrightarrow>
          hs_NumActivatedActors (ss_HeartbeatState ss) \<le> hs_NumActivatedActors (ss_HeartbeatState ss'))"

definition activated :: "registeredActor \<Rightarrow> serverState \<Rightarrow> registeredActor" where
  "activated ra ss = ra\<lparr>ra_Activation := newActivation (ss_ServerID ss) (ss_ServerVersion ss)\<rparr>"

definition referenceTo :: "string \<Rightarrow> string \<Rightarrow> registeredActor \<Rightarrow> serverState \<Rightarrow> actorRef outcome" where
  "referenceTo ns a ra ss =
     NewActorReference (ss_ServerID ss) (ss_ServerVersion ss) (hs_Address (ss_HeartbeatState ss)) ns
       (ra_ModuleID ra) a (ra_Generation ra)"

definition ensures :: "int \<Rightarrow> string \<Rightarrow> string \<Rightarrow> string \<Rightarrow> regState \<Rightarrow> actorRef list option \<Rightarrow> regState \<Rightarrow> bool" where
  "ensures t ns a m A res A' \<longleftrightarrow>
     (case actorFor ns a m A of
        None \<Rightarrow> res = None \<and> A' = A
      | Some ra \<Rightarrow>
          (case keptServer t ra A of
             Some ss \<Rightarrow>
               (case referenceTo ns a ra ss of Ret ref \<Rightarrow> res = Some [ref] \<and> A' = A | _ \<Rightarrow> res = None \<and> A' = A)
           | None \<Rightarrow>
               if \<forall>ss. \<not> leastLoaded t A ss then res = None \<and> A' = A
               else \<exists>ss. leastLoaded t A ss \<and>
                 (case referenceTo ns a ra ss of
                    Ret ref \<Rightarrow> res = Some [ref] \<and> A' = setActor ns a m (activated ra ss) A
                  | _ \<Rightarrow> res = None \<and> A' = A)))"

subsection \<open>Modules in parts\<close>

function chunks :: "bytes \<Rightarrow> bytes list" where
  "chunks b = (if b = [] then [] else take maxPart b # chunks (drop maxPart b))"
  by pat_completeness auto
termination
  by (relation "measure length") (auto simp: maxPart_def)

declare chunks.simps [simp del]

lemma chunks_Nil [simp]: "chunks [] = []"
  by (simp add: chunks.simps)

lemma concat_chunks: "concat (chunks b) = b"
  by (induction b rule: chunks.induct) (subst chunks.simps, simp)

lemma length_chunks: "length (chunks b) \<le> length b"
proof (induction b rule: chunks.induct)
  case (1 b)
  show ?case
  proof (cases "b = []")
    case False
    then have "0 < length b" by simp
    then have "length (drop maxPart b) < length b" by (simp add: maxPart_def)
    with 1 False show ?thesis by (subst chunks.simps) simp
  qed simp
qed

lemma chunks_ne: "b \<noteq> [] \<Longrightarrow> chunks b \<noteq> []"
  by (subst chunks.simps) simp

definition modulePart :: "registeredModule option \<Rightarrow> int \<Rightarrow> bytes option" where
  "modulePart orm i =
     (case orm of
        None \<Rightarrow> None
      | Some rm \<Rightarrow>
          (let cs = chunks (marshalModule rm) in if nat i < length cs then Some (cs ! nat i) else None))"

lemma marshalModule_ne: "marshalModule rm \<noteq> []"
  by (simp add: marshalModule_def marshal_def moduleJSON_def go_bytes_def)

lemma modulePart_0: "modulePart orm 0 = None \<longleftrightarrow> orm = None"
  using chunks_ne [OF marshalModule_ne] by (auto simp: modulePart_def Let_def split: option.splits)

subsection \<open>The contents of the store\<close>

definition registryKey :: "bytes \<Rightarrow> bool" where
  "registryKey k \<longleftrightarrow> (\<exists>ns a m. k = getActorKey ns a m) \<or> (\<exists>ns a m q. k = getActoKVKey ns a m q)
     \<or> (\<exists>i. k = getServerKey i) \<or> (\<exists>ns m i. isPart i \<and> k = getModulePartKey ns m i)"

definition represents :: "(bytes \<rightharpoonup> bytes) \<Rightarrow> regState \<Rightarrow> bool" where
  "represents c A \<longleftrightarrow>
     (\<forall>ns a m. c (getActorKey ns a m) = map_option marshalActor (a_actors A (ns, a, m)))
   \<and> (\<forall>i. c (getServerKey i) = map_option marshalServer (a_servers A i))
   \<and> (\<forall>ns a m k. c (getActoKVKey ns a m k) = a_storage A (ns, a, m, k))
   \<and> (\<forall>ns m i. isPart i \<longrightarrow> c (getModulePartKey ns m i) = modulePart (a_modules A (ns, m)) i)
   \<and> (\<forall>k. c k \<noteq> None \<longrightarrow> registryKey k)"

lemma representsD:
  assumes "represents c A"
  shows "c (getActorKey ns a m) = map_option marshalActor (a_actors A (ns, a, m))"
    "c (getServerKey i) = map_option marshalServer (a_servers A i)"
    "c (getActoKVKey ns a m q) = a_storage A (ns, a, m, q)"
    "isPart j \<Longrightarrow> c (getModulePartKey ns m j) = modulePart (a_modules A (ns, m)) j"
    "c k = Some v \<Longrightarrow> registryKey k"
  using assms unfolding represents_def by blast+

lemma isPart_0 [simp]: "isPart 0"
  by (simp add: isPart_def)

lemma represents_module:
  "represents c A \<Longrightarrow> c (getModulePartKey ns m 0) = None \<longleftrightarrow> a_modules A (ns, m) = None"
  by (simp add: representsD modulePart_0)

lemma represents_empty: "represents Map.empty emptyRegistry"
  by (simp add: represents_def emptyRegistry_def modulePart_def)

lemma represents_actor:
  assumes "represents c A"
  shows "represents (c(getActorKey ns a m \<mapsto> marshalActor ra)) (A\<lparr>a_actors := (a_actors A)((ns, a, m) \<mapsto> ra)\<rparr>)"
  using assms unfolding represents_def registryKey_def by auto

lemma represents_server:
  assumes "represents c A"
  shows "represents (c(getServerKey i \<mapsto> marshalServer ss)) (A\<lparr>a_servers := (a_servers A)(i \<mapsto> ss)\<rparr>)"
  using assms unfolding represents_def registryKey_def by auto

lemma represents_storage:
  assumes "represents c A"
  shows "represents (c(getActoKVKey ns a m k \<mapsto> v)) (A\<lparr>a_storage := (a_storage A)((ns, a, m, k) \<mapsto> v)\<rparr>)"
  using assms unfolding represents_def registryKey_def by auto

text \<open>The parts of a module as the pairs that are put.\<close>

fun partPairs :: "string \<Rightarrow> string \<Rightarrow> int \<Rightarrow> bytes list \<Rightarrow> (bytes \<times> bytes) list" where
  "partPairs ns m i [] = []"
| "partPairs ns m i (c # cs) = (getModulePartKey ns m i, c) # partPairs ns m (i + 1) cs"

lemma updAll_partPairs_other:
  "(\<And>j. isPart j \<Longrightarrow> k \<noteq> getModulePartKey ns m j) \<Longrightarrow> 0 \<le> i \<Longrightarrow> i + int (length cs) < 2 ^ 63 \<Longrightarrow>
     updAll (partPairs ns m i cs) c k = c k"
proof (induction cs arbitrary: i c)
  case (Cons x cs)
  have "k \<noteq> getModulePartKey ns m i" using Cons.prems by (simp add: isPart_def)
  with Cons show ?case by simp
qed simp

lemma updAll_partPairs:
  "0 \<le> i \<Longrightarrow> i + int (length cs) < 2 ^ 63 \<Longrightarrow> isPart j \<Longrightarrow>
     updAll (partPairs ns m i cs) c (getModulePartKey ns m j) =
       (if i \<le> j \<and> j < i + int (length cs) then Some (cs ! nat (j - i)) else c (getModulePartKey ns m j))"
proof (induction cs arbitrary: i c)
  case (Cons x cs)
  have i: "isPart i" using Cons.prems by (simp add: isPart_def)
  have "updAll (partPairs ns m i (x # cs)) c (getModulePartKey ns m j)
      = (if i + 1 \<le> j \<and> j < i + 1 + int (length cs) then Some (cs ! nat (j - (i + 1)))
         else (c(getModulePartKey ns m i \<mapsto> x)) (getModulePartKey ns m j))"
    using Cons by simp
  also have "\<dots> = (if i \<le> j \<and> j < i + int (length (x # cs)) then Some ((x # cs) ! nat (j - i))
      else c (getModulePartKey ns m j))"
  proof (cases "i + 1 \<le> j")
    case True
    then have "nat (j - i) = Suc (nat (j - (i + 1)))" by simp
    with True i Cons.prems show ?thesis by (auto simp: partKey_inject)
  next
    case False
    then have "j = i \<or> j < i" by linarith
    with i Cons.prems False show ?thesis by (auto simp: partKey_inject)
  qed
  finally show ?case .
qed auto

lemma represents_modulePut:
  assumes rep: "represents c A" and new: "a_modules A (ns, m) = None"
    and len: "length (marshalModule rm) < 2 ^ 63"
  shows "represents (updAll (partPairs ns m 0 (chunks (marshalModule rm))) c)
           (A\<lparr>a_modules := (a_modules A)((ns, m) \<mapsto> rm)\<rparr>)"
proof -
  let ?cs = "chunks (marshalModule rm)"
  let ?c = "updAll (partPairs ns m 0 ?cs) c"
  have l: "0 + int (length ?cs) < 2 ^ 63" using length_chunks [of "marshalModule rm"] len by simp
  have other: "?c k = c k" if "\<And>j. isPart j \<Longrightarrow> k \<noteq> getModulePartKey ns m j" for k
    using updAll_partPairs_other [OF that _ l] by simp
  have part: "?c (getModulePartKey ns m j) = modulePart (Some rm) j" if "isPart j" for j
    using updAll_partPairs [OF _ l that, of ns m c] representsD(4) [OF rep that, of ns m] new that
    by (auto simp: modulePart_def Let_def isPart_def)
  have part': "?c (getModulePartKey ns' m' j) = c (getModulePartKey ns' m' j)"
    if "(ns', m') \<noteq> (ns, m)" "isPart j" for ns' m' j
    using that by (intro other) (auto simp: partKey_inject)
  have key: "registryKey k" if "?c k \<noteq> None" for k
  proof (cases "\<exists>j. isPart j \<and> k = getModulePartKey ns m j")
    case False
    with that other [of k] have "c k \<noteq> None" by auto
    with rep show ?thesis unfolding represents_def by blast
  qed (unfold registryKey_def, blast)
  have rest: "?c (getActorKey ns' a m') = c (getActorKey ns' a m')" "?c (getServerKey i) = c (getServerKey i)"
    "?c (getActoKVKey ns' a m' q) = c (getActoKVKey ns' a m' q)" for ns' a m' i q
    by (rule other, simp)+
  show ?thesis
    unfolding represents_def using key rep part part' by (auto simp: rest representsD [OF rep])
qed

subsection \<open>The operations on a store\<close>

lemma ignoring_Ret: "m s = (Ret a, s') \<Longrightarrow> ignoring m s = (Ret (), s')"
  by (simp add: ignoring_def)

lemma lift_apply [simp]: "lift r s = (r, s)"
  by (simp add: lift_def)

lemma wfState_actor:
  "wfState t A \<Longrightarrow> wfActor ra \<Longrightarrow> ra_ModuleID ra = m \<Longrightarrow> okNs ns \<Longrightarrow>
     wfState t (A\<lparr>a_actors := (a_actors A)((ns, a, m) \<mapsto> ra)\<rparr>)"
  by (auto simp: wfState_def)

lemma wfState_server:
  "wfState t A \<Longrightarrow> wfServer ss \<Longrightarrow> ss_ServerID ss = i \<Longrightarrow> 0 \<le> ss_LastHeartbeatedAt ss \<Longrightarrow>
     ss_LastHeartbeatedAt ss \<le> t \<Longrightarrow> wfState t (A\<lparr>a_servers := (a_servers A)(i \<mapsto> ss)\<rparr>)"
  by (auto simp: wfState_def)

lemma wfState_storage:
  "wfState t A \<Longrightarrow> okNs ns \<Longrightarrow> wfState t (A\<lparr>a_storage := (a_storage A)((ns, a, m, k) \<mapsto> v)\<rparr>)"
  unfolding wfState_def by (simp, blast)

lemma wfState_module:
  "wfState t A \<Longrightarrow> okNs ns \<Longrightarrow> okId m \<Longrightarrow> length (marshalModule rm) < 2 ^ 63 \<Longrightarrow>
     wfState t (A\<lparr>a_modules := (a_modules A)((ns, m) \<mapsto> rm)\<rparr>)"
  by (auto simp: wfState_def)

lemma wfState_mono: "wfState t A \<Longrightarrow> t \<le> t' \<Longrightarrow> wfState t' A"
  unfolding wfState_def by (meson order_trans)

text \<open>What an operation gives: a result, or some error; never a panic and never a block.\<close>

definition agrees :: "'a outcome \<Rightarrow> 'a option \<Rightarrow> bool" where
  "agrees r x \<longleftrightarrow> (case x of Some a \<Rightarrow> r = Ret a | None \<Rightarrow> \<exists>e. r = Fail e)"

lemma agrees_simps [simp]: "agrees r (Some a) \<longleftrightarrow> r = Ret a" "agrees r None \<longleftrightarrow> (\<exists>e. r = Fail e)"
  by (simp_all add: agrees_def)

lemma proper_prefixes: "properPrefix (getModulePrefix ns m)" "properPrefix getServersPrefix"
  by (simp_all add: properPrefix_def key_defs packed_encs stringCode_def)

locale registry_store =
  kv_store st tr idle busy contents stamp upd tick enter leave rollback
  for st :: "('s, goany) store" and tr and idle :: "'s \<Rightarrow> bool" and busy and contents and stamp and upd
    and tick and enter and leave and rollback
begin

text \<open>The state between two calls: the store is idle and represents a well-formed abstract state.\<close>

definition holds :: "'s \<Rightarrow> regState \<Rightarrow> bool" where
  "holds s A \<longleftrightarrow> idle s \<and> represents (contents s) A \<and> wfState (stamp s) A"

definition inside :: "'s \<Rightarrow> regState \<Rightarrow> bool" where
  "inside s A \<longleftrightarrow> busy s \<and> represents (contents s) A \<and> wfState (stamp s) A"

lemma inside_enter: "holds s A \<Longrightarrow> inside (enter s) A"
  by (simp add: holds_def inside_def kv_simps)

lemma inside_tick: "inside s A \<Longrightarrow> inside (tick s) A"
  using stamp_tick [of s] wfState_mono [of "stamp s" A "stamp (tick s)"] by (simp add: inside_def kv_simps)

lemma holds_leave: "inside s A \<Longrightarrow> holds (leave s) A"
  using stamp_leave [of s] wfState_mono [of "stamp s" A "stamp (leave s)"] by (simp add: holds_def inside_def kv_simps)

lemma inside_get: "inside s A \<Longrightarrow> tGet tr k s = (Ret (contents s k), s)"
  by (simp add: inside_def get)

lemma inside_version: "inside s A \<Longrightarrow> tGetVersionStamp tr s = (Ret (stamp s), tick s)"
  by (simp add: inside_def version)

lemma inside_put: "inside s A \<Longrightarrow> ignoring (tPut tr k v) s = (Ret (), upd k v s)"
  by (simp add: inside_def ignoring_def put)

lemma inside_actor:
  assumes "inside s A" "wfActor ra" "ra_ModuleID ra = m" "okNs ns"
  shows "inside (upd (getActorKey ns a m) (marshalActor ra) s) (A\<lparr>a_actors := (a_actors A)((ns, a, m) \<mapsto> ra)\<rparr>)"
  using assms by (simp add: inside_def kv_simps represents_actor wfState_actor del: fun_upd_apply)

lemma inside_server:
  assumes "inside s A" "wfServer ss" "ss_ServerID ss = i" "0 \<le> ss_LastHeartbeatedAt ss" "ss_LastHeartbeatedAt ss \<le> stamp s"
  shows "inside (upd (getServerKey i) (marshalServer ss) s) (A\<lparr>a_servers := (a_servers A)(i \<mapsto> ss)\<rparr>)"
  using assms by (simp add: inside_def kv_simps represents_server wfState_server del: fun_upd_apply)

lemma inside_storage:
  assumes "inside s A" "okNs ns"
  shows "inside (upd (getActoKVKey ns a m k) v s) (A\<lparr>a_storage := (a_storage A)((ns, a, m, k) \<mapsto> v)\<rparr>)"
  using assms by (simp add: inside_def kv_simps represents_storage wfState_storage del: fun_upd_apply)

text \<open>Reading an actor.\<close>

lemma getActor_inside:
  assumes "inside s A"
  shows "getActor tr (getActorKey ns a m) s = (Ret (a_actors A (ns, a, m)), s)"
proof -
  have rep: "represents (contents s) A" and wf: "wfState (stamp s) A" using assms by (simp_all add: inside_def)
  show ?thesis
  proof (cases "a_actors A (ns, a, m)")
    case None
    then show ?thesis
      by (simp add: getActor_def getActorBytes_def andThen_def onError_def inside_get [OF assms] representsD [OF rep])
  next
    case (Some ra)
    with wf have "wfActor ra" unfolding wfState_def by blast
    with Some show ?thesis
      by (simp add: getActor_def getActorBytes_def andThen_def onError_def inside_get [OF assms]
          representsD [OF rep] actor_roundtrip)
  qed
qed

text \<open>Creating an actor: the three branches.\<close>

lemma createActor_inside:
  assumes "inside s A"
  shows "createActor tr ns a m opts s =
    (case a_actors A (ns, a, m) of
       Some _ \<Rightarrow> (Fail (Errorf ''error creating actor with ID: %s, already exists in namespace: %s'' [AStr a, AStr ns]), s)
     | None \<Rightarrow>
         (case a_modules A (ns, m) of
            None \<Rightarrow> (Fail (Errorf ''error creating actor, module: %s does not exist in namespace: %s'' [AStr m, AStr ns]), s)
          | Some _ \<Rightarrow> (Ret (), upd (getActorKey ns a m) (marshalActor (newActor opts m)) s)))"
proof -
  have rep: "represents (contents s) A" using assms by (simp add: inside_def)
  show ?thesis
    using represents_module [OF rep, of ns m]
    by (auto simp: createActor_def getActorBytes_def Let_def andThen_def onError_def inside_get [OF assms]
        inside_put [OF assms] representsD(1) [OF rep] newActor_def split: option.split)
qed

end

context registry_store
begin

lemma transact_ok:
  assumes "holds s A" "fn tr (enter s) = (Ret r, s')" "inside s' A'"
  shows "\<exists>s''. kTransact st fn s = (Ret r, s'') \<and> holds s'' A' \<and> stamp s' \<le> stamp s''"
  using transact [of s fn "Ret r" s'] assms holds_leave [of s' A'] stamp_leave [of s']
  by (auto simp: holds_def inside_def kv_simps)

lemma transact_err:
  assumes "holds s A" "fn tr (enter s) = (Fail e, s')" "inside s' A'" "stamp s \<le> stamp s'"
  shows "\<exists>s''. kTransact st fn s = (Fail e, s'') \<and> holds s'' A \<and> stamp s' \<le> stamp s''"
  using transact [of s fn "Fail e" s'] assms stamp_rollback [of s s'] wfState_mono [of "stamp s" A "stamp (rollback s s')"]
  by (auto simp: holds_def inside_def kv_simps)

lemma enter_stamp: "holds s A \<Longrightarrow> stamp (enter s) = stamp s"
  by (simp add: holds_def stamp_enter)

subsubsection \<open>Modules\<close>

lemma putParts_busy:
  "busy s \<Longrightarrow> 0 \<le> i \<Longrightarrow> i + int (length (chunks b)) < 2 ^ 63 \<Longrightarrow>
   \<exists>s'. putParts tr ns m i b s = (Ret (), s') \<and> busy s'
     \<and> contents s' = updAll (partPairs ns m i (chunks b)) (contents s) \<and> stamp s' = stamp s"
proof (induction b arbitrary: i s rule: chunks.induct)
  case (1 b)
  show ?case
  proof (cases "b = []")
    case True
    then show ?thesis using 1 by (simp add: putParts.simps)
  next
    case False
    have cs: "chunks b = take maxPart b # chunks (drop maxPart b)" using False by (subst chunks.simps) simp
    let ?s = "upd (getModulePartKey ns m i) (take maxPart b) s"
    have "i64 (i + 1) = i + 1" using 1(3,4) cs by (intro i64_id) (simp add: is_i64_def)
    moreover have "take (min maxPart (length b)) b = take maxPart b" "drop (min maxPart (length b)) b = drop maxPart b"
      by (simp_all add: min_def)
    moreover have "ignoring (tPut tr (getModulePartKey ns m i) (take maxPart b)) s = (Ret (), ?s)"
      using 1(2) by (simp add: ignoring_def put)
    ultimately have "putParts tr ns m i b s = putParts tr ns m (i + 1) (drop maxPart b) ?s"
      using False by (subst putParts.simps) (simp add: Let_def andThen_def)
    with 1(1) [OF False, of ?s "i + 1"] 1(2,3,4) cs show ?thesis
      by (simp add: kv_simps del: fun_upd_apply)
  qed
qed

lemma inside_putParts:
  assumes "inside s A" "a_modules A (ns, m) = None" "okNs ns" "okId m" "length (marshalModule rm) < 2 ^ 63"
  shows "\<exists>s'. putParts tr ns m 0 (marshalModule rm) s = (Ret (), s')
    \<and> inside s' (A\<lparr>a_modules := (a_modules A)((ns, m) \<mapsto> rm)\<rparr>) \<and> stamp s' = stamp s"
proof -
  have "0 + int (length (chunks (marshalModule rm))) < 2 ^ 63"
    using length_chunks [of "marshalModule rm"] assms(5) by simp
  with putParts_busy [of s 0 "marshalModule rm" ns m] assms(1)
  obtain s' where s': "putParts tr ns m 0 (marshalModule rm) s = (Ret (), s')" "busy s'"
    "contents s' = updAll (partPairs ns m 0 (chunks (marshalModule rm))) (contents s)" "stamp s' = stamp s"
    by (auto simp: inside_def)
  have "represents (contents s') (A\<lparr>a_modules := (a_modules A)((ns, m) \<mapsto> rm)\<rparr>)"
    unfolding s'(3) using assms by (intro represents_modulePut) (simp_all add: inside_def)
  with s' assms show ?thesis by (auto simp: inside_def wfState_module)
qed

lemma RegisterModule_refines:
  assumes h: "holds s A" and ok: "okNs ns" "okId m" "length (marshalModule rm) < 2 ^ 63"
  shows "\<exists>r s'. RegisterModule st ns m (rm_Bytes rm) (rm_Opts rm) s = (r, s')
    \<and> agrees r (fst (aRegisterModule ns m rm A)) \<and> holds s' (snd (aRegisterModule ns m rm A)) \<and> stamp s \<le> stamp s'"
proof -
  let ?e = "enter s" and ?m = "a_modules A (ns, m)" and ?fn = "registerModuleTx ns m (rm_Bytes rm) (rm_Opts rm)"
  have i: "inside ?e A" by (rule inside_enter [OF h])
  have rm: "\<lparr>rm_Bytes = rm_Bytes rm, rm_Opts = rm_Opts rm\<rparr> = rm" by simp
  have none: "contents ?e (getModulePartKey ns m 0) = None \<longleftrightarrow> ?m = None"
    using i by (simp add: inside_def represents_module)
  note unf = RegisterModule_def aRegisterModule_def andThen_def onError_def enter_stamp [OF h]
  note fn = registerModuleTx_def andThen_def inside_get [OF i] rm
  consider "?m = None" | "?m \<noteq> None" "AllowEmptyModuleBytes (rm_Opts rm)"
    | "?m \<noteq> None" "\<not> AllowEmptyModuleBytes (rm_Opts rm)" by blast
  then show ?thesis
  proof cases
    case 1
    from inside_putParts [OF i 1 ok] obtain s1 where
      s1: "putParts tr ns m 0 (marshalModule rm) ?e = (Ret (), s1)"
      "inside s1 (A\<lparr>a_modules := (a_modules A)((ns, m) \<mapsto> rm)\<rparr>)" "stamp s1 = stamp ?e" by auto
    then have "?fn tr ?e = (Ret AnyRegisterModuleResult, s1)" using 1 none by (simp add: fn)
    from transact_ok [where fn = ?fn, OF h this s1(2)] 1 s1(3) show ?thesis by (auto simp: unf)
  next
    case 2
    then have "?fn tr ?e = (Ret AnyRegisterModuleResult, ?e)" using none by (auto simp add: fn)
    from transact_ok [where fn = ?fn, OF h this i] 2 show ?thesis by (auto simp: unf)
  next
    case 3
    then obtain e where "?fn tr ?e = (Fail e, ?e)" using none by (auto simp add: fn)
    from transact_err [where fn = ?fn, OF h this i] 3 show ?thesis by (auto simp: unf)
  qed
qed

end

subsubsection \<open>Scanning a module\<close>

lemma set_partPairs:
  "(k, v) \<in> set (partPairs ns m i cs) \<longleftrightarrow> (\<exists>j < length cs. k = getModulePartKey ns m (i + int j) \<and> v = cs ! j)"
proof (induction cs arbitrary: i)
  case (Cons c cs)
  have "(\<exists>j < length (c # cs). k = getModulePartKey ns m (i + int j) \<and> v = (c # cs) ! j) \<longleftrightarrow>
      (k = getModulePartKey ns m i \<and> v = c) \<or> (\<exists>j < length cs. k = getModulePartKey ns m (i + int (Suc j)) \<and> v = cs ! j)"
    by (simp only: length_Cons Ex_less_Suc2) simp
  with Cons show ?case by (simp add: add.assoc)
qed simp

lemma map_snd_partPairs [simp]: "map snd (partPairs ns m i cs) = cs"
  by (induction cs arbitrary: i) auto

lemma length_partPairs [simp]: "length (partPairs ns m i cs) = length cs"
  by (induction cs arbitrary: i) auto

lemma sorted_partPairs:
  "0 \<le> i \<Longrightarrow> i + int (length cs) < 2 ^ 63 \<Longrightarrow> sorted_wrt (<) (map fst (partPairs ns m i cs))"
proof (induction cs arbitrary: i)
  case (Cons c cs)
  have "getModulePartKey ns m i < k" if "(k, v) \<in> set (partPairs ns m (i + 1) cs)" for k v
  proof -
    obtain j where "j < length cs" "k = getModulePartKey ns m (i + 1 + int j)"
      using \<open>(k, v) \<in> _\<close> by (auto simp: set_partPairs)
    with Cons.prems show ?thesis by (auto simp: isPart_def intro!: partKey_less)
  qed
  with Cons show ?case by auto
qed simp

lemma iterCallback_count:
  "iterCallback (\<lambda>k v (b, i). Ret (b @ v, Suc i)) kvs (b0, i0)
     = Ret (b0 @ concat (map snd kvs), i0 + length kvs)"
  by (induction kvs arbitrary: b0 i0) auto

lemma nulExt_refl [simp]: "nulExt l l"
  by (simp add: nulExt_def)

lemma module_entry:
  assumes rep: "represents c A" and wf: "wfState t A"
  shows "prefix (getModulePrefix ns m) k \<and> c k = Some v \<longleftrightarrow>
    (\<exists>rm j. a_modules A (ns, m) = Some rm \<and> j < length (chunks (marshalModule rm))
       \<and> k = getModulePartKey ns m (int j) \<and> v = chunks (marshalModule rm) ! j)" (is "?l \<longleftrightarrow> ?r")
proof
  assume l: ?l
  then have "registryKey k" using representsD(5) [OF rep] by blast
  with l obtain m' i where k: "k = getModulePartKey ns m' i" "isPart i" "nulExt m m'"
    unfolding registryKey_def by (auto simp: module_prefix)
  with l representsD(4) [OF rep k(2), of ns m'] have p: "modulePart (a_modules A (ns, m')) i = Some v" by simp
  then obtain rm where rm: "a_modules A (ns, m') = Some rm" by (cases "a_modules A (ns, m')") (auto simp: modulePart_def)
  with wf have "okId m'" unfolding wfState_def by blast
  with k(3) have m: "m' = m" using nulExt_free [of m' m] by (simp add: okId_def)
  have "nat i < length (chunks (marshalModule rm)) \<and> v = chunks (marshalModule rm) ! nat i"
    using p rm by (auto simp: modulePart_def Let_def split: if_splits)
  moreover have "int (nat i) = i" using k(2) by (simp add: isPart_def)
  ultimately show ?r using k(1) rm m by (intro exI [of _ rm] exI [of _ "nat i"]) simp
next
  assume ?r
  then obtain rm j where r: "a_modules A (ns, m) = Some rm" "j < length (chunks (marshalModule rm))"
    "k = getModulePartKey ns m (int j)" "v = chunks (marshalModule rm) ! j" by blast
  from wf r(1) have "length (marshalModule rm) < 2 ^ 63" unfolding wfState_def by blast
  with r(2) length_chunks [of "marshalModule rm"] have "isPart (int j)" by (simp add: isPart_def)
  with r module_prefix(4) [of ns m ns m "int j"] representsD(4) [OF rep, of "int j" ns m] show ?l
    by (simp add: modulePart_def)
qed

lemma scan_module:
  assumes "represents c A" "wfState t A"
  shows "scan (getModulePrefix ns m) c
    (case a_modules A (ns, m) of None \<Rightarrow> [] | Some rm \<Rightarrow> partPairs ns m 0 (chunks (marshalModule rm)))"
proof (cases "a_modules A (ns, m)")
  case None
  with module_entry [OF assms, of ns m] show ?thesis unfolding scan_def by auto
next
  case (Some rm)
  with assms(2) have "length (marshalModule rm) < 2 ^ 63" unfolding wfState_def by blast
  then have "sorted_wrt (<) (map fst (partPairs ns m 0 (chunks (marshalModule rm))))"
    using length_chunks [of "marshalModule rm"] by (intro sorted_partPairs) simp_all
  with module_entry [OF assms, of ns m] Some show ?thesis
    unfolding scan_def by (simp add: set_partPairs)
qed

context registry_store
begin

lemma GetModule_refines:
  assumes h: "holds s A"
  shows "\<exists>r s'. GetModule st ns m s = (r, s') \<and> agrees r (aGetModule ns m A) \<and> holds s' A \<and> stamp s \<le> stamp s'"
proof -
  let ?e = "enter s" and ?fn = "getModuleTx ns m"
  have i: "inside ?e A" by (rule inside_enter [OF h])
  have "scan (getModulePrefix ns m) (contents ?e)
      (case a_modules A (ns, m) of None \<Rightarrow> [] | Some rm \<Rightarrow> partPairs ns m 0 (chunks (marshalModule rm)))"
    using i by (intro scan_module) (auto simp: inside_def)
  from iter_scan [OF _ proper_prefixes(1) this] i have it: "tIterPrefix tr (getModulePrefix ns m) ?e
     = (Ret (case a_modules A (ns, m) of None \<Rightarrow> [] | Some rm \<Rightarrow> partPairs ns m 0 (chunks (marshalModule rm))), ?e)"
    by (simp add: inside_def)
  note unf = GetModule_def aGetModule_def andThen_def onError_def enter_stamp [OF h]
  note fn = getModuleTx_def iterPrefix_def andThen_def it iterCallback_count onError_def
  show ?thesis
  proof (cases "a_modules A (ns, m)")
    case None
    then obtain e where "?fn tr ?e = (Fail e, ?e)" by (simp add: fn)
    from transact_err [where fn = ?fn, OF h this i] None show ?thesis by (auto simp: unf)
  next
    case (Some rm)
    then have "?fn tr ?e = (Ret (AnyRegisteredModule rm), ?e)"
      using chunks_ne [OF marshalModule_ne] by (simp add: fn concat_chunks module_roundtrip)
    from transact_ok [where fn = ?fn, OF h this i] Some show ?thesis by (auto simp: unf)
  qed
qed

subsubsection \<open>Actors\<close>

lemma CreateActor_refines:
  assumes h: "holds s A" and ok: "okNs ns" "validString m"
  shows "\<exists>r s'. CreateActor st ns a m opts s = (r, s') \<and> agrees r (fst (aCreateActor ns a m opts A))
    \<and> holds s' (snd (aCreateActor ns a m opts A)) \<and> stamp s \<le> stamp s'"
proof -
  let ?e = "enter s" and ?fn = "createActorTx ns a m opts"
  have i: "inside ?e A" by (rule inside_enter [OF h])
  have wf: "wfActor (newActor opts m)" using ok
    by (simp add: wfActor_def newActor_def zeroActivation_def newActivation_def is_i64_def)
  note unf = CreateActor_def aCreateActor_def andThen_def onError_def enter_stamp [OF h]
  note fn = createActorTx_def andThen_def createActor_inside [OF i]
  show ?thesis
  proof (cases "a_actors A (ns, a, m) \<noteq> None \<or> a_modules A (ns, m) = None")
    case True
    then have "\<exists>e. ?fn tr ?e = (Fail e, ?e)" by (cases "a_actors A (ns, a, m)") (auto simp: fn)
    then obtain e where "?fn tr ?e = (Fail e, ?e)" ..
    from transact_err [where fn = ?fn, OF h this i] True show ?thesis by (auto simp: unf)
  next
    case False
    let ?s = "upd (getActorKey ns a m) (marshalActor (newActor opts m)) ?e"
    have "inside ?s (setActor ns a m (newActor opts m) A)"
      unfolding setActor_def using ok wf by (intro inside_actor [OF i]) (auto simp: newActor_def)
    moreover have "?fn tr ?e = (Ret AnyCreateActorResult, ?s)" using False by (auto simp: fn)
    moreover have "stamp ?s = stamp s" using i enter_stamp [OF h] by (simp add: inside_def kv_simps)
    ultimately show ?thesis using transact_ok [where fn = ?fn, OF h] False by (fastforce simp: unf)
  qed
qed

lemma IncGeneration_refines:
  assumes h: "holds s A"
  shows "\<exists>r s'. IncGeneration st ns a m s = (r, s') \<and> agrees r (fst (aIncGeneration ns a m A))
    \<and> holds s' (snd (aIncGeneration ns a m A)) \<and> stamp s \<le> stamp s'"
proof -
  let ?e = "enter s" and ?fn = "incGenerationTx ns a m"
  have i: "inside ?e A" by (rule inside_enter [OF h])
  note unf = IncGeneration_def aIncGeneration_def andThen_def onError_def enter_stamp [OF h]
  note fn = incGenerationTx_def andThen_def getActor_inside [OF i] inside_put [OF i] Let_def
  show ?thesis
  proof (cases "a_actors A (ns, a, m)")
    case None
    then obtain e where "?fn tr ?e = (Fail e, ?e)" by (auto simp: fn)
    from transact_err [where fn = ?fn, OF h this i] None show ?thesis by (auto simp: unf)
  next
    case (Some ra)
    let ?ra = "ra\<lparr>ra_Generation := ra_Generation ra + 1\<rparr>"
    let ?s = "upd (getActorKey ns a m) (marshalActor ?ra) ?e"
    from Some h have "okNs ns" "wfActor ra" "ra_ModuleID ra = m" unfolding holds_def wfState_def by blast+
    then have "inside ?s (setActor ns a m ?ra A)"
      unfolding setActor_def by (intro inside_actor [OF i]) (auto simp: wfActor_def)
    moreover have "?fn tr ?e = (Ret AnyNil, ?s)" using Some by (simp add: fn)
    moreover have "stamp ?s = stamp s" using i enter_stamp [OF h] by (simp add: inside_def kv_simps)
    ultimately show ?thesis using transact_ok [where fn = ?fn, OF h] Some by (fastforce simp: unf)
  qed
qed

end

subsubsection \<open>Time\<close>

lemma versionSince_ok:
  assumes "0 \<le> prev" "prev \<le> cur" "cur * 1000 < 2 ^ 63"
  shows "versionSince cur prev = Ret ((cur - prev) * 1000)"
proof -
  have "i64 (cur - prev) = cur - prev" "i64 ((cur - prev) * 1000) = (cur - prev) * 1000"
    using assms by (auto intro!: i64_id simp: is_i64_def)
  with assms show ?thesis by (simp add: versionSince_def)
qed

subsubsection \<open>Scanning the servers\<close>

lemma server_entry:
  assumes rep: "represents c A" and wf: "wfState t A"
  shows "prefix getServersPrefix k \<and> c k = Some v \<longleftrightarrow>
    (\<exists>i ss. a_servers A i = Some ss \<and> k = getServerKey i \<and> v = marshalServer ss)" (is "?l \<longleftrightarrow> ?r")
proof
  assume l: ?l
  have "registryKey k" using l representsD(5) [OF rep] by blast
  moreover have "k \<noteq> getActorKey ns a m" for ns a m
    using l representsD(1) [OF rep, of ns a m] wfStateD(1) [OF wf, of ns a m] servers_prefix(2) [of ns a m]
    by (cases "a_actors A (ns, a, m)") (auto simp: okNs_def)
  moreover have "k \<noteq> getActoKVKey ns a m q" for ns a m q
    using l representsD(3) [OF rep, of ns a m q] wfStateD(3) [OF wf, of ns a m q] servers_prefix(3) [of ns a m q]
    by (cases "a_storage A (ns, a, m, q)") (auto simp: okNs_def)
  moreover have "k \<noteq> getModulePartKey ns m i" if "isPart i" for ns m i
  proof
    assume k: "k = getModulePartKey ns m i"
    then have "modulePart (a_modules A (ns, m)) i = Some v" using l representsD(4) [OF rep that, of ns m] by simp
    then obtain rm where "a_modules A (ns, m) = Some rm" by (cases "a_modules A (ns, m)") (auto simp: modulePart_def)
    with wfStateD(4) [OF wf this] k l servers_prefix(4) [of ns m i] show False by (simp add: okNs_def)
  qed
  ultimately obtain i where k: "k = getServerKey i" unfolding registryKey_def by blast
  with l representsD(2) [OF rep, of i] show ?r by auto
next
  assume ?r
  then show ?l using representsD(2) [OF rep] servers_prefix(1) by auto
qed

lemma iterCallback_live:
  assumes "t * 1000 < 2 ^ 63"
    and "\<forall>v \<in> snd ` set kvs. \<exists>ss. v = marshalServer ss \<and> wfServer ss \<and> 0 \<le> ss_LastHeartbeatedAt ss \<and> ss_LastHeartbeatedAt ss \<le> t"
  shows "\<exists>live. iterCallback (collectLive t) kvs acc = Ret (acc @ live)
    \<and> set live = {ss. wfServer ss \<and> aliveAt t ss \<and> marshalServer ss \<in> snd ` set kvs}"
  using assms(2)
proof (induction kvs arbitrary: acc)
  case (Cons kv kvs)
  obtain k v where kv: "kv = (k, v)" by force
  with Cons.prems obtain ss where ss: "v = marshalServer ss" "wfServer ss" "0 \<le> ss_LastHeartbeatedAt ss" "ss_LastHeartbeatedAt ss \<le> t"
    by auto
  let ?acc = "if aliveAt t ss then acc @ [ss] else acc"
  have "collectLive t k v acc = Ret ?acc"
    using ss assms(1) by (simp add: collectLive_def server_roundtrip versionSince_ok HeartbeatTTL_def aliveAt_def)
  moreover from Cons.IH [of ?acc] Cons.prems obtain live where
    live: "iterCallback (collectLive t) kvs ?acc = Ret (?acc @ live)"
    "set live = {ss. wfServer ss \<and> aliveAt t ss \<and> marshalServer ss \<in> snd ` set kvs}" by auto
  moreover have "marshalServer ss' = v \<longleftrightarrow> ss' = ss" if "wfServer ss'" for ss'
    using server_roundtrip [OF that] server_roundtrip [OF ss(2)] ss(1) by (metis outcome.inject(1))
  then have "{ss'. wfServer ss' \<and> aliveAt t ss' \<and> marshalServer ss' \<in> insert v (snd ` set kvs)}
      = (if aliveAt t ss then {ss} else {}) \<union> set live"
    unfolding live(2) using ss(2) by (cases "aliveAt t ss"; simp; blast)
  ultimately show ?case
    using kv by (cases "aliveAt t ss") simp_all
qed simp

lemma sort_key_hd:
  fixes f :: "'b \<Rightarrow> 'c :: linorder"
  assumes "sort_key f xs = y # ys"
  shows "y \<in> set xs \<and> (\<forall>x \<in> set xs. f y \<le> f x)"
proof -
  have "set (sort_key f xs) = set xs" by (rule set_sort)
  moreover have "sorted (map f (sort_key f xs))" by (rule sorted_sort_key)
  ultimately show ?thesis using assms by auto
qed

context registry_store
begin

lemma liveServers_inside:
  assumes "inside s A" "wfState t A" "t * 1000 < 2 ^ 63"
  shows "\<exists>live. iterPrefix tr getServersPrefix (collectLive t) [] s = (Ret live, s)
    \<and> set live = {ss. \<exists>i. a_servers A i = Some ss \<and> aliveAt t ss}"
proof -
  obtain kvs where kvs: "scan getServersPrefix (contents s) kvs"
    "iterPrefix tr getServersPrefix (collectLive t) [] s = (iterCallback (collectLive t) kvs [], s)"
    using iterPrefix_scan [of s getServersPrefix "collectLive t" "[]"] assms(1) proper_prefixes(2)
    unfolding inside_def by blast
  have mem: "(k, v) \<in> set kvs \<longleftrightarrow> (\<exists>i ss. a_servers A i = Some ss \<and> k = getServerKey i \<and> v = marshalServer ss)" for k v
    using kvs(1) server_entry [of "contents s" A "stamp s" k v] assms(1) by (auto simp: scan_def inside_def)
  have wf: "wfServer ss \<and> 0 \<le> ss_LastHeartbeatedAt ss \<and> ss_LastHeartbeatedAt ss \<le> t" if "a_servers A i = Some ss" for i ss
    using assms(2) that unfolding wfState_def by blast
  have "\<forall>v \<in> snd ` set kvs. \<exists>ss. v = marshalServer ss \<and> wfServer ss \<and> 0 \<le> ss_LastHeartbeatedAt ss \<and> ss_LastHeartbeatedAt ss \<le> t"
    using mem wf by (force simp: image_iff)
  with iterCallback_live [of t kvs "[]"] assms(3) obtain live where
    live: "iterCallback (collectLive t) kvs [] = Ret live"
    "set live = {ss. wfServer ss \<and> aliveAt t ss \<and> marshalServer ss \<in> snd ` set kvs}" by auto
  have "wfServer ss \<and> marshalServer ss \<in> snd ` set kvs \<longleftrightarrow> (\<exists>i. a_servers A i = Some ss)" for ss
  proof
    assume a: "wfServer ss \<and> marshalServer ss \<in> snd ` set kvs"
    then obtain k where "(k, marshalServer ss) \<in> set kvs" by force
    with mem obtain i ss' where "a_servers A i = Some ss'" "marshalServer ss = marshalServer ss'" by blast
    moreover from this a wf have "ss' = ss" using server_roundtrip by (metis outcome.inject(1))
    ultimately show "\<exists>i. a_servers A i = Some ss" by blast
  next
    assume "\<exists>i. a_servers A i = Some ss"
    then obtain i where i: "a_servers A i = Some ss" ..
    then have "(getServerKey i, marshalServer ss) \<in> set kvs" using mem by blast
    with wf [OF i] show "wfServer ss \<and> marshalServer ss \<in> snd ` set kvs" by force
  qed
  then have "set live = {ss. \<exists>i. a_servers A i = Some ss \<and> aliveAt t ss}" unfolding live(2) by blast
  with live(1) kvs(2) show ?thesis by auto
qed

end

subsubsection \<open>Ensuring an activation\<close>

lemma leastLoaded_exists:
  assumes "set live = {ss. \<exists>i. a_servers A i = Some ss \<and> aliveAt t ss}" "wfState t A"
    and "sort_key (\<lambda>s. hs_NumActivatedActors (ss_HeartbeatState s)) live = ss # rest"
  shows "leastLoaded t A ss"
proof -
  have hd: "ss \<in> set live"
    "\<forall>x \<in> set live. hs_NumActivatedActors (ss_HeartbeatState ss) \<le> hs_NumActivatedActors (ss_HeartbeatState x)"
    using sort_key_hd [OF assms(3)] by blast+
  then obtain i where i: "a_servers A i = Some ss" "aliveAt t ss" using assms(1) by blast
  moreover have "ss_ServerID ss = i" using wfStateD(2) [OF assms(2) i(1)] by blast
  ultimately show ?thesis using hd(2) assms(1) unfolding leastLoaded_def by blast
qed

lemma no_live:
  assumes "set live = {ss. \<exists>i. a_servers A i = Some ss \<and> aliveAt t ss}" "live = []"
  shows "\<not> leastLoaded t A ss"
  using assms unfolding leastLoaded_def by auto

context registry_store
begin

lemma stamp_inside: "inside s A \<Longrightarrow> 0 \<le> stamp s \<and> stamp s * 1000 < 2 ^ 63 \<and> stamp s \<le> stamp (tick s)"
  using stamp_range stamp_tick by (auto simp: inside_def)

lemma ensureActor_inside:
  assumes i: "inside s A" and ok: "okNs ns" "validString m"
  shows "case actorFor ns a m A of
      None \<Rightarrow> \<exists>e. ensureActor tr ns a m s = (Fail e, s)
    | Some ra \<Rightarrow> \<exists>s1. ensureActor tr ns a m s = (Ret ra, s1) \<and> inside s1 (setActor ns a m ra A) \<and> stamp s1 = stamp s"
proof -
  note unf = actorFor_def ensureActor_def Let_def andThen_def onError_def getActor_inside [OF i] createActor_inside [OF i]
  consider ra where "a_actors A (ns, a, m) = Some ra" | "a_actors A (ns, a, m) = None" "a_modules A (ns, m) = None"
    | rm where "a_actors A (ns, a, m) = None" "a_modules A (ns, m) = Some rm" by fastforce
  then show ?thesis
  proof cases
    case 1
    then have "(a_actors A)((ns, a, m) \<mapsto> ra) = a_actors A" by (simp add: fun_upd_idem)
    with 1 i show ?thesis by (simp add: unf setActor_def)
  next
    case 2
    then show ?thesis by (simp add: unf)
  next
    case 3
    let ?ra = "newActor ActorOptions m"
    let ?s = "upd (getActorKey ns a m) (marshalActor ?ra) s"
    have ins: "inside ?s (setActor ns a m ?ra A)"
      unfolding setActor_def using ok
      by (intro inside_actor [OF i]) (auto simp: newActor_def wfActor_def zeroActivation_def newActivation_def is_i64_def)
    from getActor_inside [OF this, of ns a m] have "getActor tr (getActorKey ns a m) ?s = (Ret (Some ?ra), ?s)"
      by (simp add: setActor_def)
    with 3 ins i show ?thesis by (simp add: unf inside_def kv_simps)
  qed
qed

lemma activationServer_inside:
  assumes i: "inside s A"
  shows "activationServer tr a ra s = (Ret (a_servers A (act_ServerID (ra_Activation ra))), s)"
proof -
  have rep: "represents (contents s) A" and wf: "wfState (stamp s) A" using i by (simp_all add: inside_def)
  show ?thesis
    using wfStateD(2) [OF wf]
    by (cases "a_servers A (act_ServerID (ra_Activation ra))")
      (simp_all add: activationServer_def andThen_def onError_def inside_get [OF i] representsD(2) [OF rep] server_roundtrip)
qed

lemma chooseServer_inside:
  assumes i: "inside s A" and t: "wfState t A" "t * 1000 < 2 ^ 63"
    and ra: "wfActor ra" "ra_ModuleID ra = m" "okNs ns"
  shows "(\<exists>e. chooseServer tr (getActorKey ns a m) ra t s = (Fail e, s) \<and> (\<forall>ss. \<not> leastLoaded t A ss))
    \<or> (\<exists>ss s1. chooseServer tr (getActorKey ns a m) ra t s
          = (Ret (ss_ServerID ss, ss_ServerVersion ss, hs_Address (ss_HeartbeatState ss)), s1)
        \<and> leastLoaded t A ss \<and> inside s1 (setActor ns a m (activated ra ss) A) \<and> stamp s1 = stamp s)"
proof -
  obtain live where live: "iterPrefix tr getServersPrefix (collectLive t) [] s = (Ret live, s)"
    "set live = {ss. \<exists>i. a_servers A i = Some ss \<and> aliveAt t ss}"
    using liveServers_inside [OF i t] by blast
  show ?thesis
  proof (cases "sort_key (\<lambda>s. hs_NumActivatedActors (ss_HeartbeatState s)) live")
    case Nil
    then have "live = []" by (metis length_0_conv length_sort)
    with live no_live [OF live(2)] show ?thesis by (simp add: chooseServer_def andThen_def)
  next
    case (Cons ss rest)
    have ll: "leastLoaded t A ss" by (rule leastLoaded_exists [OF live(2) t(1) Cons])
    then have "wfServer ss" using wfStateD(2) [OF t(1)] by (auto simp: leastLoaded_def)
    with ra have wf: "wfActor (activated ra ss)" "ra_ModuleID (activated ra ss) = m"
      by (simp_all add: wfActor_def wfServer_def activated_def newActivation_def)
    let ?s = "upd (getActorKey ns a m) (marshalActor (activated ra ss)) s"
    have "inside ?s (setActor ns a m (activated ra ss) A)"
      unfolding setActor_def by (rule inside_actor [OF i wf ra(3)])
    moreover have "stamp ?s = stamp s" using i by (simp add: inside_def kv_simps)
    moreover have "chooseServer tr (getActorKey ns a m) ra t s
        = (Ret (ss_ServerID ss, ss_ServerVersion ss, hs_Address (ss_HeartbeatState ss)), ?s)"
      using Cons live(1) by (simp add: chooseServer_def andThen_def inside_put [OF i] activated_def)
    ultimately show ?thesis using ll by blast
  qed
qed

end

lemma setActor_set [simp]: "setActor ns a m x (setActor ns a m y A) = setActor ns a m x A"
  by (simp add: setActor_def)

lemma servers_setActor [simp]: "a_servers (setActor ns a m ra A) = a_servers A"
  by (simp add: setActor_def)

lemma leastLoaded_setActor [simp]: "leastLoaded t (setActor ns a m ra A) ss = leastLoaded t A ss"
  by (simp add: leastLoaded_def)

lemma keptServer_id:
  assumes "wfState t' A" "keptServer t ra A = Some ss"
  shows "act_ServerID (ra_Activation ra) = ss_ServerID ss"
  using assms wfStateD(2) [OF assms(1), of "act_ServerID (ra_Activation ra)" ss]
  by (auto simp: keptServer_def split: if_splits option.splits)

lemma kept_unchanged:
  assumes "actorFor ns a m A = Some ra" "keptServer t ra A = Some ss"
  shows "setActor ns a m ra A = A"
proof (cases "a_actors A (ns, a, m)")
  case None
  with assms show ?thesis
    by (auto simp: actorFor_def keptServer_def newActor_def zeroActivation_def newActivation_def split: if_splits)
next
  case (Some ra')
  with assms(1) have "(a_actors A)((ns, a, m) \<mapsto> ra) = a_actors A" by (simp add: actorFor_def fun_upd_idem)
  then show ?thesis by (simp add: setActor_def)
qed

lemma NewActorReference_cases:
  obtains ref where "NewActorReference sid ver addr ns m a gen = Ret ref"
  | e where "NewActorReference sid ver addr ns m a gen = Fail e"
  by (cases "NewActorReference sid ver addr ns m a gen")
    (auto simp: NewActorReference_def NewVirtualActorReference_def newVirtualActorReference_def split: if_splits)

lemma actorFor_wf:
  "wfState t A \<Longrightarrow> okNs ns \<Longrightarrow> validString m \<Longrightarrow> actorFor ns a m A = Some ra \<Longrightarrow> wfActor ra \<and> ra_ModuleID ra = m"
  using wfStateD(1) [of t A ns a m]
  by (auto simp: actorFor_def newActor_def wfActor_def zeroActivation_def newActivation_def is_i64_def
      split: option.splits if_splits)

context registry_store
begin

lemma version_step:
  assumes "inside s A"
  shows "andThen (onError w (tGetVersionStamp tr)) f s = f (stamp s) (tick s)"
  using inside_version [OF assms] by (simp add: andThen_def onError_def)

text \<open>The part of the transaction function behind the creation of the actor.\<close>

lemma ensureActivationTx_step:
  assumes e: "ensureActor tr ns a m s = (Ret ra, s1)" and i: "inside s1 A1"
  shows "ensureActivationTx ns a m tr s =
    andThen (case keptServer (stamp s1) ra A1 of
        Some ss \<Rightarrow> ret (ss_ServerID ss, ss_ServerVersion ss, hs_Address (ss_HeartbeatState ss))
      | None \<Rightarrow> chooseServer tr (getActorKey ns a m) ra (stamp s1))
      (\<lambda>(serverID, serverVersion, serverAddress).
        andThen (onError (wrap ''error creating new actor reference: %w'')
          (lift (NewActorReference serverID serverVersion serverAddress ns (ra_ModuleID ra) a (ra_Generation ra))))
          (\<lambda>ref. ret (AnyActorReferences [ref]))) (tick s1)"
proof -
  let ?t = "stamp s1" and ?sid = "act_ServerID (ra_Activation ra)"
  have wf: "wfState ?t A1" using i by (simp add: inside_def)
  have st: "0 \<le> ?t" "?t * 1000 < 2 ^ 63" using stamp_inside [OF i] by simp_all
  have head: "ensureActivationTx ns a m tr s =
      andThen (lift (versionSince ?t (case a_servers A1 ?sid of None \<Rightarrow> 0 | Some server \<Rightarrow> ss_LastHeartbeatedAt server)))
       (\<lambda>timeSinceLastHeartbeat.
     andThen (case a_servers A1 ?sid of
         Some server \<Rightarrow>
           if ?sid \<noteq> [] \<and> timeSinceLastHeartbeat < HeartbeatTTL
           then ret (?sid, ss_ServerVersion server, hs_Address (ss_HeartbeatState server))
           else chooseServer tr (getActorKey ns a m) ra ?t
       | None \<Rightarrow> chooseServer tr (getActorKey ns a m) ra ?t)
       (\<lambda>(serverID, serverVersion, serverAddress).
     andThen (onError (wrap ''error creating new actor reference: %w'')
                (lift (NewActorReference serverID serverVersion serverAddress ns
                         (ra_ModuleID ra) a (ra_Generation ra)))) (\<lambda>ref.
       ret (AnyActorReferences [ref])))) (tick s1)"
    unfolding ensureActivationTx_def
    by (simp add: andThen_Ret [of "ensureActor tr ns a m", OF e]
        andThen_Ret [of "activationServer tr a ra", OF activationServer_inside [OF i]]
        version_step [OF i])
  show ?thesis
  proof (cases "a_servers A1 ?sid")
    case None
    have "versionSince ?t 0 = Ret ((?t - 0) * 1000)" by (rule versionSince_ok) (use st in auto)
    with None show ?thesis by (simp add: head keptServer_def andThen_def)
  next
    case (Some ss)
    have b: "ss_ServerID ss = ?sid" "0 \<le> ss_LastHeartbeatedAt ss" "ss_LastHeartbeatedAt ss \<le> ?t"
      using wfStateD(2) [OF wf Some] by simp_all
    have "versionSince ?t (ss_LastHeartbeatedAt ss) = Ret ((?t - ss_LastHeartbeatedAt ss) * 1000)"
      using b st by (intro versionSince_ok) simp_all
    moreover have "(?t - ss_LastHeartbeatedAt ss) * 1000 < HeartbeatTTL \<longleftrightarrow> aliveAt ?t ss"
      by (auto simp: HeartbeatTTL_def aliveAt_def)
    ultimately show ?thesis
      using Some b(1) by (simp add: head keptServer_def andThen_def [of "lift _"])
  qed
qed

lemma EnsureActivation_refines:
  assumes h: "holds s A" and ok: "okNs ns" "validString m"
  shows "\<exists>r s' res A'. EnsureActivation st ns a m s = (r, s') \<and> agrees r res
    \<and> ensures (stamp s) ns a m A res A' \<and> holds s' A' \<and> stamp s \<le> stamp s'"
proof -
  let ?e = "enter s" and ?t = "stamp s" and ?fn = "ensureActivationTx ns a m"
  have i: "inside ?e A" and te: "stamp ?e = ?t" using inside_enter [OF h] enter_stamp [OF h] by simp_all
  have err: ?thesis if "?fn tr ?e = (Fail e, s1)" "inside s1 A1" "?t \<le> stamp s1" "ensures ?t ns a m A None A" for e s1 A1
  proof -
    note p = that
    obtain s2 where s2: "kTransact st ?fn s = (Fail e, s2)" "holds s2 A" "stamp s1 \<le> stamp s2"
      using transact_err [where fn = ?fn, OF h p(1,2,3)] by blast
    then obtain e' where "EnsureActivation st ns a m s = (Fail e', s2)"
      by (simp add: EnsureActivation_def andThen_def onError_def)
    with s2 p(3,4) show ?thesis by (intro exI [of _ "Fail e'"] exI [of _ s2] exI [of _ None] exI [of _ A]) simp
  qed
  have good: ?thesis if "?fn tr ?e = (Ret (AnyActorReferences refs), s1)" "inside s1 A1" "?t \<le> stamp s1"
    "ensures ?t ns a m A (Some refs) A1" for refs s1 A1
  proof -
    note p = that
    obtain s2 where s2: "kTransact st ?fn s = (Ret (AnyActorReferences refs), s2)" "holds s2 A1" "stamp s1 \<le> stamp s2"
      using transact_ok [where fn = ?fn, OF h p(1,2)] by blast
    then have "EnsureActivation st ns a m s = (Ret refs, s2)"
      by (simp add: EnsureActivation_def andThen_def onError_def)
    with s2 p(3,4) show ?thesis by (intro exI [of _ "Ret refs"] exI [of _ s2] exI [of _ "Some refs"] exI [of _ A1]) simp
  qed
  show ?thesis
  proof (cases "actorFor ns a m A")
    case None
    with ensureActor_inside [OF i ok, of a] obtain e where "ensureActor tr ns a m ?e = (Fail e, ?e)" by auto
    then have "?fn tr ?e = (Fail e, ?e)" by (simp add: ensureActivationTx_def andThen_def)
    from err [OF this i] None te show ?thesis by (simp add: ensures_def)
  next
    case (Some ra)
    with ensureActor_inside [OF i ok, of a] obtain s1 where s1: "ensureActor tr ns a m ?e = (Ret ra, s1)"
      "inside s1 (setActor ns a m ra A)" "stamp s1 = ?t" using te by auto
    let ?A1 = "setActor ns a m ra A"
    note step = ensureActivationTx_step [OF s1(1,2), unfolded s1(3)]
    have i2: "inside (tick s1) ?A1" and t2: "?t \<le> stamp (tick s1)"
      using inside_tick [OF s1(2)] stamp_inside [OF s1(2)] s1(3) by simp_all
    have kept: "keptServer ?t ra ?A1 = keptServer ?t ra A" by (simp add: keptServer_def)
    have wfA: "wfState ?t A" using h by (simp add: holds_def)
    show ?thesis
    proof (cases "keptServer ?t ra A")
      case ss: (Some ss)
      note same = kept_unchanged [OF Some ss]
      show ?thesis
      proof (cases rule: NewActorReference_cases [of "ss_ServerID ss" "ss_ServerVersion ss" "hs_Address (ss_HeartbeatState ss)"
            ns "ra_ModuleID ra" a "ra_Generation ra"])
        case (1 ref)
        then have "?fn tr ?e = (Ret (AnyActorReferences [ref]), tick s1)"
          by (simp add: step kept ss andThen_def onError_def)
        from good [OF this i2 t2] Some ss 1 same show ?thesis by (simp add: ensures_def referenceTo_def)
      next
        case (2 e)
        then have "?fn tr ?e = (Fail (wrap ''error creating new actor reference: %w'' e), tick s1)"
          by (simp add: step kept ss andThen_def onError_def)
        from err [OF this i2 t2] Some ss 2 show ?thesis by (simp add: ensures_def referenceTo_def)
      qed
    next
      case none: None
      have wf1: "wfState ?t ?A1" using s1(2,3) by (simp add: inside_def)
      have "?t * 1000 < 2 ^ 63" using stamp_inside [OF i] te by simp
      from chooseServer_inside [OF i2 wf1 this, of ra m ns a] actorFor_wf [OF wfA ok Some] ok(1)
      consider (none) e where "chooseServer tr (getActorKey ns a m) ra ?t (tick s1) = (Fail e, tick s1)"
          "\<forall>ss. \<not> leastLoaded ?t A ss"
        | (some) ss s2 where "chooseServer tr (getActorKey ns a m) ra ?t (tick s1)
             = (Ret (ss_ServerID ss, ss_ServerVersion ss, hs_Address (ss_HeartbeatState ss)), s2)"
           "leastLoaded ?t A ss" "inside s2 (setActor ns a m (activated ra ss) A)" "stamp s2 = stamp (tick s1)"
        by auto
      then show ?thesis
      proof cases
        case none': none
        then have "?fn tr ?e = (Fail e, tick s1)" by (simp add: step kept none andThen_def)
        from err [OF this i2 t2] Some none none' show ?thesis by (simp add: ensures_def)
      next
        case some
        have t3: "?t \<le> stamp s2" using t2 some(4) by simp
        show ?thesis
        proof (cases rule: NewActorReference_cases [of "ss_ServerID ss" "ss_ServerVersion ss" "hs_Address (ss_HeartbeatState ss)"
              ns "ra_ModuleID ra" a "ra_Generation ra"])
          case (1 ref)
          then have "?fn tr ?e = (Ret (AnyActorReferences [ref]), s2)"
            by (simp add: step kept none some(1) andThen_def onError_def)
          moreover have "ensures ?t ns a m A (Some [ref]) (setActor ns a m (activated ra ss) A)"
            using Some none some(2) 1 by (auto simp: ensures_def referenceTo_def)
          ultimately show ?thesis by (intro good [OF _ some(3) t3])
        next
          case (2 e)
          then have "?fn tr ?e = (Fail (wrap ''error creating new actor reference: %w'' e), s2)"
            by (simp add: step kept none some(1) andThen_def onError_def)
          moreover have "ensures ?t ns a m A None A"
            using Some none some(2) 2 by (auto simp: ensures_def referenceTo_def)
          ultimately show ?thesis by (intro err [OF _ some(3) t3])
        qed
      qed
    qed
  qed
qed

end

subsubsection \<open>Heartbeats and stamps\<close>

definition wfHeartbeat :: "string \<Rightarrow> HeartbeatState \<Rightarrow> bool" where
  "wfHeartbeat i hs \<longleftrightarrow> validString i \<and> validString (hs_Address hs) \<and> is_i64 (hs_NumActivatedActors hs)"

lemma heartbeatVersion_i64:
  "wfState now A \<Longrightarrow> is_i64 (heartbeatVersion i t0 t A)"
  using wfStateD(2) [of now A i]
  by (auto simp: heartbeatVersion_def wfServer_def is_i64_def split: option.split)
    (use is_i64_i64 in \<open>auto simp: is_i64_def\<close>)

lemma versionSince_version:
  assumes "0 \<le> l" "l \<le> t" "t * 1000 < 2 ^ 63"
  obtains d where "versionSince t l = Ret d" "d \<ge> HeartbeatTTL \<longleftrightarrow> \<not> t - l < 5000000"
proof
  show "versionSince t l = Ret ((t - l) * 1000)" by (rule versionSince_ok [OF assms])
  show "(t - l) * 1000 \<ge> HeartbeatTTL \<longleftrightarrow> \<not> t - l < 5000000" by (auto simp: HeartbeatTTL_def)
qed

context registry_store
begin

text \<open>The stored state of the server, or the fresh one.\<close>

lemma heartbeatServer_inside:
  assumes i: "inside s A"
  shows "\<exists>ss s1 t0. heartbeatServer tr j (contents s (getServerKey j)) s = (Ret ss, s1) \<and> inside s1 A
    \<and> stamp s \<le> t0 \<and> t0 \<le> stamp s1 \<and> ss_ServerID ss = j \<and> 0 \<le> ss_LastHeartbeatedAt ss \<and> ss_LastHeartbeatedAt ss \<le> stamp s1
    \<and> (\<forall>t. (if t - ss_LastHeartbeatedAt ss < 5000000 then ss_ServerVersion ss else i64 (ss_ServerVersion ss + 1))
           = heartbeatVersion j t0 t A)"
proof -
  have rep: "represents (contents s) A" and wf: "wfState (stamp s) A" using i by (simp_all add: inside_def)
  have st: "0 \<le> stamp s" "stamp s \<le> stamp (tick s)" using stamp_inside [OF i] by simp_all
  show ?thesis
  proof (cases "a_servers A j")
    case None
    then have "heartbeatServer tr j (contents s (getServerKey j)) s
        = (Ret (zeroServer\<lparr>ss_ServerID := j, ss_ServerVersion := 1, ss_LastHeartbeatedAt := stamp s\<rparr>), tick s)"
      by (simp add: heartbeatServer_def representsD(2) [OF rep] version_step [OF i])
    moreover have "i64 2 = 2" by (intro i64_id) (simp add: is_i64_def)
    ultimately show ?thesis using None st inside_tick [OF i]
      by (intro exI [of _ "zeroServer\<lparr>ss_ServerID := j, ss_ServerVersion := 1, ss_LastHeartbeatedAt := stamp s\<rparr>"]
          exI [of _ "tick s"] exI [of _ "stamp s"]) (simp add: heartbeatVersion_def)
  next
    case (Some ss)
    then have "heartbeatServer tr j (contents s (getServerKey j)) s = (Ret ss, s)"
      using wfStateD(2) [OF wf Some]
      by (simp add: heartbeatServer_def representsD(2) [OF rep] server_roundtrip onError_def)
    with Some i wfStateD(2) [OF wf Some] show ?thesis
      by (intro exI [of _ ss] exI [of _ s] exI [of _ "stamp s"]) (simp add: heartbeatVersion_def aliveAt_def)
  qed
qed

lemma heartbeatTx_inside:
  assumes i: "inside s A" and ok: "wfHeartbeat j hs"
  shows "\<exists>t0 t t' s'. heartbeatTx j hs tr s = (Ret (AnyHeartbeat t' (heartbeatVersion j t0 t A)), s')
    \<and> inside s' (aHeartbeat j hs t0 t A) \<and> stamp s \<le> t0 \<and> t0 \<le> t \<and> t \<le> t' \<and> t' \<le> stamp s'"
proof -
  obtain ss s1 t0 where hb: "heartbeatServer tr j (contents s (getServerKey j)) s = (Ret ss, s1)" "inside s1 A"
    "stamp s \<le> t0" "t0 \<le> stamp s1" "ss_ServerID ss = j" "0 \<le> ss_LastHeartbeatedAt ss" "ss_LastHeartbeatedAt ss \<le> stamp s1"
    "\<forall>t. (if t - ss_LastHeartbeatedAt ss < 5000000 then ss_ServerVersion ss else i64 (ss_ServerVersion ss + 1))
           = heartbeatVersion j t0 t A"
    using heartbeatServer_inside [OF i, of j] by blast
  let ?t = "stamp s1" and ?v = "heartbeatVersion j t0 (stamp s1) A"
  let ?new = "\<lparr>ss_ServerID = j, ss_LastHeartbeatedAt = ?t, ss_HeartbeatState = hs, ss_ServerVersion = ?v\<rparr>"
  let ?s2 = "upd (getServerKey j) (marshalServer ?new) (tick s1)"
  have st: "0 \<le> ?t" "?t * 1000 < 2 ^ 63" "?t \<le> stamp (tick s1)" using stamp_inside [OF hb(2)] by simp_all
  obtain d where d: "versionSince ?t (ss_LastHeartbeatedAt ss) = Ret d" "d \<ge> HeartbeatTTL \<longleftrightarrow> \<not> ?t - ss_LastHeartbeatedAt ss < 5000000"
    using versionSince_version [OF hb(6,7) st(2)] by blast
  have v: "(if d \<ge> HeartbeatTTL then i64 (ss_ServerVersion ss + 1) else ss_ServerVersion ss) = ?v"
    using d(2) hb(8) by (metis (full_types))
  have new: "ss\<lparr>ss_ServerVersion := ?v, ss_LastHeartbeatedAt := ?t, ss_HeartbeatState := hs\<rparr> = ?new"
    using hb(5) by (cases ss) simp
  have "wfServer ?new"
    using ok st heartbeatVersion_i64 [of ?t A j t0 ?t] hb(2) by (simp add: wfServer_def wfHeartbeat_def is_i64_def inside_def)
  then have i2: "inside ?s2 (aHeartbeat j hs t0 ?t A)"
    unfolding aHeartbeat_def using st by (intro inside_server [OF inside_tick [OF hb(2)]]) simp_all
  have t2: "stamp ?s2 = stamp (tick s1)" using inside_tick [OF hb(2)] by (simp add: inside_def kv_simps)
  have "heartbeatTx j hs tr s = (Ret (AnyHeartbeat (stamp ?s2) ?v), tick ?s2)"
    using hb(1) d(1) v new
    by (simp add: heartbeatTx_def Let_def andThen_def [of "onError _ (tGet tr _)"] onError_def [of _ "tGet tr _"] inside_get [OF i]
        andThen_def [of "heartbeatServer _ _ _"] version_step [OF hb(2)] andThen_def [of "lift _"]
        andThen_def [of "ignoring _"] inside_put [OF inside_tick [OF hb(2)]]
        andThen_def [of "tGetVersionStamp tr"] inside_version [OF i2])
  moreover have "inside (tick ?s2) (aHeartbeat j hs t0 ?t A)" by (rule inside_tick [OF i2])
  moreover have "stamp ?s2 \<le> stamp (tick ?s2)" using stamp_inside [OF i2] by simp
  ultimately show ?thesis using hb(3,4) st(3) t2 by (metis order.trans)
qed

lemma Heartbeat_refines:
  assumes h: "holds s A" and ok: "wfHeartbeat j hs"
  shows "\<exists>t0 t t' s'. Heartbeat st j hs s
      = (Ret \<lparr>hr_VersionStamp = t', hr_HeartbeatTTL = 5000000, hr_ServerVersion = heartbeatVersion j t0 t A\<rparr>, s')
    \<and> holds s' (aHeartbeat j hs t0 t A) \<and> stamp s \<le> t0 \<and> t0 \<le> t \<and> t \<le> t' \<and> t' \<le> stamp s'"
proof -
  let ?fn = "heartbeatTx j hs"
  obtain t0 t t' s1 where f: "?fn tr (enter s) = (Ret (AnyHeartbeat t' (heartbeatVersion j t0 t A)), s1)"
    "inside s1 (aHeartbeat j hs t0 t A)" "stamp s \<le> t0" "t0 \<le> t" "t \<le> t'" "t' \<le> stamp s1"
    using heartbeatTx_inside [OF inside_enter [OF h] ok] enter_stamp [OF h] by auto
  from transact_ok [where fn = ?fn, OF h f(1,2)] obtain s2 where
    "kTransact st ?fn s = (Ret (AnyHeartbeat t' (heartbeatVersion j t0 t A)), s2)"
    "holds s2 (aHeartbeat j hs t0 t A)" "stamp s1 \<le> stamp s2" by blast
  moreover from this have "Heartbeat st j hs s
      = (Ret \<lparr>hr_VersionStamp = t', hr_HeartbeatTTL = 5000000, hr_ServerVersion = heartbeatVersion j t0 t A\<rparr>, s2)"
    by (simp add: Heartbeat_def andThen_def onError_def HeartbeatTTL_def)
  ultimately show ?thesis using f(3-6) by auto
qed

lemma GetVersionStamp_refines:
  assumes h: "holds s A"
  shows "\<exists>s'. GetVersionStamp st s = (Ret (stamp s), s') \<and> holds s' A \<and> stamp s \<le> stamp s'"
proof -
  note i = inside_enter [OF h]
  have "getVersionStampTx tr (enter s) = (Ret (AnyInt64 (stamp s)), tick (enter s))"
    by (simp add: getVersionStampTx_def andThen_def inside_version [OF i] enter_stamp [OF h])
  from transact_ok [where fn = getVersionStampTx, OF h this inside_tick [OF i]] obtain s' where
    "kTransact st getVersionStampTx s = (Ret (AnyInt64 (stamp s)), s')" "holds s' A" "stamp (tick (enter s)) \<le> stamp s'"
    by blast
  then show ?thesis using stamp_inside [OF i] enter_stamp [OF h]
    by (simp add: GetVersionStamp_def andThen_def onError_def)
qed

end

subsubsection \<open>Actor transactions\<close>

text \<open>The fencing token: the server and the version of the stored activation.\<close>

definition fenced :: "string \<Rightarrow> string \<Rightarrow> string \<Rightarrow> string \<Rightarrow> int \<Rightarrow> regState \<Rightarrow> bool" where
  "fenced ns a m sid ver A \<longleftrightarrow>
     (\<exists>ra. a_actors A (ns, a, m) = Some ra \<and> ra_Activation ra = newActivation sid ver)"

fun storeAll :: "string \<Rightarrow> string \<Rightarrow> string \<Rightarrow> (bytes \<times> bytes) list \<Rightarrow> regState \<Rightarrow> regState" where
  "storeAll ns a m [] A = A"
| "storeAll ns a m ((k, v) # kvs) A =
     storeAll ns a m kvs (A\<lparr>a_storage := (a_storage A)((ns, a, m, k) \<mapsto> v)\<rparr>)"

fun ktPuts :: "'s kvTransaction \<Rightarrow> (bytes \<times> bytes) list \<Rightarrow> ('s, unit) call" where
  "ktPuts tr [] = ret ()"
| "ktPuts tr ((k, v) # kvs) = andThen (ktPut tr k v) (\<lambda>_. ktPuts tr kvs)"

lemma storeAll_other: "(ns', a', m') \<noteq> (ns, a, m) \<Longrightarrow> a_storage (storeAll ns a m kvs A) (ns', a', m', k) = a_storage A (ns', a', m', k)"
  by (induction kvs arbitrary: A) auto

lemma storeAll_own: "(\<lambda>k. a_storage (storeAll ns a m kvs A) (ns, a, m, k)) = updAll kvs (\<lambda>k. a_storage A (ns, a, m, k))"
proof (induction kvs arbitrary: A)
  case (Cons kv kvs)
  obtain k v where kv: "kv = (k, v)" by force
  have "(\<lambda>q. ((a_storage A)((ns, a, m, k) \<mapsto> v)) (ns, a, m, q)) = (\<lambda>q. a_storage A (ns, a, m, q))(k \<mapsto> v)"
    by (auto simp: fun_eq_iff)
  with Cons kv show ?case by (simp del: fun_upd_apply)
qed simp

lemma storeAll_frame [simp]:
  "a_actors (storeAll ns a m kvs A) = a_actors A" "a_modules (storeAll ns a m kvs A) = a_modules A"
  "a_servers (storeAll ns a m kvs A) = a_servers A"
  by (induction kvs arbitrary: A) auto

locale registry_open =
  registry_store st tr idle busy contents stamp upd tick enter leave rollback +
  kv_open_transactions st tr idle busy contents stamp upd tick enter leave rollback opn snapshot commit cancel
  for st :: "('s, goany) store" and tr and idle :: "'s \<Rightarrow> bool" and busy and contents and stamp and upd
    and tick and enter and leave and rollback and opn and snapshot and commit and cancel
begin

lemma inside_opn: "holds s A \<Longrightarrow> inside (opn s) A \<and> snapshot (opn s) = Some (contents s)"
  by (simp add: holds_def inside_def open_simps)

lemma holds_commit:
  assumes "inside s A" "snapshot s = Some c"
  shows "holds (commit s) A" "stamp s \<le> stamp (commit s)"
  using idle_commit [OF _ assms(2)] assms(1) wfState_mono [of "stamp s" A "stamp (commit s)"] by (auto simp: holds_def inside_def)

lemma holds_cancel:
  assumes "busy s" "snapshot s = Some (contents s0)" "holds s0 A" "stamp s0 \<le> stamp s"
  shows "holds (cancel s) A" "stamp s \<le> stamp (cancel s)"
  using idle_cancel [OF assms(1,2)] assms(3,4) wfState_mono [of "stamp s0" A "stamp (cancel s)"] by (auto simp: holds_def)

lemma BeginTransaction_refines:
  assumes h: "holds s A"
  shows "if fenced ns a m sid ver A
    then BeginTransaction st ns a m sid ver s = (Ret (newKVTransaction ns a m tr), opn s)
      \<and> inside (opn s) A \<and> snapshot (opn s) = Some (contents s)
    else \<exists>e s'. BeginTransaction st ns a m sid ver s = (Fail e, s') \<and> holds s' A \<and> stamp s \<le> stamp s'"
proof -
  have i: "inside (opn s) A" "snapshot (opn s) = Some (contents s)" using inside_opn [OF h] by simp_all
  have b: "kBeginTransaction st s = (Ret tr, opn s)" using h by (simp add: holds_def begin_transaction)
  have c: "tCancel tr (opn s) = (Ret (), cancel (opn s))" "holds (cancel (opn s)) A \<and> stamp s \<le> stamp (cancel (opn s))"
    using cancel [OF _ i(2)] holds_cancel [OF _ i(2) h] i h by (auto simp: holds_def inside_def open_simps)
  note unf = BeginTransaction_def andThen_def onError_def b cancelOnError_def getActor_inside [OF i(1)] c(1)
  show ?thesis
  proof (cases "a_actors A (ns, a, m)")
    case None
    then show ?thesis using c(2) by (simp add: unf fenced_def)
  next
    case (Some ra)
    obtain sid' ver' where ra: "ra_Activation ra = newActivation sid' ver'"
      by (metis (full_types) activation.surjective newActivation_def old.unit.exhaust)
    then show ?thesis using Some i c(2) by (simp add: unf fenced_def newActivation_def)
  qed
qed

lemma ktPut_inside:
  assumes "inside s A" "okNs ns" "snapshot s = Some c"
  shows "\<exists>s'. ktPut (newKVTransaction ns a m tr) k v s = (Ret (), s')
    \<and> inside s' (A\<lparr>a_storage := (a_storage A)((ns, a, m, k) \<mapsto> v)\<rparr>) \<and> snapshot s' = Some c \<and> stamp s' = stamp s"
  using inside_storage [OF assms(1,2)] assms
  by (simp add: ktPut_def newKVTransaction_def inside_def put snapshot_upd stamp_upd)

lemma ktGet_inside:
  assumes "inside s A"
  shows "ktGet (newKVTransaction ns a m tr) k s = (Ret (a_storage A (ns, a, m, k)), s)"
  using assms by (simp add: ktGet_def newKVTransaction_def inside_def get representsD(3))

lemma ktPuts_inside:
  "inside s A \<Longrightarrow> okNs ns \<Longrightarrow> snapshot s = Some c \<Longrightarrow>
   \<exists>s'. ktPuts (newKVTransaction ns a m tr) kvs s = (Ret (), s') \<and> inside s' (storeAll ns a m kvs A)
     \<and> snapshot s' = Some c \<and> stamp s' = stamp s"
proof (induction kvs arbitrary: s A)
  case (Cons kv kvs)
  obtain k v where kv: "kv = (k, v)" by force
  from ktPut_inside [OF Cons.prems, of a m k v] obtain s1 where
    s1: "ktPut (newKVTransaction ns a m tr) k v s = (Ret (), s1)"
    "inside s1 (A\<lparr>a_storage := (a_storage A)((ns, a, m, k) \<mapsto> v)\<rparr>)" "snapshot s1 = Some c" "stamp s1 = stamp s" by blast
  from Cons.IH [OF s1(2) Cons.prems(2) s1(3)] s1 kv show ?case by (auto simp: andThen_def)
qed simp

text \<open>A whole session of an actor: begin, put, commit or cancel.\<close>

lemma actor_session:
  assumes h: "holds s A" and f: "fenced ns a m sid ver A" and ok: "okNs ns"
  shows "\<exists>s1 s2. BeginTransaction st ns a m sid ver s = (Ret (newKVTransaction ns a m tr), s1)
    \<and> ktPuts (newKVTransaction ns a m tr) kvs s1 = (Ret (), s2)
    \<and> (\<forall>k. ktGet (newKVTransaction ns a m tr) k s2 = (Ret (a_storage (storeAll ns a m kvs A) (ns, a, m, k)), s2))
    \<and> (\<exists>s3. ktCommit (newKVTransaction ns a m tr) s2 = (Ret (), s3) \<and> holds s3 (storeAll ns a m kvs A) \<and> stamp s \<le> stamp s3)
    \<and> (\<exists>s3. ktCancel (newKVTransaction ns a m tr) s2 = (Ret (), s3) \<and> holds s3 A \<and> stamp s \<le> stamp s3)"
proof -
  have b: "BeginTransaction st ns a m sid ver s = (Ret (newKVTransaction ns a m tr), opn s)"
    "inside (opn s) A" "snapshot (opn s) = Some (contents s)"
    using BeginTransaction_refines [OF h, of ns a m sid ver] f by simp_all
  from ktPuts_inside [OF b(2) ok b(3)] obtain s2 where s2: "ktPuts (newKVTransaction ns a m tr) kvs (opn s) = (Ret (), s2)"
    "inside s2 (storeAll ns a m kvs A)" "snapshot s2 = Some (contents s)" "stamp s2 = stamp (opn s)" by blast
  have busy: "busy s2" using s2(2) by (simp add: inside_def)
  have "holds (commit s2) (storeAll ns a m kvs A) \<and> stamp s \<le> stamp (commit s2)"
    using holds_commit [OF s2(2,3)] h s2(4) by (simp add: holds_def open_simps)
  moreover have "holds (cancel s2) A \<and> stamp s \<le> stamp (cancel s2)"
    using holds_cancel [OF busy s2(3) h] h s2(4) by (simp add: holds_def open_simps)
  moreover have "ktCommit (newKVTransaction ns a m tr) s2 = (Ret (), commit s2)"
    "ktCancel (newKVTransaction ns a m tr) s2 = (Ret (), cancel s2)"
    using commit [OF busy s2(3)] cancel [OF busy s2(3)]
    by (simp_all add: ktCommit_def ktCancel_def newKVTransaction_def)
  ultimately show ?thesis using b(1) s2(1) ktGet_inside [OF s2(2)] by blast
qed

end

end
