(* ===== verification/Registry_Validator.thy ===== *)
theory Registry_Validator
  imports KV_Registry
begin

section \<open>The registry interface and its validation: \<open>virtual/registry/validator.go\<close>\<close>

text \<open>
  The interfaces \<open>ActorKVTransaction\<close> and \<open>Registry\<close> of \<open>virtual/registry/types.go\<close> as records of
  operations, the registry of \<open>KV_Registry\<close> as such a record, and the wrapper that validates the
  arguments of every call.
\<close>

subsection \<open>Interfaces\<close>

record 's actorKVTransaction =
  aPut :: "bytes \<Rightarrow> bytes \<Rightarrow> ('s, unit) call"
  aGet :: "bytes \<Rightarrow> ('s, bytes option) call"
  aCommit :: "('s, unit) call"
  aCancel :: "('s, unit) call"

record 's registry =
  rRegisterModule :: "string \<Rightarrow> string \<Rightarrow> bytes option \<Rightarrow> ModuleOptions \<Rightarrow> ('s, unit) call"
  rGetModule :: "string \<Rightarrow> string \<Rightarrow> ('s, bytes option \<times> ModuleOptions) call"
  rIncGeneration :: "string \<Rightarrow> string \<Rightarrow> string \<Rightarrow> ('s, unit) call"
  rEnsureActivation :: "string \<Rightarrow> string \<Rightarrow> string \<Rightarrow> ('s, actorRef list) call"
  rGetVersionStamp :: "('s, int) call"
  rBeginTransaction :: "string \<Rightarrow> string \<Rightarrow> string \<Rightarrow> string \<Rightarrow> int \<Rightarrow> ('s, 's actorKVTransaction) call"
  rHeartbeat :: "string \<Rightarrow> HeartbeatState \<Rightarrow> ('s, HeartbeatResult) call"
  rClose :: "('s, unit) call"
  rUnsafeWipeAll :: "('s, unit) call"

definition kvTransactionOps :: "'s kvTransaction \<Rightarrow> 's actorKVTransaction" where
  "kvTransactionOps tr = \<lparr>aPut = ktPut tr, aGet = ktGet tr, aCommit = ktCommit tr, aCancel = ktCancel tr\<rparr>"

definition kvRegistry :: "('s, goany) store \<Rightarrow> 's registry" where
  "kvRegistry st =
     \<lparr>rRegisterModule = RegisterModule st, rGetModule = GetModule st, rIncGeneration = IncGeneration st,
      rEnsureActivation = EnsureActivation st, rGetVersionStamp = GetVersionStamp st,
      rBeginTransaction = (\<lambda>ns a m sid ver.
        andThen (BeginTransaction st ns a m sid ver) (\<lambda>tr. ret (kvTransactionOps tr))),
      rHeartbeat = Heartbeat st, rClose = kvClose st, rUnsafeWipeAll = kvUnsafeWipeAll st\<rparr>"

subsection \<open>Validation\<close>

text \<open>
  The white space that \<open>strings.TrimSpace\<close> removes, as UTF-8: a string is left as it is if none of
  these stands at its start or at its end.
\<close>

definition spaceRunes :: "string list" where
  "spaceRunes =
     map (\<lambda>n. [char_of n]) [0x09 :: nat, 0x0A, 0x0B, 0x0C, 0x0D, 0x20]
     @ map (map char_of)
         ([[0xC2 :: nat, 0x85], [0xC2, 0xA0], [0xE1, 0x9A, 0x80], [0xE2, 0x80, 0xA8], [0xE2, 0x80, 0xA9],
           [0xE2, 0x80, 0xAF], [0xE2, 0x81, 0x9F], [0xE3, 0x80, 0x80]]
          @ map (\<lambda>n. [0xE2, 0x80, 0x80 + n]) [0 ..< 11])"

definition trimmed :: "string \<Rightarrow> bool" where
  "trimmed x \<longleftrightarrow> \<not> list_ex (\<lambda>w. prefix w x \<or> suffix w x) spaceRunes"

definition validateString :: "string \<Rightarrow> string \<Rightarrow> unit outcome" where
  "validateString name x =
     (if x = [] then Fail (Errorf ''%s cannot be empty'' [AStr name])
      else if length x > 128 then Fail (Errorf ''%s cannot be > 128 bytes, but was: %d'' [AStr name, AInt (int (length x))])
      else if \<not> trimmed x
      then Fail (Errorf ''%s cannot contain leader or trailing whitespace, but was: %s'' [AStr name, AStr x])
      else Ret ())"

definition vRegisterModule ::
  "'s registry \<Rightarrow> string \<Rightarrow> string \<Rightarrow> bytes option \<Rightarrow> ModuleOptions \<Rightarrow> ('s, unit) call" where
  "vRegisterModule r namespace moduleID moduleBytes opts =
     (let len = (case moduleBytes of None \<Rightarrow> 0 | Some b \<Rightarrow> length b) in
      andThen (lift (validateString ''namespace'' namespace)) (\<lambda>_.
      andThen (lift (validateString ''moduleID'' moduleID)) (\<lambda>_.
        if len = 0 \<and> \<not> AllowEmptyModuleBytes opts then fail (Errorf ''moduleBytes must not be empty'' [])
        else if len > 2 ^ 22 then fail (Errorf ''moduleBytes must not be > 1<<22, but was: %d'' [AInt (int len)])
        else rRegisterModule r namespace moduleID moduleBytes opts)))"

definition vGetModule :: "'s registry \<Rightarrow> string \<Rightarrow> string \<Rightarrow> ('s, bytes option \<times> ModuleOptions) call" where
  "vGetModule r namespace moduleID =
     andThen (lift (validateString ''namespace'' namespace)) (\<lambda>_.
     andThen (lift (validateString ''moduleID'' moduleID)) (\<lambda>_.
       rGetModule r namespace moduleID))"

definition vIncGeneration :: "'s registry \<Rightarrow> string \<Rightarrow> string \<Rightarrow> string \<Rightarrow> ('s, unit) call" where
  "vIncGeneration r namespace actorID moduleID =
     andThen (lift (validateString ''namespace'' namespace)) (\<lambda>_.
     andThen (lift (validateString ''actorID'' actorID)) (\<lambda>_.
       rIncGeneration r namespace actorID moduleID))"

definition vEnsureActivation :: "'s registry \<Rightarrow> string \<Rightarrow> string \<Rightarrow> string \<Rightarrow> ('s, actorRef list) call" where
  "vEnsureActivation r namespace actorID moduleID =
     andThen (lift (validateString ''namespace'' namespace)) (\<lambda>_.
     andThen (lift (validateString ''actorID'' actorID)) (\<lambda>_.
       rEnsureActivation r namespace actorID moduleID))"

text \<open>The wrapper of an actor's transaction.\<close>

definition validateKey :: "bytes \<Rightarrow> unit outcome" where
  "validateKey key =
     (if length key = 0 then Fail (Errorf ''key cannot be empty'' [])
      else if length key > 2 ^ 10 then Fail (Errorf ''key cannot be > 1<<10, but was: %d'' [AInt (int (length key))])
      else Ret ())"

definition kvValidator :: "'s actorKVTransaction \<Rightarrow> 's actorKVTransaction" where
  "kvValidator tr =
     \<lparr>aPut = (\<lambda>key value. andThen (lift (validateKey key)) (\<lambda>_. aPut tr key value)),
      aGet = (\<lambda>key. andThen (lift (validateKey key)) (\<lambda>_. aGet tr key)),
      aCommit = aCommit tr, aCancel = aCancel tr\<rparr>"

text \<open>The second check of \<open>BeginTransaction\<close> validates the namespace again, under the name of the actor.\<close>

definition vBeginTransaction ::
  "'s registry \<Rightarrow> string \<Rightarrow> string \<Rightarrow> string \<Rightarrow> string \<Rightarrow> int \<Rightarrow> ('s, 's actorKVTransaction) call" where
  "vBeginTransaction r namespace actorID moduleID serverID serverVersion =
     andThen (lift (validateString ''namespace'' namespace)) (\<lambda>_.
     andThen (lift (validateString ''actorID'' namespace)) (\<lambda>_.
     andThen (rBeginTransaction r namespace actorID moduleID serverID serverVersion) (\<lambda>tr.
       ret (kvValidator tr))))"

definition vHeartbeat :: "'s registry \<Rightarrow> string \<Rightarrow> HeartbeatState \<Rightarrow> ('s, HeartbeatResult) call" where
  "vHeartbeat r serverID state =
     andThen (lift (validateString ''serverID'' serverID)) (\<lambda>_.
     andThen (lift (validateString ''address'' (hs_Address state))) (\<lambda>_.
       rHeartbeat r serverID state))"

definition newValidatedRegistry :: "'s registry \<Rightarrow> 's registry" where
  "newValidatedRegistry r =
     \<lparr>rRegisterModule = vRegisterModule r, rGetModule = vGetModule r, rIncGeneration = vIncGeneration r,
      rEnsureActivation = vEnsureActivation r, rGetVersionStamp = rGetVersionStamp r,
      rBeginTransaction = vBeginTransaction r, rHeartbeat = vHeartbeat r, rClose = rClose r,
      rUnsafeWipeAll = rUnsafeWipeAll r\<rparr>"

definition NewKVRegistry :: "('s, goany) store \<Rightarrow> 's registry" where
  "NewKVRegistry st = newValidatedRegistry (kvRegistry st)"

subsection \<open>Lemmas\<close>

definition validId :: "string \<Rightarrow> bool" where
  "validId x \<longleftrightarrow> x \<noteq> [] \<and> length x \<le> 128 \<and> trimmed x"

lemma validateString_cases:
  "validId x \<Longrightarrow> validateString n x = Ret ()"
  "\<not> validId x \<Longrightarrow> \<exists>e. validateString n x = Fail e"
  by (auto simp: validateString_def validId_def)

text \<open>A guard in front of a call: a failed check returns its error and leaves the state alone.\<close>

lemma andThen_lift: "andThen (lift r) f s =
    (case r of Ret a \<Rightarrow> f a s | Fail e \<Rightarrow> (Fail e, s) | Panic p \<Rightarrow> (Panic p, s) | Blocked \<Rightarrow> (Blocked, s))"
  by (simp add: andThen_def lift_def split: outcome.split)

lemma guard_id:
  "andThen (lift (validateString n x)) f s =
     (if validId x then f () s else (Fail (case validateString n x of Fail e \<Rightarrow> e | _ \<Rightarrow> Sentinel []), s))"
  using validateString_cases [where x = x and n = n] by (auto simp: andThen_lift)

subsection \<open>Properties\<close>

text \<open>
  Validated calls. The validated registry hands a call on exactly if its identifiers are
  non-empty, at most 128 bytes long and free of surrounding white space (for a module also: if its
  bytes are within the limits); otherwise it returns an error and the registry's state is untouched.
\<close>

lemma validator_guards:
  "(if validId ns \<and> validId m
       \<and> (case b of None \<Rightarrow> AllowEmptyModuleBytes opts
           | Some bs \<Rightarrow> (0 < length bs \<or> AllowEmptyModuleBytes opts) \<and> length bs \<le> 2 ^ 22)
    then vRegisterModule r ns m b opts s = rRegisterModule r ns m b opts s
    else \<exists>e. vRegisterModule r ns m b opts s = (Fail e, s))
   \<and> (if validId ns \<and> validId a then vEnsureActivation r ns a m s = rEnsureActivation r ns a m s
      else \<exists>e. vEnsureActivation r ns a m s = (Fail e, s))
   \<and> (if validId ns \<and> validId a then vIncGeneration r ns a m s = rIncGeneration r ns a m s
      else \<exists>e. vIncGeneration r ns a m s = (Fail e, s))
   \<and> (if validId i \<and> validId (hs_Address hs) then vHeartbeat r i hs s = rHeartbeat r i hs s
      else \<exists>e. vHeartbeat r i hs s = (Fail e, s))"
  by (auto simp: vRegisterModule_def vEnsureActivation_def vIncGeneration_def vHeartbeat_def guard_id Let_def
      split: option.split)

text \<open>
  The actor of a transaction is not validated. \<open>BeginTransaction\<close> checks the namespace twice
  and the actor identifier never: a call with an empty actor identifier reaches the registry,
  although the same identifier is refused when the actor is to be activated.
\<close>

lemma BeginTransaction_skips_actorID:
  assumes "validId ns"
  shows "vBeginTransaction r ns [] m sid ver s
       = andThen (rBeginTransaction r ns [] m sid ver) (\<lambda>tr. ret (kvValidator tr)) s
     \<and> (\<exists>e. vEnsureActivation r ns [] m s = (Fail e, s))"
  using assms by (auto simp: vBeginTransaction_def vEnsureActivation_def guard_id) (auto simp: validId_def)

end
