(* ===== verification/Registry_History.thy ===== *)
theory Registry_History
  imports Registry_Spec Registry_Validator
begin

section \<open>Histories of the registry\<close>

text \<open>
  The validated registry under any sequence of calls. \<open>registryCall\<close> is one call of a client (a
  whole actor transaction counts as one), \<open>runCall\<close> runs it, \<open>runs\<close> is the reachability between
  states of the store. \<open>regStep\<close> is what a call can do to the abstract state; the invariant
  \<open>regInv\<close> holds along every history. On top of it: a server's right to an actor's storage, once
  lost, never comes back.
\<close>

subsection \<open>The size of a stored module\<close>

lemma length_escapeString: "length (escapeString s) \<le> 6 * length s"
proof (induction s rule: escapeString.induct)
  case (1 s)
  show ?case
  proof (cases s)
    case (Cons c r)
    have esc: "length (escAscii c) \<le> 6" by (simp add: escAscii_def)
    have n: "runeLen s \<le> length s" by (rule runeLen_le)
    show ?thesis
      using 1 Cons esc n by (cases "runeLen s") (auto simp: escapeString.simps [of "c # r"] split: option.split)
  qed (simp add: escapeString.simps)
qed

lemma length_b64Encode: "length (b64Encode bs) \<le> 4 * length bs"
  by (induction bs rule: b64Encode.induct) (auto simp: Let_def)

lemma length_marshalModule:
  "length (marshalModule rm) \<le> 24 * length (case rm_Bytes rm of None \<Rightarrow> [] | Some b \<Rightarrow> b) + 1000"
proof -
  have q: "length (quoteString s) \<le> 6 * length s + 2" for s using length_escapeString [of s] by (simp add: quoteString_def)
  have "length (render (bytesJSON (rm_Bytes rm))) \<le> 24 * length (case rm_Bytes rm of None \<Rightarrow> [] | Some b \<Rightarrow> b) + 10"
  proof (cases "rm_Bytes rm")
    case (Some b)
    then show ?thesis using q [of "b64Encode b"] length_b64Encode [of b] by (simp add: bytesJSON_def)
  qed (simp add: bytesJSON_def)
  with q [of "''Bytes''"] q [of "''Opts''"] q [of "''AllowEmptyModuleBytes''"] show ?thesis
    by (simp add: marshalModule_def marshal_def moduleJSON_def)
qed

subsection \<open>Calls\<close>

datatype registryCall =
    RegisterModuleCall string string "bytes option" ModuleOptions
  | GetModuleCall string string
  | IncGenerationCall string string string
  | EnsureActivationCall string string string
  | GetVersionStampCall
  | HeartbeatCall string HeartbeatState
  | SessionCall string string string string int "(bytes \<times> bytes) list" bool

fun aPuts :: "'s actorKVTransaction \<Rightarrow> (bytes \<times> bytes) list \<Rightarrow> ('s, unit) call" where
  "aPuts tr [] = ret ()"
| "aPuts tr ((k, v) # kvs) = andThen (aPut tr k v) (\<lambda>_. aPuts tr kvs)"

fun runCall :: "'s registry \<Rightarrow> registryCall \<Rightarrow> ('s, unit) call" where
  "runCall R (RegisterModuleCall ns m b opts) = rRegisterModule R ns m b opts"
| "runCall R (GetModuleCall ns m) = andThen (rGetModule R ns m) (\<lambda>_. ret ())"
| "runCall R (IncGenerationCall ns a m) = rIncGeneration R ns a m"
| "runCall R (EnsureActivationCall ns a m) = andThen (rEnsureActivation R ns a m) (\<lambda>_. ret ())"
| "runCall R GetVersionStampCall = andThen (rGetVersionStamp R) (\<lambda>_. ret ())"
| "runCall R (HeartbeatCall i hs) = andThen (rHeartbeat R i hs) (\<lambda>_. ret ())"
| "runCall R (SessionCall ns a m sid ver kvs c) =
     andThen (rBeginTransaction R ns a m sid ver) (\<lambda>tr.
     andThen (aPuts tr kvs) (\<lambda>_. if c then aCommit tr else aCancel tr))"

definition okKey :: "bytes \<Rightarrow> bool" where
  "okKey k \<longleftrightarrow> k \<noteq> [] \<and> length k \<le> 2 ^ 10"

fun okCall :: "registryCall \<Rightarrow> bool" where
  "okCall (RegisterModuleCall ns m b opts) \<longleftrightarrow> okNs ns \<and> okId m"
| "okCall (EnsureActivationCall ns a m) \<longleftrightarrow> okNs ns \<and> validString m"
| "okCall (HeartbeatCall i hs) \<longleftrightarrow> wfHeartbeat i hs"
| "okCall (SessionCall ns a m sid ver kvs c) \<longleftrightarrow> okNs ns \<and> (\<forall>kv \<in> set kvs. okKey (fst kv))"
| "okCall _ \<longleftrightarrow> True"

inductive runs :: "'s registry \<Rightarrow> 's \<Rightarrow> 's \<Rightarrow> bool" for R where
  runs_refl: "runs R s s"
| runs_step: "runs R s s' \<Longrightarrow> okCall c \<Longrightarrow> runCall R c s' = (r, s'') \<Longrightarrow> runs R s s''"

text \<open>
  Histories in which the registry is wiped as well (for tests). \<open>Close\<close>, and a transaction that has been begun and is not finished before the next call,
  are in neither: both end the use of an in-memory store.
\<close>

inductive wipedRuns :: "'s registry \<Rightarrow> 's \<Rightarrow> 's \<Rightarrow> bool" for R where
  wiped_refl: "wipedRuns R s s"
| wiped_call: "wipedRuns R s s' \<Longrightarrow> okCall c \<Longrightarrow> runCall R c s' = (r, s'') \<Longrightarrow> wipedRuns R s s''"
| wiped_wipe: "wipedRuns R s s' \<Longrightarrow> rUnsafeWipeAll R s' = (r, s'') \<Longrightarrow> wipedRuns R s s''"

subsection \<open>Steps of the abstract state\<close>

inductive regStep :: "int \<Rightarrow> regState \<Rightarrow> int \<Rightarrow> regState \<Rightarrow> bool" where
  step_idle: "t \<le> t' \<Longrightarrow> regStep t A t' A"
| step_register: "t \<le> t' \<Longrightarrow> regStep t A t' (snd (aRegisterModule ns m rm A))"
| step_inc: "t \<le> t' \<Longrightarrow> regStep t A t' (snd (aIncGeneration ns a m A))"
| step_ensure: "t \<le> t' \<Longrightarrow> ensures t ns a m A res A' \<Longrightarrow> regStep t A t' A'"
| step_heartbeat: "t \<le> t0 \<Longrightarrow> t0 \<le> t1 \<Longrightarrow> t1 \<le> t' \<Longrightarrow> regStep t A t' (aHeartbeat i hs t0 t1 A)"
| step_store: "t \<le> t' \<Longrightarrow> fenced ns a m sid ver A \<Longrightarrow> regStep t A t' (storeAll ns a m kvs A)"

lemma regStep_mono: "regStep t A t' A' \<Longrightarrow> t \<le> t'"
  by (induction rule: regStep.induct) auto

text \<open>What a step can do to the servers and to an actor.\<close>

lemma ensures_actor:
  assumes "ensures t ns a m A res A'"
  shows "A' = A \<or> (\<exists>ra ss. actorFor ns a m A = Some ra \<and> keptServer t ra A = None
    \<and> leastLoaded t A ss \<and> A' = setActor ns a m (activated ra ss) A)"
proof (cases "actorFor ns a m A")
  case (Some ra)
  have *: "A' = A \<or> leastLoaded t A ss \<and> A' = setActor ns a m (activated ra ss) A"
    if "leastLoaded t A ss \<and> (case referenceTo ns a ra ss of
          Ret ref \<Rightarrow> res = Some [ref] \<and> A' = setActor ns a m (activated ra ss) A | _ \<Rightarrow> res = None \<and> A' = A)" for ss
    using that by (auto split: outcome.splits)
  show ?thesis
  proof (cases "keptServer t ra A")
    case None
    then show ?thesis using assms Some * by (simp add: ensures_def split: if_splits) blast
  qed (use assms Some in \<open>auto simp: ensures_def split: outcome.splits\<close>)
qed (use assms in \<open>simp add: ensures_def\<close>)

lemma ensures_reference:
  assumes "ensures t ns a m A (Some refs) A'" "actorFor ns a m A = Some ra"
  obtains ss ref where "refs = [ref]" "referenceTo ns a ra ss = Ret ref"
    "keptServer t ra A = Some ss \<or> keptServer t ra A = None \<and> leastLoaded t A ss"
proof (cases "keptServer t ra A")
  case None
  with assms obtain ss where "leastLoaded t A ss" "case referenceTo ns a ra ss of
      Ret ref \<Rightarrow> Some refs = Some [ref] \<and> A' = setActor ns a m (activated ra ss) A | _ \<Rightarrow> Some refs = None \<and> A' = A"
    by (auto simp: ensures_def split: if_splits)
  then show ?thesis using None that by (auto split: outcome.splits)
next
  case (Some ss)
  with assms that show ?thesis by (auto simp: ensures_def split: outcome.splits)
qed

lemma ensures_generation:
  assumes "ensures t ns a m A (Some [ref]) A'" "actorFor ns a m A = Some ra"
  shows "arGeneration ref = ra_Generation ra"
proof -
  obtain ss where "referenceTo ns a ra ss = Ret ref" using ensures_reference [OF assms] by auto
  then show ?thesis
    by (auto simp: referenceTo_def NewActorReference_def NewVirtualActorReference_def newVirtualActorReference_def arGeneration_def
        split: outcome.splits if_splits)
qed

lemma regStep_servers:
  assumes "regStep t A t' A'"
  shows "a_servers A' = a_servers A \<or>
    (\<exists>i hs t0 t1. A' = aHeartbeat i hs t0 t1 A \<and> t \<le> t0 \<and> t0 \<le> t1 \<and> t1 \<le> t')"
  using assms
proof cases
  case (step_ensure ns a m res)
  then show ?thesis using ensures_actor [OF step_ensure(2)] by auto
qed (auto simp: aRegisterModule_def aIncGeneration_def split: option.splits)

lemma regStep_activation:
  assumes "regStep t A t' A'" "a_actors A' (ns, a, m) = Some ra'"
  shows "(\<exists>ra. a_actors A (ns, a, m) = Some ra \<and> ra_Activation ra' = ra_Activation ra)
     \<or> (\<exists>ra ss. actorFor ns a m A = Some ra \<and> keptServer t ra A = None \<and> leastLoaded t A ss
          \<and> ra_Activation ra' = newActivation (ss_ServerID ss) (ss_ServerVersion ss))"
  using assms(1)
proof cases
  case (step_ensure ns' a' m' res)
  consider "A' = A" | ra ss where "actorFor ns' a' m' A = Some ra" "keptServer t ra A = None" "leastLoaded t A ss"
      "A' = setActor ns' a' m' (activated ra ss) A"
    using ensures_actor [OF step_ensure(2)] by blast
  then show ?thesis
  proof cases
    case 2
    show ?thesis
    proof (cases "(ns, a, m) = (ns', a', m')")
      case True
      then have "ra_Activation ra' = newActivation (ss_ServerID ss) (ss_ServerVersion ss)"
        using 2(4) assms(2) by (auto simp: setActor_def activated_def)
      with 2 True show ?thesis by blast
    qed (use 2 assms(2) in \<open>auto simp: setActor_def\<close>)
  qed (use assms(2) in simp)
qed (use assms(2) in \<open>auto simp: aRegisterModule_def aIncGeneration_def aHeartbeat_def setActor_def
    split: option.splits if_splits\<close>)

subsection \<open>The invariant\<close>

text \<open>
  A server's version starts at 1 and grows by one at most every five seconds of stamps, so that it cannot
  overflow before the stamps do; and an activation always names a known server, with a version that
  server has had.
\<close>

definition versionsOk :: "regState \<Rightarrow> bool" where
  "versionsOk A \<longleftrightarrow> (\<forall>i ss. a_servers A i = Some ss \<longrightarrow>
     1 \<le> ss_ServerVersion ss \<and> (ss_ServerVersion ss - 1) * 5000000 \<le> ss_LastHeartbeatedAt ss)"

definition activationsKnown :: "regState \<Rightarrow> bool" where
  "activationsKnown A \<longleftrightarrow> (\<forall>ns a m ra. a_actors A (ns, a, m) = Some ra \<and> act_ServerID (ra_Activation ra) \<noteq> [] \<longrightarrow>
     (\<exists>ss. a_servers A (act_ServerID (ra_Activation ra)) = Some ss
        \<and> act_ServerVersion (ra_Activation ra) \<le> ss_ServerVersion ss))"

definition regInv :: "int \<Rightarrow> regState \<Rightarrow> bool" where
  "regInv t A \<longleftrightarrow> wfState t A \<and> 0 \<le> t \<and> t * 1000 < 2 ^ 63 \<and> versionsOk A \<and> activationsKnown A"

lemma regInv_server:
  assumes "regInv t A" "a_servers A i = Some ss"
  shows "ss_LastHeartbeatedAt ss \<le> t" "1 \<le> ss_ServerVersion ss" "i64 (ss_ServerVersion ss + 1) = ss_ServerVersion ss + 1"
    "(ss_ServerVersion ss - 1) * 5000000 \<le> ss_LastHeartbeatedAt ss" "0 \<le> ss_LastHeartbeatedAt ss"
proof -
  have wf: "wfState t A" and v: "1 \<le> ss_ServerVersion ss" "(ss_ServerVersion ss - 1) * 5000000 \<le> ss_LastHeartbeatedAt ss"
    and t: "t * 1000 < 2 ^ 63"
    using assms by (auto simp: regInv_def versionsOk_def)
  show l: "ss_LastHeartbeatedAt ss \<le> t" "1 \<le> ss_ServerVersion ss"
    "(ss_ServerVersion ss - 1) * 5000000 \<le> ss_LastHeartbeatedAt ss" "0 \<le> ss_LastHeartbeatedAt ss"
    using wfStateD(2) [OF wf assms(2)] v by simp_all
  show "i64 (ss_ServerVersion ss + 1) = ss_ServerVersion ss + 1"
    using l(1) v t by (intro i64_id) (simp add: is_i64_def)
qed

lemma activation_known:
  assumes "regInv t A" "a_actors A (ns, a, m) = Some ra" "act_ServerID (ra_Activation ra) \<noteq> []"
  shows "\<exists>ss. a_servers A (act_ServerID (ra_Activation ra)) = Some ss
    \<and> act_ServerVersion (ra_Activation ra) \<le> ss_ServerVersion ss"
  using assms unfolding regInv_def activationsKnown_def by blast

text \<open>The version a heartbeat stores, without wrap-around.\<close>

lemma heartbeatVersion_known:
  assumes "regInv t A" "a_servers A i = Some ss"
  shows "heartbeatVersion i t0 t1 A = (if aliveAt t1 ss then ss_ServerVersion ss else ss_ServerVersion ss + 1)"
  using regInv_server(3) [OF assms] assms(2) by (simp add: heartbeatVersion_def)

lemma heartbeat_versionsOk:
  assumes inv: "regInv t A" and t: "t \<le> t0" "t0 \<le> t1"
  shows "versionsOk (aHeartbeat i hs t0 t1 A)"
proof -
  let ?v = "heartbeatVersion i t0 t1 A"
  have "1 \<le> ?v \<and> (?v - 1) * 5000000 \<le> t1"
  proof (cases "a_servers A i")
    case None
    then show ?thesis using inv t by (auto simp: heartbeatVersion_def regInv_def)
  next
    case (Some ss)
    then show ?thesis
      using regInv_server [OF inv Some] t by (auto simp: heartbeatVersion_known [OF inv Some] aliveAt_def algebra_simps)
  qed
  with inv show ?thesis by (auto simp: aHeartbeat_def versionsOk_def regInv_def)
qed

lemma heartbeat_server:
  assumes inv: "regInv t A" and ss: "a_servers A j = Some ss"
  obtains ss' where "a_servers (aHeartbeat i hs t0 t1 A) j = Some ss'" "ss_ServerVersion ss \<le> ss_ServerVersion ss'"
    "ss' = ss \<or> ss_ServerVersion ss < ss_ServerVersion ss' \<or> aliveAt t1 ss"
  using assms that by (cases "i = j") (auto simp: aHeartbeat_def heartbeatVersion_known [OF inv])

lemma regStep_server:
  assumes inv: "regInv t A" and step: "regStep t A t' A'" and ss: "a_servers A j = Some ss"
  obtains ss' where "a_servers A' j = Some ss'" "ss_ServerVersion ss \<le> ss_ServerVersion ss'"
    "ss' = ss \<or> ss_ServerVersion ss < ss_ServerVersion ss' \<or> aliveAt t ss"
proof (cases "a_servers A' = a_servers A")
  case False
  then obtain i hs t0 t1 where A': "A' = aHeartbeat i hs t0 t1 A" "t \<le> t1"
    using regStep_servers [OF step] by fastforce
  obtain ss' where "a_servers A' j = Some ss'" "ss_ServerVersion ss \<le> ss_ServerVersion ss'"
    "ss' = ss \<or> ss_ServerVersion ss < ss_ServerVersion ss' \<or> aliveAt t1 ss"
    unfolding A'(1) by (rule heartbeat_server [OF inv ss])
  moreover have "aliveAt t1 ss \<Longrightarrow> aliveAt t ss" using A'(2) by (simp add: aliveAt_def)
  ultimately show ?thesis using that by blast
qed (use ss that in simp)

lemma regStep_inv:
  assumes inv: "regInv t A" and step: "regStep t A t' A'" and wf: "wfState t' A'" and r: "t' * 1000 < 2 ^ 63"
  shows "regInv t' A'"
proof -
  have "versionsOk A'"
    using regStep_servers [OF step] heartbeat_versionsOk [OF inv] inv by (auto simp: versionsOk_def regInv_def)
  moreover have "activationsKnown A'"
    unfolding activationsKnown_def
  proof clarify
    fix ns a m ra' assume ra': "a_actors A' (ns, a, m) = Some ra'" and ne: "act_ServerID (ra_Activation ra') \<noteq> []"
    consider ra where "a_actors A (ns, a, m) = Some ra" "ra_Activation ra' = ra_Activation ra"
      | ss where "leastLoaded t A ss" "ra_Activation ra' = newActivation (ss_ServerID ss) (ss_ServerVersion ss)"
      using regStep_activation [OF step ra'] by blast
    then obtain ss where "a_servers A (act_ServerID (ra_Activation ra')) = Some ss"
      "act_ServerVersion (ra_Activation ra') \<le> ss_ServerVersion ss"
    proof cases
      case 1
      then show ?thesis using activation_known [OF inv 1(1)] ne that by auto
    next
      case 2
      then show ?thesis using that by (simp add: leastLoaded_def newActivation_def)
    qed
    then show "\<exists>ss. a_servers A' (act_ServerID (ra_Activation ra')) = Some ss
        \<and> act_ServerVersion (ra_Activation ra') \<le> ss_ServerVersion ss"
      using regStep_server [OF inv step] by (metis order.trans)
  qed
  ultimately show ?thesis using inv regStep_mono [OF step] wf r by (simp add: regInv_def)
qed

subsection \<open>Lost tokens\<close>

text \<open>The pair of a server and a version can no longer be given to an actor.\<close>

definition retired :: "string \<Rightarrow> int \<Rightarrow> int \<Rightarrow> regState \<Rightarrow> bool" where
  "retired sid ver t A \<longleftrightarrow>
     (\<exists>ss. a_servers A sid = Some ss \<and> (ver < ss_ServerVersion ss \<or> ver = ss_ServerVersion ss \<and> \<not> aliveAt t ss))"

lemma retired_step:
  assumes inv: "regInv t A" and step: "regStep t A t' A'" and r: "retired sid ver t A"
  shows "retired sid ver t' A'"
proof -
  obtain ss where ss: "a_servers A sid = Some ss" "ver < ss_ServerVersion ss \<or> ver = ss_ServerVersion ss \<and> \<not> aliveAt t ss"
    using r by (auto simp: retired_def)
  obtain ss' where "a_servers A' sid = Some ss'" "ss_ServerVersion ss \<le> ss_ServerVersion ss'"
    "ss' = ss \<or> ss_ServerVersion ss < ss_ServerVersion ss' \<or> aliveAt t ss"
    by (rule regStep_server [OF inv step ss(1)])
  moreover have "aliveAt t' ss \<Longrightarrow> aliveAt t ss" using regStep_mono [OF step] by (simp add: aliveAt_def)
  ultimately show ?thesis using ss(2) unfolding retired_def by force
qed

lemma retired_not_fenced:
  assumes inv: "regInv t A" and step: "regStep t A t' A'" and r: "retired sid ver t A" and f: "\<not> fenced ns a m sid ver A"
  shows "\<not> fenced ns a m sid ver A'"
proof
  assume "fenced ns a m sid ver A'"
  then obtain ra' where ra': "a_actors A' (ns, a, m) = Some ra'" "ra_Activation ra' = newActivation sid ver"
    by (auto simp: fenced_def)
  from regStep_activation [OF step ra'(1)] show False
  proof (elim disjE exE conjE)
    fix ra ss assume "leastLoaded t A ss" "ra_Activation ra' = newActivation (ss_ServerID ss) (ss_ServerVersion ss)"
    with ra'(2) r show False by (auto simp: leastLoaded_def newActivation_def retired_def)
  qed (use ra' f in \<open>auto simp: fenced_def\<close>)
qed

lemma lost_retired:
  assumes inv: "regInv t A" and step: "regStep t A t' A'" and ne: "sid \<noteq> []"
    and f: "fenced ns a m sid ver A" "\<not> fenced ns a m sid ver A'"
  shows "retired sid ver t A"
  using step
proof cases
  case (step_ensure ns' a' m' res)
  obtain ra where ra: "a_actors A (ns, a, m) = Some ra" "ra_Activation ra = newActivation sid ver"
    using f(1) by (auto simp: fenced_def)
  have "A' \<noteq> A" using f by blast
  with ensures_actor [OF step_ensure(2)] obtain ra1 ss where 1: "actorFor ns' a' m' A = Some ra1" "keptServer t ra1 A = None"
    "A' = setActor ns' a' m' (activated ra1 ss) A" by blast
  have "(ns', a', m') = (ns, a, m)" using 1(3) f ra by (auto simp: fenced_def setActor_def split: if_splits)
  with 1(1) ra(1) have "ra1 = ra" by (simp add: actorFor_def)
  moreover obtain ss where "a_servers A sid = Some ss" "ver \<le> ss_ServerVersion ss"
    using activation_known [OF inv ra(1)] ra(2) ne by (auto simp: newActivation_def)
  ultimately show ?thesis
    using 1(2) ne ra(2) by (auto simp: keptServer_def retired_def newActivation_def split: if_splits)
qed (use f in \<open>auto simp: fenced_def aRegisterModule_def aIncGeneration_def aHeartbeat_def setActor_def
    split: option.splits if_splits\<close>)

subsection \<open>Calls refine steps\<close>

lemma agrees_answered: "agrees r x \<Longrightarrow> answered r"
  by (auto simp: agrees_def split: outcome.splits option.splits)

lemma aPuts_validated:
  "\<forall>kv \<in> set kvs. okKey (fst kv) \<Longrightarrow> aPuts (kvValidator (kvTransactionOps tr)) kvs = ktPuts tr kvs"
proof (induction kvs)
  case (Cons kv kvs)
  obtain k v where kv: "kv = (k, v)" by force
  with Cons.prems have "validateKey k = Ret ()" by (simp add: okKey_def validateKey_def)
  then have "aPut (kvValidator (kvTransactionOps tr)) k v = ktPut tr k v"
    by (simp add: kvValidator_def kvTransactionOps_def andThen_lift fun_eq_iff)
  with Cons kv show ?case by simp
qed simp

lemma discard_answer:
  "m s = (r, s') \<Longrightarrow> answered r \<Longrightarrow> \<exists>r'. andThen m (\<lambda>_. ret ()) s = (r', s') \<and> answered r'"
  by (cases r) (simp_all add: andThen_def)

lemma andThen_assoc: "andThen (andThen m f) g = andThen m (\<lambda>x. andThen (f x) g)"
  by (rule ext) (simp add: andThen_def split: outcome.split prod.split)

lemma andThen_ret: "andThen (ret x) f = f x"
  by (rule ext) (simp add: andThen_def ret_def)

lemmas registry_simps = NewKVRegistry_def newValidatedRegistry_def kvRegistry_def

lemma begin_validated:
  "rBeginTransaction (NewKVRegistry st) ns a m sid ver s =
     (if validId ns then andThen (BeginTransaction st ns a m sid ver) (\<lambda>k. ret (kvValidator (kvTransactionOps k))) s
      else (Fail (case validateString ''namespace'' ns of Fail e \<Rightarrow> e | _ \<Rightarrow> Sentinel []), s))"
  by (simp add: registry_simps vBeginTransaction_def guard_id andThen_assoc andThen_ret) (simp add: ret_def [abs_def])

context registry_open
begin

definition stepsTo :: "'s \<Rightarrow> regState \<Rightarrow> unit outcome \<times> 's \<Rightarrow> bool" where
  "stepsTo s A rs \<longleftrightarrow>
     answered (fst rs) \<and> (\<exists>A'. holds (snd rs) A' \<and> regStep (stamp s) A (stamp (snd rs)) A')"

lemma stepsTo_stay: "holds s A \<Longrightarrow> stepsTo s A (Fail e, s)"
  by (auto simp: stepsTo_def intro: step_idle)

lemma stepsTo_discard:
  assumes "m s = (r, s')" "answered r" "holds s' A'" "regStep (stamp s) A (stamp s') A'"
  shows "stepsTo s A (andThen m (\<lambda>_. ret ()) s)"
  using discard_answer [of m s, OF assms(1,2)] assms(3,4) by (auto simp: stepsTo_def)

lemma register_step:
  assumes "holds s A" "okNs ns" "okId m"
  shows "stepsTo s A (runCall (NewKVRegistry st) (RegisterModuleCall ns m b opts) s)"
proof (cases "validId ns \<and> validId m
       \<and> (case b of None \<Rightarrow> AllowEmptyModuleBytes opts
           | Some bs \<Rightarrow> (bs \<noteq> [] \<or> AllowEmptyModuleBytes opts) \<and> length bs \<le> 2 ^ 22)")
  case True
  let ?rm = "\<lparr>rm_Bytes = b, rm_Opts = opts\<rparr>"
  have "length (marshalModule ?rm) < 2 ^ 63"
    using length_marshalModule [of ?rm] True by (auto split: option.splits)
  from RegisterModule_refines [OF assms this] obtain r s' where r: "RegisterModule st ns m b opts s = (r, s')"
    "agrees r (fst (aRegisterModule ns m ?rm A))" "holds s' (snd (aRegisterModule ns m ?rm A))" "stamp s \<le> stamp s'" by auto
  moreover have "vRegisterModule (kvRegistry st) ns m b opts s = RegisterModule st ns m b opts s"
    using True by (auto simp: vRegisterModule_def guard_id Let_def kvRegistry_def split: option.splits)
  ultimately show ?thesis
    using agrees_answered [OF r(2)] step_register [of "stamp s" "stamp s'"] by (auto simp: stepsTo_def registry_simps)
next
  case False
  then show ?thesis using stepsTo_stay [OF assms(1)]
    by (auto simp: registry_simps vRegisterModule_def guard_id Let_def split: option.splits)
qed

lemma session_step:
  assumes h: "holds s A" and ok: "okNs ns" "\<forall>kv \<in> set kvs. okKey (fst kv)"
  shows "stepsTo s A (runCall (NewKVRegistry st) (SessionCall ns a m sid ver kvs c) s)"
proof (cases "validId ns")
  case False
  then show ?thesis using stepsTo_stay [OF h] by (simp add: andThen_def begin_validated)
next
  case True
  let ?k = "newKVTransaction ns a m tr"
  have ops: "aCommit (kvValidator (kvTransactionOps k)) = ktCommit k" "aCancel (kvValidator (kvTransactionOps k)) = ktCancel k" for k
    by (simp_all add: kvValidator_def kvTransactionOps_def)
  have "runCall (NewKVRegistry st) (SessionCall ns a m sid ver kvs c) s =
      andThen (andThen (BeginTransaction st ns a m sid ver) (\<lambda>k. ret (kvValidator (kvTransactionOps k))))
        (\<lambda>tr. andThen (aPuts tr kvs) (\<lambda>_. if c then aCommit tr else aCancel tr)) s"
    using True by (simp add: andThen_def [of "rBeginTransaction _ _ _ _ _ _"] begin_validated)
      (simp add: andThen_def)
  then have run: "runCall (NewKVRegistry st) (SessionCall ns a m sid ver kvs c) s =
      andThen (BeginTransaction st ns a m sid ver) (\<lambda>k. andThen (ktPuts k kvs) (\<lambda>_. if c then ktCommit k else ktCancel k)) s"
    by (simp only: andThen_assoc andThen_ret aPuts_validated [OF ok(2)] ops)
  show ?thesis
  proof (cases "fenced ns a m sid ver A")
    case True
    obtain s1 s2 sc sx where 1: "BeginTransaction st ns a m sid ver s = (Ret ?k, s1)" "ktPuts ?k kvs s1 = (Ret (), s2)"
      "ktCommit ?k s2 = (Ret (), sc)" "holds sc (storeAll ns a m kvs A)" "stamp s \<le> stamp sc"
      "ktCancel ?k s2 = (Ret (), sx)" "holds sx A" "stamp s \<le> stamp sx"
      using actor_session [OF h True ok(1), of kvs] by blast
    then show ?thesis unfolding run
      using step_store [OF _ True, of "stamp s" "stamp sc"] step_idle [of "stamp s"] by (auto simp: andThen_def stepsTo_def)
  next
    case False
    then obtain e s' where "BeginTransaction st ns a m sid ver s = (Fail e, s')" "holds s' A" "stamp s \<le> stamp s'"
      using BeginTransaction_refines [OF h, of ns a m sid ver] by auto
    then show ?thesis unfolding run by (auto simp: andThen_def stepsTo_def intro: step_idle)
  qed
qed

end

context registry_open
begin

lemma call_step:
  assumes h: "holds s A" and ok: "okCall c"
  shows "stepsTo s A (runCall (NewKVRegistry st) c s)"
proof (cases c)
  case (RegisterModuleCall ns m b opts)
  then show ?thesis using register_step [OF h] ok by simp
next
  case (GetModuleCall ns m)
  obtain r s' where r: "GetModule st ns m s = (r, s')" "agrees r (aGetModule ns m A)" "holds s' A" "stamp s \<le> stamp s'"
    using GetModule_refines [OF h, of ns m] by blast
  show ?thesis
  proof (cases "validId ns \<and> validId m")
    case True
    then have "vGetModule (kvRegistry st) ns m s = (r, s')" using r(1) by (simp add: vGetModule_def guard_id kvRegistry_def)
    from stepsTo_discard [of "vGetModule (kvRegistry st) ns m", OF this agrees_answered [OF r(2)] r(3), of A]
    show ?thesis using GetModuleCall r(4) by (simp add: registry_simps step_idle)
  qed (use GetModuleCall stepsTo_stay [OF h] in \<open>auto simp: registry_simps vGetModule_def andThen_assoc guard_id\<close>)
next
  case (IncGenerationCall ns a m)
  obtain r s' where r: "IncGeneration st ns a m s = (r, s')" "agrees r (fst (aIncGeneration ns a m A))"
    "holds s' (snd (aIncGeneration ns a m A))" "stamp s \<le> stamp s'"
    using IncGeneration_refines [OF h, of ns a m] by blast
  then have "stepsTo s A (r, s')"
    using agrees_answered [OF r(2)] step_inc [of "stamp s" "stamp s'"] by (auto simp: stepsTo_def)
  with r(1) stepsTo_stay [OF h] show ?thesis
    by (simp add: IncGenerationCall registry_simps vIncGeneration_def guard_id)
next
  case (EnsureActivationCall ns a m)
  obtain r s' res A' where r: "EnsureActivation st ns a m s = (r, s')" "agrees r res"
    "ensures (stamp s) ns a m A res A'" "holds s' A'" "stamp s \<le> stamp s'"
    using EnsureActivation_refines [OF h, of ns m a] ok EnsureActivationCall by auto
  show ?thesis
  proof (cases "validId ns \<and> validId a")
    case True
    then have "vEnsureActivation (kvRegistry st) ns a m s = (r, s')"
      using r(1) by (simp add: vEnsureActivation_def guard_id kvRegistry_def)
    from stepsTo_discard [of "vEnsureActivation (kvRegistry st) ns a m", OF this agrees_answered [OF r(2)] r(4) step_ensure [OF r(5,3)]]
    show ?thesis using EnsureActivationCall by (simp add: registry_simps)
  qed (use EnsureActivationCall stepsTo_stay [OF h] in \<open>auto simp: registry_simps vEnsureActivation_def andThen_assoc guard_id\<close>)
next
  case GetVersionStampCall
  obtain s' where r: "GetVersionStamp st s = (Ret (stamp s), s')" "holds s' A" "stamp s \<le> stamp s'"
    using GetVersionStamp_refines [OF h] by blast
  from stepsTo_discard [of "GetVersionStamp st", OF r(1) _ r(2) step_idle [OF r(3)]] show ?thesis
    by (simp add: GetVersionStampCall registry_simps)
next
  case (HeartbeatCall i hs)
  obtain t0 t t' x s' where r: "Heartbeat st i hs s = (Ret x, s')" "holds s' (aHeartbeat i hs t0 t A)"
      "stamp s \<le> t0" "t0 \<le> t" "t \<le> t'" "t' \<le> stamp s'"
    using Heartbeat_refines [OF h, of i hs] ok HeartbeatCall by auto
  show ?thesis
  proof (cases "validId i \<and> validId (hs_Address hs)")
    case True
    then have "vHeartbeat (kvRegistry st) i hs s = (Ret x, s')" using r(1) by (simp add: vHeartbeat_def guard_id kvRegistry_def)
    from stepsTo_discard [of "vHeartbeat (kvRegistry st) i hs", OF this _ r(2) step_heartbeat [OF r(3,4)]] r(5,6)
    show ?thesis using HeartbeatCall by (simp add: registry_simps)
  qed (use HeartbeatCall stepsTo_stay [OF h] in \<open>auto simp: registry_simps vHeartbeat_def andThen_assoc guard_id\<close>)
next
  case (SessionCall ns a m sid ver kvs c')
  then show ?thesis using session_step [OF h] ok by simp
qed

text \<open>The invariant of a store, and what every call keeps of it.\<close>

definition good :: "'s \<Rightarrow> regState \<Rightarrow> bool" where
  "good s A \<longleftrightarrow> holds s A \<and> regInv (stamp s) A"

lemma stamp_idle: "holds s A \<Longrightarrow> 0 \<le> stamp s \<and> stamp s * 1000 < 2 ^ 63"
  using stamp_inside [OF inside_enter] enter_stamp by metis

lemma good_call:
  assumes "good s A" "okCall c" "runCall (NewKVRegistry st) c s = (r, s')"
  obtains A' where "answered r" "good s' A'" "regStep (stamp s) A (stamp s') A'"
proof -
  have "stepsTo s A (r, s')" using call_step [of s A c] assms by (simp add: good_def)
  then obtain A' where A': "answered r" "holds s' A'" "regStep (stamp s) A (stamp s') A'" by (auto simp: stepsTo_def)
  then have "regInv (stamp s') A'"
    using regStep_inv [of "stamp s" A "stamp s'" A'] assms(1) stamp_idle [OF A'(2)] by (simp add: good_def holds_def)
  with A' that show ?thesis by (simp add: good_def)
qed

lemma good_runs: "runs (NewKVRegistry st) s s' \<Longrightarrow> good s A \<Longrightarrow> \<exists>A'. good s' A'"
proof (induction rule: runs.induct)
  case (runs_step s s' c r s'')
  then show ?case using good_call by metis
qed blast

lemma begin_accepts:
  assumes "holds s A" "validId ns" "fenced ns a m sid ver A"
  shows "rBeginTransaction (NewKVRegistry st) ns a m sid ver s
    = (Ret (kvValidator (kvTransactionOps (newKVTransaction ns a m tr))), opn s)"
  using BeginTransaction_refines [OF assms(1), of ns a m sid ver] assms by (simp add: begin_validated andThen_def)

lemma begin_refuses:
  assumes "holds s A"
  shows "(\<exists>e. fst (rBeginTransaction (NewKVRegistry st) ns a m sid ver s) = Fail e) \<longleftrightarrow> \<not> (validId ns \<and> fenced ns a m sid ver A)"
  using BeginTransaction_refines [OF assms, of ns a m sid ver]
  by (auto simp: begin_validated andThen_def split: if_splits)

text \<open>A token that is lost at some point of a history is never accepted afterwards.\<close>

lemma lost_stays_lost:
  assumes "runs (NewKVRegistry st) s s'" "good s A" "retired sid ver (stamp s) A" "\<not> fenced ns a m sid ver A"
  shows "\<exists>A'. good s' A' \<and> retired sid ver (stamp s') A' \<and> \<not> fenced ns a m sid ver A'"
  using assms
proof (induction rule: runs.induct)
  case (runs_step s s' c r s'')
  then obtain A1 where A1: "good s' A1" "retired sid ver (stamp s') A1" "\<not> fenced ns a m sid ver A1" by blast
  obtain A2 where "good s'' A2" "regStep (stamp s') A1 (stamp s'') A2" by (rule good_call [OF A1(1) runs_step(2,3)])
  then show ?case
    using A1 retired_step [of "stamp s'" A1 "stamp s''" A2] retired_not_fenced [of "stamp s'" A1 "stamp s''" A2]
    by (auto simp: good_def)
qed blast

lemma losing:
  assumes "runs (NewKVRegistry st) s s'" "good s A" "fenced ns a m sid ver A" "sid \<noteq> []"
  shows "\<exists>A'. good s' A' \<and> (fenced ns a m sid ver A' \<or> retired sid ver (stamp s') A')"
  using assms
proof (induction rule: runs.induct)
  case (runs_step s s' c r s'')
  then obtain A1 where A1: "good s' A1" "fenced ns a m sid ver A1 \<or> retired sid ver (stamp s') A1" by blast
  obtain A2 where A2: "good s'' A2" "regStep (stamp s') A1 (stamp s'') A2" by (rule good_call [OF A1(1) runs_step(2,3)])
  then have "fenced ns a m sid ver A2 \<or> retired sid ver (stamp s'') A2"
    using A1 retired_step [of "stamp s'" A1 "stamp s''" A2] lost_retired [of "stamp s'" A1 "stamp s''" A2] runs_step.prems(3)
    unfolding good_def by blast
  with A2 show ?case by blast
qed blast

text \<open>The three points of a history: accepted, then refused, then refused for good.\<close>

lemma token_never_returns:
  assumes "good s1 A" "runs (NewKVRegistry st) s1 s2" "runs (NewKVRegistry st) s2 s3" "sid \<noteq> []"
    and "\<exists>tr. fst (rBeginTransaction (NewKVRegistry st) ns a m sid ver s1) = Ret tr"
    and "\<exists>e. fst (rBeginTransaction (NewKVRegistry st) ns a m sid ver s2) = Fail e"
  shows "\<exists>e. fst (rBeginTransaction (NewKVRegistry st) ns a m sid ver s3) = Fail e"
proof -
  have f: "validId ns \<and> fenced ns a m sid ver A"
    using begin_refuses [of s1 A ns a m sid ver] assms(1,5) by (auto simp: good_def)
  then obtain A2 where A2: "good s2 A2" "fenced ns a m sid ver A2 \<or> retired sid ver (stamp s2) A2"
    using losing [OF assms(2,1) _ assms(4)] by blast
  have nf: "\<not> fenced ns a m sid ver A2"
    using begin_refuses [of s2 A2 ns a m sid ver] A2(1) f assms(6) by (auto simp: good_def)
  with A2 obtain A3 where "good s3 A3" "\<not> fenced ns a m sid ver A3"
    using lost_stays_lost [OF assms(3) A2(1) _ nf] by blast
  then show ?thesis using begin_refuses [of s3 A3 ns a m sid ver] by (auto simp: good_def)
qed

end

end
