(* ===== verification/Local_KV.thy ===== *)
theory Local_KV
  imports KV_Store "HOL-Library.RBT"
begin

section \<open>The in-memory store: \<open>virtual/registry/localregistry/local_kv.go\<close>\<close>

text \<open>
  \<open>localKV\<close> is a mutex around a B-tree. The B-tree (\<open>github.com/google/btree\<close>) is a parameter: a
  record of the operations that are called, with its documented behaviour as the locale
  \<open>btree_contract\<close>. The clock of the machine is a sequence of readings in nanoseconds; the number
  of readings taken so far is part of the state. A call that needs the mutex while it is held is
  \<^const>\<open>Blocked\<close>.
\<close>

subsection \<open>The B-tree package\<close>

type_synonym btreeKV = "bytes \<times> bytes"

record 't btree_ops =
  bNewG :: 't
  bReplaceOrInsert :: "btreeKV \<Rightarrow> 't \<Rightarrow> 't"
  bGet :: "bytes \<Rightarrow> 't \<Rightarrow> btreeKV option"
  bAscendGreaterOrEqual :: "bytes \<Rightarrow> 't \<Rightarrow> btreeKV list"
  bClone :: "'t \<Rightarrow> 't"
  bClear :: "'t \<Rightarrow> 't"

subsection \<open>State\<close>

record 't localKV =
  l_locked :: bool  \<comment> \<open>the embedded \<open>sync.Mutex\<close>\<close>
  l_t :: int
  l_b :: 't
  l_trClone :: "'t option"
  l_closed :: bool
  l_clock :: "nat \<Rightarrow> int"
  l_reads :: nat

definition newLocalKV :: "'t btree_ops \<Rightarrow> (nat \<Rightarrow> int) \<Rightarrow> 't localKV" where
  "newLocalKV bt clock =
     \<lparr>l_locked = False, l_t = clock 0, l_b = bNewG bt, l_trClone = None, l_closed = False,
      l_clock = clock, l_reads = 1\<rparr>"

text \<open>The deferred \<open>l.Unlock()\<close>: unlocking an unlocked mutex is a fatal error.\<close>

definition unlock :: "'a outcome \<Rightarrow> 't localKV \<Rightarrow> 'a outcome \<times> 't localKV" where
  "unlock r l =
     (if l_locked l then (r, l\<lparr>l_locked := False\<rparr>)
      else (Panic ''sync: unlock of unlocked mutex'', l))"

subsection \<open>The operations of a transaction\<close>

definition closedPanic :: string where
  "closedPanic = ''KV already closed''"

definition localPut :: "'t btree_ops \<Rightarrow> bytes \<Rightarrow> bytes \<Rightarrow> ('t localKV, unit) call" where
  "localPut bt k v l =
     (if l_closed l then (Panic closedPanic, l)
      else (Ret (), l\<lparr>l_b := bReplaceOrInsert bt (k, v) (l_b l)\<rparr>))"

definition localGet :: "'t btree_ops \<Rightarrow> bytes \<Rightarrow> ('t localKV, bytes option) call" where
  "localGet bt k l =
     (if l_closed l then (Panic closedPanic, l)
      else (case bGet bt k (l_b l) of
              None \<Rightarrow> (Ret None, l)
            | Some (_, v) \<Rightarrow> (Ret (Some v), l)))"

text \<open>The function that \<open>IterPrefix\<close> gives to \<open>AscendGreaterOrEqual\<close>, run on the items in order.\<close>

fun ascendLoop ::
  "bytes \<Rightarrow> (bytes \<Rightarrow> bytes \<Rightarrow> 'c \<Rightarrow> 'c outcome) \<Rightarrow> btreeKV list \<Rightarrow> 'c \<Rightarrow> 'c outcome" where
  "ascendLoop prfx fn [] acc = Ret acc"
| "ascendLoop prfx fn ((k, v) # kvs) acc =
     (if prefix prfx k then obind (fn k v acc) (ascendLoop prfx fn kvs) else Ret acc)"

definition localIterPrefix ::
  "'t btree_ops \<Rightarrow> bytes \<Rightarrow> (bytes \<Rightarrow> bytes \<Rightarrow> 'c \<Rightarrow> 'c outcome) \<Rightarrow> 'c \<Rightarrow> ('t localKV, 'c) call" where
  "localIterPrefix bt prfx fn acc l =
     (if l_closed l then (Panic closedPanic, l)
      else (ascendLoop prfx fn (bAscendGreaterOrEqual bt prfx (l_b l)) acc, l))"

text \<open>\<open>time.Time.Sub\<close> saturates; \<open>Duration.Microseconds\<close> truncates towards zero.\<close>

definition durationSub :: "int \<Rightarrow> int \<Rightarrow> int" where
  "durationSub a b = max (- (2 ^ 63)) (min (2 ^ 63 - 1) (a - b))"

definition microseconds :: "int \<Rightarrow> int" where
  "microseconds d = (if d < 0 then - ((- d) div 1000) else d div 1000)"

definition localGetVersionStamp :: "('t localKV, int) call" where
  "localGetVersionStamp l =
     (Ret (microseconds (durationSub (l_clock l (l_reads l)) (l_t l))),
      l\<lparr>l_reads := l_reads l + 1\<rparr>)"

definition trClonePanic :: string where
  "trClonePanic = ''trClone should not be nil''"

definition localCommit :: "('t localKV, unit) call" where
  "localCommit l =
     (case l_trClone l of
        None \<Rightarrow> unlock (Panic trClonePanic) l
      | Some _ \<Rightarrow> unlock (Ret ()) (l\<lparr>l_trClone := None\<rparr>))"

definition localCancel :: "('t localKV, unit) call" where
  "localCancel l =
     (case l_trClone l of
        None \<Rightarrow> unlock (Panic trClonePanic) l
      | Some c \<Rightarrow> unlock (Ret ()) (l\<lparr>l_b := c, l_trClone := None\<rparr>))"

definition localTransaction :: "'t btree_ops \<Rightarrow> 't localKV transaction" where
  "localTransaction bt =
     \<lparr>tPut = localPut bt, tGet = localGet bt,
      tIterPrefix = (\<lambda>prfx. localIterPrefix bt prfx (\<lambda>k v acc. Ret (acc @ [(k, v)])) []),
      tGetVersionStamp = localGetVersionStamp, tCommit = localCommit, tCancel = localCancel\<rparr>"

subsection \<open>The operations of the store\<close>

definition localBeginTransaction ::
  "'t btree_ops \<Rightarrow> ('t localKV, 't localKV transaction) call" where
  "localBeginTransaction bt l =
     (if l_locked l then (Blocked, l)
      else (Ret (localTransaction bt),
            l\<lparr>l_locked := True, l_trClone := Some (bClone bt (l_b l))\<rparr>))"

text \<open>A panic of \<open>fn\<close> passes the deferred \<open>Unlock\<close>; the assignment that restores \<open>b\<close> is skipped.\<close>

definition localTransact ::
  "'t btree_ops \<Rightarrow> ('t localKV transaction \<Rightarrow> ('t localKV, 'a) call) \<Rightarrow> ('t localKV, 'a) call" where
  "localTransact bt fn l =
     (if l_locked l then (Blocked, l)
      else
        (let clone = bClone bt (l_b l) in
         case fn (localTransaction bt) (l\<lparr>l_locked := True\<rparr>) of
           (Ret a, l') \<Rightarrow> unlock (Ret a) l'
         | (Fail e, l') \<Rightarrow> unlock (Fail e) (l'\<lparr>l_b := clone\<rparr>)
         | (Panic p, l') \<Rightarrow> unlock (Panic p) l'
         | (Blocked, l') \<Rightarrow> (Blocked, l')))"

definition localUnsafeWipeAll :: "'t btree_ops \<Rightarrow> ('t localKV, unit) call" where
  "localUnsafeWipeAll bt l =
     (if l_locked l then (Blocked, l) else (Ret (), l\<lparr>l_b := bClear bt (l_b l)\<rparr>))"

definition localClose :: "('t localKV, unit) call" where
  "localClose l =
     (if l_locked l then (Blocked, l) else (Ret (), l\<lparr>l_closed := True\<rparr>))"

definition localStore :: "'t btree_ops \<Rightarrow> ('t localKV, 'a) store" where
  "localStore bt =
     \<lparr>kBeginTransaction = localBeginTransaction bt, kTransact = localTransact bt,
      kClose = localClose, kUnsafeWipeAll = localUnsafeWipeAll bt\<rparr>"

subsection \<open>The scan\<close>

lemma ascendLoop_takeWhile:
  "ascendLoop prfx fn kvs acc = iterCallback fn (takeWhile (\<lambda>(k, v). prefix prfx k) kvs) acc"
proof (induction kvs arbitrary: acc)
  case (Cons kv kvs)
  obtain k v where "kv = (k, v)" by force
  then show ?case using Cons by (cases "fn k v acc") auto
qed simp

text \<open>
  The scan from a prefix on stops at the first key without the prefix; as the keys with a prefix
  are an interval of the order, it stops behind the last of them.
\<close>

lemma takeWhile_prefix:
  "sorted_wrt (<) (map fst kvs) \<Longrightarrow> \<forall>kv \<in> set kvs. p \<le> fst kv \<Longrightarrow>
     takeWhile (\<lambda>(k, v). prefix p k) kvs = filter (\<lambda>(k, v). prefix p k) (kvs :: btreeKV list)"
proof (induction kvs)
  case (Cons kv kvs)
  obtain k v where kv: "kv = (k, v)" by force
  show ?case
  proof (cases "prefix p k")
    case True
    with Cons kv show ?thesis by simp
  next
    case False
    have "\<not> prefix p k'" if "(k', v') \<in> set kvs" for k' v'
    proof
      assume "prefix p k'"
      moreover have "k \<le> k'" using Cons.prems(1) that kv by force
      moreover have "p \<le> k" using Cons.prems(2) kv by simp
      ultimately have "prefix p k" using prefix_convex [of p p k' k] by simp
      with False show False by simp
    qed
    then have "filter (\<lambda>(k, v). prefix p k) kvs = []" by (auto simp: filter_empty_conv)
    with False kv show ?thesis by simp
  qed
qed simp

lemma concat_singletons [simp]: "concat (map (\<lambda>(k, v). [(k, v)]) xs) = xs"
  by (induction xs) auto

lemma localIterPrefix_collect:
  "localIterPrefix bt prfx fn acc l =
     andThen (localIterPrefix bt prfx (\<lambda>k v acc. Ret (acc @ [(k, v)])) [])
       (\<lambda>kvs s. (iterCallback fn kvs acc, s)) l"
  by (simp add: localIterPrefix_def andThen_def ascendLoop_takeWhile iterCallback_collect)

subsection \<open>The contract of the B-tree\<close>

text \<open>
  \<open>m\<close> is the map that a tree holds. \<open>AscendGreaterOrEqual\<close> visits the items from the pivot on in
  order; a clone holds the same items and is independent of the original.
\<close>

locale btree_contract =
  fixes bt :: "'t btree_ops"
    and m :: "'t \<Rightarrow> bytes \<rightharpoonup> bytes"
    and tinv :: "'t \<Rightarrow> bool"
  assumes new: "tinv (bNewG bt) \<and> m (bNewG bt) = Map.empty"
    and insert: "tinv b \<Longrightarrow> tinv (bReplaceOrInsert bt (k, v) b) \<and> m (bReplaceOrInsert bt (k, v) b) = (m b)(k \<mapsto> v)"
    and lookup: "tinv b \<Longrightarrow> bGet bt k b = map_option (Pair k) (m b k)"
    and ascend: "tinv b \<Longrightarrow> sorted_wrt (<) (map fst (bAscendGreaterOrEqual bt p b))
      \<and> (\<forall>k v. (k, v) \<in> set (bAscendGreaterOrEqual bt p b) \<longleftrightarrow> p \<le> k \<and> m b k = Some v)"
    and clone: "tinv b \<Longrightarrow> tinv (bClone bt b) \<and> m (bClone bt b) = m b"
    and clear: "tinv b \<Longrightarrow> tinv (bClear bt b) \<and> m (bClear bt b) = Map.empty"
begin

lemma ascend_scan:
  assumes "tinv b"
  shows "scan p (m b) (takeWhile (\<lambda>(k, v). prefix p k) (bAscendGreaterOrEqual bt p b))"
proof -
  let ?kvs = "bAscendGreaterOrEqual bt p b"
  have "takeWhile (\<lambda>(k, v). prefix p k) ?kvs = filter (\<lambda>(k, v). prefix p k) ?kvs"
    using ascend [OF assms, of p] by (intro takeWhile_prefix) auto
  moreover have "sorted_wrt (<) (map fst (filter P ?kvs))" for P
    using ascend [OF assms, of p] by (simp add: sorted_wrt_map sorted_wrt_filter)
  ultimately show ?thesis
    using ascend [OF assms, of p] prefix_le unfolding scan_def by auto
qed

end

text \<open>The states of the store between and inside transactions.\<close>

definition localBase :: "('t \<Rightarrow> bool) \<Rightarrow> 't localKV \<Rightarrow> bool" where
  "localBase tinv l \<longleftrightarrow> \<not> l_closed l \<and> tinv (l_b l) \<and> mono (l_clock l) \<and> l_t l \<le> l_clock l (l_reads l)
     \<and> (\<forall>c. l_trClone l = Some c \<longrightarrow> tinv c)"

definition localIdle :: "('t \<Rightarrow> bool) \<Rightarrow> 't localKV \<Rightarrow> bool" where
  "localIdle tinv l \<longleftrightarrow> localBase tinv l \<and> \<not> l_locked l"

definition localBusy :: "('t \<Rightarrow> bool) \<Rightarrow> 't localKV \<Rightarrow> bool" where
  "localBusy tinv l \<longleftrightarrow> localBase tinv l \<and> l_locked l"

definition localStamp :: "'t localKV \<Rightarrow> int" where
  "localStamp l = microseconds (durationSub (l_clock l (l_reads l)) (l_t l))"

definition localTick :: "'t localKV \<Rightarrow> 't localKV" where
  "localTick l = l\<lparr>l_reads := l_reads l + 1\<rparr>"

definition localUpd :: "'t btree_ops \<Rightarrow> bytes \<Rightarrow> bytes \<Rightarrow> 't localKV \<Rightarrow> 't localKV" where
  "localUpd bt k v l = l\<lparr>l_b := bReplaceOrInsert bt (k, v) (l_b l)\<rparr>"

lemmas local_state_defs = localBase_def localIdle_def localBusy_def localStamp_def localTick_def localUpd_def
  localPut_def localGet_def localIterPrefix_def localGetVersionStamp_def localCommit_def localCancel_def
  localTransact_def localBeginTransaction_def unlock_def

lemma mono_Suc: "mono (f :: nat \<Rightarrow> int) \<Longrightarrow> f n \<le> f (Suc n)"
  by (simp add: monoD)

lemma microseconds_mono: "a \<le> b \<Longrightarrow> microseconds a \<le> microseconds b"
  by (auto simp: microseconds_def intro: zdiv_mono1)
    (smt (verit) div_int_pos_iff zdiv_mono1)

lemma stamp_bounds:
  assumes "t \<le> now"
  shows "0 \<le> microseconds (durationSub now t) \<and> microseconds (durationSub now t) * 1000 < 2 ^ 63"
proof -
  define d where "d = durationSub now t"
  have d: "0 \<le> d" "d < 2 ^ 63" using assms by (auto simp: d_def durationSub_def)
  have "d div 1000 * 1000 \<le> d" by simp
  with d show ?thesis unfolding d_def [symmetric] microseconds_def by simp
qed

context btree_contract
begin

lemma local_contract:
  "kv_open_transactions (localStore bt) (localTransaction bt) (localIdle tinv) (localBusy tinv)
     (\<lambda>l. m (l_b l)) localStamp (localUpd bt) localTick
     (\<lambda>l. l\<lparr>l_locked := True\<rparr>) (\<lambda>l. l\<lparr>l_locked := False\<rparr>) (\<lambda>l l'. l'\<lparr>l_locked := False, l_b := bClone bt (l_b l)\<rparr>)
     (\<lambda>l. l\<lparr>l_locked := True, l_trClone := Some (bClone bt (l_b l))\<rparr>)
     (\<lambda>l. map_option m (l_trClone l))
     (\<lambda>l. l\<lparr>l_locked := False, l_trClone := None\<rparr>)
     (\<lambda>l. l\<lparr>l_locked := False, l_b := the (l_trClone l), l_trClone := None\<rparr>)"
proof (unfold_locales, goal_cases)
  case (3 s p)
  then show ?case
    using ascend_scan [of "l_b s" p]
    by (simp add: local_state_defs localTransaction_def ascendLoop_takeWhile iterCallback_collect)
next
  case (16 s)
  then show ?case by (auto simp only: localBusy_def localBase_def localStamp_def stamp_bounds)
next
  case (17 s)
  then have "l_clock s (l_reads s) \<le> l_clock s (Suc (l_reads s))"
    by (simp add: localBusy_def localBase_def mono_Suc)
  then show ?case
    by (auto simp: localStamp_def localTick_def durationSub_def intro!: microseconds_mono)
qed (auto simp: local_state_defs localStore_def localTransaction_def insert lookup clone
    stamp_bounds mono_Suc order_trans split: prod.splits outcome.splits option.splits
    intro!: microseconds_mono)

end

sublocale btree_contract \<subseteq> local: kv_open_transactions "localStore bt" "localTransaction bt" "localIdle tinv" "localBusy tinv"
     "\<lambda>l. m (l_b l)" localStamp "localUpd bt" localTick
     "\<lambda>l. l\<lparr>l_locked := True\<rparr>" "\<lambda>l. l\<lparr>l_locked := False\<rparr>" "\<lambda>l l'. l'\<lparr>l_locked := False, l_b := bClone bt (l_b l)\<rparr>"
     "\<lambda>l. l\<lparr>l_locked := True, l_trClone := Some (bClone bt (l_b l))\<rparr>"
     "\<lambda>l. map_option m (l_trClone l)"
     "\<lambda>l. l\<lparr>l_locked := False, l_trClone := None\<rparr>"
     "\<lambda>l. l\<lparr>l_locked := False, l_b := the (l_trClone l), l_trClone := None\<rparr>"
  by (rule local_contract)

subsection \<open>A B-tree\<close>

text \<open>Red-black trees satisfy the contract of the B-tree; the interpretation makes the store concrete.\<close>

type_synonym tree = "(bytes, bytes) rbt"

definition rbtOps :: "tree btree_ops" where
  "rbtOps =
     \<lparr>bNewG = RBT.empty, bReplaceOrInsert = (\<lambda>(k, v). RBT.insert k v),
      bGet = (\<lambda>k t. map_option (Pair k) (RBT.lookup t k)),
      bAscendGreaterOrEqual = (\<lambda>p t. filter (\<lambda>(k, v). p \<le> k) (RBT.entries t)),
      bClone = (\<lambda>t. t), bClear = (\<lambda>t. RBT.empty)\<rparr>"

lemma rbt_ascend:
  "sorted_wrt (<) (map fst (filter (\<lambda>(k, v). p \<le> k) (RBT.entries t)))
   \<and> (\<forall>k v. (k, v) \<in> set (filter (\<lambda>(k, v). p \<le> k) (RBT.entries (t :: tree))) \<longleftrightarrow> p \<le> k \<and> RBT.lookup t k = Some v)"
proof -
  have "sorted_wrt (<) (map fst (RBT.entries t))"
    using RBT.sorted_entries [of t] RBT.distinct_entries [of t] by (simp add: strict_sorted_iff)
  then have "sorted_wrt (<) (map fst (filter P (RBT.entries t)))" for P
    by (simp add: sorted_wrt_map sorted_wrt_filter)
  moreover have "(k, v) \<in> set (RBT.entries t) \<longleftrightarrow> RBT.lookup t k = Some v" for k v
    by (simp add: lookup_in_tree)
  ultimately show ?thesis by auto
qed

interpretation rb: btree_contract rbtOps RBT.lookup "\<lambda>_. True"
  by unfold_locales (auto simp: rbtOps_def rbt_ascend lookup_in_tree)

subsection \<open>Properties\<close>

text \<open>
  \<^bold>\<open>C35\<close> (atomic transactions). With any B-tree that keeps its contract: a transaction that is begun
  on an idle store and puts any sequence of pairs leaves exactly these pairs if it is committed, and
  the store as it was if it is cancelled; after both the store is idle again.
\<close>

theorem local_transaction_atomic:
  assumes "btree_contract bt m tinv" "localIdle tinv l"
  shows "\<exists>l1 l2. localBeginTransaction bt l = (Ret (localTransaction bt), l1)
    \<and> puts (localTransaction bt) kvs l1 = (Ret (), l2)
    \<and> (\<exists>l3. localCommit l2 = (Ret (), l3) \<and> localIdle tinv l3 \<and> m (l_b l3) = updAll kvs (m (l_b l)))
    \<and> (\<exists>l3. localCancel l2 = (Ret (), l3) \<and> localIdle tinv l3 \<and> m (l_b l3) = m (l_b l))"
proof -
  let ?tr = "localTransaction bt"
  note atomic = kv_open_transactions.open_transaction_atomic
    [OF btree_contract.local_contract [OF assms(1)] assms(2), of kvs]
  obtain l1 l2 where "kBeginTransaction (localStore bt :: ('a localKV, unit) store) l = (Ret ?tr, l1)"
    and 2: "puts ?tr kvs l1 = (Ret (), l2)"
    and 3: "\<exists>l3. tCommit ?tr l2 = (Ret (), l3) \<and> localIdle tinv l3 \<and> m (l_b l3) = updAll kvs (m (l_b l))"
    and 4: "\<exists>l3. tCancel ?tr l2 = (Ret (), l3) \<and> localIdle tinv l3 \<and> m (l_b l3) = m (l_b l)"
    by (rule atomic)
  then have 1: "localBeginTransaction bt l = (Ret ?tr, l1)" by (simp add: localStore_def)
  have "tCommit ?tr = localCommit" "tCancel ?tr = localCancel" by (simp_all add: localTransaction_def)
  with 1 2 3 4 show ?thesis by auto
qed

lemma rbt_contract: "btree_contract rbtOps RBT.lookup (\<lambda>_. True)"
  by (rule rb.btree_contract_axioms)

lemma newLocalKV_idle:
  "btree_contract bt m tinv \<Longrightarrow> mono clock \<Longrightarrow> localIdle tinv (newLocalKV bt clock)"
  by (auto simp: local_state_defs newLocalKV_def btree_contract.new monoD)

theorem local_transaction_atomic_witness:
  "\<exists>l1 l2. localBeginTransaction rbtOps (newLocalKV rbtOps int) = (Ret (localTransaction rbtOps), l1)
    \<and> puts (localTransaction rbtOps) [([1], [2])] l1 = (Ret (), l2)
    \<and> (\<exists>l3. localCommit l2 = (Ret (), l3) \<and> localIdle (\<lambda>_. True) l3
         \<and> RBT.lookup (l_b l3) = updAll [([1], [2])] (RBT.lookup (l_b (newLocalKV rbtOps int))))
    \<and> (\<exists>l3. localCancel l2 = (Ret (), l3) \<and> localIdle (\<lambda>_. True) l3
         \<and> RBT.lookup (l_b l3) = RBT.lookup (l_b (newLocalKV rbtOps int)))"
  by (rule local_transaction_atomic [OF rbt_contract newLocalKV_idle [OF rbt_contract]])
    (simp add: mono_def)

text \<open>
  Exact scans. With any B-tree that keeps its contract, \<open>IterPrefix\<close> runs its callback on
  exactly the pairs of the store whose key has the prefix, in key order, and changes nothing.
\<close>

lemma localIterPrefix_scan:
  assumes "btree_contract bt m tinv" "localBusy tinv l"
  shows "\<exists>kvs. localIterPrefix bt p fn acc l = (iterCallback fn kvs acc, l) \<and> scan p (m (l_b l)) kvs"
  using assms btree_contract.ascend_scan [OF assms(1), of "l_b l" p]
  by (auto simp: localIterPrefix_def ascendLoop_takeWhile localBusy_def localBase_def)

text \<open>
  Failed and panicking functions. A transaction function that fails leaves no trace in the
  store. One that panics after a put leaves the put in place: the deferred unlock runs, the
  restoring of the clone does not.
\<close>

lemma localTransact_rollback:
  assumes "btree_contract bt m tinv" "localIdle tinv l"
  shows "(\<exists>l'. localTransact bt (\<lambda>tr. andThen (puts tr kvs) (\<lambda>_. fail e)) l = (Fail e, l')
            \<and> localIdle tinv l' \<and> m (l_b l') = m (l_b l))
       \<and> (\<exists>l'. localTransact bt (\<lambda>tr. andThen (puts tr kvs) (\<lambda>_. panic p)) l = (Panic p, l')
            \<and> localIdle tinv l' \<and> m (l_b l') = updAll kvs (m (l_b l)))"
proof -
  note kv = kv_open_transactions.axioms(1) [OF btree_contract.local_contract [OF assms(1)]]
  let ?l = "l\<lparr>l_locked := True\<rparr>"
  have busy: "localBusy tinv ?l" using assms(2) by (simp add: localBusy_def localIdle_def localBase_def)
  then obtain l2 where l2: "puts (localTransaction bt) kvs ?l = (Ret (), l2)" "localBusy tinv l2"
    "m (l_b l2) = updAll kvs (m (l_b l))"
    using kv_store.puts_updAll [OF kv busy, of kvs] by auto
  then show ?thesis
    using assms btree_contract.clone [OF assms(1), of "l_b l"]
    by (auto simp: localTransact_def andThen_def unlock_def localBusy_def localIdle_def localBase_def)
qed

text \<open>
  An open transaction holds the mutex. Between \<open>BeginTransaction\<close> and the commit or
  cancellation every other use of the store blocks: another transaction, a transaction function,
  a wipe and a close.
\<close>

lemma local_open_blocks:
  assumes "localBeginTransaction bt l = (Ret tr, l1)"
  shows "localBeginTransaction bt l1 = (Blocked, l1) \<and> localTransact bt fn l1 = (Blocked, l1)
    \<and> localUnsafeWipeAll bt l1 = (Blocked, l1) \<and> localClose l1 = (Blocked, l1)"
  using assms
  by (auto simp: localBeginTransaction_def localTransact_def localUnsafeWipeAll_def localClose_def
      split: if_splits)

end
