(* ===== verification/Local_Registry.thy ===== *)
theory Local_Registry
  imports Registry_History Local_KV
begin

section \<open>The registry on the in-memory store: \<open>virtual/registry/localregistry/local_registry.go\<close>\<close>

text \<open>
  The contract of the registry is interpreted on \<open>localKV\<close>, for every B-tree that keeps its own
  contract. The properties are about the whole stack: validation, registry, tuple keys, JSON,
  transactions and B-tree.
\<close>

definition NewLocalRegistry :: "'t btree_ops \<Rightarrow> 't localKV registry" where
  "NewLocalRegistry bt = NewKVRegistry (localStore bt)"

sublocale btree_contract \<subseteq> reg: registry_open "localStore bt" "localTransaction bt" "localIdle tinv" "localBusy tinv"
     "\<lambda>l. m (l_b l)" localStamp "localUpd bt" localTick
     "\<lambda>l. l\<lparr>l_locked := True\<rparr>" "\<lambda>l. l\<lparr>l_locked := False\<rparr>" "\<lambda>l l'. l'\<lparr>l_locked := False, l_b := bClone bt (l_b l)\<rparr>"
     "\<lambda>l. l\<lparr>l_locked := True, l_trClone := Some (bClone bt (l_b l))\<rparr>"
     "\<lambda>l. map_option m (l_trClone l)"
     "\<lambda>l. l\<lparr>l_locked := False, l_trClone := None\<rparr>"
     "\<lambda>l. l\<lparr>l_locked := False, l_b := the (l_trClone l), l_trClone := None\<rparr>"
  by unfold_locales

text \<open>The store is idle and holds the abstract state \<open>A\<close>.\<close>

definition localHolds :: "('t \<Rightarrow> bytes \<rightharpoonup> bytes) \<Rightarrow> ('t \<Rightarrow> bool) \<Rightarrow> 't localKV \<Rightarrow> regState \<Rightarrow> bool" where
  "localHolds m tinv l A \<longleftrightarrow> localIdle tinv l \<and> represents (m (l_b l)) A \<and> wfState (localStamp l) A"

lemma newLocalKV_holds:
  assumes "btree_contract bt m tinv" "mono clock"
  shows "localHolds m tinv (newLocalKV bt clock) emptyRegistry"
  using newLocalKV_idle [OF assms] btree_contract.new [OF assms(1)] represents_empty
  by (simp add: localHolds_def newLocalKV_def wfState_def emptyRegistry_def)

context btree_contract
begin

lemma reg_holds: "reg.holds l A \<longleftrightarrow> localHolds m tinv l A"
  by (simp add: reg.holds_def localHolds_def)

end

subsection \<open>The whole stack\<close>

context btree_contract
begin

lemma reg_good: "reg.good l A \<longleftrightarrow> localHolds m tinv l A \<and> regInv (localStamp l) A"
  by (simp add: reg.good_def reg_holds)

lemma local_call:
  assumes "localHolds m tinv l A" "regInv (localStamp l) A" "okCall c"
  shows "\<exists>r l' A'. runCall (NewLocalRegistry bt) c l = (r, l') \<and> answered r \<and> localHolds m tinv l' A'
    \<and> regInv (localStamp l') A'"
  using reg.good_call [of l A c] assms unfolding reg_good NewLocalRegistry_def by (metis surj_pair)

lemma local_runs:
  assumes "runs (NewLocalRegistry bt) l l'" "localHolds m tinv l A" "regInv (localStamp l) A"
  shows "\<exists>A'. localHolds m tinv l' A' \<and> regInv (localStamp l') A'"
  using reg.good_runs [of l l' A] assms unfolding reg_good NewLocalRegistry_def by blast

lemma local_empty_inv:
  assumes "localHolds m tinv l emptyRegistry"
  shows "regInv (localStamp l) emptyRegistry"
proof -
  have "0 \<le> localStamp l \<and> localStamp l * 1000 < 2 ^ 63"
    using assms stamp_bounds [of "l_t l" "l_clock l (l_reads l)"] by (auto simp: localHolds_def local_state_defs)
  with assms show ?thesis by (simp add: regInv_def localHolds_def versionsOk_def activationsKnown_def emptyRegistry_def)
qed

lemma local_wipe:
  assumes "localHolds m tinv l A"
  shows "\<exists>l'. rUnsafeWipeAll (NewLocalRegistry bt) l = (Ret (), l') \<and> localHolds m tinv l' emptyRegistry"
  using assms clear [of "l_b l"] represents_empty
  by (simp add: NewLocalRegistry_def registry_simps kvUnsafeWipeAll_def localStore_def localUnsafeWipeAll_def localHolds_def local_state_defs
      wfState_def emptyRegistry_def)

lemma local_wipedRuns:
  assumes "wipedRuns (NewLocalRegistry bt) l l'" "localHolds m tinv l A" "regInv (localStamp l) A"
  shows "\<exists>A'. localHolds m tinv l' A' \<and> regInv (localStamp l') A'"
  using assms
proof (induction rule: wipedRuns.induct)
  case (wiped_call s s' c r s'')
  then show ?case using local_call by (metis prod.inject)
next
  case (wiped_wipe s s' r s'')
  then obtain A' where "localHolds m tinv s' A'" by blast
  from local_wipe [OF this] wiped_wipe(2) local_empty_inv show ?case by auto
qed blast

lemma local_token:
  assumes "localHolds m tinv l1 A" "regInv (localStamp l1) A" "sid \<noteq> []"
    and "runs (NewLocalRegistry bt) l1 l2" "runs (NewLocalRegistry bt) l2 l3"
    and "\<exists>tr. fst (rBeginTransaction (NewLocalRegistry bt) ns a mid sid ver l1) = Ret tr"
    and "\<exists>e. fst (rBeginTransaction (NewLocalRegistry bt) ns a mid sid ver l2) = Fail e"
  shows "\<exists>e. fst (rBeginTransaction (NewLocalRegistry bt) ns a mid sid ver l3) = Fail e"
  using reg.token_never_returns [of l1 A l2 l3 sid ns a mid ver] assms
  unfolding reg_good NewLocalRegistry_def by blast

lemma local_module_roundtrip:
  assumes h: "localHolds m tinv l A" and new: "a_modules A (ns, mid) = None"
    and ok: "okNs ns" "okId mid" "validId ns" "validId mid"
    and b: "case b of None \<Rightarrow> AllowEmptyModuleBytes opts
            | Some bs \<Rightarrow> (bs \<noteq> [] \<or> AllowEmptyModuleBytes opts) \<and> length bs \<le> 2 ^ 22"
  shows "\<exists>l1 l2 A'. rRegisterModule (NewLocalRegistry bt) ns mid b opts l = (Ret (), l1)
    \<and> rGetModule (NewLocalRegistry bt) ns mid l1 = (Ret (b, opts), l2) \<and> localHolds m tinv l2 A'
    \<and> A' = A\<lparr>a_modules := (a_modules A)((ns, mid) \<mapsto> \<lparr>rm_Bytes = b, rm_Opts = opts\<rparr>)\<rparr>"
proof -
  let ?rm = "\<lparr>rm_Bytes = b, rm_Opts = opts\<rparr>"
  have len: "length (marshalModule ?rm) < 2 ^ 63" using length_marshalModule [of ?rm] b by (auto split: option.splits)
  obtain l1 where l1: "RegisterModule (localStore bt) ns mid b opts l = (Ret (), l1)"
    "reg.holds l1 (A\<lparr>a_modules := (a_modules A)((ns, mid) \<mapsto> ?rm)\<rparr>)"
    using reg.RegisterModule_refines [of l A ns mid ?rm] h ok(1,2) len new by (auto simp: reg_holds aRegisterModule_def)
  obtain l2 where l2: "GetModule (localStore bt) ns mid l1 = (Ret (b, opts), l2)"
    "reg.holds l2 (A\<lparr>a_modules := (a_modules A)((ns, mid) \<mapsto> ?rm)\<rparr>)"
    using reg.GetModule_refines [OF l1(2), of ns mid] by (auto simp: aGetModule_def)
  have "vRegisterModule (kvRegistry (localStore bt)) ns mid b opts l = (Ret (), l1)"
    using l1(1) ok(3,4) b by (auto simp: vRegisterModule_def guard_id Let_def kvRegistry_def split: option.splits)
  moreover have "vGetModule (kvRegistry (localStore bt)) ns mid l1 = (Ret (b, opts), l2)"
    using l2(1) ok(3,4) by (simp add: vGetModule_def guard_id kvRegistry_def)
  ultimately show ?thesis using l2(2) by (simp add: NewLocalRegistry_def NewKVRegistry_def newValidatedRegistry_def reg_holds)
qed

lemma local_EnsureActivation:
  assumes "localHolds m tinv l A" "okNs ns" "validString mid" "validId ns" "validId a"
  shows "\<exists>r l' res A'. rEnsureActivation (NewLocalRegistry bt) ns a mid l = (r, l') \<and> agrees r res
    \<and> ensures (localStamp l) ns a mid A res A' \<and> localHolds m tinv l' A' \<and> localStamp l \<le> localStamp l'"
  using reg.EnsureActivation_refines [of l A ns mid a] assms
  by (simp add: reg_holds NewLocalRegistry_def registry_simps vEnsureActivation_def guard_id)

lemma local_Heartbeat:
  assumes "localHolds m tinv l A" "wfHeartbeat i hs" "validId i" "validId (hs_Address hs)"
  shows "\<exists>t0 t t' l'. rHeartbeat (NewLocalRegistry bt) i hs l
      = (Ret \<lparr>hr_VersionStamp = t', hr_HeartbeatTTL = 5000000, hr_ServerVersion = heartbeatVersion i t0 t A\<rparr>, l')
    \<and> localHolds m tinv l' (aHeartbeat i hs t0 t A)
    \<and> localStamp l \<le> t0 \<and> t0 \<le> t \<and> t \<le> t' \<and> t' \<le> localStamp l'"
  using reg.Heartbeat_refines [of l A i hs] assms
  by (simp add: reg_holds NewLocalRegistry_def registry_simps vHeartbeat_def guard_id)

lemma local_IncGeneration:
  assumes "localHolds m tinv l A" "validId ns" "validId a"
  shows "\<exists>r l'. rIncGeneration (NewLocalRegistry bt) ns a mid l = (r, l') \<and> agrees r (fst (aIncGeneration ns a mid A))
    \<and> localHolds m tinv l' (snd (aIncGeneration ns a mid A)) \<and> localStamp l \<le> localStamp l'"
  using reg.IncGeneration_refines [of l A ns a mid] assms
  by (simp add: reg_holds NewLocalRegistry_def registry_simps vIncGeneration_def guard_id)

lemma local_session:
  assumes "localHolds m tinv l A" "okNs ns" "validId ns" "fenced ns a mid sid ver A" "\<forall>kv \<in> set kvs. okKey (fst kv)"
  shows "\<exists>tr l1 l2. rBeginTransaction (NewLocalRegistry bt) ns a mid sid ver l = (Ret tr, l1)
    \<and> aPuts tr kvs l1 = (Ret (), l2)
    \<and> (\<forall>k. okKey k \<longrightarrow> aGet tr k l2 = (Ret (a_storage (storeAll ns a mid kvs A) (ns, a, mid, k)), l2))
    \<and> (\<exists>l3. aCommit tr l2 = (Ret (), l3) \<and> localHolds m tinv l3 (storeAll ns a mid kvs A))
    \<and> (\<exists>l3. aCancel tr l2 = (Ret (), l3) \<and> localHolds m tinv l3 A)"
proof -
  let ?k = "newKVTransaction ns a mid (localTransaction bt)" and ?R = "NewKVRegistry (localStore bt)"
  let ?tr = "kvValidator (kvTransactionOps ?k)"
  have h: "reg.holds l A" using assms(1) by (simp add: reg_holds)
  obtain l1 l2 where 1: "BeginTransaction (localStore bt) ns a mid sid ver l = (Ret ?k, l1)" "ktPuts ?k kvs l1 = (Ret (), l2)"
    "\<forall>k. ktGet ?k k l2 = (Ret (a_storage (storeAll ns a mid kvs A) (ns, a, mid, k)), l2)"
    "\<exists>s3. ktCommit ?k l2 = (Ret (), s3) \<and> reg.holds s3 (storeAll ns a mid kvs A)"
    "\<exists>s3. ktCancel ?k l2 = (Ret (), s3) \<and> reg.holds s3 A"
    using reg.actor_session [OF h assms(4,2), of kvs] by blast
  have "rBeginTransaction ?R ns a mid sid ver l = (Ret ?tr, l1)"
    using 1(1) assms(3) by (simp add: begin_validated andThen_def)
  moreover have "aPuts ?tr kvs l1 = (Ret (), l2)" using 1(2) by (simp add: aPuts_validated [OF assms(5)])
  moreover have "aGet ?tr k = ktGet ?k k" if "okKey k" for k
    using that by (auto simp: kvValidator_def kvTransactionOps_def okKey_def validateKey_def andThen_lift fun_eq_iff)
  moreover have "aCommit ?tr = ktCommit ?k" "aCancel ?tr = ktCancel ?k" by (simp_all add: kvValidator_def kvTransactionOps_def)
  ultimately show ?thesis using 1(3-5) unfolding NewLocalRegistry_def reg_holds by metis
qed

lemma local_begin_refuses:
  assumes "localHolds m tinv l A" "\<not> fenced ns a mid sid ver A"
  shows "\<exists>e. fst (rBeginTransaction (NewLocalRegistry bt) ns a mid sid ver l) = Fail e"
  using reg.begin_refuses [of l A ns a mid sid ver] assms by (simp add: reg_holds NewLocalRegistry_def)

end

subsection \<open>A small store\<close>

text \<open>
  Two servers and an actor that was activated on the first one, ten seconds after the store was
  opened. The parameters are the versions and the last heartbeats of the servers.
\<close>

definition sampleServer :: "string \<Rightarrow> int \<Rightarrow> int \<Rightarrow> serverState" where
  "sampleServer i v t =
     \<lparr>ss_ServerID = i, ss_LastHeartbeatedAt = t,
      ss_HeartbeatState = \<lparr>hs_NumActivatedActors = 1, hs_Address = ''h:9090''\<rparr>, ss_ServerVersion = v\<rparr>"

definition sampleActor :: registeredActor where
  "sampleActor = (newActor ActorOptions ''m'')\<lparr>ra_Activation := newActivation ''s1'' 1\<rparr>"

definition sampleState :: "int \<Rightarrow> int \<Rightarrow> int \<Rightarrow> int \<Rightarrow> regState" where
  "sampleState v1 t1 v2 t2 =
     emptyRegistry\<lparr>a_actors := [(''ns'', ''a'', ''m'') \<mapsto> sampleActor],
       a_servers := [''s1'' \<mapsto> sampleServer ''s1'' v1 t1, ''s2'' \<mapsto> sampleServer ''s2'' v2 t2]\<rparr>"

definition sampleKV :: "int \<Rightarrow> int \<Rightarrow> int \<Rightarrow> int \<Rightarrow> tree localKV" where
  "sampleKV v1 t1 v2 t2 =
     (newLocalKV rbtOps (\<lambda>n. if n = 0 then 0 else 10000000000))\<lparr>l_b :=
        RBT.insert (getServerKey ''s2'') (marshalServer (sampleServer ''s2'' v2 t2))
       (RBT.insert (getServerKey ''s1'') (marshalServer (sampleServer ''s1'' v1 t1))
       (RBT.insert (getActorKey ''ns'' ''a'' ''m'') (marshalActor sampleActor) RBT.empty))\<rparr>"

lemma sampleKV_stamp [simp]: "localStamp (sampleKV v1 t1 v2 t2) = 10000000"
  by (simp add: localStamp_def sampleKV_def newLocalKV_def microseconds_def durationSub_def)

lemma sample_okNs [simp]: "okNs ''ns''"
  by (simp add: okNs_def nulExt_def)

lemma sample_ids [simp]:
  "validId ''ns''" "validId ''a''" "validId ''m''" "validId ''s1''" "validId ''h:9090''"
  by (simp_all add: validId_def trimmed_def spaceRunes_def suffix_to_prefix upt_rec char_of_def)

lemma sample_strings [simp]:
  "validString ''m''" "validString ''s1''" "validString ''s2''" "validString ''h:9090''" "okId ''m''"
  by (rule validString_ascii, simp)+ (simp add: okId_def)

lemma sampleKV_holds:
  assumes "0 \<le> t1" "t1 \<le> 10000000" "0 \<le> t2" "t2 \<le> 10000000" "is_i64 v1" "is_i64 v2"
  shows "localHolds RBT.lookup (\<lambda>_. True) (sampleKV v1 t1 v2 t2) (sampleState v1 t1 v2 t2)"
proof -
  have "sampleState v1 t1 v2 t2 =
    (((emptyRegistry\<lparr>a_actors := (a_actors emptyRegistry)((''ns'', ''a'', ''m'') \<mapsto> sampleActor)\<rparr>)
       \<lparr>a_servers := (a_servers (emptyRegistry\<lparr>a_actors := (a_actors emptyRegistry)((''ns'', ''a'', ''m'') \<mapsto> sampleActor)\<rparr>))
         (''s1'' \<mapsto> sampleServer ''s1'' v1 t1)\<rparr>)
       \<lparr>a_servers := (a_servers (emptyRegistry\<lparr>a_actors := (a_actors emptyRegistry)((''ns'', ''a'', ''m'') \<mapsto> sampleActor),
          a_servers := (a_servers (emptyRegistry\<lparr>a_actors := (a_actors emptyRegistry)((''ns'', ''a'', ''m'') \<mapsto> sampleActor)\<rparr>))
         (''s1'' \<mapsto> sampleServer ''s1'' v1 t1)\<rparr>))(''s2'' \<mapsto> sampleServer ''s2'' v2 t2)\<rparr>)"
    by (simp add: sampleState_def emptyRegistry_def)
  moreover have "RBT.lookup (l_b (sampleKV v1 t1 v2 t2)) =
      ((Map.empty(getActorKey ''ns'' ''a'' ''m'' \<mapsto> marshalActor sampleActor))
       (getServerKey ''s1'' \<mapsto> marshalServer (sampleServer ''s1'' v1 t1)))
       (getServerKey ''s2'' \<mapsto> marshalServer (sampleServer ''s2'' v2 t2))"
    by (simp add: sampleKV_def)
  ultimately have "represents (RBT.lookup (l_b (sampleKV v1 t1 v2 t2))) (sampleState v1 t1 v2 t2)"
    by (simp only: represents_server represents_actor represents_empty)
  moreover have "wfState 10000000 (sampleState v1 t1 v2 t2)"
    using assms by (auto simp: wfState_def sampleState_def emptyRegistry_def sampleActor_def sampleServer_def newActor_def
        wfActor_def wfServer_def newActivation_def is_i64_def split: if_splits)
  moreover have "localIdle (\<lambda>_. True) (sampleKV v1 t1 v2 t2)"
    by (auto simp: localIdle_def localBase_def sampleKV_def newLocalKV_def mono_def)
  ultimately show ?thesis by (simp add: localHolds_def)
qed

lemma sampleKV_inv:
  assumes "0 \<le> t1" "t1 \<le> 10000000" "0 \<le> t2" "t2 \<le> 10000000" "1 \<le> v1" "(v1 - 1) * 5000000 \<le> t1" "v2 = 1"
  shows "localHolds RBT.lookup (\<lambda>_. True) (sampleKV v1 t1 v2 t2) (sampleState v1 t1 v2 t2)
    \<and> regInv (localStamp (sampleKV v1 t1 v2 t2)) (sampleState v1 t1 v2 t2)"
proof -
  have h: "localHolds RBT.lookup (\<lambda>_. True) (sampleKV v1 t1 v2 t2) (sampleState v1 t1 v2 t2)"
    using assms by (intro sampleKV_holds) (auto simp: is_i64_def)
  moreover have "versionsOk (sampleState v1 t1 v2 t2)"
    using assms by (auto simp: versionsOk_def sampleState_def sampleServer_def emptyRegistry_def split: if_splits)
  moreover have "activationsKnown (sampleState v1 t1 v2 t2)"
    using assms by (auto simp: activationsKnown_def sampleState_def sampleServer_def sampleActor_def newActivation_def
        emptyRegistry_def split: if_splits)
  ultimately show ?thesis by (simp add: regInv_def localHolds_def)
qed

lemma sample_fenced: "fenced ''ns'' ''a'' ''m'' ''s1'' 1 (sampleState v1 t1 v2 t2)"
  by (simp add: fenced_def sampleState_def sampleActor_def)

text \<open>The first server has not sent a heartbeat for ten seconds: the actor moves to the second one.\<close>

lemma sample_moves:
  obtains l2 where "runs (NewLocalRegistry rbtOps) (sampleKV 1 0 1 9000000) l2"
    "\<exists>e. fst (rBeginTransaction (NewLocalRegistry rbtOps) ''ns'' ''a'' ''m'' ''s1'' 1 l2) = Fail e"
proof -
  let ?A = "sampleState 1 0 1 9000000" and ?l = "sampleKV 1 0 1 9000000" and ?s2 = "sampleServer ''s2'' 1 9000000"
  have "localHolds RBT.lookup (\<lambda>_. True) ?l ?A" by (intro sampleKV_holds) (simp_all add: is_i64_def)
  from rb.local_EnsureActivation [OF this, of "''ns''" "''m''" "''a''"] obtain r l2 res A' where
    l2: "rEnsureActivation (NewLocalRegistry rbtOps) ''ns'' ''a'' ''m'' ?l = (r, l2)"
    "ensures 10000000 ''ns'' ''a'' ''m'' ?A res A'" "localHolds RBT.lookup (\<lambda>_. True) l2 A'"
    by auto
  have act: "actorFor ''ns'' ''a'' ''m'' ?A = Some sampleActor" "keptServer 10000000 sampleActor ?A = None"
    by (simp_all add: actorFor_def keptServer_def sampleState_def sampleServer_def sampleActor_def newActivation_def aliveAt_def)
  have least: "leastLoaded 10000000 ?A ss \<longleftrightarrow> ss = ?s2" for ss
    by (auto simp: leastLoaded_def sampleState_def sampleServer_def aliveAt_def split: if_splits)
  have ref: "\<exists>x. referenceTo ''ns'' ''a'' sampleActor ?s2 = Ret x"
    by (simp add: referenceTo_def sampleActor_def newActor_def sampleServer_def NewActorReference_def NewVirtualActorReference_def
        newVirtualActorReference_def)
  from l2(2) act least ref have "A' = setActor ''ns'' ''a'' ''m'' (activated sampleActor ?s2) ?A"
    by (auto simp: ensures_def)
  then have "\<not> fenced ''ns'' ''a'' ''m'' ''s1'' 1 A'"
    by (simp add: fenced_def setActor_def activated_def sampleServer_def newActivation_def)
  from rb.local_begin_refuses [OF l2(3) this]
  have "\<exists>e. fst (rBeginTransaction (NewLocalRegistry rbtOps) ''ns'' ''a'' ''m'' ''s1'' 1 l2) = Fail e" .
  moreover have "runs (NewLocalRegistry rbtOps) ?l l2"
    by (rule runs_step [OF runs_refl, of "EnsureActivationCall ''ns'' ''a'' ''m''" _ _ "fst (runCall (NewLocalRegistry rbtOps) (EnsureActivationCall ''ns'' ''a'' ''m'') ?l)"])
      (use l2(1) in \<open>cases r; simp add: andThen_def\<close>)+
  ultimately show ?thesis using that by blast
qed

subsection \<open>Properties\<close>

text \<open>
  \<^bold>\<open>C2\<close> (the registry never breaks). From a new store, after any sequence of complete calls, where \<open>UnsafeWipeAll\<close> is one, but not \<open>Close\<close>, and where
  a transaction is begun, used and finished before the next call (a store that is closed, or locked by an open transaction, is out of use), every further
  such call returns a result or an error: it does not panic (the version stamps never run backwards, no
  type assertion fails, no stored record fails to decode) and does not block. The store is left idle and holds
  a registry state in which every activation names a known server; after \<open>UnsafeWipeAll\<close> it is the empty one. The arguments are those that the code
  is written for (\<open>okCall\<close>): text that is stored as JSON is valid UTF-8, identifiers have no NUL character where they would collide, and the keys of a transaction are
  not empty and at most 1 KiB long.
\<close>

theorem registry_never_breaks:
  assumes "btree_contract bt m tinv" "mono clock" "wipedRuns (NewLocalRegistry bt) (newLocalKV bt clock) l" "okCall c"
  shows "(\<exists>r l' A'. runCall (NewLocalRegistry bt) c l = (r, l') \<and> answered r
      \<and> localHolds m tinv l' A' \<and> regInv (localStamp l') A')
    \<and> (\<exists>l'. rUnsafeWipeAll (NewLocalRegistry bt) l = (Ret (), l') \<and> localHolds m tinv l' emptyRegistry)"
proof -
  have h: "localHolds m tinv (newLocalKV bt clock) emptyRegistry" by (rule newLocalKV_holds [OF assms(1,2)])
  obtain A where A: "localHolds m tinv l A" "regInv (localStamp l) A"
    using btree_contract.local_wipedRuns [OF assms(1,3) h btree_contract.local_empty_inv [OF assms(1) h]] by blast
  from btree_contract.local_call [OF assms(1) A assms(4)] btree_contract.local_wipe [OF assms(1) A(1)]
  show ?thesis by blast
qed

theorem registry_never_breaks_witness:
  "(\<exists>r l' A'. runCall (NewLocalRegistry rbtOps) (EnsureActivationCall ''ns'' ''a'' ''m'') (newLocalKV rbtOps int) = (r, l')
     \<and> answered r \<and> localHolds RBT.lookup (\<lambda>_. True) l' A' \<and> regInv (localStamp l') A')
   \<and> (\<exists>l'. rUnsafeWipeAll (NewLocalRegistry rbtOps) (newLocalKV rbtOps int) = (Ret (), l') \<and> localHolds RBT.lookup (\<lambda>_. True) l' emptyRegistry)"
  by (rule registry_never_breaks [OF rbt_contract _ wiped_refl]) (simp_all add: mono_def)

text \<open>
  \<^bold>\<open>C1\<close> (a lost fencing token is lost for good). If a transaction of an actor is accepted for a server
  and its version, and later refused for the same pair (because the actor was activated elsewhere
  after the server's heartbeat had expired), it is refused at every later point, whatever calls
  come between and even if the server comes back: a server that has lost an actor can never again write
  to its storage under its old version. Server versions do not wrap around.
\<close>

theorem fencing_token_never_returns:
  assumes "btree_contract bt m tinv" "localHolds m tinv l1 A \<and> regInv (localStamp l1) A" "sid \<noteq> []"
    and "runs (NewLocalRegistry bt) l1 l2" "runs (NewLocalRegistry bt) l2 l3"
    and "\<exists>tr. fst (rBeginTransaction (NewLocalRegistry bt) ns a mid sid ver l1) = Ret tr"
    and "\<exists>e. fst (rBeginTransaction (NewLocalRegistry bt) ns a mid sid ver l2) = Fail e"
  shows "\<exists>e. fst (rBeginTransaction (NewLocalRegistry bt) ns a mid sid ver l3) = Fail e"
  using btree_contract.local_token [OF assms(1) _ _ assms(3-7)] assms(2) by blast

theorem fencing_token_never_returns_witness:
  "\<exists>l2. runs (NewLocalRegistry rbtOps) (sampleKV 1 0 1 9000000) l2
     \<and> (\<exists>tr. fst (rBeginTransaction (NewLocalRegistry rbtOps) ''ns'' ''a'' ''m'' ''s1'' 1 (sampleKV 1 0 1 9000000)) = Ret tr)
     \<and> (\<forall>l3. runs (NewLocalRegistry rbtOps) l2 l3 \<longrightarrow>
          (\<exists>e. fst (rBeginTransaction (NewLocalRegistry rbtOps) ''ns'' ''a'' ''m'' ''s1'' 1 l3) = Fail e))"
proof -
  have inv: "localHolds RBT.lookup (\<lambda>_. True) (sampleKV 1 0 1 9000000) (sampleState 1 0 1 9000000)
      \<and> regInv (localStamp (sampleKV 1 0 1 9000000)) (sampleState 1 0 1 9000000)"
    by (rule sampleKV_inv) simp_all
  have b: "\<exists>tr. fst (rBeginTransaction (NewLocalRegistry rbtOps) ''ns'' ''a'' ''m'' ''s1'' 1 (sampleKV 1 0 1 9000000)) = Ret tr"
    using rb.local_session [of "sampleKV 1 0 1 9000000" "sampleState 1 0 1 9000000" "''ns''" "''a''" "''m''" "''s1''" 1 "[]"]
      inv sample_fenced by auto
  obtain l2 where l2: "runs (NewLocalRegistry rbtOps) (sampleKV 1 0 1 9000000) l2"
    "\<exists>e. fst (rBeginTransaction (NewLocalRegistry rbtOps) ''ns'' ''a'' ''m'' ''s1'' 1 l2) = Fail e"
    by (rule sample_moves)
  with b fencing_token_never_returns [OF rbt_contract inv _ l2(1) _ b l2(2)] show ?thesis by auto
qed

text \<open>
  \<^bold>\<open>C28\<close> (modules). A module within the limits (up to 4 MiB, nil or empty bytes if the options allow
  it) that is registered under a free name is returned by \<open>GetModule\<close> byte for byte with its
  options, although it is stored as a JSON document in parts of 99999 bytes; nothing else in the registry changes.
\<close>

theorem registry_module_roundtrip:
  assumes "btree_contract bt m tinv" "localHolds m tinv l A" "a_modules A (ns, mid) = None"
    and "okNs ns" "okId mid" "validId ns" "validId mid"
    and "case b of None \<Rightarrow> AllowEmptyModuleBytes opts
         | Some bs \<Rightarrow> (bs \<noteq> [] \<or> AllowEmptyModuleBytes opts) \<and> length bs \<le> 2 ^ 22"
  shows "\<exists>l1 l2 A'. rRegisterModule (NewLocalRegistry bt) ns mid b opts l = (Ret (), l1)
    \<and> rGetModule (NewLocalRegistry bt) ns mid l1 = (Ret (b, opts), l2) \<and> localHolds m tinv l2 A'
    \<and> A' = A\<lparr>a_modules := (a_modules A)((ns, mid) \<mapsto> \<lparr>rm_Bytes = b, rm_Opts = opts\<rparr>)\<rparr>"
  by (rule btree_contract.local_module_roundtrip [OF assms])

theorem registry_module_roundtrip_witness:
  "\<exists>l1 l2 A'. rRegisterModule (NewLocalRegistry rbtOps) ''ns'' ''m'' (Some [1, 2]) \<lparr>AllowEmptyModuleBytes = False\<rparr> (newLocalKV rbtOps int) = (Ret (), l1)
    \<and> rGetModule (NewLocalRegistry rbtOps) ''ns'' ''m'' l1 = (Ret (Some [1, 2], \<lparr>AllowEmptyModuleBytes = False\<rparr>), l2)
    \<and> localHolds RBT.lookup (\<lambda>_. True) l2 A'
    \<and> A' = emptyRegistry\<lparr>a_modules := (a_modules emptyRegistry)((''ns'', ''m'') \<mapsto>
             \<lparr>rm_Bytes = Some [1, 2], rm_Opts = \<lparr>AllowEmptyModuleBytes = False\<rparr>\<rparr>)\<rparr>"
  by (rule registry_module_roundtrip [OF rbt_contract newLocalKV_holds [OF rbt_contract]])
    (simp_all add: mono_def emptyRegistry_def)

text \<open>
  \<^bold>\<open>C3\<close> (activations). \<open>EnsureActivation\<close> does what the abstract registry does at the version stamp it
  reads: it creates the actor if only its module is known, keeps the server of the activation as
  long as that server's heartbeat is less than five seconds old, and otherwise moves the activation to a live
  server with the fewest actors; without module or live server it returns an error and stores nothing.
\<close>

theorem EnsureActivation_spec:
  assumes "btree_contract bt m tinv" "localHolds m tinv l A" "okNs ns" "validString mid" "validId ns" "validId a"
  shows "\<exists>r l' res A'. rEnsureActivation (NewLocalRegistry bt) ns a mid l = (r, l') \<and> agrees r res
    \<and> ensures (localStamp l) ns a mid A res A' \<and> localHolds m tinv l' A' \<and> localStamp l \<le> localStamp l'"
  by (rule btree_contract.local_EnsureActivation [OF assms])

theorem EnsureActivation_spec_witness:
  "\<exists>r l' res A'. rEnsureActivation (NewLocalRegistry rbtOps) ''ns'' ''a'' ''m'' (sampleKV 1 0 1 9000000) = (r, l')
    \<and> agrees r res \<and> ensures (localStamp (sampleKV 1 0 1 9000000)) ''ns'' ''a'' ''m'' (sampleState 1 0 1 9000000) res A'
    \<and> localHolds RBT.lookup (\<lambda>_. True) l' A' \<and> localStamp (sampleKV 1 0 1 9000000) \<le> localStamp l'"
  by (rule EnsureActivation_spec [OF rbt_contract sampleKV_holds]) (simp_all add: is_i64_def)

text \<open>
  \<^bold>\<open>C29\<close> (heartbeats). A heartbeat stores the server's new state under a stamp \<open>t\<close> that it has read, with version 1
  for a new server, the same version if the last heartbeat is less than five seconds old, and the
  next version otherwise; it returns that version, the time to live in microseconds and a stamp
  that is not smaller than the stored one.
\<close>

theorem Heartbeat_spec:
  assumes "btree_contract bt m tinv" "localHolds m tinv l A" "wfHeartbeat i hs" "validId i" "validId (hs_Address hs)"
  shows "\<exists>t0 t t' l'. rHeartbeat (NewLocalRegistry bt) i hs l
      = (Ret \<lparr>hr_VersionStamp = t', hr_HeartbeatTTL = 5000000, hr_ServerVersion = heartbeatVersion i t0 t A\<rparr>, l')
    \<and> localHolds m tinv l' (aHeartbeat i hs t0 t A)
    \<and> localStamp l \<le> t0 \<and> t0 \<le> t \<and> t \<le> t' \<and> t' \<le> localStamp l'"
  by (rule btree_contract.local_Heartbeat [OF assms])

theorem Heartbeat_spec_witness:
  "\<exists>t0 t t' l'. rHeartbeat (NewLocalRegistry rbtOps) ''s1'' \<lparr>hs_NumActivatedActors = 3, hs_Address = ''h:9090''\<rparr> (sampleKV 1 0 1 0)
      = (Ret \<lparr>hr_VersionStamp = t', hr_HeartbeatTTL = 5000000, hr_ServerVersion = heartbeatVersion ''s1'' t0 t (sampleState 1 0 1 0)\<rparr>, l')
    \<and> localHolds RBT.lookup (\<lambda>_. True) l' (aHeartbeat ''s1'' \<lparr>hs_NumActivatedActors = 3, hs_Address = ''h:9090''\<rparr> t0 t (sampleState 1 0 1 0))
    \<and> localStamp (sampleKV 1 0 1 0) \<le> t0 \<and> t0 \<le> t \<and> t \<le> t' \<and> t' \<le> localStamp l'"
  by (rule Heartbeat_spec [OF rbt_contract sampleKV_holds]) (simp_all add: is_i64_def wfHeartbeat_def)

text \<open>
  \<^bold>\<open>C30\<close> (generations). After \<open>IncGeneration\<close> of a registered actor the next activation hands out
  references of the next generation (modulo \<open>2\<^sup>6\<^sup>4\<close>); storage, servers and modules are untouched.
\<close>

theorem IncGeneration_spec:
  assumes "btree_contract bt m tinv" "localHolds m tinv l A" "a_actors A (ns, a, mid) = Some ra"
    and "okNs ns" "validString mid" "validId ns" "validId a"
  shows "\<exists>l1 r l2 A1. rIncGeneration (NewLocalRegistry bt) ns a mid l = (Ret (), l1) \<and> localHolds m tinv l1 A1
    \<and> A1 = setActor ns a mid (ra\<lparr>ra_Generation := ra_Generation ra + 1\<rparr>) A
    \<and> rEnsureActivation (NewLocalRegistry bt) ns a mid l1 = (r, l2)
    \<and> (\<forall>ref. r = Ret [ref] \<longrightarrow> arGeneration ref = ra_Generation ra + 1)"
proof -
  let ?A = "setActor ns a mid (ra\<lparr>ra_Generation := ra_Generation ra + 1\<rparr>) A"
  obtain l1 where l1: "rIncGeneration (NewLocalRegistry bt) ns a mid l = (Ret (), l1)" "localHolds m tinv l1 ?A"
    using btree_contract.local_IncGeneration [OF assms(1,2,6,7), of mid] assms(3) by (auto simp: aIncGeneration_def)
  obtain r l2 res A' where l2: "rEnsureActivation (NewLocalRegistry bt) ns a mid l1 = (r, l2)" "agrees r res"
    "ensures (localStamp l1) ns a mid ?A res A'"
    using btree_contract.local_EnsureActivation [OF assms(1) l1(2) assms(4-7)] by blast
  have "arGeneration ref = ra_Generation ra + 1" if "r = Ret [ref]" for ref
  proof -
    have "res = Some [ref]" using l2(2) that by (auto simp: agrees_def split: option.splits)
    then show ?thesis
      using ensures_generation [of "localStamp l1" ns a mid ?A ref A'] l2(3) by (simp add: actorFor_def setActor_def)
  qed
  with l1 l2(1) show ?thesis by blast
qed

theorem IncGeneration_spec_witness:
  "\<exists>l1 r l2 A1. rIncGeneration (NewLocalRegistry rbtOps) ''ns'' ''a'' ''m'' (sampleKV 1 0 1 0) = (Ret (), l1)
    \<and> localHolds RBT.lookup (\<lambda>_. True) l1 A1
    \<and> A1 = setActor ''ns'' ''a'' ''m'' (sampleActor\<lparr>ra_Generation := ra_Generation sampleActor + 1\<rparr>) (sampleState 1 0 1 0)
    \<and> rEnsureActivation (NewLocalRegistry rbtOps) ''ns'' ''a'' ''m'' l1 = (r, l2)
    \<and> (\<forall>ref. r = Ret [ref] \<longrightarrow> arGeneration ref = ra_Generation sampleActor + 1)"
  by (rule IncGeneration_spec [OF rbt_contract sampleKV_holds]) (simp_all add: is_i64_def sampleState_def)

text \<open>
  \<^bold>\<open>C9\<close> (actor storage). A transaction under the fencing token of the stored activation is accepted;
  its gets see its own puts; a commit makes exactly these puts part of this actor's storage,
  and of no other actor's; a cancellation leaves everything as it was. Under any other token the
  transaction is refused.
\<close>

theorem actor_storage:
  assumes "btree_contract bt m tinv" "localHolds m tinv l A" "okNs ns" "validId ns" "\<forall>kv \<in> set kvs. okKey (fst kv)"
  shows "if fenced ns a mid sid ver A
    then \<exists>tr l1 l2 l3 l4 A'. rBeginTransaction (NewLocalRegistry bt) ns a mid sid ver l = (Ret tr, l1)
      \<and> aPuts tr kvs l1 = (Ret (), l2)
      \<and> (\<forall>k. okKey k \<longrightarrow> aGet tr k l2 = (Ret (a_storage A' (ns, a, mid, k)), l2))
      \<and> aCommit tr l2 = (Ret (), l3) \<and> localHolds m tinv l3 A'
      \<and> aCancel tr l2 = (Ret (), l4) \<and> localHolds m tinv l4 A
      \<and> A' = A\<lparr>a_storage := a_storage A'\<rparr>
      \<and> (\<forall>k. a_storage A' (ns, a, mid, k) = updAll kvs (\<lambda>k. a_storage A (ns, a, mid, k)) k)
      \<and> (\<forall>ns' a' mid' k. (ns', a', mid') \<noteq> (ns, a, mid) \<longrightarrow> a_storage A' (ns', a', mid', k) = a_storage A (ns', a', mid', k))
    else \<exists>e. fst (rBeginTransaction (NewLocalRegistry bt) ns a mid sid ver l) = Fail e"
proof (cases "fenced ns a mid sid ver A")
  case True
  obtain tr l1 l2 l3 l4 where "rBeginTransaction (NewLocalRegistry bt) ns a mid sid ver l = (Ret tr, l1)"
    "aPuts tr kvs l1 = (Ret (), l2)"
    "\<forall>k. okKey k \<longrightarrow> aGet tr k l2 = (Ret (a_storage (storeAll ns a mid kvs A) (ns, a, mid, k)), l2)"
    "aCommit tr l2 = (Ret (), l3)" "localHolds m tinv l3 (storeAll ns a mid kvs A)"
    "aCancel tr l2 = (Ret (), l4)" "localHolds m tinv l4 A"
    using btree_contract.local_session [OF assms(1-4) True assms(5)] by blast
  moreover have "storeAll ns a mid kvs A = A\<lparr>a_storage := a_storage (storeAll ns a mid kvs A)\<rparr>" by simp
  moreover have "\<forall>k. a_storage (storeAll ns a mid kvs A) (ns, a, mid, k) = updAll kvs (\<lambda>k. a_storage A (ns, a, mid, k)) k"
    using storeAll_own [of ns a mid kvs A] by (simp add: fun_eq_iff)
  moreover have "\<forall>ns' a' mid' k. (ns', a', mid') \<noteq> (ns, a, mid) \<longrightarrow>
      a_storage (storeAll ns a mid kvs A) (ns', a', mid', k) = a_storage A (ns', a', mid', k)"
    using storeAll_other by blast
  ultimately show ?thesis unfolding if_P [OF True] by blast
next
  case False
  then show ?thesis using btree_contract.local_begin_refuses [OF assms(1,2)] by simp
qed

theorem actor_storage_witness:
  "\<exists>tr l1 l2 l3 A'. rBeginTransaction (NewLocalRegistry rbtOps) ''ns'' ''a'' ''m'' ''s1'' 1 (sampleKV 1 0 1 0) = (Ret tr, l1)
     \<and> aPuts tr [([1], [2])] l1 = (Ret (), l2) \<and> aGet tr [1] l2 = (Ret (Some [2]), l2)
     \<and> aCommit tr l2 = (Ret (), l3) \<and> localHolds RBT.lookup (\<lambda>_. True) l3 A'"
proof -
  have h: "localHolds RBT.lookup (\<lambda>_. True) (sampleKV 1 0 1 0) (sampleState 1 0 1 0)"
    by (intro sampleKV_holds) (simp_all add: is_i64_def)
  have k: "okKey [1]" "\<forall>kv \<in> set [([1] :: bytes, [2] :: bytes)]. okKey (fst kv)" by (simp_all add: okKey_def)
  have ns: "okNs ''ns''" "validId ''ns''" by simp_all
  from actor_storage [OF rbt_contract h ns k(2), of "''a''" "''m''" "''s1''" 1] k(1) sample_fenced
  show ?thesis by (fastforce simp del: fun_upd_apply simp: fun_upd_same)
qed

text \<open>
  \<^bold>\<open>C10\<close> (a resumed server locks its actors out). An actor is activated on a server; the server's
  heartbeats lapse and resume, so that its version grows, before the actor is activated again. Then
  \<open>EnsureActivation\<close> keeps the activation and returns a reference with the new version, but the stored activation
  keeps the old one: every transaction under the returned reference is refused, and calling
  \<open>EnsureActivation\<close> again does not help while the server stays alive.
\<close>

theorem resumed_server_locked_out:
  assumes "btree_contract bt m tinv" "localHolds m tinv l A" "okNs ns" "validString mid" "validId ns" "validId a"
    and "a_actors A (ns, a, mid) = Some ra" "keptServer (localStamp l) ra A = Some ss"
    and "act_ServerVersion (ra_Activation ra) < ss_ServerVersion ss"
    and "referenceTo ns a ra ss = Ret ref"
  shows "\<exists>l'. rEnsureActivation (NewLocalRegistry bt) ns a mid l = (Ret [ref], l') \<and> localHolds m tinv l' A
    \<and> (\<exists>e. fst (rBeginTransaction (NewLocalRegistry bt) ns a mid (ar_serverID ref) (ar_serverVersion ref) l') = Fail e)"
proof -
  obtain r l' res A' where l': "rEnsureActivation (NewLocalRegistry bt) ns a mid l = (r, l')" "agrees r res"
    "ensures (localStamp l) ns a mid A res A'" "localHolds m tinv l' A'"
    using btree_contract.local_EnsureActivation [OF assms(1-6)] by blast
  from l'(3) assms(7,8,10) have "res = Some [ref]" "A' = A" by (simp_all add: ensures_def actorFor_def)
  moreover have "ar_serverVersion ref = ss_ServerVersion ss"
    using assms(10) by (auto simp: referenceTo_def NewActorReference_def split: outcome.splits if_splits)
  then have "\<not> fenced ns a mid (ar_serverID ref) (ar_serverVersion ref) A"
    using assms(7,9) by (auto simp: fenced_def newActivation_def)
  ultimately show ?thesis using l' btree_contract.local_begin_refuses [OF assms(1)] by auto
qed

theorem resumed_server_locked_out_witness:
  "\<exists>ref l'. rEnsureActivation (NewLocalRegistry rbtOps) ''ns'' ''a'' ''m'' (sampleKV 2 9000000 1 0) = (Ret [ref], l')
     \<and> (\<exists>e. fst (rBeginTransaction (NewLocalRegistry rbtOps) ''ns'' ''a'' ''m'' (ar_serverID ref) (ar_serverVersion ref) l') = Fail e)"
proof -
  let ?A = "sampleState 2 9000000 1 0" and ?l = "sampleKV 2 9000000 1 0" and ?s = "sampleServer ''s1'' 2 9000000"
  have h: "localHolds RBT.lookup (\<lambda>_. True) ?l ?A" by (intro sampleKV_holds) (simp_all add: is_i64_def)
  have ids: "okNs ''ns''" "validString ''m''" "validId ''ns''" "validId ''a''" by simp_all
  have act: "a_actors ?A (''ns'', ''a'', ''m'') = Some sampleActor" "keptServer (localStamp ?l) sampleActor ?A = Some ?s"
    "act_ServerVersion (ra_Activation sampleActor) < ss_ServerVersion ?s"
    by (simp_all add: sampleState_def keptServer_def sampleActor_def newActivation_def aliveAt_def sampleServer_def)
  obtain ref where "referenceTo ''ns'' ''a'' sampleActor ?s = Ret ref"
    by (simp add: referenceTo_def sampleActor_def newActor_def sampleServer_def NewActorReference_def NewVirtualActorReference_def
        newVirtualActorReference_def)
  from resumed_server_locked_out [OF rbt_contract h ids act this] show ?thesis by blast
qed

end
