(* ===== verification/Host_Capabilities.thy ===== *)
theory Host_Capabilities
  imports Local_Registry
begin

section \<open>What an actor can do: \<open>virtual/host_capabilities.go\<close>\<close>

text \<open>
  The transaction that every invocation of an actor runs in. It is lazy: the registry is not asked
  before the first get or put. The lazy transaction has a state of its own, beside the state \<open>'s\<close> of
  the registry, so that its operations are calls on pairs. \<open>ScheduleSelfTimer\<close> and \<open>InvokeActor\<close> of
  the host hand their arguments on to the activations and to the environment and are part of the
  theory \<open>Environment\<close>.
\<close>

subsection \<open>Lazy transactions\<close>

record 's lazyState =
  lz_once :: bool  \<comment> \<open>the \<open>sync.Once\<close> has run\<close>
  lz_tr :: "'s actorKVTransaction option"
  lz_err :: "goerr option"

definition freshLazy :: "'s lazyState" where
  "freshLazy = \<lparr>lz_once = False, lz_tr = None, lz_err = None\<rparr>"

record 's lazyActorTransaction =
  lt_store :: "'s registry"
  lt_getServerStateFn :: "'s \<Rightarrow> string \<times> int"
  lt_reference :: virtualRef

definition newLazyActorTransaction ::
  "'s registry \<Rightarrow> ('s \<Rightarrow> string \<times> int) \<Rightarrow> virtualRef \<Rightarrow> 's lazyActorTransaction" where
  "newLazyActorTransaction store getServerStateFn reference =
     \<lparr>lt_store = store, lt_getServerStateFn = getServerStateFn, lt_reference = reference\<rparr>"

definition checkErr :: "('s \<times> 's lazyState, unit) call" where
  "checkErr sz =
     (case lz_err (snd sz) of
        Some e \<Rightarrow> (Fail (wrap ''maybeInitTr: error beginning lazy transaction: %w'' e), sz)
      | None \<Rightarrow> (Ret (), sz))"

definition maybeInitTr :: "'s lazyActorTransaction \<Rightarrow> bool \<Rightarrow> ('s \<times> 's lazyState, unit) call" where
  "maybeInitTr l createIfNotExist sz =
     (let (s, z) = sz; z1 = z\<lparr>lz_once := True\<rparr> in
      if lz_once z then checkErr (s, z)
      else if \<not> createIfNotExist then checkErr (s, z1)
      else
        (let (serverID, serverVersion) = lt_getServerStateFn l s; ref = lt_reference l in
         case rBeginTransaction (lt_store l) (vr_namespace ref) (naid_ID (vrActorID ref)) (nid_ID (vrModuleID ref))
                serverID serverVersion s of
           (Ret tr, s') \<Rightarrow> checkErr (s', z1\<lparr>lz_tr := Some tr\<rparr>)
         | (Fail e, s') \<Rightarrow> checkErr (s', z1\<lparr>lz_err := Some e\<rparr>)
         | (Panic p, s') \<Rightarrow> (Panic p, (s', z1))
         | (Blocked, s') \<Rightarrow> (Blocked, (s', z1))))"

text \<open>A method call on \<open>l.tr\<close>: on the nil interface it is a panic.\<close>

definition onTr :: "('s actorKVTransaction \<Rightarrow> ('s, 'a) call) \<Rightarrow> ('s \<times> 's lazyState, 'a) call" where
  "onTr f sz =
     (case lz_tr (snd sz) of
        None \<Rightarrow> (Panic ''nil pointer dereference'', sz)
      | Some tr \<Rightarrow> (case f tr (fst sz) of (r, s') \<Rightarrow> (r, (s', snd sz))))"

definition lazyPut :: "'s lazyActorTransaction \<Rightarrow> bytes \<Rightarrow> bytes \<Rightarrow> ('s \<times> 's lazyState, unit) call" where
  "lazyPut l key value =
     andThen (onError (wrap ''lazyActorTransaction: Put: error initializing transaction: %w'') (maybeInitTr l True)) (\<lambda>_.
       onError (wrap ''lazyActorTransaction: Put: error calling Put: %w'') (onTr (\<lambda>tr. aPut tr key value)))"

definition lazyGet :: "'s lazyActorTransaction \<Rightarrow> bytes \<Rightarrow> ('s \<times> 's lazyState, bytes option) call" where
  "lazyGet l key =
     andThen (onError (wrap ''lazyActorTransaction: Put: error initializing transaction: %w'') (maybeInitTr l True)) (\<lambda>_.
       onError (wrap ''lazyActorTransaction: Get: error calling Get: %w'') (onTr (\<lambda>tr. aGet tr key)))"

definition lazyCommit :: "'s lazyActorTransaction \<Rightarrow> ('s \<times> 's lazyState, unit) call" where
  "lazyCommit l =
     andThen (onError (wrap ''[invariant violated] lazyActorTransaction: Commit: error initializing transaction: %w'')
                (maybeInitTr l False)) (\<lambda>_ sz.
       if lz_tr (snd sz) = None then (Ret (), sz)
       else onError (wrap ''lazyActorTransaction: Commit: error committing: %w'') (onTr aCommit) sz)"

definition lazyCancel :: "'s lazyActorTransaction \<Rightarrow> ('s \<times> 's lazyState, unit) call" where
  "lazyCancel l =
     andThen (onError (wrap ''[invariant violated] lazyActorTransaction: Cancel: error canceling transaction: %w'')
                (maybeInitTr l False)) (\<lambda>_ sz.
       if lz_tr (snd sz) = None then (Ret (), sz)
       else onError (wrap ''lazyActorTransaction: Cancel: error canceling: %w'') (onTr aCancel) sz)"

definition lazyOps :: "'s lazyActorTransaction \<Rightarrow> ('s \<times> 's lazyState) actorKVTransaction" where
  "lazyOps l = \<lparr>aPut = lazyPut l, aGet = lazyGet l, aCommit = lazyCommit l, aCancel = lazyCancel l\<rparr>"

subsection \<open>The host\<close>

record 's hostCapabilities =
  hc_reg :: "'s registry"
  hc_customHostFns :: "string \<rightharpoonup> (bytes \<Rightarrow> bytes outcome)"
  hc_reference :: virtualRef
  hc_getServerStateFn :: "'s \<Rightarrow> string \<times> int"

definition newHostCapabilities ::
  "'s registry \<Rightarrow> (string \<rightharpoonup> (bytes \<Rightarrow> bytes outcome)) \<Rightarrow> virtualRef \<Rightarrow> ('s \<Rightarrow> string \<times> int) \<Rightarrow> 's hostCapabilities" where
  "newHostCapabilities reg customHostFns reference getServerStateFn =
     \<lparr>hc_reg = reg, hc_customHostFns = customHostFns, hc_reference = reference, hc_getServerStateFn = getServerStateFn\<rparr>"

definition hostBeginTransaction :: "'s hostCapabilities \<Rightarrow> 's lazyActorTransaction" where
  "hostBeginTransaction h = newLazyActorTransaction (hc_reg h) (hc_getServerStateFn h) (hc_reference h)"

text \<open>
  \<open>Transact\<close>: the error of a cancellation is dropped; a panic of \<open>fn\<close> passes both the cancellation
  and the commit.
\<close>

definition hostTransact ::
  "'s hostCapabilities \<Rightarrow> (('s \<times> 's lazyState) actorKVTransaction \<Rightarrow> ('s \<times> 's lazyState, 'a) call) \<Rightarrow> ('s, 'a) call" where
  "hostTransact h fn s =
     (let l = newLazyActorTransaction (hc_reg h) (hc_getServerStateFn h) (hc_reference h); tr = lazyOps l in
      case fn tr (s, freshLazy) of
        (Ret result, sz) \<Rightarrow>
          (case aCommit tr sz of
             (Ret _, sz') \<Rightarrow> (Ret result, fst sz')
           | (Fail e, sz') \<Rightarrow> (Fail (wrap ''hostCapabilities: Transact: error commiting transaction: %w'' e), fst sz')
           | (Panic p, sz') \<Rightarrow> (Panic p, fst sz')
           | (Blocked, sz') \<Rightarrow> (Blocked, fst sz'))
      | (Fail e, sz) \<Rightarrow>
          (case aCancel tr sz of
             (Panic p, sz') \<Rightarrow> (Panic p, fst sz')
           | (Blocked, sz') \<Rightarrow> (Blocked, fst sz')
           | (_, sz') \<Rightarrow> (Fail (wrap ''hostCapabilities: Transact: %w'' e), fst sz'))
      | (Panic p, sz) \<Rightarrow> (Panic p, fst sz)
      | (Blocked, sz) \<Rightarrow> (Blocked, fst sz))"

definition hostCustomFn :: "'s hostCapabilities \<Rightarrow> string \<Rightarrow> bytes \<Rightarrow> bytes outcome" where
  "hostCustomFn h operation payload =
     (case hc_customHostFns h operation of
        Some customFn \<Rightarrow>
          (case customFn payload of
             Fail e \<Rightarrow> Fail (Wrapf ''error running custom host function: %s, err: %w'' [AStr operation] e)
           | r \<Rightarrow> r)
      | None \<Rightarrow> Fail (Errorf ''unknown host function: %s::%s::%s''
                       [AStr (vr_namespace (hc_reference h)), AStr operation, AStr (go_string payload)]))"

subsection \<open>Actor programs\<close>

text \<open>
  Any way an actor can use its transaction: a tree of puts and gets whose continuation depends on
  the results, errors included, and which ends with a value or an error. \<open>runProg\<close> runs it on a
  transaction; \<open>absProg\<close> is its meaning on the actor's storage, given whether the registry accepts
  the transaction and whether it has been used.
\<close>

datatype 'a actorProg =
    Return 'a
  | Raise goerr
  | PutThen bytes bytes "bool \<Rightarrow> 'a actorProg"
  | GetThen bytes "bytes option option \<Rightarrow> 'a actorProg"

primrec runProg :: "'a actorProg \<Rightarrow> 's actorKVTransaction \<Rightarrow> ('s, 'a) call" where
  "runProg (Return x) = (\<lambda>tr. ret x)"
| "runProg (Raise e) = (\<lambda>tr. fail e)"
| "runProg (PutThen k v c) = (\<lambda>tr s.
     case aPut tr k v s of
       (Ret _, s') \<Rightarrow> runProg (c True) tr s'
     | (Fail _, s') \<Rightarrow> runProg (c False) tr s'
     | (Panic p, s') \<Rightarrow> (Panic p, s')
     | (Blocked, s') \<Rightarrow> (Blocked, s'))"
| "runProg (GetThen k c) = (\<lambda>tr s.
     case aGet tr k s of
       (Ret v, s') \<Rightarrow> runProg (c (Some v)) tr s'
     | (Fail _, s') \<Rightarrow> runProg (c None) tr s'
     | (Panic p, s') \<Rightarrow> (Panic p, s')
     | (Blocked, s') \<Rightarrow> (Blocked, s'))"

primrec absProg :: "'a actorProg \<Rightarrow> bool \<Rightarrow> (bytes \<rightharpoonup> bytes) \<Rightarrow> 'a option \<times> (bytes \<rightharpoonup> bytes)" where
  "absProg (Return x) = (\<lambda>accepted m. (Some x, m))"
| "absProg (Raise e) = (\<lambda>accepted m. (None, m))"
| "absProg (PutThen k v c) = (\<lambda>accepted m.
     if accepted \<and> okKey k then absProg (c True) accepted (m(k \<mapsto> v)) else absProg (c False) accepted m)"
| "absProg (GetThen k c) = (\<lambda>accepted m.
     if accepted \<and> okKey k then absProg (c (Some (m k))) accepted m else absProg (c None) accepted m)"

definition usesStorage :: "'a actorProg \<Rightarrow> bool" where
  "usesStorage p \<longleftrightarrow> (case p of PutThen _ _ _ \<Rightarrow> True | GetThen _ _ \<Rightarrow> True | _ \<Rightarrow> False)"

text \<open>What \<open>Transact\<close> returns and stores.\<close>

definition setStorage :: "string \<Rightarrow> string \<Rightarrow> string \<Rightarrow> (bytes \<rightharpoonup> bytes) \<Rightarrow> regState \<Rightarrow> regState" where
  "setStorage ns a m st A = A\<lparr>a_storage := (\<lambda>(ns', a', m', k).
     if (ns', a', m') = (ns, a, m) then st k else a_storage A (ns', a', m', k))\<rparr>"

definition storageOf :: "string \<Rightarrow> string \<Rightarrow> string \<Rightarrow> regState \<Rightarrow> bytes \<rightharpoonup> bytes" where
  "storageOf ns a m A k = a_storage A (ns, a, m, k)"

definition absTransact :: "virtualRef \<Rightarrow> string \<Rightarrow> int \<Rightarrow> 'a actorProg \<Rightarrow> regState \<Rightarrow> 'a option \<times> regState" where
  "absTransact ref sid ver p A =
     (let ns = vr_namespace ref; a = vr_actorID ref; m = vr_moduleID ref; ok = validId ns \<and> fenced ns a m sid ver A in
      case absProg p ok (storageOf ns a m A) of
        (None, _) \<Rightarrow> (None, A)
      | (Some x, st) \<Rightarrow>
          if \<not> usesStorage p then (Some x, A)
          else if ok then (Some x, setStorage ns a m st A) else (None, A))"

lemma setStorage_same [simp]: "setStorage ns a m (storageOf ns a m A) A = A"
proof -
  have "(\<lambda>(ns', a', m', k). if (ns', a', m') = (ns, a, m) then storageOf ns a m A k else a_storage A (ns', a', m', k)) = a_storage A"
    by (auto simp: fun_eq_iff storageOf_def)
  then show ?thesis by (simp add: setStorage_def del: prod.inject)
qed

lemma setStorage_put:
  "(setStorage ns a m st A)\<lparr>a_storage := (a_storage (setStorage ns a m st A))((ns, a, m, k) \<mapsto> v)\<rparr> = setStorage ns a m (st(k \<mapsto> v)) A"
proof -
  have "(a_storage (setStorage ns a m st A))((ns, a, m, k) \<mapsto> v) = a_storage (setStorage ns a m (st(k \<mapsto> v)) A)"
    by (auto simp: setStorage_def fun_eq_iff)
  then show ?thesis by (simp add: setStorage_def)
qed

lemma setStorage_get: "a_storage (setStorage ns a m st A) (ns, a, m, k) = st k"
  by (simp add: setStorage_def)

subsection \<open>Programs in a transaction\<close>

context registry_open
begin

text \<open>The transaction that the registry hands out, and the lazy transaction once it has it.\<close>

definition actorTr :: "virtualRef \<Rightarrow> 's actorKVTransaction" where
  "actorTr ref = kvValidator (kvTransactionOps (newKVTransaction (vr_namespace ref) (vr_actorID ref) (vr_moduleID ref) tr))"

definition begun :: "virtualRef \<Rightarrow> 's lazyState" where
  "begun ref = \<lparr>lz_once = True, lz_tr = Some (actorTr ref), lz_err = None\<rparr>"

definition refused :: "goerr \<Rightarrow> 's lazyState" where
  "refused e = \<lparr>lz_once = True, lz_tr = None, lz_err = Some e\<rparr>"

lemma begun_tr [simp]: "lz_tr (begun ref) = Some (actorTr ref)"
  by (simp add: begun_def)

lemma init_begun: "maybeInitTr l c (s, begun ref) = (Ret (), (s, begun ref))"
  by (simp add: maybeInitTr_def checkErr_def begun_def)

lemma init_refused: "\<exists>e'. maybeInitTr l c (s, refused e) = (Fail e', (s, refused e))"
  by (simp add: maybeInitTr_def checkErr_def refused_def)

lemma validateKey_ok: "validateKey k = Ret () \<longleftrightarrow> okKey k" "\<not> okKey k \<Longrightarrow> \<exists>e. validateKey k = Fail e"
  by (auto simp: validateKey_def okKey_def)

lemma begun_put:
  assumes i: "inside s (setStorage ns a m kv A)" "okNs ns" "snapshot s = Some c"
    and ref: "ns = vr_namespace ref" "a = vr_actorID ref" "m = vr_moduleID ref"
  shows "if okKey k
    then \<exists>s'. lazyPut l k v (s, begun ref) = (Ret (), (s', begun ref)) \<and> inside s' (setStorage ns a m (kv(k \<mapsto> v)) A)
      \<and> snapshot s' = Some c \<and> stamp s' = stamp s
    else \<exists>e. lazyPut l k v (s, begun ref) = (Fail e, (s, begun ref))"
proof -
  have put: "aPut (actorTr ref) k v = andThen (lift (validateKey k)) (\<lambda>_. ktPut (newKVTransaction ns a m tr) k v)"
    by (simp add: actorTr_def kvValidator_def kvTransactionOps_def ref)
  have lz: "lazyPut l k v (s, begun ref) =
      onError (wrap ''lazyActorTransaction: Put: error calling Put: %w'') (onTr (\<lambda>tr. aPut tr k v)) (s, begun ref)"
    by (simp add: lazyPut_def andThen_def onError_def init_begun)
  show ?thesis
  proof (cases "okKey k")
    case True
    obtain s' where "ktPut (newKVTransaction ns a m tr) k v s = (Ret (), s')" "inside s' (setStorage ns a m (kv(k \<mapsto> v)) A)"
      "snapshot s' = Some c" "stamp s' = stamp s"
      using ktPut_inside [OF i, of a m k v] unfolding setStorage_put by blast
    with True show ?thesis
      by (simp add: lz onError_def onTr_def put andThen_lift validateKey_ok(1) [THEN iffD2, OF True])
  next
    case False
    then show ?thesis using validateKey_ok(2) [OF False] by (auto simp: lz onError_def onTr_def put andThen_lift)
  qed
qed

lemma begun_get:
  assumes i: "inside s (setStorage ns a m kv A)"
    and ref: "ns = vr_namespace ref" "a = vr_actorID ref" "m = vr_moduleID ref"
  shows "if okKey k then lazyGet l k (s, begun ref) = (Ret (kv k), (s, begun ref))
    else \<exists>e. lazyGet l k (s, begun ref) = (Fail e, (s, begun ref))"
proof -
  have get: "aGet (actorTr ref) k = andThen (lift (validateKey k)) (\<lambda>_. ktGet (newKVTransaction ns a m tr) k)"
    by (simp add: actorTr_def kvValidator_def kvTransactionOps_def ref)
  have lz: "lazyGet l k (s, begun ref) =
      onError (wrap ''lazyActorTransaction: Get: error calling Get: %w'') (onTr (\<lambda>tr. aGet tr k)) (s, begun ref)"
    by (simp add: lazyGet_def andThen_def onError_def init_begun)
  have "ktGet (newKVTransaction ns a m tr) k s = (Ret (kv k), s)"
    using ktGet_inside [OF i, of ns a m k] by (simp add: setStorage_get)
  then show ?thesis
    using validateKey_ok(2) [of k]
    by (cases "okKey k") (auto simp: lz onError_def onTr_def get andThen_lift validateKey_ok(1) [THEN iffD2])
qed

lemma refused_ops:
  "\<exists>e'. lazyPut l k v (s, refused e) = (Fail e', (s, refused e))"
  "\<exists>e'. lazyGet l k (s, refused e) = (Fail e', (s, refused e))"
  using init_refused [of l True s e] by (auto simp: lazyPut_def lazyGet_def andThen_def onError_def)

lemma run_begun:
  assumes "okNs ns" and ref: "ns = vr_namespace ref" "a = vr_actorID ref" "m = vr_moduleID ref"
  shows "inside s (setStorage ns a m kv A) \<Longrightarrow> snapshot s = Some c \<Longrightarrow>
    \<exists>r s'. runProg p (lazyOps l) (s, begun ref) = (r, (s', begun ref)) \<and> agrees r (fst (absProg p True kv))
      \<and> inside s' (setStorage ns a m (snd (absProg p True kv)) A) \<and> snapshot s' = Some c \<and> stamp s' = stamp s"
proof (induction p arbitrary: s kv)
  case (PutThen k v cont)
  note put = begun_put [OF PutThen.prems(1) assms(1) PutThen.prems(2) ref, of k l v]
  show ?case
  proof (cases "okKey k")
    case True
    with put obtain s1 where s1: "lazyPut l k v (s, begun ref) = (Ret (), (s1, begun ref))"
      "inside s1 (setStorage ns a m (kv(k \<mapsto> v)) A)" "snapshot s1 = Some c" "stamp s1 = stamp s" by auto
    from PutThen.IH [OF rangeI [of cont True] s1(2,3)] True s1(1,4) show ?thesis by (simp add: lazyOps_def del: fun_upd_apply)
  next
    case False
    with put obtain e where "lazyPut l k v (s, begun ref) = (Fail e, (s, begun ref))" by auto
    with PutThen.IH [OF rangeI [of cont False] PutThen.prems] False show ?thesis by (simp add: lazyOps_def)
  qed
next
  case (GetThen k cont)
  note get = begun_get [OF GetThen.prems(1) ref, of k l]
  show ?case
  proof (cases "okKey k")
    case True
    with get GetThen.IH [OF rangeI [of cont "Some (kv k)"] GetThen.prems] show ?thesis by (simp add: lazyOps_def)
  next
    case False
    with get obtain e where "lazyGet l k (s, begun ref) = (Fail e, (s, begun ref))" by auto
    with GetThen.IH [OF rangeI [of cont None] GetThen.prems] False show ?thesis by (simp add: lazyOps_def)
  qed
qed auto

lemma run_refused:
  "\<exists>r. runProg p (lazyOps l) (s, refused e) = (r, (s, refused e)) \<and> agrees r (fst (absProg p False kv))"
proof (induction p)
  case (PutThen k v cont)
  obtain e' where "lazyPut l k v (s, refused e) = (Fail e', (s, refused e))" using refused_ops(1) by blast
  with PutThen.IH [OF rangeI [of cont False]] show ?case by (simp add: lazyOps_def)
next
  case (GetThen k cont)
  obtain e' where "lazyGet l k (s, refused e) = (Fail e', (s, refused e))" using refused_ops(2) by blast
  with GetThen.IH [OF rangeI [of cont None]] show ?case by (simp add: lazyOps_def)
qed auto

end

context registry_open
begin

lemma usesStorage_init:
  assumes "usesStorage p" "maybeInitTr l True sz = maybeInitTr l True sz'"
  shows "runProg p (lazyOps l) sz = runProg p (lazyOps l) sz'"
proof -
  have "lazyPut l k v sz = lazyPut l k v sz'" "lazyGet l k sz = lazyGet l k sz'" for k v
    using assms(2) by (simp_all add: lazyPut_def lazyGet_def andThen_def onError_def)
  with assms(1) show ?thesis by (cases p) (simp_all add: usesStorage_def lazyOps_def)
qed

definition lazyFor :: "virtualRef \<Rightarrow> ('s \<Rightarrow> string \<times> int) \<Rightarrow> 's lazyActorTransaction" where
  "lazyFor ref g = newLazyActorTransaction (NewKVRegistry st) g ref"

lemma init_fresh:
  assumes h: "holds s A" and g: "g s = (sid, ver)"
  shows "if validId (vr_namespace ref) \<and> fenced (vr_namespace ref) (vr_actorID ref) (vr_moduleID ref) sid ver A
    then maybeInitTr (lazyFor ref g) True (s, freshLazy) = maybeInitTr (lazyFor ref g) True (opn s, begun ref)
    else \<exists>e s'. maybeInitTr (lazyFor ref g) True (s, freshLazy) = maybeInitTr (lazyFor ref g) True (s', refused e)
           \<and> holds s' A \<and> stamp s \<le> stamp s'"
proof -
  let ?ns = "vr_namespace ref" and ?a = "vr_actorID ref" and ?m = "vr_moduleID ref"
  have ids: "naid_ID (vrActorID ref) = ?a" "nid_ID (vrModuleID ref) = ?m"
    by (simp_all add: vrActorID_def vrModuleID_def NewNamespacedActorID_def NewNamespacedID_def)
  note unf = maybeInitTr_def lazyFor_def newLazyActorTransaction_def g ids freshLazy_def checkErr_def
  show ?thesis
  proof (cases "validId ?ns \<and> fenced ?ns ?a ?m sid ver A")
    case True
    then have "rBeginTransaction (NewKVRegistry st) ?ns ?a ?m sid ver s = (Ret (actorTr ref), opn s)"
      using begin_accepts [OF h] by (simp add: actorTr_def)
    with True show ?thesis by (simp add: unf begun_def)
  next
    case False
    have "\<exists>e s'. rBeginTransaction (NewKVRegistry st) ?ns ?a ?m sid ver s = (Fail e, s') \<and> holds s' A \<and> stamp s \<le> stamp s'"
      using False BeginTransaction_refines [OF h, of ?ns ?a ?m sid ver] h
      by (auto simp: begin_validated andThen_def)
    then obtain e s' where b: "rBeginTransaction (NewKVRegistry st) ?ns ?a ?m sid ver s = (Fail e, s')" "holds s' A" "stamp s \<le> stamp s'"
      by blast
    then have "maybeInitTr (lazyFor ref g) True (s, freshLazy) = maybeInitTr (lazyFor ref g) True (s', refused e)"
      by (simp add: unf refused_def)
    with False b show ?thesis by auto
  qed
qed

lemma end_fresh:
  "lazyCommit l (s, freshLazy) = (Ret (), (s, freshLazy\<lparr>lz_once := True\<rparr>))"
  "lazyCancel l (s, freshLazy) = (Ret (), (s, freshLazy\<lparr>lz_once := True\<rparr>))"
  by (simp_all add: lazyCommit_def lazyCancel_def andThen_def onError_def maybeInitTr_def checkErr_def freshLazy_def)

lemma end_refused:
  "\<exists>e'. lazyCommit l (s, refused e) = (Fail e', (s, refused e))"
  "\<exists>e'. lazyCancel l (s, refused e) = (Fail e', (s, refused e))"
  using init_refused [of l False s e] by (auto simp: lazyCommit_def lazyCancel_def andThen_def onError_def)

lemma end_begun:
  assumes "inside s A" "snapshot s = Some c"
  shows "lazyCommit l (s, begun ref) = (Ret (), (commit s, begun ref))"
    "lazyCancel l (s, begun ref) = (Ret (), (cancel s, begun ref))"
proof -
  have "busy s" using assms(1) by (simp add: inside_def)
  then have "tCommit tr s = (Ret (), commit s)" "tCancel tr s = (Ret (), cancel s)" using commit cancel assms(2) by blast+
  then show "lazyCommit l (s, begun ref) = (Ret (), (commit s, begun ref))"
    "lazyCancel l (s, begun ref) = (Ret (), (cancel s, begun ref))"
    by (simp_all add: lazyCommit_def lazyCancel_def andThen_def onError_def init_begun onTr_def actorTr_def kvValidator_def
        kvTransactionOps_def ktCommit_def ktCancel_def newKVTransaction_def)
qed

lemma Transact_refines:
  assumes h: "holds s A" and ok: "okNs (vr_namespace ref)" and g: "hc_getServerStateFn H s = (sid, ver)"
    and H: "hc_reg H = NewKVRegistry st" "hc_reference H = ref"
  shows "\<exists>r s'. hostTransact H (runProg p) s = (r, s') \<and> agrees r (fst (absTransact ref sid ver p A))
    \<and> holds s' (snd (absTransact ref sid ver p A)) \<and> stamp s \<le> stamp s'"
proof -
  let ?ns = "vr_namespace ref" and ?a = "vr_actorID ref" and ?m = "vr_moduleID ref" and ?l = "lazyFor ref (hc_getServerStateFn H)"
  let ?ok = "validId ?ns \<and> fenced ?ns ?a ?m sid ver A" and ?kv = "storageOf ?ns ?a ?m A"
  have l: "newLazyActorTransaction (hc_reg H) (hc_getServerStateFn H) (hc_reference H) = ?l" by (simp add: lazyFor_def H)
  note unf = hostTransact_def l Let_def absTransact_def
  show ?thesis
  proof (cases "usesStorage p")
    case False
    then consider x where "p = Return x" | e where "p = Raise e" by (cases p) (auto simp: usesStorage_def)
    then show ?thesis by cases (use h in \<open>simp_all add: unf lazyOps_def end_fresh usesStorage_def\<close>)
  next
    case True
    show ?thesis
    proof (cases ?ok)
      case ok': True
      have i: "inside (opn s) (setStorage ?ns ?a ?m ?kv A)" "snapshot (opn s) = Some (contents s)" using inside_opn [OF h] by simp_all
      have run: "runProg p (lazyOps ?l) (s, freshLazy) = runProg p (lazyOps ?l) (opn s, begun ref)"
        using init_fresh [where g = "hc_getServerStateFn H" and ref = ref, OF h g] ok' by (intro usesStorage_init [OF True]) simp
      obtain r s1 where s1: "runProg p (lazyOps ?l) (s, freshLazy) = (r, (s1, begun ref))" "agrees r (fst (absProg p True ?kv))"
        "inside s1 (setStorage ?ns ?a ?m (snd (absProg p True ?kv)) A)" "snapshot s1 = Some (contents s)" "stamp s1 = stamp (opn s)"
        using run_begun [OF ok refl refl refl i, of p ?l] unfolding run by blast
      have busy: "busy s1" using s1(3) by (simp add: inside_def)
      have c: "holds (commit s1) (setStorage ?ns ?a ?m (snd (absProg p True ?kv)) A)" "holds (cancel s1) A"
        "stamp s \<le> stamp (commit s1)" "stamp s \<le> stamp (cancel s1)"
        using holds_commit [OF s1(3,4)] holds_cancel [OF busy s1(4) h] h s1(5) by (simp_all add: holds_def open_simps)
      show ?thesis
        using s1(1,2) end_begun [OF s1(3,4), of ?l ref] c True ok'
        by (cases "absProg p True ?kv"; cases "fst (absProg p True ?kv)") (auto simp: unf lazyOps_def)
    next
      case no: False
      obtain e s' where e: "maybeInitTr ?l True (s, freshLazy) = maybeInitTr ?l True (s', refused e)" "holds s' A" "stamp s \<le> stamp s'"
        using init_fresh [where g = "hc_getServerStateFn H" and ref = ref, OF h g] no by (auto split: if_splits)
      obtain r where r: "runProg p (lazyOps ?l) (s, freshLazy) = (r, (s', refused e))" "agrees r (fst (absProg p False ?kv))"
        using run_refused [of p ?l s' e ?kv] unfolding usesStorage_init [OF True e(1)] by blast
      obtain e1 e2 where "lazyCommit ?l (s', refused e) = (Fail e1, (s', refused e))"
        "lazyCancel ?l (s', refused e) = (Fail e2, (s', refused e))"
        using end_refused by blast
      then show ?thesis
        using r e(2,3) True no
        by (cases "absProg p False ?kv"; cases "fst (absProg p False ?kv)") (auto simp: unf lazyOps_def)
    qed
  qed
qed

text \<open>
  An actor that panics inside its transaction leaves the transaction open.
\<close>

lemma Transact_panic:
  assumes h: "holds s A" and f: "validId (vr_namespace ref)" "fenced (vr_namespace ref) (vr_actorID ref) (vr_moduleID ref) sid ver A"
    and g: "hc_getServerStateFn H s = (sid, ver)" and H: "hc_reg H = NewKVRegistry st" "hc_reference H = ref" and k: "okKey k"
  shows "hostTransact H (\<lambda>tr. andThen (aGet tr k) (\<lambda>_. panic p)) s = (Panic p, opn s)"
proof -
  let ?ns = "vr_namespace ref" and ?a = "vr_actorID ref" and ?m = "vr_moduleID ref" and ?l = "lazyFor ref (hc_getServerStateFn H)"
  have l: "newLazyActorTransaction (hc_reg H) (hc_getServerStateFn H) (hc_reference H) = ?l" by (simp add: lazyFor_def H)
  have i: "inside (opn s) (setStorage ?ns ?a ?m (storageOf ?ns ?a ?m A) A)" using inside_opn [OF h] by simp
  have "maybeInitTr ?l True (s, freshLazy) = maybeInitTr ?l True (opn s, begun ref)"
    using init_fresh [where g = "hc_getServerStateFn H" and ref = ref, OF h g] f by simp
  then have "lazyGet ?l k (s, freshLazy) = lazyGet ?l k (opn s, begun ref)" by (simp add: lazyGet_def andThen_def onError_def)
  also have "\<dots> = (Ret (storageOf ?ns ?a ?m A k), (opn s, begun ref))"
    using begun_get [OF i refl refl refl, of k ?l] k by simp
  finally show ?thesis by (simp add: hostTransact_def l Let_def lazyOps_def andThen_def)
qed

end

subsection \<open>On the in-memory store\<close>

definition sampleRef :: virtualRef where
  "sampleRef = \<lparr>vr_namespace = ''ns'', vr_moduleID = ''m'', vr_actorID = ''a'', vr_generation = 1, vr_idType = IDTypeActor\<rparr>"

context btree_contract
begin

lemma local_host_Transact:
  assumes "localHolds m tinv l A" "okNs (vr_namespace ref)"
    and "hc_reg H = NewLocalRegistry bt" "hc_reference H = ref" "hc_getServerStateFn H l = (sid, ver)"
  shows "\<exists>r l'. hostTransact H (runProg p) l = (r, l') \<and> agrees r (fst (absTransact ref sid ver p A))
    \<and> localHolds m tinv l' (snd (absTransact ref sid ver p A))"
  using reg.Transact_refines [of l A ref H sid ver p] assms by (auto simp: reg_holds NewLocalRegistry_def)

lemma local_host_panic:
  assumes "localHolds m tinv l A" "validId (vr_namespace ref)" "okKey k"
    and "fenced (vr_namespace ref) (vr_actorID ref) (vr_moduleID ref) sid ver A"
    and "hc_reg H = NewLocalRegistry bt" "hc_reference H = ref" "hc_getServerStateFn H l = (sid, ver)"
  shows "hostTransact H (\<lambda>tr. andThen (aGet tr k) (\<lambda>_. panic p)) l
    = (Panic p, l\<lparr>l_locked := True, l_trClone := Some (bClone bt (l_b l))\<rparr>)"
  using reg.Transact_panic [of l A ref sid ver H k p] assms by (simp add: reg_holds NewLocalRegistry_def)

end

subsection \<open>Properties\<close>

text \<open>
  \<^bold>\<open>C39\<close> (the implicit transaction of an invocation). Whatever sequence of puts and gets an actor
  makes of its implicit transaction, handling errors as it likes: if it returns a value and the
  registry accepts the fencing token of the server, its puts become its storage all at once and
  its gets have seen them in order; if it returns an error, or the token is not accepted although it
  was needed, the call fails and nothing is stored. An actor that never touches its storage does
  not need the token.
\<close>

theorem host_Transact_atomic:
  assumes "btree_contract bt m tinv" "localHolds m tinv l A" "okNs (vr_namespace ref)"
    and "hc_reg H = NewLocalRegistry bt" "hc_reference H = ref" "hc_getServerStateFn H l = (sid, ver)"
  shows "\<exists>r l'. hostTransact H (runProg p) l = (r, l') \<and> agrees r (fst (absTransact ref sid ver p A))
    \<and> localHolds m tinv l' (snd (absTransact ref sid ver p A))"
  by (rule btree_contract.local_host_Transact [OF assms])

theorem host_Transact_atomic_witness:
  "\<exists>r l'. hostTransact (newHostCapabilities (NewLocalRegistry rbtOps) Map.empty sampleRef (\<lambda>_. (''s1'', 1)))
       (runProg (PutThen [1] [2] (\<lambda>_. GetThen [1] Return))) (sampleKV 1 0 1 0) = (r, l')
     \<and> agrees r (Some (Some (Some [2])))
     \<and> localHolds RBT.lookup (\<lambda>_. True) l' (setStorage ''ns'' ''a'' ''m'' [[1] \<mapsto> [2]] (sampleState 1 0 1 0))"
proof -
  let ?p = "PutThen [1] [2] (\<lambda>_. GetThen [1] Return)" and ?A = "sampleState 1 0 1 0"
  have h: "localHolds RBT.lookup (\<lambda>_. True) (sampleKV 1 0 1 0) ?A" by (intro sampleKV_holds) (simp_all add: is_i64_def)
  have "okKey [1]" by (simp add: okKey_def)
  moreover have "storageOf ''ns'' ''a'' ''m'' ?A = Map.empty"
    by (simp add: storageOf_def fun_eq_iff sampleState_def emptyRegistry_def)
  ultimately have "absTransact sampleRef ''s1'' 1 ?p ?A = (Some (Some (Some [2])), setStorage ''ns'' ''a'' ''m'' [[1] \<mapsto> [2]] ?A)"
    by (simp add: absTransact_def sampleRef_def sample_fenced usesStorage_def Let_def)
  then show ?thesis
    using host_Transact_atomic [OF rbt_contract h, of sampleRef
        "newHostCapabilities (NewLocalRegistry rbtOps) Map.empty sampleRef (\<lambda>_. (''s1'', 1))" "''s1''" 1 ?p]
    by (simp add: newHostCapabilities_def sampleRef_def)
qed

text \<open>
  \<^bold>\<open>C40\<close> (a panic keeps the store locked). An actor that panics after it has used its storage leaves
  its transaction open, since neither the cancellation nor the commit of \<open>Transact\<close> is deferred:
  with the in-memory store every later call of the registry blocks for ever.
\<close>

theorem host_panic_blocks:
  assumes "btree_contract bt m tinv" "localHolds m tinv l A" "validId (vr_namespace ref)" "okKey k"
    and "fenced (vr_namespace ref) (vr_actorID ref) (vr_moduleID ref) sid ver A"
    and "hc_reg H = NewLocalRegistry bt" "hc_reference H = ref" "hc_getServerStateFn H l = (sid, ver)"
  shows "\<exists>l'. hostTransact H (\<lambda>tr. andThen (aGet tr k) (\<lambda>_. panic p)) l = (Panic p, l')
    \<and> localTransact bt fn l' = (Blocked, l') \<and> localBeginTransaction bt l' = (Blocked, l')"
  by (intro exI [of _ "l\<lparr>l_locked := True, l_trClone := Some (bClone bt (l_b l))\<rparr>"])
    (simp add: btree_contract.local_host_panic [OF assms] localTransact_def localBeginTransaction_def)

theorem host_panic_blocks_witness:
  "\<exists>l'. hostTransact (newHostCapabilities (NewLocalRegistry rbtOps) Map.empty sampleRef (\<lambda>_. (''s1'', 1)))
        (\<lambda>tr. andThen (aGet tr [1]) (\<lambda>_. panic ''boom'')) (sampleKV 1 0 1 0) = (Panic ''boom'' :: unit outcome, l')
     \<and> localTransact rbtOps (\<lambda>_. ret ()) l' = (Blocked, l') \<and> localBeginTransaction rbtOps l' = (Blocked, l')"
proof -
  have h: "localHolds RBT.lookup (\<lambda>_. True) (sampleKV 1 0 1 0) (sampleState 1 0 1 0)" by (intro sampleKV_holds) (simp_all add: is_i64_def)
  show ?thesis
    by (rule host_panic_blocks [OF rbt_contract h, of sampleRef "[1]" "''s1''" 1])
      (simp_all add: sampleRef_def okKey_def sample_fenced newHostCapabilities_def)
qed

end
