(* ===== verification/Futures.thy ===== *)
theory Futures
  imports Nola_Prelude
begin

section \<open>Futures: \<open>virtual/futures\<close>\<close>

text \<open>
  A future is a result and an error behind a wait group that is decremented once. \<open>Wait\<close> on a pending
  future is \<open>Blocked\<close>. A result is an option because Go's zero value stands in for a missing result.
\<close>

record 't future =
  fu_result :: "'t option"
  fu_err :: "goerr option"
  fu_resolved :: bool
  fu_pending :: int  \<comment> \<open>the counter of the wait group\<close>

definition futureNew :: "'t future" where
  "futureNew = \<lparr>fu_result = None, fu_err = None, fu_resolved = False, fu_pending = 1\<rparr>"

definition futureSettle :: "'t option \<Rightarrow> goerr option \<Rightarrow> ('t future, unit) call" where
  "futureSettle result err f =
     (if fu_resolved f then (Panic ''future resolved multiple times'', f)
      else (Ret (), f\<lparr>fu_resolved := True, fu_result := result, fu_err := err, fu_pending := fu_pending f - 1\<rparr>))"

definition futureResolve :: "'t \<Rightarrow> ('t future, unit) call" where
  "futureResolve result f = futureSettle (Some result) (fu_err f) f"

definition futureReject :: "goerr \<Rightarrow> ('t future, unit) call" where
  "futureReject err f = futureSettle (fu_result f) (Some err) f"

definition futureResolveOrReject :: "'t option \<Rightarrow> goerr option \<Rightarrow> ('t future, unit) call" where
  "futureResolveOrReject = futureSettle"

text \<open>\<open>GoSync\<close> with the results that the function returns; \<open>GoAsync\<close> does the same later.\<close>

definition futureGoSync :: "('t option \<times> goerr option) outcome \<Rightarrow> ('t future, unit) call" where
  "futureGoSync r f =
     (case r of
        Ret (result, err) \<Rightarrow> futureResolveOrReject result err f
      | Fail e \<Rightarrow> futureResolveOrReject None (Some e) f
      | Panic p \<Rightarrow> (Panic p, f)
      | Blocked \<Rightarrow> (Blocked, f))"

definition futureWait :: "'t future \<Rightarrow> 't option outcome" where
  "futureWait f =
     (if fu_pending f > 0 then Blocked
      else case fu_err f of Some e \<Rightarrow> Fail e | None \<Rightarrow> Ret (fu_result f))"

fun waitAllFrom :: "nat \<Rightarrow> 't future list \<Rightarrow> 't option list \<Rightarrow> 't option list outcome" where
  "waitAllFrom i [] results = Ret results"
| "waitAllFrom i (fut # futs) results =
     (case futureWait fut of
        Ret r \<Rightarrow> waitAllFrom (i + 1) futs (results @ [r])
      | Fail e \<Rightarrow> Fail (Wrapf ''WaitAllSlice: future at index: %d resolved with error: %w'' [AInt (int i)] e)
      | Panic p \<Rightarrow> Panic p
      | Blocked \<Rightarrow> Blocked)"

definition WaitAllSlice :: "'t future list \<Rightarrow> 't option list outcome" where
  "WaitAllSlice futs = waitAllFrom 0 futs []"

text \<open>With a context: what the select takes when the context is done, or when the results are there.\<close>

definition WaitAllSliceCtx :: "goerr option \<Rightarrow> 't future list \<Rightarrow> 't option list outcome set" where
  "WaitAllSliceCtx ctxErr futs =
     (case ctxErr of Some e \<Rightarrow> {Fail e} | None \<Rightarrow> {})
     \<union> (if WaitAllSlice futs = Blocked then (if ctxErr = None then {Blocked} else {}) else {WaitAllSlice futs})"

subsection \<open>Lemmas\<close>

definition freshFuture :: "'t future \<Rightarrow> bool" where
  "freshFuture f \<longleftrightarrow> \<not> fu_resolved f \<and> fu_pending f = 1 \<and> fu_result f = None \<and> fu_err f = None"

lemma fresh_new [simp]: "freshFuture futureNew"
  by (simp add: futureNew_def freshFuture_def)

lemma fresh_wait [simp]: "freshFuture f \<Longrightarrow> futureWait f = Blocked"
  by (simp add: futureWait_def freshFuture_def)

text \<open>A settled future answers every wait with what it was settled with and refuses to be settled again.\<close>

lemma settle_fresh:
  assumes "freshFuture f"
  obtains f' where "futureSettle r e f = (Ret (), f')"
    "futureWait f' = (case e of Some err \<Rightarrow> Fail err | None \<Rightarrow> Ret r)"
    "\<And>r' e'. futureSettle r' e' f' = (Panic ''future resolved multiple times'', f')"
  using assms by (cases e) (simp_all add: futureSettle_def futureWait_def freshFuture_def)

lemma settled_waits:
  "futureWait (snd (futureResolve v futureNew)) = Ret (Some v)"
  "futureWait (snd (futureReject err futureNew)) = Fail err"
  by (simp_all add: futureResolve_def futureReject_def futureSettle_def futureWait_def futureNew_def)

lemma waitAllFrom_results:
  "map futureWait futs = map Ret rs \<Longrightarrow> waitAllFrom i futs acc = Ret (acc @ rs)"
  by (induction futs arbitrary: i acc rs) (auto simp: Cons_eq_map_conv)

lemma waitAllFrom_error:
  assumes "map futureWait futs = map Ret rs" "futureWait fut = Fail e"
  shows "waitAllFrom i (futs @ fut # rest) acc =
    Fail (Wrapf ''WaitAllSlice: future at index: %d resolved with error: %w'' [AInt (int (i + length rs))] e)"
  using assms(1)
proof (induction futs arbitrary: i acc rs)
  case Nil
  then show ?case using assms(2) by simp
next
  case (Cons f futs)
  then obtain r rs' where "rs = r # rs'" "futureWait f = Ret r" "map futureWait futs = map Ret rs'" by (auto simp: Cons_eq_map_conv)
  with Cons.IH [of rs'] show ?case by simp
qed

text \<open>
  The first \<open>Resolve\<close>, \<open>Reject\<close> or \<open>ResolveOrReject\<close> of a new future
  fixes what every wait returns; each further one panics and changes nothing. \<open>WaitAllSlice\<close> returns the
  results in the order of the futures, or the error of the first one, in this order, that was rejected.
\<close>

lemma futures_settle_once:
  assumes "map futureWait futs = map Ret rs" "futureWait bad = Fail e"
  shows "futureWait (snd (futureResolve v futureNew)) = Ret (Some v)
    \<and> futureWait (snd (futureReject err futureNew)) = Fail err
    \<and> fst (futureReject err (snd (futureResolve v futureNew))) = Panic ''future resolved multiple times''
    \<and> snd (futureReject err (snd (futureResolve v futureNew))) = snd (futureResolve v futureNew)
    \<and> WaitAllSlice futs = Ret rs
    \<and> WaitAllSlice (futs @ bad # rest) =
        Fail (Wrapf ''WaitAllSlice: future at index: %d resolved with error: %w'' [AInt (int (length rs))] e)"
  using assms
  unfolding WaitAllSlice_def settled_waits
  by (simp add: waitAllFrom_results waitAllFrom_error futureResolve_def futureReject_def futureSettle_def futureNew_def)

end
