(* ===== verification/Activations.thy ===== *)
theory Activations
  imports Host_Capabilities Futures
begin

section \<open>Activated actors: \<open>virtual/activations.go\<close>\<close>

text \<open>
  The table of the actors of one server. This theory has the code of one goroutine, function by function; the theory
  \<open>Activation_Races\<close> interleaves it with others. The state is a pair of the state \<open>'s\<close> of what is
  outside (the registry and the memory of the actors) and the struct \<open>activations\<close>. Futures and activated
  actors are objects with an identity, so they live in heaps; a pointer is a number. A mutex is a flag;
  a call that would wait for one is \<open>Blocked\<close>. Actors and modules are code of the user: interfaces, as records of
  operations. A stream is its content, \<open>None\<close> is the nil stream. The time is an argument.
\<close>

subsection \<open>References as interface values\<close>

text \<open>
  \<open>ActorReferenceVirtual\<close> is an interface; its two implementations are structs that are passed by value, so that
  two interface values are equal if the structs are.
\<close>

datatype actorReferenceVirtual = VirtualRef virtualRef | ActorRef actorRef

fun refVirtual :: "actorReferenceVirtual \<Rightarrow> virtualRef" where
  "refVirtual (VirtualRef v) = v"
| "refVirtual (ActorRef r) = ar_virtualRef r"

definition refActorID :: "actorReferenceVirtual \<Rightarrow> NamespacedActorID" where
  "refActorID r = vrActorID (refVirtual r)"

definition refModuleID :: "actorReferenceVirtual \<Rightarrow> NamespacedID" where
  "refModuleID r = vrModuleID (refVirtual r)"

definition refGeneration :: "actorReferenceVirtual \<Rightarrow> 64 word" where
  "refGeneration r = vr_generation (refVirtual r)"

subsection \<open>Actors and modules\<close>

text \<open>
  A stream, by what reading it to the end delivers: the bytes and, if it breaks off, the error that it ends with
  instead of \<open>io.EOF\<close>.
\<close>

datatype ReadCloser = Stream bytes "goerr option"

datatype actorResult = NilResult | StreamResult ReadCloser | BytesResult bytes

type_synonym 's lazyTr = "('s \<times> 's lazyState) actorKVTransaction"

text \<open>The interfaces that the dynamic type of an actor implements; the transaction of a worker is nil.\<close>

record 's Actor =
  ac_InvokeStream :: "(string \<Rightarrow> bytes option \<Rightarrow> 's lazyTr option \<Rightarrow> ('s \<times> 's lazyState, ReadCloser option) call) option"
  ac_Invoke :: "(string \<Rightarrow> bytes option \<Rightarrow> 's lazyTr option \<Rightarrow> ('s \<times> 's lazyState, bytes) call) option"
  ac_Close :: "('s, unit) call"

record 's Module =
  mo_Instantiate :: "actorReferenceVirtual \<Rightarrow> bytes option \<Rightarrow> 's hostCapabilities \<Rightarrow> ('s, 's Actor) call"

definition StartupOperationName :: string where "StartupOperationName = ''STARTUP''"
definition ShutdownOperationName :: string where "ShutdownOperationName = ''SHUTDOWN''"

definition assertActorIface :: "'s Actor \<Rightarrow> unit outcome" where
  "assertActorIface actor =
     (if ac_Invoke actor \<noteq> None \<or> ac_InvokeStream actor \<noteq> None then Ret ()
      else Fail (Errorf ''%T does not implement ByteActor or StreamActor'' []))"

subsection \<open>The state\<close>

record 's activatedActor =
  aa_a :: "'s Actor"
  aa_reference :: actorReferenceVirtual
  aa_closed :: bool
  aa_lastInvoke :: int
  aa_gcAfter :: int
  aa_gcTimer :: int  \<comment> \<open>when the timer fires\<close>
  aa_gcChecks :: "int list"  \<comment> \<open>when the further timers fire that \<open>gcFunc\<close> starts\<close>
  aa_locked :: bool
  aa_onGc :: nat  \<comment> \<open>the future that the closure \<open>onGc\<close> of this actor holds\<close>

record 's activations =
  as_locked :: bool
  as_modules :: "NamespacedID \<rightharpoonup> 's Module"
  as_actors :: "NamespacedActorID \<rightharpoonup> nat"
  as_futures :: "nat \<rightharpoonup> nat future"
  as_objects :: "nat \<rightharpoonup> 's activatedActor"
  as_next :: nat  \<comment> \<open>the next free address\<close>
  as_serverID :: string
  as_serverVersion :: int
  as_registry :: "'s registry"
  as_goModules :: "NamespacedIDNoType \<rightharpoonup> 's Module"
  as_customHostFns :: "string \<rightharpoonup> (bytes \<Rightarrow> bytes outcome)"
  as_gcActorsAfter :: int

definition newActivations ::
  "'s registry \<Rightarrow> (string \<rightharpoonup> (bytes \<Rightarrow> bytes outcome)) \<Rightarrow> int \<Rightarrow> 's activations outcome" where
  "newActivations registry customHostFns gcActorsAfter =
     (if gcActorsAfter < 0 then Panic ''[invariant violated] illegal value for gcActorsAfter: %d''
      else Ret \<lparr>as_locked = False, as_modules = Map.empty, as_actors = Map.empty, as_futures = Map.empty,
        as_objects = Map.empty, as_next = 0, as_serverID = [], as_serverVersion = 0, as_registry = registry,
        as_goModules = Map.empty, as_customHostFns = customHostFns, as_gcActorsAfter = gcActorsAfter\<rparr>)"

definition registerGoModule :: "NamespacedIDNoType \<Rightarrow> 's Module \<Rightarrow> ('s activations, unit) call" where
  "registerGoModule i module a =
     (if as_locked a then (Blocked, a)
      else if as_goModules a i \<noteq> None then
        (Fail (Errorf ''error registering go module with ID: %v, already registered'' [AStr (nint_Namespace i), AStr (nint_ID i)]), a)
      else (Ret (), a\<lparr>as_goModules := (as_goModules a)(i \<mapsto> module)\<rparr>))"

definition numActivatedActors :: "('s activations, int) call" where
  "numActivatedActors a = (if as_locked a then (Blocked, a) else (Ret (int (card (dom (as_actors a)))), a))"

definition setServerState :: "string \<Rightarrow> int \<Rightarrow> 's activations \<Rightarrow> 's activations" where
  "setServerState serverID serverVersion a = a\<lparr>as_serverID := serverID, as_serverVersion := serverVersion\<rparr>"

definition getServerState :: "'s activations \<Rightarrow> string \<times> int" where
  "getServerState a = (as_serverID a, as_serverVersion a)"

text \<open>The host of an actor: what \<open>newHostCapabilities\<close> is called with.\<close>

definition actorHost :: "'s activations \<Rightarrow> actorReferenceVirtual \<Rightarrow> 's hostCapabilities" where
  "actorHost a reference =
     newHostCapabilities (as_registry a) (as_customHostFns a) (refVirtual reference) (\<lambda>_. getServerState a)"

subsection \<open>One activated actor\<close>

text \<open>The type switch on the actor, with the transaction of the invocation.\<close>

definition callActor ::
  "'s Actor \<Rightarrow> string \<Rightarrow> bytes option \<Rightarrow> 's lazyTr option \<Rightarrow> ('s \<times> 's lazyState, actorResult) call" where
  "callActor actor operation payload tr =
     (case ac_InvokeStream actor of
        Some invokeStream \<Rightarrow>
          andThen (invokeStream operation payload tr)
            (\<lambda>stream. ret (case stream of None \<Rightarrow> NilResult | Some r \<Rightarrow> StreamResult r))
      | None \<Rightarrow>
          (case ac_Invoke actor of
             Some invk \<Rightarrow> andThen (invk operation payload tr) (\<lambda>b. ret (BytesResult b))
           | None \<Rightarrow> panic ''interface conversion: actor is not ActorBytes''))"

fun resultStream :: "actorResult \<Rightarrow> ReadCloser option" where
  "resultStream NilResult = None"
| "resultStream (StreamResult r) = Some r"
| "resultStream (BytesResult b) = Some (Stream b None)"

text \<open>\<open>invoke\<close> up to the code of the user: the closed check, the time and the timer.\<close>

definition invokeEnter :: "int \<Rightarrow> bool \<Rightarrow> ('s activatedActor, unit) call" where
  "invokeEnter now isClosing a =
     (if aa_closed a then
        (Fail (Errorf ''tried to invoke actor: %v which has already been closed'' []), a)
      else
        (let a1 = a\<lparr>aa_lastInvoke := now\<rparr> in
         (Ret (), if \<not> isClosing then a1\<lparr>aa_gcTimer := now + aa_gcAfter a1\<rparr> else a1)))"

definition actorInvoke ::
  "'s hostCapabilities \<Rightarrow> int \<Rightarrow> string \<Rightarrow> bytes option \<Rightarrow> bool \<Rightarrow> bool \<Rightarrow> ('s \<times> 's activatedActor, ReadCloser option) call" where
  "actorInvoke host now operation payload alreadyLocked isClosing sa =
     (let (s, a) = sa in
      if \<not> alreadyLocked \<and> aa_locked a then (Blocked, sa)
      else case invokeEnter now isClosing a of
        (Ret _, a') \<Rightarrow>
          if naid_IDType (refActorID (aa_reference a')) \<noteq> IDTypeWorker then
            (case hostTransact host (\<lambda>tr. callActor (aa_a a') operation payload (Some tr)) s of
               (Ret NilResult, s') \<Rightarrow> (Ret (Some (Stream [] None)), (s', a'))
             | (Ret r, s') \<Rightarrow> (Ret (resultStream r), (s', a'))
             | (Fail e, s') \<Rightarrow> (Fail e, (s', a'))
             | (Panic p, s') \<Rightarrow> (Panic p, (s', a'))
             | (Blocked, s') \<Rightarrow> (Blocked, (s', a')))
          else
            (case callActor (aa_a a') operation payload None (s, freshLazy) of
               (Ret r, sz) \<Rightarrow> (Ret (resultStream r), (fst sz, a'))
             | (Fail e, sz) \<Rightarrow> (Fail e, (fst sz, a'))
             | (Panic p, sz) \<Rightarrow> (Panic p, (fst sz, a'))
             | (Blocked, sz) \<Rightarrow> (Blocked, (fst sz, a')))
      | (Fail e, a') \<Rightarrow> (Fail e, (s, a'))
      | (Panic p, a') \<Rightarrow> (Panic p, (s, a'))
      | (Blocked, a') \<Rightarrow> (Blocked, (s, a')))"

text \<open>The error of the shutdown operation is logged; a panic passes everything that follows.\<close>

definition closeWithLock :: "'s hostCapabilities \<Rightarrow> int \<Rightarrow> ('s \<times> 's activatedActor, unit) call" where
  "closeWithLock host now sa =
     (if aa_closed (snd sa) then (Ret (), sa)
      else
        (let close = (\<lambda>(s, a). (case ac_Close (aa_a a) s of (r, s') \<Rightarrow> (r, (s', a\<lparr>aa_closed := True\<rparr>)))) in
         case actorInvoke host now ShutdownOperationName None True True sa of
           (Ret _, sa') \<Rightarrow> close sa'
         | (Fail _, sa') \<Rightarrow> close sa'
         | (Panic p, sa') \<Rightarrow> (Panic p, sa')
         | (Blocked, sa') \<Rightarrow> (Blocked, sa')))"

definition actorClose :: "'s hostCapabilities \<Rightarrow> int \<Rightarrow> ('s \<times> 's activatedActor, unit) call" where
  "actorClose host now sa = (if aa_locked (snd sa) then (Blocked, sa) else closeWithLock host now sa)"

text \<open>An object of the heap as the receiver of a method.\<close>

definition onObject ::
  "nat \<Rightarrow> ('s \<times> 's activatedActor, 'a) call \<Rightarrow> ('s \<times> 's activations, 'a) call" where
  "onObject x f sa =
     (let (s, a) = sa in
      case as_objects a x of
        None \<Rightarrow> (Panic ''nil pointer dereference'', sa)
      | Some obj \<Rightarrow>
          (case f (s, obj) of (r, (s', obj')) \<Rightarrow> (r, (s', a\<lparr>as_objects := (as_objects a)(x \<mapsto> obj')\<rparr>))))"

definition invokeObject :: "int \<Rightarrow> string \<Rightarrow> bytes option \<Rightarrow> nat \<Rightarrow> ('s \<times> 's activations, ReadCloser option) call" where
  "invokeObject now operation payload x sa =
     onObject x (\<lambda>so. actorInvoke (actorHost (snd sa) (aa_reference (snd so))) now operation payload False False so) sa"

definition closeObject :: "int \<Rightarrow> nat \<Rightarrow> ('s \<times> 's activations, unit) call" where
  "closeObject now x sa = onObject x (\<lambda>so. actorClose (actorHost (snd sa) (aa_reference (snd so))) now so) sa"

text \<open>\<open>newActivatedActor\<close>: the object, its timer and the startup operation.\<close>

definition newActivatedActor ::
  "int \<Rightarrow> 's Actor \<Rightarrow> actorReferenceVirtual \<Rightarrow> bytes option \<Rightarrow> nat \<Rightarrow> ('s \<times> 's activations, nat) call" where
  "newActivatedActor now actor reference instantiatePayload fut sa =
     (let (s, a) = sa; x = as_next a; gcAfter = as_gcActorsAfter a;
          obj = \<lparr>aa_a = actor, aa_reference = reference, aa_closed = False, aa_lastInvoke = now, aa_gcAfter = gcAfter,
                 aa_gcTimer = now + gcAfter, aa_gcChecks = [], aa_locked = False, aa_onGc = fut\<rparr>;
          a1 = a\<lparr>as_objects := (as_objects a)(x \<mapsto> obj), as_next := Suc x\<rparr> in
      case invokeObject now StartupOperationName instantiatePayload x (s, a1) of
        (Ret _, sa') \<Rightarrow> (Ret x, sa')
      | (Fail e, sa') \<Rightarrow>
          (case closeObject now x sa' of
             (Panic p, sa'') \<Rightarrow> (Panic p, sa'')
           | (Blocked, sa'') \<Rightarrow> (Blocked, sa'')
           | (_, sa'') \<Rightarrow> (Fail (wrap ''newActivatedActor: error invoking startup function: %w'' e), sa''))
      | (Panic p, sa') \<Rightarrow> (Panic p, sa')
      | (Blocked, sa') \<Rightarrow> (Blocked, sa'))"

text \<open>The closure \<open>onGc\<close>, under the mutex of the table, and the timer function.\<close>

definition onGc :: "NamespacedActorID \<Rightarrow> nat \<Rightarrow> ('s activations, unit) call" where
  "onGc i fut a =
     (if as_locked a then (Blocked, a)
      else case as_actors a i of
        None \<Rightarrow> (Ret (), a)
      | Some existing \<Rightarrow>
          if existing \<noteq> fut then (Ret (), a)
          else (Ret (), a\<lparr>as_actors := (as_actors a)(i := None)\<rparr>))"

definition gcFunc :: "int \<Rightarrow> nat \<Rightarrow> ('s \<times> 's activations, unit) call" where
  "gcFunc now x sa =
     (case as_objects (snd sa) x of
        None \<Rightarrow> (Panic ''nil pointer dereference'', sa)
      | Some obj \<Rightarrow>
          if aa_locked obj then (Blocked, sa)
          else if aa_closed obj then (Ret (), sa)
          else if now - aa_lastInvoke obj > aa_gcAfter obj then
            (let close = onObject x (closeWithLock (actorHost (snd sa) (aa_reference obj)) now);
                 remove = (\<lambda>(s, a). (case onGc (refActorID (aa_reference obj)) (aa_onGc obj) a of (r, a') \<Rightarrow> (r, (s, a')))) in
             case close sa of
               (Ret _, sa') \<Rightarrow> remove sa'
             | (Fail _, sa') \<Rightarrow> remove sa'
             | (Panic p, sa') \<Rightarrow> (Panic p, sa')
             | (Blocked, sa') \<Rightarrow> (Blocked, sa'))
          else onObject x (\<lambda>(s, obj'). (Ret (), (s, obj'\<lparr>aa_gcChecks := (now + aa_gcAfter obj) # aa_gcChecks obj\<rparr>))) sa)"

subsection \<open>Modules\<close>

text \<open>
  \<open>durablewazero.NewModule\<close> is the parameter \<open>wasm\<close>. The singleflight group merges the concurrent fetches of the same
  key; this is the call that runs.
\<close>

type_synonym 's wasm = "NamespacedID \<Rightarrow> bytes \<Rightarrow> 's Module outcome"

definition dedupeBy :: "NamespacedID \<Rightarrow> string" where
  "dedupeBy moduleID = nid_Namespace moduleID @ ''-'' @ nid_ID moduleID"

definition moduleArgs :: "NamespacedID \<Rightarrow> fmtarg list" where
  "moduleArgs moduleID = [AStr (nid_Namespace moduleID), AStr (nid_ID moduleID), AStr (nid_IDType moduleID)]"

definition buildModule :: "'s wasm \<Rightarrow> NamespacedID \<Rightarrow> bytes option \<Rightarrow> 's activations \<Rightarrow> 's Module outcome" where
  "buildModule wasm moduleID moduleBytes a =
     (case moduleBytes of
        Some (b # bs) \<Rightarrow>
          (case wasm moduleID (b # bs) of
             Fail e \<Rightarrow> Fail (Wrapf ''error constructing module: %s from module bytes, err: %w'' (moduleArgs moduleID) e)
           | r \<Rightarrow> r)
      | _ \<Rightarrow>
          (case as_goModules a (NewNamespacedIDNoType (nid_Namespace moduleID) (nid_ID moduleID)) of
             None \<Rightarrow> Fail (Errorf ''error constructing module: %s, hard-coded Go module does not exist'' (moduleArgs moduleID))
           | Some goMod \<Rightarrow> Ret goMod))"

definition fetchModule :: "'s wasm \<Rightarrow> NamespacedID \<Rightarrow> ('s \<times> 's activations, 's Module) call" where
  "fetchModule wasm moduleID sa =
     (let (s, a) = sa in
      if as_locked a then (Blocked, sa)
      else case as_modules a moduleID of
        Some module \<Rightarrow> (Ret module, sa)
      | None \<Rightarrow>
          (case rGetModule (as_registry a) (nid_Namespace moduleID) (nid_ID moduleID) s of
             (Ret (moduleBytes, _), s') \<Rightarrow>
               (case buildModule wasm moduleID moduleBytes a of
                  Ret module \<Rightarrow> (Ret module, (s', a\<lparr>as_modules := (as_modules a)(moduleID \<mapsto> module)\<rparr>))
                | Fail e \<Rightarrow> (Fail e, (s', a))
                | Panic p \<Rightarrow> (Panic p, (s', a))
                | Blocked \<Rightarrow> (Blocked, (s', a)))
           | (Fail e, s') \<Rightarrow>
               (Fail (Wrapf ''error getting module bytes from registry for module: %s, err: %w'' (moduleArgs moduleID) e), (s', a))
           | (Panic p, s') \<Rightarrow> (Panic p, (s', a))
           | (Blocked, s') \<Rightarrow> (Blocked, (s', a))))"

definition ensureModule :: "'s wasm \<Rightarrow> NamespacedID \<Rightarrow> ('s \<times> 's activations, 's Module) call" where
  "ensureModule wasm moduleID sa =
     (if as_locked (snd sa) then (Blocked, sa)
      else case as_modules (snd sa) moduleID of
        Some module \<Rightarrow> (Ret module, sa)
      | None \<Rightarrow> fetchModule wasm moduleID sa)"

subsection \<open>Invocations\<close>

text \<open>The first lines of \<open>invokeNotExistWithLock\<close>: a new future takes the place of the actor, and the lock is released.\<close>

definition installFuture :: "actorReferenceVirtual \<Rightarrow> 's activations \<Rightarrow> 's activations" where
  "installFuture reference a =
     a\<lparr>as_futures := (as_futures a)(as_next a \<mapsto> futureNew), as_next := Suc (as_next a),
       as_actors := (as_actors a)(refActorID reference \<mapsto> as_next a), as_locked := False\<rparr>"

text \<open>The deferred function removes the actor without the lock.\<close>

definition forgetActor :: "actorReferenceVirtual \<Rightarrow> 's activations \<Rightarrow> 's activations" where
  "forgetActor reference a = a\<lparr>as_actors := (as_actors a)(refActorID reference := None)\<rparr>"

definition instantiateErr :: "goerr \<Rightarrow> goerr" where
  "instantiateErr = wrap ''error instantiating actor: %s from module: %s, err: %w''"

definition activateActor ::
  "'s wasm \<Rightarrow> int \<Rightarrow> actorReferenceVirtual \<Rightarrow> bytes option \<Rightarrow> nat \<Rightarrow> ('s \<times> 's activations, nat) call" where
  "activateActor wasm now reference instantiatePayload fut =
     andThen (onError (wrap ''error ensuring module for reference: %v, err: %w'') (ensureModule wasm (refModuleID reference)))
       (\<lambda>module.
     andThen (\<lambda>(s, a). case mo_Instantiate module reference instantiatePayload (actorHost a reference) s of
                         (r, s') \<Rightarrow> onError instantiateErr (\<lambda>sa. (r, sa)) (s', a))
       (\<lambda>iActor.
     andThen (onError instantiateErr (\<lambda>sa. (assertActorIface iActor, sa)))
       (\<lambda>_. onError (wrap ''error activating actor: %w'') (newActivatedActor now iActor reference instantiatePayload fut))))"

definition closePrev :: "int \<Rightarrow> nat option \<Rightarrow> ('s \<times> 's activations, unit) call" where
  "closePrev now prevActor sa =
     (case prevActor of
        None \<Rightarrow> (Ret (), sa)
      | Some x \<Rightarrow>
          (case closeObject now x sa of
             (Fail _, sa') \<Rightarrow> (Ret (), sa')
           | r \<Rightarrow> r))"

definition settleFuture :: "nat \<Rightarrow> nat option \<Rightarrow> goerr option \<Rightarrow> ('s \<times> 's activations, unit) call" where
  "settleFuture fut result err sa =
     (let (s, a) = sa in
      case as_futures a fut of
        None \<Rightarrow> (Panic ''nil pointer dereference'', sa)
      | Some f \<Rightarrow>
          (case futureSettle result err f of (r, f') \<Rightarrow> (r, (s, a\<lparr>as_futures := (as_futures a)(fut \<mapsto> f')\<rparr>))))"

definition waitFuture :: "nat \<Rightarrow> ('s \<times> 's activations, nat) call" where
  "waitFuture fut sa =
     (case as_futures (snd sa) fut of
        None \<Rightarrow> (Panic ''nil pointer dereference'', sa)
      | Some f \<Rightarrow>
          (case futureWait f of
             Ret (Some x) \<Rightarrow> (Ret x, sa)
           | Ret None \<Rightarrow> (Panic ''nil pointer dereference'', sa)
           | Fail e \<Rightarrow> (Fail e, sa)
           | Panic p \<Rightarrow> (Panic p, sa)
           | Blocked \<Rightarrow> (Blocked, sa)))"

definition invokeNotExistWithLock ::
  "'s wasm \<Rightarrow> int \<Rightarrow> actorReferenceVirtual \<Rightarrow> string \<Rightarrow> bytes option \<Rightarrow> bytes option \<Rightarrow> nat option
   \<Rightarrow> ('s \<times> 's activations, ReadCloser option) call" where
  "invokeNotExistWithLock wasm now reference operation instantiatePayload invokePayload prevActor sa =
     (let (s, a) = sa; fut = as_next a in
      andThen
        (\<lambda>sa'. case andThen (closePrev now prevActor)
                       (\<lambda>_. activateActor wasm now reference instantiatePayload fut) sa' of
                  (Ret actor, sa'') \<Rightarrow> settleFuture fut (Some actor) None sa''
                | (Fail err, (s'', a'')) \<Rightarrow> settleFuture fut None (Some err) (s'', forgetActor reference a'')
                | (Panic p, sa'') \<Rightarrow> (Panic p, sa'')
                | (Blocked, sa'') \<Rightarrow> (Blocked, sa''))
        (\<lambda>_. andThen (waitFuture fut) (invokeObject now operation invokePayload))
        (s, installFuture reference a))"

text \<open>
  \<open>invoke\<close> in its three parts: up to the first unlock, the waiting and the check of the generation, and what
  follows the second lock. The first and the last part say how the goroutine goes on.
\<close>

datatype invokeNext =
    ReturnNil  \<comment> \<open>a timer of an actor that is not activated any more\<close>
  | ActivateNow "nat option"  \<comment> \<open>\<open>invokeNotExistWithLock\<close>, with the previous actor\<close>
  | WaitFor nat
  | InvokeNow nat
  | Regenerate nat nat
  | ReturnErr goerr

definition invokeLookup :: "actorReferenceVirtual \<Rightarrow> bool \<Rightarrow> 's activations \<Rightarrow> invokeNext" where
  "invokeLookup reference isTimer a =
     (case as_actors a (refActorID reference) of
        None \<Rightarrow> if isTimer then ReturnNil else ActivateNow None
      | Some actorF \<Rightarrow> WaitFor actorF)"

definition invokeWaited :: "actorReferenceVirtual \<Rightarrow> bool \<Rightarrow> nat \<Rightarrow> nat \<Rightarrow> 's activatedActor \<Rightarrow> invokeNext" where
  "invokeWaited reference isTimer actorF x actor =
     (if isTimer \<and> aa_reference actor \<noteq> reference then ReturnNil
      else if refGeneration (aa_reference actor) \<ge> refGeneration reference then InvokeNow x
      else Regenerate actorF x)"

definition generationErr :: goerr where
  "generationErr = Errorf ''[invariant violated] actor generation count too low after reactivation, caller should retry'' []"

definition invokeRelock :: "actorReferenceVirtual \<Rightarrow> nat \<Rightarrow> nat \<Rightarrow> 's activatedActor \<Rightarrow> 's activations \<Rightarrow> invokeNext" where
  "invokeRelock reference actorF x actor a =
     (case as_actors a (refActorID reference) of
        None \<Rightarrow> ActivateNow None
      | Some actorF2 \<Rightarrow>
          if actorF2 = actorF then ActivateNow (Some x)
          else if refGeneration (aa_reference actor) \<ge> refGeneration reference then InvokeNow x
          else ReturnErr generationErr)"

definition invoke ::
  "'s wasm \<Rightarrow> int \<Rightarrow> actorReferenceVirtual \<Rightarrow> string \<Rightarrow> bytes option \<Rightarrow> bytes option \<Rightarrow> bool
   \<Rightarrow> ('s \<times> 's activations, ReadCloser option) call" where
  "invoke wasm now reference operation instantiatePayload invokePayload isTimer sa =
     (let activate = invokeNotExistWithLock wasm now reference operation instantiatePayload invokePayload in
      if as_locked (snd sa) then (Blocked, sa)
      else case invokeLookup reference isTimer (snd sa) of
        ActivateNow prev \<Rightarrow> activate prev (fst sa, (snd sa)\<lparr>as_locked := True\<rparr>)
      | WaitFor actorF \<Rightarrow>
          andThen (waitFuture actorF) (\<lambda>x sa'.
            case as_objects (snd sa') x of
              None \<Rightarrow> (Panic ''nil pointer dereference'', sa')
            | Some actor \<Rightarrow>
                (case invokeWaited reference isTimer actorF x actor of
                   InvokeNow y \<Rightarrow> invokeObject now operation invokePayload y sa'
                 | Regenerate f y \<Rightarrow>
                     if as_locked (snd sa') then (Blocked, sa')
                     else
                       (let locked = (fst sa', (snd sa')\<lparr>as_locked := True\<rparr>) in
                        case invokeRelock reference f y actor (snd sa') of
                          ActivateNow prev \<Rightarrow> activate prev locked
                        | InvokeNow z \<Rightarrow> invokeObject now operation invokePayload z locked
                        | ReturnErr e \<Rightarrow> (Fail e, locked)
                        | _ \<Rightarrow> (Ret None, locked))
                 | _ \<Rightarrow> (Ret None, sa'))) sa
      | _ \<Rightarrow> (Ret None, sa))"

text \<open>The timer of an actor: \<open>ScheduleSelfTimer\<close> calls back with the reference of its host.\<close>

definition timerFired :: "'s wasm \<Rightarrow> int \<Rightarrow> actorReferenceVirtual \<Rightarrow> string \<Rightarrow> bytes \<Rightarrow> ('s \<times> 's activations, unit) call" where
  "timerFired wasm now reference operation payload sa =
     (case invoke wasm now reference operation None (Some payload) True sa of
        (Panic p, sa') \<Rightarrow> (Panic p, sa')
      | (Blocked, sa') \<Rightarrow> (Blocked, sa')
      | (_, sa') \<Rightarrow> (Ret (), sa'))"

end
