(* ===== verification/Activation_Races.thy ===== *)
theory Activation_Races
  imports Activations
begin

section \<open>Concurrent invocations\<close>

text \<open>
  The goroutines of \<open>activations.go\<close>, interleaved. A goroutine stands at one of the points at which it can be overtaken:
  before it takes a mutex, while it waits for a future, or while it runs code of the user. A step takes it to the next
  such point and has the effect of the function of the theory \<open>Activations\<close> that the code runs on the
  way. What the code of the user returns, and what the registry returns for a module, is any result, a panic included.
  Code that holds the mutex of an actor and touches nothing else (the shutdown operation) is one step.

  An abstract table of instances has the essence: which future stands for an actor, which instances were born from
  which future, and which of them are open. Each step of the code is a step of the table or none at all.
\<close>

subsection \<open>The table\<close>

datatype futureStatus = Pending | Resolved nat | Rejected

text \<open>
  What a goroutine that activates an actor has to do: the actor and its new future, a previous instance to
  close, and the instance once it is born.
\<close>

record stage =
  sg_actor :: NamespacedActorID
  sg_future :: nat
  sg_prev :: "nat option"
  sg_born :: "nat option"

record table =
  tb_actors :: "NamespacedActorID \<rightharpoonup> nat"
  tb_futures :: "nat \<rightharpoonup> futureStatus"
  tb_born :: "nat \<rightharpoonup> NamespacedActorID \<times> nat"
  tb_open :: "nat set"
  tb_next :: nat
  tb_stages :: "nat \<rightharpoonup> stage"
  tb_settling :: "nat \<rightharpoonup> nat \<times> nat option"  \<comment> \<open>futures that a goroutine is about to settle\<close>

inductive tableStep :: "table \<Rightarrow> table \<Rightarrow> bool" where
  install:
    "tb_stages t g = None \<Longrightarrow> f = tb_next t \<Longrightarrow>
     (case prev of None \<Rightarrow> tb_actors t k = None
      | Some x \<Rightarrow> (\<exists>f0. tb_actors t k = Some f0 \<and> tb_futures t f0 = Some (Resolved x))) \<Longrightarrow>
     tableStep t (t\<lparr>tb_actors := (tb_actors t)(k \<mapsto> f), tb_futures := (tb_futures t)(f \<mapsto> Pending), tb_next := Suc f,
       tb_stages := (tb_stages t)(g \<mapsto> \<lparr>sg_actor = k, sg_future = f, sg_prev = prev, sg_born = None\<rparr>)\<rparr>)"
| closed_prev:
    "tb_stages t g = Some st \<Longrightarrow> sg_prev st = Some x \<Longrightarrow>
     tableStep t (t\<lparr>tb_open := tb_open t - {x}, tb_stages := (tb_stages t)(g \<mapsto> st\<lparr>sg_prev := None\<rparr>)\<rparr>)"
| born:
    "tb_stages t g = Some st \<Longrightarrow> sg_prev st = None \<Longrightarrow> sg_born st = None \<Longrightarrow> x = tb_next t \<Longrightarrow>
     tableStep t (t\<lparr>tb_born := (tb_born t)(x \<mapsto> (sg_actor st, sg_future st)), tb_open := insert x (tb_open t),
       tb_next := Suc x, tb_stages := (tb_stages t)(g \<mapsto> st\<lparr>sg_born := Some x\<rparr>)\<rparr>)"
| started:
    "tb_stages t g = Some st \<Longrightarrow> sg_prev st = None \<Longrightarrow> sg_born st = Some x \<Longrightarrow>
     tableStep t (t\<lparr>tb_stages := (tb_stages t)(g := None), tb_settling := (tb_settling t)(g \<mapsto> (sg_future st, Some x))\<rparr>)"
| forgotten:
    "tb_stages t g = Some st \<Longrightarrow> sg_prev st = None \<Longrightarrow> (\<And>x. sg_born st = Some x \<Longrightarrow> x \<notin> tb_open t) \<Longrightarrow>
     tableStep t (t\<lparr>tb_stages := (tb_stages t)(g := None), tb_actors := (tb_actors t)(sg_actor st := None),
       tb_settling := (tb_settling t)(g \<mapsto> (sg_future st, None))\<rparr>)"
| settled:
    "tb_settling t g = Some (f, r) \<Longrightarrow>
     tableStep t (t\<lparr>tb_futures := (tb_futures t)(f \<mapsto> (case r of None \<Rightarrow> Rejected | Some x \<Rightarrow> Resolved x)), tb_settling := (tb_settling t)(g := None)\<rparr>)"
| abandoned:
    "tb_stages t g = Some st \<Longrightarrow> sg_prev st = None \<Longrightarrow>
     tableStep t (t\<lparr>tb_stages := (tb_stages t)(g := None)\<rparr>)"
| closed:
    "tableStep t (t\<lparr>tb_open := tb_open t - {x}\<rparr>)"
| removed:
    "tb_born t x = Some (k, f) \<Longrightarrow> x \<notin> tb_open t \<Longrightarrow> tb_actors t k = Some f \<Longrightarrow>
     (\<And>g st. tb_stages t g = Some st \<Longrightarrow> sg_born st \<noteq> Some x) \<Longrightarrow>
     tableStep t (t\<lparr>tb_actors := (tb_actors t)(k := None)\<rparr>)"

text \<open>Every open instance was born from the current future of its actor, or is the one that the current future replaces.\<close>

definition actorsInv :: "table \<Rightarrow> bool" where
  "actorsInv t \<longleftrightarrow> (\<forall>k f. tb_actors t k = Some f \<longrightarrow> f < tb_next t)
   \<and> (\<forall>k k' f. tb_actors t k = Some f \<longrightarrow> tb_actors t k' = Some f \<longrightarrow> k = k')"

definition futuresInv :: "table \<Rightarrow> bool" where
  "futuresInv t \<longleftrightarrow> (\<forall>f s. tb_futures t f = Some s \<longrightarrow> f < tb_next t)
   \<and> (\<forall>f x. tb_futures t f = Some (Resolved x) \<longrightarrow> (\<exists>k. tb_born t x = Some (k, f)))"

definition bornInv :: "table \<Rightarrow> bool" where
  "bornInv t \<longleftrightarrow> (\<forall>x k f. tb_born t x = Some (k, f) \<longrightarrow> x < tb_next t \<and> f < tb_next t)
   \<and> (\<forall>x x' k k' f. tb_born t x = Some (k, f) \<longrightarrow> tb_born t x' = Some (k', f) \<longrightarrow> x = x')
   \<and> (\<forall>x k k' f. tb_born t x = Some (k, f) \<longrightarrow> tb_actors t k' = Some f \<longrightarrow> k' = k)"

definition stageInv :: "table \<Rightarrow> stage \<Rightarrow> bool" where
  "stageInv t st \<longleftrightarrow> tb_actors t (sg_actor st) = Some (sg_future st) \<and> tb_futures t (sg_future st) = Some Pending
   \<and> (\<forall>x. sg_born st = Some x \<longrightarrow> tb_born t x = Some (sg_actor st, sg_future st))
   \<and> (sg_born st = None \<longrightarrow> (\<forall>x k. tb_born t x \<noteq> Some (k, sg_future st)))
   \<and> (\<forall>x. sg_prev st = Some x \<longrightarrow> sg_born st = None)"

definition stagesInv :: "table \<Rightarrow> bool" where
  "stagesInv t \<longleftrightarrow> (\<forall>g st. tb_stages t g = Some st \<longrightarrow> stageInv t st)
   \<and> (\<forall>g g' st st'. tb_stages t g = Some st \<longrightarrow> tb_stages t g' = Some st' \<longrightarrow> sg_future st = sg_future st' \<longrightarrow> g = g')"

definition settlingInv :: "table \<Rightarrow> bool" where
  "settlingInv t \<longleftrightarrow> (\<forall>g f r. tb_settling t g = Some (f, r) \<longrightarrow> tb_futures t f = Some Pending
     \<and> (\<forall>x. r = Some x \<longrightarrow> (\<exists>k. tb_born t x = Some (k, f))) \<and> (\<forall>g' st. tb_stages t g' = Some st \<longrightarrow> sg_future st \<noteq> f))
   \<and> (\<forall>g g' f r r'. tb_settling t g = Some (f, r) \<longrightarrow> tb_settling t g' = Some (f, r') \<longrightarrow> g = g')"

definition ownedOpen :: "table \<Rightarrow> nat \<Rightarrow> bool" where
  "ownedOpen t x \<longleftrightarrow> (\<exists>k f f'. tb_born t x = Some (k, f) \<and> tb_actors t k = Some f'
     \<and> (f = f' \<or> (\<exists>g st. tb_stages t g = Some st \<and> sg_future st = f' \<and> sg_prev st = Some x)))"

definition tableInv :: "table \<Rightarrow> bool" where
  "tableInv t \<longleftrightarrow> actorsInv t \<and> futuresInv t \<and> bornInv t \<and> stagesInv t \<and> settlingInv t
   \<and> (\<forall>x \<in> tb_open t. ownedOpen t x)"

subsection \<open>The table keeps its invariant\<close>

lemma tableInvD:
  assumes "tableInv t"
  shows "tb_actors t k = Some f \<Longrightarrow> f < tb_next t"
    and "tb_actors t k = Some f \<Longrightarrow> tb_actors t k' = Some f \<Longrightarrow> k = k'"
    and "tb_futures t f = Some s \<Longrightarrow> f < tb_next t"
    and "tb_born t x = Some (k, f) \<Longrightarrow> x < tb_next t" "tb_born t x = Some (k, f) \<Longrightarrow> f < tb_next t"
    and "tb_born t x = Some (k, f) \<Longrightarrow> tb_born t x' = Some (k', f) \<Longrightarrow> x = x'"
    and "tb_born t x = Some (k, f) \<Longrightarrow> tb_actors t k' = Some f \<Longrightarrow> k' = k"
    and "tb_futures t f = Some (Resolved x) \<Longrightarrow> \<exists>k. tb_born t x = Some (k, f)"
    and "tb_stages t g = Some st \<Longrightarrow> tb_actors t (sg_actor st) = Some (sg_future st)"
      "tb_stages t g = Some st \<Longrightarrow> tb_futures t (sg_future st) = Some Pending"
      "tb_stages t g = Some st \<Longrightarrow> sg_born st = Some x \<Longrightarrow> tb_born t x = Some (sg_actor st, sg_future st)"
      "tb_stages t g = Some st \<Longrightarrow> sg_born st = None \<Longrightarrow> tb_born t x \<noteq> Some (k, sg_future st)"
      "tb_stages t g = Some st \<Longrightarrow> sg_prev st = Some x \<Longrightarrow> sg_born st = None"
    and "tb_stages t g = Some st \<Longrightarrow> tb_stages t g' = Some st' \<Longrightarrow> sg_future st = sg_future st' \<Longrightarrow> g = g'"
    and "x \<in> tb_open t \<Longrightarrow> ownedOpen t x"
    and "tb_settling t g = Some (f, r) \<Longrightarrow> tb_futures t f = Some Pending"
      "tb_settling t g = Some (f, Some x) \<Longrightarrow> \<exists>k. tb_born t x = Some (k, f)"
      "tb_settling t g = Some (f, r) \<Longrightarrow> tb_stages t g' = Some st \<Longrightarrow> sg_future st \<noteq> f"
      "tb_settling t g = Some (f, r) \<Longrightarrow> tb_settling t g' = Some (f, r') \<Longrightarrow> g = g'"
proof -
  have i: "actorsInv t" "futuresInv t" "bornInv t" "stagesInv t" "\<forall>x \<in> tb_open t. ownedOpen t x" "settlingInv t"
    using assms by (simp_all add: tableInv_def)
  show "tb_actors t k = Some f \<Longrightarrow> f < tb_next t" using i(1) unfolding actorsInv_def by blast
  show "tb_actors t k = Some f \<Longrightarrow> tb_actors t k' = Some f \<Longrightarrow> k = k'" using i(1) unfolding actorsInv_def by blast
  show "tb_futures t f = Some s \<Longrightarrow> f < tb_next t" using i(2) unfolding futuresInv_def by blast
  show "tb_born t x = Some (k, f) \<Longrightarrow> x < tb_next t" using i(3) unfolding bornInv_def by blast
  show "tb_born t x = Some (k, f) \<Longrightarrow> f < tb_next t" using i(3) unfolding bornInv_def by blast
  show "tb_born t x = Some (k, f) \<Longrightarrow> tb_born t x' = Some (k', f) \<Longrightarrow> x = x'" using i(3) unfolding bornInv_def by blast
  show "tb_born t x = Some (k, f) \<Longrightarrow> tb_actors t k' = Some f \<Longrightarrow> k' = k" using i(3) unfolding bornInv_def by blast
  show "tb_futures t f = Some (Resolved x) \<Longrightarrow> \<exists>k. tb_born t x = Some (k, f)" using i(2) unfolding futuresInv_def by blast
  have st: "tb_stages t g = Some st \<Longrightarrow> stageInv t st" using i(4) unfolding stagesInv_def by blast
  show "tb_stages t g = Some st \<Longrightarrow> tb_actors t (sg_actor st) = Some (sg_future st)"
    "tb_stages t g = Some st \<Longrightarrow> tb_futures t (sg_future st) = Some Pending"
    "tb_stages t g = Some st \<Longrightarrow> sg_born st = Some x \<Longrightarrow> tb_born t x = Some (sg_actor st, sg_future st)"
    "tb_stages t g = Some st \<Longrightarrow> sg_born st = None \<Longrightarrow> tb_born t x \<noteq> Some (k, sg_future st)"
    "tb_stages t g = Some st \<Longrightarrow> sg_prev st = Some x \<Longrightarrow> sg_born st = None"
    using st unfolding stageInv_def by simp_all
  show "tb_stages t g = Some st \<Longrightarrow> tb_stages t g' = Some st' \<Longrightarrow> sg_future st = sg_future st' \<Longrightarrow> g = g'"
    using i(4) unfolding stagesInv_def by blast
  show "x \<in> tb_open t \<Longrightarrow> ownedOpen t x" using i(5) by blast
  have settling: "tb_futures t f = Some Pending \<and> (\<forall>x. r = Some x \<longrightarrow> (\<exists>k. tb_born t x = Some (k, f)))
     \<and> (\<forall>g' st. tb_stages t g' = Some st \<longrightarrow> sg_future st \<noteq> f)" if "tb_settling t g = Some (f, r)" for g f r
    using i(6)[unfolded settlingInv_def, THEN conjunct1] that by (elim allE impE) assumption+
  have uniq: "tb_settling t g = Some (f, r) \<Longrightarrow> tb_settling t g' = Some (f, r') \<Longrightarrow> g = g'" for g f r g' r'
    using i(6)[unfolded settlingInv_def, THEN conjunct2] by blast
  show "tb_settling t g = Some (f, r) \<Longrightarrow> tb_futures t f = Some Pending"
    "tb_settling t g = Some (f, Some x) \<Longrightarrow> \<exists>k. tb_born t x = Some (k, f)"
    "tb_settling t g = Some (f, r) \<Longrightarrow> tb_stages t g' = Some st \<Longrightarrow> sg_future st \<noteq> f"
    "tb_settling t g = Some (f, r) \<Longrightarrow> tb_settling t g' = Some (f, r') \<Longrightarrow> g = g'"
    using settling [of g f r] settling [of g f "Some x"] uniq [of g f r g' r'] by simp_all
qed

lemma stage_lt:
  assumes "tableInv t" "tb_stages t g = Some st"
  shows "sg_future st < tb_next t"
  using tableInvD(1) [OF assms(1) tableInvD(9) [OF assms]] .

text \<open>At most one instance of an actor is open.\<close>

lemma tableInv_single:
  assumes "tableInv t" "x \<in> tb_open t" "y \<in> tb_open t" "tb_born t x = Some (k, f)" "tb_born t y = Some (k, f')"
  shows "x = y"
proof -
  note D = tableInvD [OF assms(1)]
  obtain c where c: "tb_actors t k = Some c"
    "f = c \<or> (\<exists>g st. tb_stages t g = Some st \<and> sg_future st = c \<and> sg_prev st = Some x)"
    using D(15) [OF assms(2)] assms(4) by (auto simp: ownedOpen_def)
  have c': "f' = c \<or> (\<exists>g st. tb_stages t g = Some st \<and> sg_future st = c \<and> sg_prev st = Some y)"
    using D(15) [OF assms(3)] assms(5) c(1) by (auto simp: ownedOpen_def)
  have none: "tb_born t z \<noteq> Some (k', c)" if "tb_stages t g = Some st" "sg_future st = c" "sg_prev st = Some w" for g st w z k'
    using D(12) [OF that(1) D(13) [OF that(1,3)]] that(2) by simp
  show ?thesis
  proof (cases "f = c")
    case True
    then have "f' = c" using c' none assms(4) by blast
    with True show ?thesis using D(6) [OF assms(4)] assms(5) by simp
  next
    case False
    then obtain g st where g: "tb_stages t g = Some st" "sg_future st = c" "sg_prev st = Some x" using c(2) by blast
    then obtain g' st' where g': "tb_stages t g' = Some st'" "sg_future st' = c" "sg_prev st' = Some y"
      using c' none assms(5) by blast
    then have "g = g'" using D(14) [OF g(1) g'(1)] g(2) by simp
    with g g' show ?thesis by simp
  qed
qed

lemma born_fresh: "tableInv t \<Longrightarrow> tb_born t x \<noteq> Some (k, tb_next t)" "tableInv t \<Longrightarrow> tb_born t (tb_next t) = None"
  using tableInvD(4,5) by (metis less_irrefl, metis less_irrefl not_None_eq surj_pair)

lemma fresh_settling: "tableInv t \<Longrightarrow> tb_settling t g \<noteq> Some (tb_next t, r)"
  using tableInvD(3) [OF _ tableInvD(16)] by (metis less_irrefl)

lemma stage_settling: "tableInv t \<Longrightarrow> tb_stages t g = Some st \<Longrightarrow> tb_settling t g' \<noteq> Some (sg_future st, r)"
  using tableInvD(18) by blast

lemma born_stage:
  assumes "tableInv t" "tb_stages t g = Some st" "tb_born t y = Some (k, sg_future st)"
  shows "sg_born st = Some y"
proof (cases "sg_born st")
  case None
  then show ?thesis using tableInvD(12) [OF assms(1,2)] assms(3) by blast
next
  case (Some z)
  have "z = y" using tableInvD(6) [OF assms(1) tableInvD(11) [OF assms(1,2) Some] assms(3)] .
  with Some show ?thesis by simp
qed

text \<open>The stages stay in order if one of them changes.\<close>

lemma stagesInv_upd:
  assumes "tableInv t" "tb_stages t' = (tb_stages t)(g := s)"
    and "\<And>g2 st2. g2 \<noteq> g \<Longrightarrow> tb_stages t g2 = Some st2 \<Longrightarrow> stageInv t' st2"
    and "\<And>st. s = Some st \<Longrightarrow> stageInv t' st"
    and "\<And>st g2 st2. s = Some st \<Longrightarrow> g2 \<noteq> g \<Longrightarrow> tb_stages t g2 = Some st2 \<Longrightarrow> sg_future st2 \<noteq> sg_future st"
  shows "stagesInv t'"
proof -
  have "stageInv t' st" if "tb_stages t' g2 = Some st" for g2 st
    using that assms(2,3,4) by (cases "g2 = g") auto
  moreover have "g2 = g3" if "tb_stages t' g2 = Some st2" "tb_stages t' g3 = Some st3" "sg_future st2 = sg_future st3" for g2 g3 st2 st3
    using that assms(2,5) tableInvD(14) [OF assms(1)] by (cases "g2 = g"; cases "g3 = g") fastforce+
  ultimately show ?thesis unfolding stagesInv_def by blast
qed

lemma install_inv:
  assumes inv: "tableInv t" and "tb_stages t g = None"
    and prev: "case prev of None \<Rightarrow> tb_actors t k = None
      | Some x \<Rightarrow> (\<exists>f0. tb_actors t k = Some f0 \<and> tb_futures t f0 = Some (Resolved x))"
  shows "tableInv (t\<lparr>tb_actors := (tb_actors t)(k \<mapsto> tb_next t), tb_futures := (tb_futures t)(tb_next t \<mapsto> Pending),
    tb_next := Suc (tb_next t),
    tb_stages := (tb_stages t)(g \<mapsto> \<lparr>sg_actor = k, sg_future = tb_next t, sg_prev = prev, sg_born = None\<rparr>)\<rparr>)" (is "tableInv ?t")
proof -
  note D = tableInvD [OF inv] and L = stage_lt [OF inv]
  have k: "sg_actor st \<noteq> k" if "tb_stages t g' = Some st" for g' st
    using D(9) [OF that] D(10) [OF that] prev by (auto split: option.splits)
  have "actorsInv ?t" unfolding actorsInv_def using D(1,2) by (auto simp: less_Suc_eq)
  moreover have "futuresInv ?t" unfolding futuresInv_def using D(3,8) by (auto simp: less_Suc_eq)
  moreover have "bornInv ?t" unfolding bornInv_def using D(4-7) born_fresh(1) [OF inv] by (auto simp: less_Suc_eq)
  moreover have "settlingInv ?t" unfolding settlingInv_def using D(16-19) fresh_settling [OF inv] by (auto split: if_splits)
  moreover have "stagesInv ?t"
  proof (rule stagesInv_upd [OF inv])
    show "stageInv ?t st" if "tb_stages t g' = Some st" for g' st
      using D(9-13) [OF that] k [OF that] L [OF that] by (auto simp: stageInv_def)
    show "stageInv ?t st" if "Some \<lparr>sg_actor = k, sg_future = tb_next t, sg_prev = prev, sg_born = None\<rparr> = Some st" for st
      using D(5) that by (fastforce simp: stageInv_def)
    show "sg_future st2 \<noteq> sg_future st"
      if "Some \<lparr>sg_actor = k, sg_future = tb_next t, sg_prev = prev, sg_born = None\<rparr> = Some st" "tb_stages t g2 = Some st2" for st g2 st2
      using that L [OF that(2)] by auto
  qed simp
  moreover have "ownedOpen ?t x" if open_x: "x \<in> tb_open t" for x
  proof -
    obtain k' f c where o: "tb_born t x = Some (k', f)" "tb_actors t k' = Some c"
      "f = c \<or> (\<exists>g st. tb_stages t g = Some st \<and> sg_future st = c \<and> sg_prev st = Some x)"
      using D(15) [OF open_x] unfolding ownedOpen_def by blast
    show ?thesis
    proof (cases "k' = k")
      case False
      then show ?thesis using o assms(2) unfolding ownedOpen_def by auto (metis option.distinct(1))
    next
      case True
      then obtain y where y: "prev = Some y" "tb_futures t c = Some (Resolved y)" using o(2) prev by (auto split: option.splits)
      have "f = c" using o(3) D(10) y(2) by fastforce
      then have "y = x" using D(8) [OF y(2)] D(6) [OF o(1)] by auto
      then show ?thesis using o(1) True y(1) unfolding ownedOpen_def by auto
    qed
  qed
  ultimately show ?thesis by (simp add: tableInv_def)
qed

text \<open>A goroutine moves on; nothing but its stage changes.\<close>

lemma stage_update:
  assumes inv: "tableInv t" and g: "tb_stages t g = Some st"
    and st': "st' = None \<or> (\<exists>b. st' = Some (st\<lparr>sg_prev := None\<rparr>))" and "sg_prev st = None \<or> sg_prev st = Some x"
  shows "tableInv (t\<lparr>tb_open := tb_open t - (case sg_prev st of None \<Rightarrow> {} | Some y \<Rightarrow> {y}), tb_stages := (tb_stages t)(g := st')\<rparr>)"
    (is "tableInv ?t")
proof -
  note D = tableInvD [OF inv]
  have "actorsInv ?t" "futuresInv ?t" "bornInv ?t" using inv by (simp_all add: tableInv_def actorsInv_def futuresInv_def bornInv_def)
  moreover have "stagesInv ?t"
  proof -
    have keep: "stageInv ?t st2" if "tb_stages t g2 = Some st2" for g2 st2 using D(9-13) [OF that] by (auto simp: stageInv_def)
    moreover have "stageInv ?t (st\<lparr>sg_prev := None\<rparr>)" using keep [OF g] by (simp add: stageInv_def)
    ultimately show ?thesis unfolding stagesInv_def using D(14) g st' by (auto split: if_splits)
  qed
  moreover have "settlingInv ?t" unfolding settlingInv_def using D(16-19) stage_settling [OF inv g] st' by (auto split: if_splits)
  moreover have "ownedOpen ?t y" if y: "y \<in> tb_open ?t" for y
  proof -
    have "y \<in> tb_open t" "sg_prev st \<noteq> Some y" using y by (auto split: option.splits)
    with D(15) [OF this(1)] g st' show ?thesis unfolding ownedOpen_def by auto (metis option.inject)+
  qed
  ultimately show ?thesis by (simp add: tableInv_def)
qed

lemma born_inv:
  assumes inv: "tableInv t" and g: "tb_stages t g = Some st" and st: "sg_prev st = None" "sg_born st = None"
  shows "tableInv (t\<lparr>tb_born := (tb_born t)(tb_next t \<mapsto> (sg_actor st, sg_future st)), tb_open := insert (tb_next t) (tb_open t),
    tb_next := Suc (tb_next t), tb_stages := (tb_stages t)(g \<mapsto> st\<lparr>sg_born := Some (tb_next t)\<rparr>)\<rparr>)" (is "tableInv ?t")
proof -
  note D = tableInvD [OF inv] and F = born_fresh [OF inv]
  have none: "tb_born t x \<noteq> Some (k, sg_future st)" for x k using D(12) [OF g st(2)] .
  have "actorsInv ?t" unfolding actorsInv_def using D(1,2) by (auto simp: less_Suc_eq)
  moreover have "futuresInv ?t" unfolding futuresInv_def using D(3,8) F(2) by (auto simp: less_Suc_eq) (metis option.distinct(1))
  moreover have "bornInv ?t"
    unfolding bornInv_def using D(4-7) none D(2) [OF D(9) [OF g]] stage_lt [OF inv g] by (auto simp: less_Suc_eq)
  moreover have "stagesInv ?t"
  proof -
    have "stageInv ?t st2" if "tb_stages t g2 = Some st2" "g2 \<noteq> g" for g2 st2
    proof -
      have "sg_future st2 \<noteq> sg_future st" using D(14) [OF that(1) g] that(2) by blast
      then show ?thesis using D(9-13) [OF that(1)] F(2) by (auto simp: stageInv_def)
    qed
    moreover have "stageInv ?t (st\<lparr>sg_born := Some (tb_next t)\<rparr>)" using D(9,10) [OF g] st by (simp add: stageInv_def)
    ultimately show ?thesis unfolding stagesInv_def using D(14) g by (auto split: if_splits)
  qed
  moreover have "settlingInv ?t"
    unfolding settlingInv_def using D(16-19) stage_settling [OF inv g] F(2) by (auto split: if_splits) (metis option.distinct(1))
  moreover have "ownedOpen ?t x" if x: "x \<in> tb_open ?t" for x
  proof (cases "x = tb_next t")
    case True
    then show ?thesis using D(9) [OF g] by (auto simp: ownedOpen_def)
  next
    case False
    then have "ownedOpen t x" using x D(15) by simp
    then show ?thesis using False g st(1) unfolding ownedOpen_def by auto (metis option.distinct(1) option.inject)
  qed
  ultimately show ?thesis by (simp add: tableInv_def)
qed

lemma settling_add:
  assumes inv: "tableInv t" and f: "tb_futures t f = Some Pending" "\<And>x. r = Some x \<Longrightarrow> \<exists>k. tb_born t x = Some (k, f)"
    and new: "\<And>g' st. tb_stages t g' = Some st \<Longrightarrow> sg_future st \<noteq> f" "\<And>g' r'. tb_settling t g' \<noteq> Some (f, r')"
  shows "tableInv (t\<lparr>tb_settling := (tb_settling t)(g \<mapsto> (f, r))\<rparr>)" (is "tableInv ?t")
proof -
  note D = tableInvD [OF inv]
  have "settlingInv ?t" unfolding settlingInv_def using D(16-19) f new by (auto split: if_splits)
  then show ?thesis using inv
    by (simp add: tableInv_def actorsInv_def futuresInv_def bornInv_def stagesInv_def stageInv_def ownedOpen_def)
qed

lemma started_inv:
  assumes inv: "tableInv t" and g: "tb_stages t g = Some st" and st: "sg_prev st = None" "sg_born st = Some x"
  shows "tableInv (t\<lparr>tb_stages := (tb_stages t)(g := None), tb_settling := (tb_settling t)(g \<mapsto> (sg_future st, Some x))\<rparr>)"
proof -
  note D = tableInvD [OF inv]
  have "tableInv (t\<lparr>tb_stages := (tb_stages t)(g := None)\<rparr>)" using stage_update [OF inv g, of None] st(1) by simp
  from settling_add [OF this, of "sg_future st" "Some x" g] show ?thesis
    using D(10) [OF g] D(11) [OF g st(2)] D(14) [OF _ g] stage_settling [OF inv g] by (fastforce split: if_splits)
qed

lemma forgotten_inv:
  assumes inv: "tableInv t" and g: "tb_stages t g = Some st" and st: "sg_prev st = None" "\<And>x. sg_born st = Some x \<Longrightarrow> x \<notin> tb_open t"
  shows "tableInv (t\<lparr>tb_stages := (tb_stages t)(g := None), tb_actors := (tb_actors t)(sg_actor st := None),
    tb_settling := (tb_settling t)(g \<mapsto> (sg_future st, None))\<rparr>)"
proof -
  let ?t = "t\<lparr>tb_stages := (tb_stages t)(g := None), tb_actors := (tb_actors t)(sg_actor st := None)\<rparr>"
  note D = tableInvD [OF inv]
  have "actorsInv ?t" unfolding actorsInv_def using D(1,2) by auto
  moreover have "bornInv ?t" unfolding bornInv_def using D(4-7) by auto
  moreover have "futuresInv ?t" unfolding futuresInv_def using D(3,8) by auto
  moreover have "settlingInv ?t" unfolding settlingInv_def using D(16-19) by (auto split: if_splits)
  moreover have other: "sg_future st2 \<noteq> sg_future st" "sg_actor st2 \<noteq> sg_actor st"
    if "tb_stages t g2 = Some st2" "g2 \<noteq> g" for g2 st2
    using D(14) [OF that(1) g] that(2) D(9) [OF that(1)] D(9) [OF g] by auto
  moreover have "stagesInv ?t"
  proof -
    have "stageInv ?t st2" if "tb_stages t g2 = Some st2" "g2 \<noteq> g" for g2 st2
      using D(9-13) [OF that(1)] other [OF that] by (auto simp: stageInv_def)
    then show ?thesis unfolding stagesInv_def using D(14) by (auto split: if_splits)
  qed
  moreover have "ownedOpen ?t y" if y: "y \<in> tb_open ?t" for y
  proof -
    have o: "ownedOpen t y" "sg_born st \<noteq> Some y" using y D(15) st(2) by auto
    obtain k f c where b: "tb_born t y = Some (k, f)" "tb_actors t k = Some c"
      "f = c \<or> (\<exists>g st. tb_stages t g = Some st \<and> sg_future st = c \<and> sg_prev st = Some y)" using o(1) unfolding ownedOpen_def by blast
    have "k \<noteq> sg_actor st"
    proof
      assume k: "k = sg_actor st"
      then have c: "c = sg_future st" using b(2) D(9) [OF g] by simp
      show False
      proof (cases "f = c")
        case True
        then show ?thesis using born_stage [OF inv g, of y k] b(1) c o(2) by simp
      next
        case False
        then obtain g2 st2 where "tb_stages t g2 = Some st2" "sg_future st2 = c" "sg_prev st2 = Some y" using b(3) by blast
        then show ?thesis using D(14) [OF _ g] c g st(1) by fastforce
      qed
    qed
    moreover have "f = c \<or> (\<exists>g2 st2. g2 \<noteq> g \<and> tb_stages t g2 = Some st2 \<and> sg_future st2 = c \<and> sg_prev st2 = Some y)"
      using b(3) g st(1) by (metis option.distinct(1) option.inject)
    ultimately show ?thesis using b(1,2) unfolding ownedOpen_def by fastforce
  qed
  ultimately have "tableInv ?t" by (simp add: tableInv_def)
  from settling_add [OF this, of "sg_future st" None g] show ?thesis
    using D(10) [OF g] D(14) [OF _ g] stage_settling [OF inv g] by (fastforce split: if_splits)
qed

lemma settled_inv:
  assumes inv: "tableInv t" and g: "tb_settling t g = Some (f, r)"
  shows "tableInv (t\<lparr>tb_futures := (tb_futures t)(f \<mapsto> (case r of None \<Rightarrow> Rejected | Some x \<Rightarrow> Resolved x)), tb_settling := (tb_settling t)(g := None)\<rparr>)"
    (is "tableInv ?t")
proof -
  note D = tableInvD [OF inv]
  have "actorsInv ?t" "bornInv ?t" using inv by (simp_all add: tableInv_def actorsInv_def bornInv_def)
  moreover have "futuresInv ?t"
    unfolding futuresInv_def using D(3,8) D(3) [OF D(16) [OF g]] D(17) [of g f] g by (auto split: option.splits)
  moreover have "stagesInv ?t"
  proof -
    have "stageInv ?t st" if "tb_stages t g2 = Some st" for g2 st
      using D(9-13) [OF that] D(18) [OF g that] by (auto simp: stageInv_def)
    then show ?thesis unfolding stagesInv_def using D(14) by auto
  qed
  moreover have "settlingInv ?t" unfolding settlingInv_def using D(16-19) D(19) [OF g] by (auto split: if_splits)
  moreover have "ownedOpen ?t y" if "y \<in> tb_open ?t" for y
    using D(15) [of y] that unfolding ownedOpen_def by auto
  ultimately show ?thesis by (simp add: tableInv_def)
qed

lemma removed_inv:
  assumes inv: "tableInv t" and x: "tb_born t x = Some (k, f)" "x \<notin> tb_open t" "tb_actors t k = Some f"
    and "\<And>g st. tb_stages t g = Some st \<Longrightarrow> sg_born st \<noteq> Some x"
  shows "tableInv (t\<lparr>tb_actors := (tb_actors t)(k := None)\<rparr>)" (is "tableInv ?t")
proof -
  note D = tableInvD [OF inv]
  have st: "sg_future st \<noteq> f" "sg_actor st \<noteq> k" if "tb_stages t g = Some st" for g st
  proof -
    show *: "sg_future st \<noteq> f"
      using born_stage [OF inv that, of x k] x(1) assms(5) [OF that] by blast
    show "sg_actor st \<noteq> k" using D(9) [OF that] x(3) * by auto
  qed
  have "actorsInv ?t" unfolding actorsInv_def using D(1,2) by auto
  moreover have "bornInv ?t" unfolding bornInv_def using D(4-7) by auto
  moreover have "futuresInv ?t" unfolding futuresInv_def using D(3,8) by auto
  moreover have "stagesInv ?t"
  proof -
    have "stageInv ?t st'" if "tb_stages t g = Some st'" for g st'
      using D(9-13) [OF that] st(2) [OF that] by (auto simp: stageInv_def)
    then show ?thesis unfolding stagesInv_def using D(14) by auto
  qed
  moreover have "settlingInv ?t" unfolding settlingInv_def using D(16-19) by auto
  moreover have "ownedOpen ?t y" if open_y: "y \<in> tb_open t" for y
  proof -
    obtain k' f' c where b: "tb_born t y = Some (k', f')" "tb_actors t k' = Some c"
      "f' = c \<or> (\<exists>g st. tb_stages t g = Some st \<and> sg_future st = c \<and> sg_prev st = Some y)"
      using D(15) [OF open_y] unfolding ownedOpen_def by blast
    have "k' \<noteq> k"
    proof
      assume "k' = k"
      then have "f' = f" using b x(3) st(1) by auto
      then show False using D(6) [OF b(1), of x k] x(1,2) open_y by simp
    qed
    with b show ?thesis unfolding ownedOpen_def by auto
  qed
  ultimately show ?thesis by (simp add: tableInv_def)
qed

lemma closed_inv: "tableInv t \<Longrightarrow> tableInv (t\<lparr>tb_open := tb_open t - X\<rparr>)"
  by (auto simp: tableInv_def actorsInv_def futuresInv_def bornInv_def stagesInv_def stageInv_def settlingInv_def ownedOpen_def)

lemma tableStep_inv:
  assumes "tableStep t t'" "tableInv t"
  shows "tableInv t'"
  using assms
proof (cases rule: tableStep.cases)
  case (install g f prev k)
  then show ?thesis using install_inv [OF assms(2)] by simp
next
  case (closed_prev g st x)
  then show ?thesis using stage_update [OF assms(2), of g st "Some (st\<lparr>sg_prev := None\<rparr>)" x] by simp
next
  case (born g st x)
  then show ?thesis using born_inv [OF assms(2)] by simp
next
  case (started g st x)
  then show ?thesis using started_inv [OF assms(2)] by simp
next
  case (forgotten g st)
  then show ?thesis using forgotten_inv [OF assms(2)] by simp
next
  case (settled g f r)
  then show ?thesis using settled_inv [OF assms(2)] by simp
next
  case (abandoned g st)
  then show ?thesis using stage_update [OF assms(2), of g st None] by simp
next
  case (closed x)
  then show ?thesis using closed_inv [OF assms(2)] by simp
next
  case (removed x k f)
  then show ?thesis using removed_inv [OF assms(2)] by simp
qed

subsection \<open>The goroutines\<close>

text \<open>Where a goroutine can be overtaken.\<close>

datatype pc =
    PStart actorReferenceVirtual bool  \<comment> \<open>before the first lock of \<open>invoke\<close>\<close>
  | PWaiting actorReferenceVirtual bool nat  \<comment> \<open>in \<open>actorF.Wait()\<close>\<close>
  | PRelock actorReferenceVirtual nat nat  \<comment> \<open>before the second lock\<close>
  | PClosePrev actorReferenceVirtual nat nat  \<comment> \<open>new future installed; before \<open>prevActor.close\<close>\<close>
  | PPanicked actorReferenceVirtual nat nat  \<comment> \<open>dead: the shutdown operation of the previous actor panicked\<close>
  | PEnsure actorReferenceVirtual nat  \<comment> \<open>before \<open>ensureModule\<close>\<close>
  | PInstantiate actorReferenceVirtual nat  \<comment> \<open>in \<open>module.Instantiate\<close>\<close>
  | PCreated actorReferenceVirtual nat nat  \<comment> \<open>in \<open>newActivatedActor\<close>, its timer started; before the lock of the startup operation\<close>
  | PStartup actorReferenceVirtual nat nat  \<comment> \<open>in the startup operation, with the lock of the actor\<close>
  | PStartupFailed actorReferenceVirtual nat nat  \<comment> \<open>before \<open>a.close\<close> in \<open>newActivatedActor\<close>\<close>
  | PForget actorReferenceVirtual nat "nat option"  \<comment> \<open>failed; before the deferred \<open>delete\<close>\<close>
  | PSettle nat "nat option"  \<comment> \<open>before the future is resolved or rejected\<close>
  | PInvoke nat  \<comment> \<open>before the lock of \<open>activatedActor.invoke\<close>\<close>
  | PRunning nat  \<comment> \<open>in the operation, with the lock of the actor\<close>
  | PGcRemove nat  \<comment> \<open>a timer has closed its actor; before \<open>onGc\<close>, with the lock of the actor\<close>
  | PDone

fun nextPc :: "actorReferenceVirtual \<Rightarrow> bool \<Rightarrow> nat \<Rightarrow> invokeNext \<Rightarrow> pc" where
  "nextPc ref timer fut ReturnNil = PDone"
| "nextPc ref timer fut (ActivateNow None) = PEnsure ref fut"
| "nextPc ref timer fut (ActivateNow (Some x)) = PClosePrev ref fut x"
| "nextPc ref timer fut (WaitFor f) = PWaiting ref timer f"
| "nextPc ref timer fut (InvokeNow x) = PInvoke x"
| "nextPc ref timer fut (Regenerate f x) = PRelock ref f x"
| "nextPc ref timer fut (ReturnErr e) = PDone"

fun activates :: "invokeNext \<Rightarrow> bool" where
  "activates (ActivateNow prev) = True"
| "activates _ = False"

definition setObject :: "nat \<Rightarrow> 's activatedActor \<Rightarrow> 's activations \<Rightarrow> 's activations" where
  "setObject x obj a = a\<lparr>as_objects := (as_objects a)(x \<mapsto> obj)\<rparr>"

definition newObject :: "int \<Rightarrow> 's Actor \<Rightarrow> actorReferenceVirtual \<Rightarrow> nat \<Rightarrow> 's activations \<Rightarrow> 's activatedActor" where
  "newObject now actor ref fut a =
     \<lparr>aa_a = actor, aa_reference = ref, aa_closed = False, aa_lastInvoke = now, aa_gcAfter = as_gcActorsAfter a,
      aa_gcTimer = now + as_gcActorsAfter a, aa_gcChecks = [], aa_locked = False, aa_onGc = fut\<rparr>"

definition settled :: "nat \<Rightarrow> nat option \<Rightarrow> goerr option \<Rightarrow> 's activations \<Rightarrow> 's activations" where
  "settled fut result err a =
     (case as_futures a fut of
        None \<Rightarrow> a
      | Some f \<Rightarrow> a\<lparr>as_futures := (as_futures a)(fut \<mapsto> snd (futureSettle result err f))\<rparr>)"

type_synonym 's server = "'s activations \<times> (nat \<rightharpoonup> pc)"

text \<open>
  The steps. A goroutine that has failed to activate an actor deletes the entry of the actor without the mutex, and settles its
  future after that: both are steps of their own.
\<close>

inductive raceStep :: "'s server \<Rightarrow> 's server \<Rightarrow> bool" where
  call: "P g = None \<Longrightarrow> raceStep (a, P) (a, P(g \<mapsto> PStart ref timer))"
| lookup:
    "P g = Some (PStart ref timer) \<Longrightarrow> \<not> as_locked a \<Longrightarrow> n = invokeLookup ref timer a \<Longrightarrow>
     raceStep (a, P) (if activates n then installFuture ref a else a, P(g \<mapsto> nextPc ref timer (as_next a) n))"
| waited:
    "P g = Some (PWaiting ref timer f) \<Longrightarrow> as_futures a f = Some fu \<Longrightarrow> futureWait fu = Ret (Some x) \<Longrightarrow>
     as_objects a x = Some obj \<Longrightarrow>
     raceStep (a, P) (a, P(g \<mapsto> nextPc ref timer (as_next a) (invokeWaited ref timer f x obj)))"
| waited_err:
    "P g = Some (PWaiting ref timer f) \<Longrightarrow> as_futures a f = Some fu \<Longrightarrow> futureWait fu = Fail e \<Longrightarrow>
     raceStep (a, P) (a, P(g \<mapsto> PDone))"
| relock:
    "P g = Some (PRelock ref f x) \<Longrightarrow> \<not> as_locked a \<Longrightarrow> as_objects a x = Some obj \<Longrightarrow>
     n = invokeRelock ref f x obj a \<Longrightarrow>
     raceStep (a, P) (if activates n then installFuture ref a else a\<lparr>as_locked := True\<rparr>,
       P(g \<mapsto> nextPc ref False (as_next a) n))"
| close_prev:
    "P g = Some (PClosePrev ref f x) \<Longrightarrow> as_objects a x = Some obj \<Longrightarrow> \<not> aa_locked obj \<Longrightarrow>
     raceStep (a, P) (setObject x (obj\<lparr>aa_closed := True\<rparr>) a, P(g \<mapsto> PEnsure ref f))"
| close_prev_panic:
    "P g = Some (PClosePrev ref f x) \<Longrightarrow> as_objects a x = Some obj \<Longrightarrow> \<not> aa_locked obj \<Longrightarrow> \<not> aa_closed obj \<Longrightarrow>
     raceStep (a, P) (a, P(g \<mapsto> PPanicked ref f x))"
| ensured:
    "P g = Some (PEnsure ref f) \<Longrightarrow> \<not> as_locked a \<Longrightarrow>
     raceStep (a, P) (a\<lparr>as_modules := modules\<rparr>, P(g \<mapsto> PInstantiate ref f))"
| ensure_failed:
    "P g = Some (PEnsure ref f) \<Longrightarrow> \<not> as_locked a \<Longrightarrow>
     raceStep (a, P) (a, P(g \<mapsto> PForget ref f None))"
| activation_panic:
    "P g = Some (PEnsure ref f) \<or> P g = Some (PInstantiate ref f) \<Longrightarrow> raceStep (a, P) (a, P(g \<mapsto> PDone))"
| instantiated:
    "P g = Some (PInstantiate ref f) \<Longrightarrow> x = as_next a \<Longrightarrow>
     raceStep (a, P) (setObject x (newObject now actor ref f a) (a\<lparr>as_next := Suc x\<rparr>), P(g \<mapsto> PCreated ref f x))"
| instantiate_failed:
    "P g = Some (PInstantiate ref f) \<Longrightarrow> raceStep (a, P) (a, P(g \<mapsto> PForget ref f None))"
| startup_begin:
    "P g = Some (PCreated ref f x) \<Longrightarrow> as_objects a x = Some obj \<Longrightarrow> \<not> aa_locked obj \<Longrightarrow>
     invokeEnter now False obj = (Ret (), obj') \<Longrightarrow>
     raceStep (a, P) (setObject x (obj'\<lparr>aa_locked := True\<rparr>) a, P(g \<mapsto> PStartup ref f x))"
| startup_refused:
    "P g = Some (PCreated ref f x) \<Longrightarrow> as_objects a x = Some obj \<Longrightarrow> \<not> aa_locked obj \<Longrightarrow> aa_closed obj \<Longrightarrow>
     raceStep (a, P) (a, P(g \<mapsto> PStartupFailed ref f x))"
| started:
    "P g = Some (PStartup ref f x) \<Longrightarrow> as_objects a x = Some obj \<Longrightarrow>
     raceStep (a, P) (setObject x (obj\<lparr>aa_locked := False\<rparr>) a, P(g \<mapsto> PSettle f (Some x)))"
| startup_failed:
    "P g = Some (PStartup ref f x) \<Longrightarrow> as_objects a x = Some obj \<Longrightarrow>
     raceStep (a, P) (setObject x (obj\<lparr>aa_locked := False\<rparr>) a, P(g \<mapsto> PStartupFailed ref f x))"
| startup_closed:
    "P g = Some (PStartupFailed ref f x) \<Longrightarrow> as_objects a x = Some obj \<Longrightarrow> \<not> aa_locked obj \<Longrightarrow>
     raceStep (a, P) (setObject x (obj\<lparr>aa_closed := True\<rparr>) a, P(g \<mapsto> PForget ref f (Some x)))"
| forget:
    "P g = Some (PForget ref f b) \<Longrightarrow> raceStep (a, P) (forgetActor ref a, P(g \<mapsto> PSettle f None))"
| resolve:
    "P g = Some (PSettle f (Some x)) \<Longrightarrow> raceStep (a, P) (settled f (Some x) None a, P(g \<mapsto> PInvoke x))"
| reject:
    "P g = Some (PSettle f None) \<Longrightarrow> raceStep (a, P) (settled f None (Some e) a, P(g \<mapsto> PDone))"
| startup_panic:
    "P g = Some (PStartup ref f x) \<Longrightarrow> as_objects a x = Some obj \<Longrightarrow>
     raceStep (a, P) (setObject x (obj\<lparr>aa_locked := False\<rparr>) a, P(g \<mapsto> PDone))"
| invoke_closed:
    "P g = Some (PInvoke x) \<Longrightarrow> as_objects a x = Some obj \<Longrightarrow> \<not> aa_locked obj \<Longrightarrow> aa_closed obj \<Longrightarrow>
     raceStep (a, P) (a, P(g \<mapsto> PDone))"
| invoke_begin:
    "P g = Some (PInvoke x) \<Longrightarrow> as_objects a x = Some obj \<Longrightarrow> \<not> aa_locked obj \<Longrightarrow>
     invokeEnter now False obj = (Ret (), obj') \<Longrightarrow>
     raceStep (a, P) (setObject x (obj'\<lparr>aa_locked := True\<rparr>) a, P(g \<mapsto> PRunning x))"
| invoke_end:
    "P g = Some (PRunning x) \<Longrightarrow> as_objects a x = Some obj \<Longrightarrow>
     raceStep (a, P) (setObject x (obj\<lparr>aa_locked := False\<rparr>) a, P(g \<mapsto> PDone))"
| gc_close:
    "P g = None \<Longrightarrow> as_objects a x = Some obj \<Longrightarrow> \<not> aa_locked obj \<Longrightarrow> \<not> aa_closed obj \<Longrightarrow>
     now - aa_lastInvoke obj > aa_gcAfter obj \<Longrightarrow>
     raceStep (a, P) (setObject x (obj\<lparr>aa_closed := True, aa_locked := True\<rparr>) a, P(g \<mapsto> PGcRemove x))"
| gc_remove:
    "P g = Some (PGcRemove x) \<Longrightarrow> as_objects a x = Some obj \<Longrightarrow>
     onGc (refActorID (aa_reference obj)) (aa_onGc obj) (setObject x (obj\<lparr>aa_locked := False\<rparr>) a) = (Ret (), a') \<Longrightarrow>
     raceStep (a, P) (a', P(g \<mapsto> PDone))"

text \<open>A new server, and the states that it reaches.\<close>

inductive reaches :: "'s server \<Rightarrow> bool" where
  start: "newActivations reg fns gc = Ret a \<Longrightarrow> reaches (a, Map.empty)"
| step: "reaches S \<Longrightarrow> raceStep S S' \<Longrightarrow> reaches S'"

text \<open>
  The timer of an actor runs from the moment it is created, so that it can collect the actor before its startup operation has begun, or between
  the failure of that operation and \<open>a.close\<close>. A calm history is one in which this does not happen: the idle time
  is longer than an activation takes.
\<close>

fun activating :: "pc \<Rightarrow> nat option" where
  "activating (PCreated ref f x) = Some x"
| "activating (PStartupFailed ref f x) = Some x"
| "activating _ = None"

definition calm :: "'s server \<Rightarrow> 's server \<Rightarrow> bool" where
  "calm S S' \<longleftrightarrow> (\<forall>g x. snd S g = None \<and> snd S' g = Some (PGcRemove x) \<longrightarrow> (\<forall>g' p. snd S g' = Some p \<longrightarrow> activating p \<noteq> Some x))"

definition calmStep :: "'s server \<Rightarrow> 's server \<Rightarrow> bool" where
  "calmStep S S' \<longleftrightarrow> raceStep S S' \<and> calm S S'"

inductive calmReach :: "'s server \<Rightarrow> bool" where
  start: "newActivations reg fns gc = Ret a \<Longrightarrow> calmReach (a, Map.empty)"
| step: "calmReach S \<Longrightarrow> calmStep S S' \<Longrightarrow> calmReach S'"

lemma calmReach_steps: "calmStep\<^sup>*\<^sup>* S S' \<Longrightarrow> calmReach S \<Longrightarrow> calmReach S'"
  by (induction rule: rtranclp_induct) (auto intro: calmReach.step)

lemma reaches_steps: "calmStep\<^sup>*\<^sup>* S S' \<Longrightarrow> reaches S \<Longrightarrow> reaches S'"
  by (induction rule: rtranclp_induct) (auto intro: reaches.step simp: calmStep_def)

lemma calm_move: "(\<And>x. p \<noteq> PGcRemove x) \<Longrightarrow> calm (a, P) (a', P(g \<mapsto> p))"
  by (auto simp: calm_def)

subsection \<open>The code refines the table\<close>

definition futStatus :: "nat future \<Rightarrow> futureStatus" where
  "futStatus fu =
     (if \<not> fu_resolved fu then Pending
      else case fu_err fu of Some e \<Rightarrow> Rejected | None \<Rightarrow> (case fu_result fu of Some x \<Rightarrow> Resolved x | None \<Rightarrow> Rejected))"

fun stageOf :: "pc \<Rightarrow> stage option" where
  "stageOf (PClosePrev ref f x) = Some \<lparr>sg_actor = refActorID ref, sg_future = f, sg_prev = Some x, sg_born = None\<rparr>"
| "stageOf (PPanicked ref f x) = Some \<lparr>sg_actor = refActorID ref, sg_future = f, sg_prev = Some x, sg_born = None\<rparr>"
| "stageOf (PEnsure ref f) = Some \<lparr>sg_actor = refActorID ref, sg_future = f, sg_prev = None, sg_born = None\<rparr>"
| "stageOf (PInstantiate ref f) = Some \<lparr>sg_actor = refActorID ref, sg_future = f, sg_prev = None, sg_born = None\<rparr>"
| "stageOf (PStartup ref f x) = Some \<lparr>sg_actor = refActorID ref, sg_future = f, sg_prev = None, sg_born = Some x\<rparr>"
| "stageOf (PCreated ref f x) = Some \<lparr>sg_actor = refActorID ref, sg_future = f, sg_prev = None, sg_born = Some x\<rparr>"
| "stageOf (PStartupFailed ref f x) = Some \<lparr>sg_actor = refActorID ref, sg_future = f, sg_prev = None, sg_born = Some x\<rparr>"
| "stageOf (PForget ref f b) = Some \<lparr>sg_actor = refActorID ref, sg_future = f, sg_prev = None, sg_born = b\<rparr>"
| "stageOf _ = None"

fun settleOf :: "pc \<Rightarrow> (nat \<times> nat option) option" where
  "settleOf (PSettle f r) = Some (f, r)"
| "settleOf _ = None"

lemma settleOf_nextPc [simp]: "settleOf (nextPc ref timer fut n) = None"
  by (cases n rule: activates.cases; cases "(ref, timer, fut, n)" rule: nextPc.cases) simp_all

definition bornOf :: "pc \<Rightarrow> nat option" where
  "bornOf p = Option.bind (stageOf p) sg_born"

definition bornAs :: "'s activatedActor \<Rightarrow> NamespacedActorID \<times> nat" where
  "bornAs obj = (refActorID (aa_reference obj), aa_onGc obj)"

definition openObjects :: "(nat \<rightharpoonup> 's activatedActor) \<Rightarrow> nat set" where
  "openObjects objs = {x. \<exists>obj. objs x = Some obj \<and> \<not> aa_closed obj}"

definition stagesOf :: "(nat \<rightharpoonup> pc) \<Rightarrow> nat \<rightharpoonup> stage" where
  "stagesOf P g = Option.bind (P g) stageOf"

definition settlingOf :: "(nat \<rightharpoonup> pc) \<Rightarrow> nat \<rightharpoonup> nat \<times> nat option" where
  "settlingOf P g = Option.bind (P g) settleOf"

definition tableOf :: "'s server \<Rightarrow> table" where
  "tableOf S =
     (let (a, P) = S in
      \<lparr>tb_actors = as_actors a, tb_futures = map_option futStatus \<circ> as_futures a, tb_born = map_option bornAs \<circ> as_objects a,
       tb_open = openObjects (as_objects a), tb_next = as_next a, tb_stages = stagesOf P, tb_settling = settlingOf P\<rparr>)"

lemma tableOf_simps [simp]:
  "tb_actors (tableOf (a, P)) = as_actors a"
  "tb_futures (tableOf (a, P)) = map_option futStatus \<circ> as_futures a"
  "tb_born (tableOf (a, P)) = map_option bornAs \<circ> as_objects a"
  "tb_open (tableOf (a, P)) = openObjects (as_objects a)"
  "tb_next (tableOf (a, P)) = as_next a"
  "tb_stages (tableOf (a, P)) = stagesOf P"
  "tb_settling (tableOf (a, P)) = settlingOf P"
  by (simp_all add: tableOf_def)

lemma stagesOf_upd:
  "stagesOf (P(g \<mapsto> p)) = (stagesOf P)(g := stageOf p)" "settlingOf (P(g \<mapsto> p)) = (settlingOf P)(g := settleOf p)"
  by (auto simp: stagesOf_def settlingOf_def)

lemma map_option_upd: "map_option h \<circ> m(x \<mapsto> v) = (map_option h \<circ> m)(x \<mapsto> h v)"
  by auto

lemma openObjects_upd: "openObjects (m(x \<mapsto> v)) = (if aa_closed v then openObjects m - {x} else insert x (openObjects m))"
  by (auto simp: openObjects_def)

text \<open>What the table does not see: the futures are new or settled, and who holds which lock.\<close>

definition futureOk :: "nat future \<Rightarrow> bool" where
  "futureOk fu \<longleftrightarrow> freshFuture fu \<or> (fu_resolved fu \<and> fu_pending fu = 0 \<and> (fu_err fu = None \<longrightarrow> fu_result fu \<noteq> None))"

fun holds :: "pc \<Rightarrow> nat \<Rightarrow> bool" where
  "holds (PRunning y) x = (y = x)"
| "holds (PStartup ref f y) x = (y = x)"
| "holds (PGcRemove y) x = (y = x)"
| "holds _ x = False"

definition lockedObj :: "'s activations \<Rightarrow> nat \<Rightarrow> bool" where
  "lockedObj a x \<longleftrightarrow> (\<exists>obj. as_objects a x = Some obj \<and> aa_locked obj)"

definition closedObj :: "'s activations \<Rightarrow> nat \<Rightarrow> bool" where
  "closedObj a x \<longleftrightarrow> (\<exists>obj. as_objects a x = Some obj \<and> aa_closed obj)"

fun pcOk :: "'s activations \<Rightarrow> (nat \<rightharpoonup> pc) \<Rightarrow> pc \<Rightarrow> bool" where
  "pcOk a P (PRelock ref f x) = (\<exists>fu. as_futures a f = Some fu \<and> futureWait fu = Ret (Some x))"
| "pcOk a P (PGcRemove x) = (closedObj a x \<and> (\<forall>g p. P g = Some p \<longrightarrow> bornOf p \<noteq> Some x))"
| "pcOk a P (PForget ref f b) = (\<forall>x. b = Some x \<longrightarrow> closedObj a x)"
| "pcOk a P (PRunning x) = (\<not> closedObj a x)"
| "pcOk a P _ = True"

definition serverInv :: "'s server \<Rightarrow> bool" where
  "serverInv S \<longleftrightarrow>
     (let (a, P) = S in
      (\<forall>f fu. as_futures a f = Some fu \<longrightarrow> futureOk fu)
    \<and> (\<forall>g p. P g = Some p \<longrightarrow> pcOk a P p)
    \<and> (\<forall>g p x. P g = Some p \<longrightarrow> holds p x \<longrightarrow> lockedObj a x)
    \<and> (\<forall>g p g' p' x. P g = Some p \<longrightarrow> P g' = Some p' \<longrightarrow> holds p x \<longrightarrow> holds p' x \<longrightarrow> g = g'))"

lemma stagesOf_at:
  "P g = Some p \<Longrightarrow> stagesOf P g = stageOf p" "P g = None \<Longrightarrow> stagesOf P g = None"
  "P g = Some p \<Longrightarrow> settlingOf P g = settleOf p" "P g = None \<Longrightarrow> settlingOf P g = None"
  by (simp_all add: stagesOf_def settlingOf_def)

lemma tableOf_pc: "stageOf p = stagesOf P g \<Longrightarrow> settleOf p = settlingOf P g \<Longrightarrow> tableOf (a, P(g \<mapsto> p)) = tableOf (a, P)"
  by (simp add: tableOf_def stagesOf_upd)

lemma futureWait_Resolved: "futureWait fu = Ret (Some x) \<Longrightarrow> futureOk fu \<Longrightarrow> futStatus fu = Resolved x"
  by (auto simp: futureOk_def futStatus_def futureWait_def freshFuture_def split: if_splits option.splits)

lemma settle_status:
  assumes "futureOk fu" "futStatus fu = Pending"
  shows "futStatus (snd (futureSettle (Some x) None fu)) = Resolved x" "futStatus (snd (futureSettle None (Some e) fu)) = Rejected"
    "futureOk (snd (futureSettle (Some x) None fu))" "futureOk (snd (futureSettle None (Some e) fu))"
  using assms by (auto simp: futureSettle_def futStatus_def futureOk_def freshFuture_def split: if_splits option.splits)

lemma stage_future:
  assumes "tableInv (tableOf (a, P))" "P g = Some p" "stageOf p = Some st"
  obtains fu where "as_futures a (sg_future st) = Some fu" "futStatus fu = Pending" "as_actors a (sg_actor st) = Some (sg_future st)"
proof -
  have "tb_stages (tableOf (a, P)) g = Some st" using assms(2,3) by (simp add: stagesOf_at)
  from tableInvD(9,10) [OF assms(1) this] that show ?thesis by (auto simp: o_def)
qed

lemma settling_future:
  assumes "tableInv (tableOf (a, P))" "P g = Some (PSettle f r)"
  obtains fu where "as_futures a f = Some fu" "futStatus fu = Pending"
proof -
  have "tb_settling (tableOf (a, P)) g = Some (f, r)" using assms(2) by (simp add: stagesOf_at)
  from tableInvD(16) [OF assms(1) this] that show ?thesis by (auto simp: o_def)
qed

lemma installFuture_table:
  assumes "stagesOf P g = None" "settlingOf P g = None" "settleOf p = None" "stageOf p = Some \<lparr>sg_actor = refActorID ref, sg_future = as_next a, sg_prev = prev, sg_born = None\<rparr>"
    and prev: "case prev of None \<Rightarrow> as_actors a (refActorID ref) = None
      | Some x \<Rightarrow> (\<exists>f0 fu. as_actors a (refActorID ref) = Some f0 \<and> as_futures a f0 = Some fu \<and> futStatus fu = Resolved x)"
  shows "tableStep (tableOf (a, P)) (tableOf (installFuture ref a, P(g \<mapsto> p)))"
proof -
  have "tableOf (installFuture ref a, P(g \<mapsto> p)) =
      (let t = tableOf (a, P) in
       t\<lparr>tb_actors := (tb_actors t)(refActorID ref \<mapsto> tb_next t), tb_futures := (tb_futures t)(tb_next t \<mapsto> Pending),
         tb_next := Suc (tb_next t), tb_stages := (tb_stages t)(g \<mapsto> \<lparr>sg_actor = refActorID ref, sg_future = tb_next t,
           sg_prev = prev, sg_born = None\<rparr>)\<rparr>)"
    using assms(2-4) by (simp add: tableOf_def installFuture_def stagesOf_upd fun_upd_idem map_option_upd futStatus_def futureNew_def Let_def)
  moreover have "case prev of None \<Rightarrow> tb_actors (tableOf (a, P)) (refActorID ref) = None
      | Some x \<Rightarrow> (\<exists>f0. tb_actors (tableOf (a, P)) (refActorID ref) = Some f0 \<and> tb_futures (tableOf (a, P)) f0 = Some (Resolved x))"
    using prev by (auto split: option.splits)
  ultimately show ?thesis using tableStep.install [of "tableOf (a, P)" g] assms(1) by (simp add: Let_def)
qed

lemma serverInvD:
  assumes "serverInv (a, P)"
  shows "as_futures a f = Some fu \<Longrightarrow> futureOk fu" "P g = Some p \<Longrightarrow> pcOk a P p"
    "P g = Some p \<Longrightarrow> holds p x \<Longrightarrow> lockedObj a x"
    "P g = Some p \<Longrightarrow> P g' = Some p' \<Longrightarrow> holds p x \<Longrightarrow> holds p' x \<Longrightarrow> g = g'"
  by (insert assms, unfold serverInv_def Let_def prod.case, (elim conjE, blast)+)

lemma setObject_table:
  assumes "as_objects a x = Some obj" "bornAs obj' = bornAs obj" "aa_closed obj' = aa_closed obj" "stageOf p = stagesOf P g" "settleOf p = settlingOf P g"
  shows "tableOf (setObject x obj' a, P(g \<mapsto> p)) = tableOf (a, P)"
proof -
  have "map_option bornAs \<circ> (as_objects a)(x \<mapsto> obj') = map_option bornAs \<circ> as_objects a" using assms(1,2) by auto
  moreover have "openObjects ((as_objects a)(x \<mapsto> obj')) = openObjects (as_objects a)"
    using assms(1,3) by (auto simp: openObjects_def)
  ultimately show ?thesis using assms(4,5) by (simp add: tableOf_def setObject_def stagesOf_upd)
qed

text \<open>Closing an object, whatever happens to its lock.\<close>

lemma closeObject_parts:
  assumes "as_objects a x = Some obj" "bornAs obj' = bornAs obj" "aa_closed obj'"
  shows "map_option bornAs \<circ> as_objects (setObject x obj' a) = map_option bornAs \<circ> as_objects a"
    "openObjects (as_objects (setObject x obj' a)) = openObjects (as_objects a) - {x}"
  using assms by (auto simp: setObject_def openObjects_upd)

lemma bornAs_simps [simp]:
  "bornAs (obj\<lparr>aa_closed := c\<rparr>) = bornAs obj" "bornAs (obj\<lparr>aa_locked := l\<rparr>) = bornAs obj"
  "bornAs (obj\<lparr>aa_closed := c, aa_locked := l\<rparr>) = bornAs obj"
  by (simp_all add: bornAs_def)

lemma invokeEnter_Ret:
  "invokeEnter now c obj = (Ret (), obj') \<Longrightarrow> bornAs obj' = bornAs obj \<and> \<not> aa_closed obj' \<and> \<not> aa_closed obj"
  by (auto simp: invokeEnter_def bornAs_def Let_def split: if_splits)

lemma setObject_fields [simp]:
  "as_actors (setObject x obj a) = as_actors a" "as_futures (setObject x obj a) = as_futures a"
  "as_next (setObject x obj a) = as_next a" "as_locked (setObject x obj a) = as_locked a"
  by (simp_all add: setObject_def)

lemma simulation:
  assumes "raceStep S S'" "serverInv S" "tableInv (tableOf S)"
  shows "tableOf S' = tableOf S \<or> tableStep (tableOf S) (tableOf S')"
  using assms
proof (cases rule: raceStep.cases)
  case (call P g a ref timer)
  then show ?thesis by (simp add: tableOf_pc stagesOf_at)
next
  case (lookup P g ref timer a n)
  show ?thesis
  proof (cases "as_actors a (refActorID ref) = None \<and> \<not> timer")
    case True
    then have "n = ActivateNow None" using lookup by (simp add: invokeLookup_def)
    then show ?thesis using lookup True by (auto intro!: installFuture_table simp: stagesOf_at)
  next
    case False
    then have "\<not> activates n" "stageOf (nextPc ref timer (as_next a) n) = None"
      using lookup by (auto simp: invokeLookup_def split: option.splits)
    then show ?thesis using lookup by (simp add: tableOf_pc stagesOf_at)
  qed
next
  case (waited P g ref timer f a fu x obj)
  then have "stageOf (nextPc ref timer (as_next a) (invokeWaited ref timer f x obj)) = None" by (simp add: invokeWaited_def)
  then show ?thesis using waited by (simp add: tableOf_pc stagesOf_at)
next
  case (waited_err P g ref timer f a fu e)
  then show ?thesis by (simp add: tableOf_pc stagesOf_at)
next
  case (relock P g ref f x a obj n)
  show ?thesis
  proof (cases "activates n")
    case False
    then have "stageOf (nextPc ref False (as_next a) n) = None"
      using relock by (auto simp: invokeRelock_def split: option.splits if_splits)
    then show ?thesis using relock False tableOf_pc [of "nextPc ref False (as_next a) n" P g "a\<lparr>as_locked := True\<rparr>"]
      by (simp add: stagesOf_at tableOf_def)
  next
    case True
    then consider "n = ActivateNow None" "as_actors a (refActorID ref) = None"
      | "n = ActivateNow (Some x)" "as_actors a (refActorID ref) = Some f"
      using relock by (auto simp: invokeRelock_def split: option.splits if_splits)
    then show ?thesis
    proof cases
      case 1
      then show ?thesis using relock by (auto intro!: installFuture_table simp: stagesOf_at)
    next
      case 2
      have "pcOk a P (PRelock ref f x)" using serverInvD(2) assms(2) relock by blast
      then obtain fu where "as_futures a f = Some fu" "futureWait fu = Ret (Some x)" by auto
      moreover from this have "futStatus fu = Resolved x" using serverInvD(1) assms(2) relock futureWait_Resolved by blast
      ultimately have "tableStep (tableOf (a, P)) (tableOf (installFuture ref a, P(g \<mapsto> PClosePrev ref (as_next a) x)))"
        using relock(3) 2(2) by (intro installFuture_table [where prev = "Some x"]) (simp_all add: stagesOf_at)
      moreover have "invokeRelock ref f x obj a = ActivateNow (Some x)" using relock(6) 2(1) by simp
      ultimately show ?thesis using relock by simp
    qed
  qed
next
  case (close_prev P g ref f x a obj)
  let ?st = "\<lparr>sg_actor = refActorID ref, sg_future = f, sg_prev = Some x, sg_born = None\<rparr>"
  have "tableOf S' = (let t = tableOf S in t\<lparr>tb_open := tb_open t - {x}, tb_stages := (tb_stages t)(g \<mapsto> ?st\<lparr>sg_prev := None\<rparr>)\<rparr>)"
    using close_prev closeObject_parts [OF close_prev(4), of "obj\<lparr>aa_closed := True\<rparr>"]
    by (simp add: tableOf_def Let_def stagesOf_upd stagesOf_at fun_upd_idem)
  then show ?thesis using tableStep.closed_prev [of "tableOf S" g ?st x] close_prev by (simp add: Let_def stagesOf_at)
next
  case (close_prev_panic P g ref f x a obj)
  then show ?thesis by (simp add: tableOf_pc stagesOf_at)
next
  case (ensured P g ref f a modules)
  then show ?thesis using tableOf_pc [of "PInstantiate ref f" P g "a\<lparr>as_modules := modules\<rparr>"]
    by (simp add: stagesOf_at tableOf_def)
next
  case (ensure_failed P g ref f a)
  then show ?thesis by (simp add: tableOf_pc stagesOf_at)
next
  case (activation_panic P g ref f a)
  then have "stagesOf P g = Some \<lparr>sg_actor = refActorID ref, sg_future = f, sg_prev = None, sg_born = None\<rparr>" by (auto simp: stagesOf_at)
  moreover have "settlingOf P g = None" using activation_panic by (auto simp: stagesOf_at)
  ultimately show ?thesis
    using tableStep.abandoned [of "tableOf S" g] activation_panic by (simp add: tableOf_def stagesOf_upd fun_upd_idem)
next
  case (instantiated P g ref f x a now actor)
  let ?st = "\<lparr>sg_actor = refActorID ref, sg_future = f, sg_prev = None, sg_born = None\<rparr>"
  have "tableOf S' = (let t = tableOf S in t\<lparr>tb_born := (tb_born t)(x \<mapsto> (sg_actor ?st, sg_future ?st)), tb_open := insert x (tb_open t),
       tb_next := Suc x, tb_stages := (tb_stages t)(g \<mapsto> ?st\<lparr>sg_born := Some x\<rparr>)\<rparr>)"
    using instantiated
    by (simp add: tableOf_def Let_def stagesOf_upd stagesOf_at fun_upd_idem setObject_def newObject_def openObjects_upd map_option_upd bornAs_def)
  then show ?thesis using tableStep.born [of "tableOf S" g ?st x] instantiated by (simp add: Let_def stagesOf_at)
next
  case (instantiate_failed P g ref f a)
  then show ?thesis by (simp add: tableOf_pc stagesOf_at)
next
  case (startup_begin P g ref f x a obj now obj')
  then show ?thesis using invokeEnter_Ret [of now False obj obj'] by (simp add: setObject_table stagesOf_at)
next
  case (startup_refused P g ref f x a obj)
  then show ?thesis by (simp add: tableOf_pc stagesOf_at)
next
  case (started P g ref f x a obj)
  let ?st = "\<lparr>sg_actor = refActorID ref, sg_future = f, sg_prev = None, sg_born = Some x\<rparr>"
  have "map_option bornAs \<circ> as_objects (setObject x (obj\<lparr>aa_locked := False\<rparr>) a) = map_option bornAs \<circ> as_objects a"
    "openObjects (as_objects (setObject x (obj\<lparr>aa_locked := False\<rparr>) a)) = openObjects (as_objects a)"
    using started by (auto simp: setObject_def openObjects_def)
  then have "tableOf S' = (let t = tableOf S in t\<lparr>tb_stages := (tb_stages t)(g := None), tb_settling := (tb_settling t)(g \<mapsto> (sg_future ?st, Some x))\<rparr>)"
    using started by (simp add: tableOf_def Let_def stagesOf_upd)
  then show ?thesis using tableStep.started [of "tableOf S" g ?st x] started by (simp add: Let_def stagesOf_at)
next
  case (startup_failed P g ref f x a obj)
  then show ?thesis by (simp add: setObject_table stagesOf_at)
next
  case (startup_closed P g ref f x a obj)
  have "tableOf S' = (tableOf S)\<lparr>tb_open := tb_open (tableOf S) - {x}\<rparr>"
    using startup_closed closeObject_parts [OF startup_closed(4), of "obj\<lparr>aa_closed := True\<rparr>"]
    by (simp add: tableOf_def stagesOf_upd stagesOf_at fun_upd_idem)
  then show ?thesis using tableStep.closed [of "tableOf S" x] by simp
next
  case (forget P g ref f b a)
  let ?st = "\<lparr>sg_actor = refActorID ref, sg_future = f, sg_prev = None, sg_born = b\<rparr>"
  have "x \<notin> openObjects (as_objects a)" if "b = Some x" for x
    using serverInvD(2) [of a P g "PForget ref f b"] assms(2) forget that by (auto simp: closedObj_def openObjects_def)
  moreover have "tableOf S' = (let t = tableOf S in t\<lparr>tb_stages := (tb_stages t)(g := None), tb_actors := (tb_actors t)(sg_actor ?st := None),
      tb_settling := (tb_settling t)(g \<mapsto> (sg_future ?st, None))\<rparr>)"
    using forget by (simp add: tableOf_def Let_def stagesOf_upd forgetActor_def)
  ultimately show ?thesis using tableStep.forgotten [of "tableOf S" g ?st] forget by (simp add: Let_def stagesOf_at)
next
  case (resolve P g f x a)
  obtain fu where fu: "as_futures a f = Some fu" "futStatus fu = Pending" using settling_future [of a P g f "Some x"] assms(3) resolve by auto
  then have "futStatus (snd (futureSettle (Some x) None fu)) = Resolved x" using settle_status(1) serverInvD(1) assms(2) resolve by blast
  then have "tableOf S' = (let t = tableOf S in t\<lparr>tb_futures := (tb_futures t)(f \<mapsto> Resolved x), tb_settling := (tb_settling t)(g := None)\<rparr>)"
    using resolve fu(1) by (simp add: tableOf_def Let_def stagesOf_upd stagesOf_at settled_def map_option_upd fun_upd_idem)
  then show ?thesis using tableStep.settled [of "tableOf S" g f "Some x"] resolve by (simp add: Let_def stagesOf_at)
next
  case (reject P g f a e)
  obtain fu where fu: "as_futures a f = Some fu" "futStatus fu = Pending" using settling_future [of a P g f None] assms(3) reject by auto
  then have "futStatus (snd (futureSettle None (Some e) fu)) = Rejected" using settle_status(2) serverInvD(1) assms(2) reject by blast
  then have "tableOf S' = (let t = tableOf S in t\<lparr>tb_futures := (tb_futures t)(f \<mapsto> Rejected), tb_settling := (tb_settling t)(g := None)\<rparr>)"
    using reject fu(1) by (simp add: tableOf_def Let_def stagesOf_upd stagesOf_at settled_def map_option_upd fun_upd_idem)
  then show ?thesis using tableStep.settled [of "tableOf S" g f None] reject by (simp add: Let_def stagesOf_at)
next
  case (startup_panic P g ref f x a obj)
  let ?st = "\<lparr>sg_actor = refActorID ref, sg_future = f, sg_prev = None, sg_born = Some x\<rparr>"
  have "map_option bornAs \<circ> as_objects (setObject x (obj\<lparr>aa_locked := False\<rparr>) a) = map_option bornAs \<circ> as_objects a"
    "openObjects (as_objects (setObject x (obj\<lparr>aa_locked := False\<rparr>) a)) = openObjects (as_objects a)"
    using startup_panic by (auto simp: setObject_def openObjects_def)
  then show ?thesis
    using tableStep.abandoned [of "tableOf S" g ?st] startup_panic by (simp add: tableOf_def stagesOf_upd stagesOf_at fun_upd_idem)
next
  case (invoke_closed P g x a obj)
  then show ?thesis by (simp add: tableOf_pc stagesOf_at)
next
  case (invoke_begin P g x a obj now obj')
  then show ?thesis using invokeEnter_Ret [of now False obj obj'] by (simp add: setObject_table stagesOf_at)
next
  case (invoke_end P g x a obj)
  then show ?thesis by (simp add: setObject_table stagesOf_at)
next
  case (gc_close P g a x obj now)
  have "tableOf S' = (tableOf S)\<lparr>tb_open := tb_open (tableOf S) - {x}\<rparr>"
    using gc_close closeObject_parts [OF gc_close(4), of "obj\<lparr>aa_closed := True, aa_locked := True\<rparr>"]
    by (simp add: tableOf_def stagesOf_upd stagesOf_at fun_upd_idem)
  then show ?thesis using tableStep.closed [of "tableOf S" x] by simp
next
  case (gc_remove P g x a obj a')
  let ?k = "refActorID (aa_reference obj)" and ?a = "setObject x (obj\<lparr>aa_locked := False\<rparr>) a"
  have same: "tableOf (?a, P(g \<mapsto> PDone)) = tableOf (a, P)" using gc_remove by (simp add: setObject_table stagesOf_at)
  show ?thesis
  proof (cases "as_actors a ?k = Some (aa_onGc obj)")
    case False
    then have "a' = ?a" using gc_remove by (auto simp: onGc_def split: if_splits option.splits)
    with same gc_remove show ?thesis by simp
  next
    case True
    then have "a' = ?a\<lparr>as_actors := (as_actors a)(?k := None)\<rparr>" using gc_remove by (auto simp: onGc_def split: if_splits option.splits)
    then have "tableOf S' = (tableOf S)\<lparr>tb_actors := (tb_actors (tableOf S))(?k := None)\<rparr>"
      using gc_remove same by (simp add: tableOf_def)
    moreover have "x \<notin> openObjects (as_objects a)"
      using serverInvD(2) [of a P g "PGcRemove x"] assms(2) gc_remove by (auto simp: closedObj_def openObjects_def)
    moreover have "sg_born st \<noteq> Some x" if "stagesOf P g2 = Some st" for g2 st
      using that serverInvD(2) [of a P g "PGcRemove x"] assms(2) gc_remove by (auto simp: stagesOf_def bornOf_def bind_eq_Some_conv)
    ultimately show ?thesis
      using tableStep.removed [of "tableOf S" x ?k "aa_onGc obj"] gc_remove True by (simp add: bornAs_def)
  qed
qed

text \<open>A step of one goroutine that touches only objects that no other one holds.\<close>

lemma serverInv_step:
  assumes inv: "serverInv (a, P)"
    and frame: "\<And>y. y \<notin> X \<Longrightarrow> as_objects a' y = as_objects a y" "\<And>y. y \<in> X \<Longrightarrow> closedObj a y \<Longrightarrow> closedObj a' y"
      "\<And>y g' p'. y \<in> X \<Longrightarrow> g' \<noteq> g \<Longrightarrow> P g' = Some p' \<Longrightarrow> \<not> holds p' y"
    and futs: "\<And>f fu x. as_futures a f = Some fu \<Longrightarrow> futureWait fu = Ret (Some x) \<Longrightarrow> as_futures a' f = Some fu"
      "\<And>f fu. as_futures a' f = Some fu \<Longrightarrow> futureOk fu"
    and new: "pcOk a' (P(g \<mapsto> p)) p" "\<And>x. holds p x \<Longrightarrow> lockedObj a' x"
      "\<And>x g' p'. holds p x \<Longrightarrow> g' \<noteq> g \<Longrightarrow> P g' = Some p' \<Longrightarrow> \<not> holds p' x"
    and born: "\<And>x g'. bornOf p = Some x \<Longrightarrow> g' \<noteq> g \<Longrightarrow> P g' \<noteq> Some (PGcRemove x)"
  shows "serverInv (a', P(g \<mapsto> p))"
proof -
  note D = serverInvD [OF inv]
  have closed: "closedObj a y \<Longrightarrow> closedObj a' y" for y using frame(1,2) [of y] by (cases "y \<in> X") (auto simp: closedObj_def)
  have other: "pcOk a' (P(g \<mapsto> p)) p'" if g': "g' \<noteq> g" "P g' = Some p'" for g' p'
  proof (cases p')
    case (PRelock ref f x)
    then show ?thesis using D(2) [OF g'(2)] futs(1) by auto
  next
    case (PGcRemove x)
    then show ?thesis using D(2) [OF g'(2)] closed born [of x g'] g' by auto
  next
    case (PForget ref f b)
    then show ?thesis using D(2) [OF g'(2)] closed by auto
  next
    case (PRunning x)
    then have "x \<notin> X" using frame(3) [of x g' p'] g' by auto
    then show ?thesis using PRunning D(2) [OF g'(2)] frame(1) by (simp add: closedObj_def)
  qed auto
  moreover have "lockedObj a' x" if "g' \<noteq> g" "P g' = Some p'" "holds p' x" for g' p' x
    using D(3) [OF that(2,3)] frame(1) [of x] frame(3) [of x g' p'] that by (cases "x \<in> X") (auto simp: lockedObj_def)
  ultimately show ?thesis
    unfolding serverInv_def Let_def prod.case using futs(2) new D(4) by (auto split: if_splits)
qed

fun plainPc :: "pc \<Rightarrow> bool" where
  "plainPc (PRunning x) = False"
| "plainPc (PCreated ref f x) = False"
| "plainPc (PStartup ref f x) = False"
| "plainPc (PStartupFailed ref f x) = False"
| "plainPc (PForget ref f b) = (b = None)"
| "plainPc (PGcRemove x) = False"
| "plainPc _ = True"

lemma serverInv_pc:
  assumes "serverInv (a, P)" "as_objects a' = as_objects a" "as_futures a' = as_futures a" "pcOk a P p" "plainPc p"
  shows "serverInv (a', P(g \<mapsto> p))"
proof (rule serverInv_step [OF assms(1), where X = "{}"])
  show "pcOk a' (P(g \<mapsto> p)) p" using assms(2-5) by (cases p) auto
  have "\<not> holds p x" for x using assms(5) by (cases p) auto
  moreover have "bornOf p \<noteq> Some x" for x using assms(5) by (cases p) (auto simp: bornOf_def)
  then show "bornOf p = Some x \<Longrightarrow> P g' \<noteq> Some (PGcRemove x)" for x g' by simp
  ultimately show "holds p x \<Longrightarrow> lockedObj a' x" "holds p x \<Longrightarrow> g' \<noteq> g \<Longrightarrow> P g' = Some p' \<Longrightarrow> \<not> holds p' x" for x g' p' by simp_all
qed (use assms serverInvD(1) [OF assms(1)] in auto)

lemma serverInv_install:
  assumes "serverInv (a, P)" "tableInv (tableOf (a, P))" "p = PEnsure ref f0 \<or> p = PClosePrev ref f0 x0"
  shows "serverInv (installFuture ref a, P(g \<mapsto> p))"
proof (rule serverInv_step [OF assms(1), where X = "{}"])
  have "as_next a \<notin> dom (as_futures a)" using tableInvD(3) [OF assms(2), of "as_next a"] by auto
  then show "as_futures (installFuture ref a) f = Some fu" if "as_futures a f = Some fu" for f fu
    using that by (auto simp: installFuture_def)
  show "as_futures (installFuture ref a) f = Some fu \<Longrightarrow> futureOk fu" for f fu
    using serverInvD(1) [OF assms(1)] by (auto simp: installFuture_def futureOk_def split: if_splits)
qed (use assms(3) in \<open>auto simp: installFuture_def bornOf_def\<close>)

text \<open>A new value of an object that is free, or that the goroutine holds itself.\<close>

lemma serverInv_object:
  assumes inv: "serverInv (a, P)" and x: "as_objects a x = Some obj" "aa_closed obj \<Longrightarrow> aa_closed obj'"
    and free: "\<not> aa_locked obj \<or> (\<exists>p0. P g = Some p0 \<and> holds p0 x)"
    and a': "as_objects a' = (as_objects a)(x \<mapsto> obj')"
    and futs: "\<And>f fu y. as_futures a f = Some fu \<Longrightarrow> futureWait fu = Ret (Some y) \<Longrightarrow> as_futures a' f = Some fu"
      "\<And>f fu. as_futures a' f = Some fu \<Longrightarrow> futureOk fu"
    and new: "pcOk a' (P(g \<mapsto> p)) p" "\<And>y. holds p y \<Longrightarrow> y = x \<and> aa_locked obj'"
      "\<And>y. bornOf p = Some y \<Longrightarrow> \<exists>p0. P g = Some p0 \<and> bornOf p0 = Some y"
  shows "serverInv (a', P(g \<mapsto> p))"
proof -
  have others: "\<not> holds p' x" if "g' \<noteq> g" "P g' = Some p'" for g' p'
  proof
    assume h: "holds p' x"
    from serverInvD(3) [OF inv that(2) h] x(1) have "aa_locked obj" by (simp add: lockedObj_def)
    with free obtain p0 where "P g = Some p0" "holds p0 x" by blast
    from serverInvD(4) [OF inv this(1) that(2) this(2) h] that(1) show False by simp
  qed
  show ?thesis
  proof (rule serverInv_step [OF inv, where X = "{x}"])
    show "P g' \<noteq> Some (PGcRemove y)" if "bornOf p = Some y" "g' \<noteq> g" for y g'
      using new(3) [OF that(1)] serverInvD(2) [OF inv, of g' "PGcRemove y"] by auto
    show "lockedObj a' y" if "holds p y" for y using new(2) [OF that] a' by (simp add: lockedObj_def)
    show "\<not> holds p' y" if "holds p y" "g' \<noteq> g" "P g' = Some p'" for y g' p'
      using new(2) [OF that(1)] others [OF that(2,3)] by simp
    show "closedObj a y \<Longrightarrow> closedObj a' y" if "y \<in> {x}" for y using that x a' by (simp add: closedObj_def)
    show "\<not> holds p' y" if "y \<in> {x}" "g' \<noteq> g" "P g' = Some p'" for y g' p' using others [OF that(2,3)] that(1) by simp
  qed (use a' futs new(1) in simp_all)
qed

lemma settled_futs:
  assumes "serverInv (a, P)" "as_futures a f = Some fu" "futStatus fu = Pending" "as_futures b = as_futures a"
    and "(r = None \<and> e \<noteq> None) \<or> (r \<noteq> None \<and> e = None)"
  shows "as_futures a f' = Some fu' \<Longrightarrow> futureWait fu' = Ret (Some y) \<Longrightarrow> as_futures (settled f r e b) f' = Some fu'"
    and "as_futures (settled f r e b) f' = Some fu' \<Longrightarrow> futureOk fu'"
proof -
  have ok: "futureOk fu" using serverInvD(1) [OF assms(1,2)] .
  then have w: "futureWait fu = Blocked" using assms(3)
    by (auto simp: futureOk_def futStatus_def split: if_splits option.splits)
  have s: "as_futures (settled f r e b) = (as_futures a)(f \<mapsto> snd (futureSettle r e fu))"
    using assms(2,4) by (simp add: settled_def)
  show "as_futures a f' = Some fu' \<Longrightarrow> futureWait fu' = Ret (Some y) \<Longrightarrow> as_futures (settled f r e b) f' = Some fu'"
    using s w assms(2) by auto
  show "as_futures (settled f r e b) f' = Some fu' \<Longrightarrow> futureOk fu'"
    using s settle_status(3,4) [OF ok assms(3)] assms(5) serverInvD(1) [OF assms(1)] by (auto split: if_splits)
qed

lemma settled_objects [simp]: "as_objects (settled f r e a) = as_objects a" "as_objects (forgetActor ref a) = as_objects a"
  "as_futures (forgetActor ref a) = as_futures a"
  by (simp_all add: settled_def forgetActor_def split: option.split)

lemma serverInv_settle:
  assumes inv: "serverInv (a, P)" "tableInv (tableOf (a, P))" and p: "P g = Some (PSettle f r)"
    and "(r = None \<and> e \<noteq> None) \<or> (r \<noteq> None \<and> e = None)" "plainPc p" "pcOk a P p"
  shows "serverInv (settled f r e a, P(g \<mapsto> p))"
proof -
  obtain fu where fu: "as_futures a f = Some fu" "futStatus fu = Pending" by (rule settling_future [OF inv(2) p])
  have "bornOf p \<noteq> Some x" "\<not> holds p x" for x using assms(5) by (cases p; simp add: bornOf_def)+
  moreover have "pcOk (settled f r e a) (P(g \<mapsto> p)) p"
    using assms(5,6) settled_futs(1) [OF inv(1) fu refl assms(4)] by (cases p) auto
  ultimately show ?thesis
    by (intro serverInv_step [OF inv(1), where X = "{}"]) (use settled_futs [OF inv(1) fu refl assms(4)] in auto)
qed

lemma serverInv_preserved:
  assumes "raceStep S S'" "calm S S'" "serverInv S" "tableInv (tableOf S)"
  shows "serverInv S'"
  using assms
proof (cases rule: raceStep.cases)
  case (lookup P g ref timer a n)
  show ?thesis
  proof (cases "activates n")
    case True
    then have "invokeLookup ref timer a = ActivateNow None" using lookup by (auto simp: invokeLookup_def split: option.splits if_splits)
    with lookup assms(3,4) show ?thesis by (auto intro: serverInv_install)
  next
    case False
    have "plainPc (nextPc ref timer (as_next a) n)" "pcOk a P (nextPc ref timer (as_next a) n)"
      using lookup False by (auto simp: invokeLookup_def split: option.splits)
    with lookup False assms(3) show ?thesis by (auto intro!: serverInv_pc [of a])
  qed
next
  case (waited P g ref timer f a fu x obj)
  have "plainPc (nextPc ref timer (as_next a) (invokeWaited ref timer f x obj))"
    "pcOk a P (nextPc ref timer (as_next a) (invokeWaited ref timer f x obj))"
    using waited by (auto simp: invokeWaited_def)
  with waited assms(3) show ?thesis by (auto intro!: serverInv_pc [of a])
next
  case (relock P g ref f x a obj n)
  show ?thesis
  proof (cases "activates n")
    case True
    then obtain prev where "invokeRelock ref f x obj a = ActivateNow prev" using relock(6)
      by (cases "invokeRelock ref f x obj a") auto
    with relock assms(3,4) show ?thesis by (cases prev) (auto intro: serverInv_install)
  next
    case False
    have "plainPc (nextPc ref False (as_next a) n)" "pcOk a P (nextPc ref False (as_next a) n)"
      using relock False by (auto simp: invokeRelock_def split: option.splits if_splits)
    with relock False assms(3) show ?thesis by (auto intro!: serverInv_pc [of a])
  qed
next
  case (close_prev P g ref f x a obj)
  then show ?thesis using assms(3) serverInvD(1)
    by (auto intro!: serverInv_object [of a P x obj "obj\<lparr>aa_closed := True\<rparr>"] simp: setObject_def bornOf_def)
next
  case (instantiated P g ref f x a now actor)
  have "as_objects a x = None" using born_fresh(2) [OF assms(4)] instantiated by simp
  moreover have "\<not> holds p x" if "P g' = Some p" for g' p
    using serverInvD(3) [of a P g' p x] assms(3) instantiated that calculation by (auto simp: lockedObj_def)
  moreover have "P g' \<noteq> Some (PGcRemove x)" for g' using calculation(2) [of g' "PGcRemove x"] by auto
  ultimately show ?thesis unfolding instantiated using assms(3) instantiated serverInvD(1)
    by (intro serverInv_step [where X = "{x}"]) (auto simp: setObject_def newObject_def closedObj_def lockedObj_def bornOf_def)
next
  case (startup_begin P g ref f x a obj now obj')
  then show ?thesis using assms(3) serverInvD(1) invokeEnter_Ret [of now False obj obj']
    by (auto intro!: serverInv_object [of a P x obj "obj'\<lparr>aa_locked := True\<rparr>"] simp: setObject_def bornOf_def)
next
  case (startup_refused P g ref f x a obj)
  show ?thesis unfolding startup_refused
    by (rule serverInv_step [where X = "{}"]) (use startup_refused assms(3) serverInvD(1,2) [of a P] in \<open>fastforce simp: bornOf_def\<close>)+
next
  case (started P g ref f x a obj)
  then show ?thesis using assms(3) serverInvD(1)
    by (auto intro!: serverInv_object [of a P x obj "obj\<lparr>aa_locked := False\<rparr>"] simp: setObject_def bornOf_def)
next
  case (startup_failed P g ref f x a obj)
  then show ?thesis using assms(3) serverInvD(1)
    by (auto intro!: serverInv_object [of a P x obj "obj\<lparr>aa_locked := False\<rparr>"] simp: setObject_def bornOf_def)
next
  case (startup_closed P g ref f x a obj)
  then show ?thesis using assms(3) serverInvD(1)
    by (auto intro!: serverInv_object [of a P x obj "obj\<lparr>aa_closed := True\<rparr>"] simp: setObject_def bornOf_def closedObj_def)
next
  case (resolve P g f x a)
  then show ?thesis using assms(3,4) by (auto intro: serverInv_settle)
next
  case (reject P g f a e)
  then show ?thesis using assms(3,4) by (auto intro: serverInv_settle)
next
  case (startup_panic P g ref f x a obj)
  then show ?thesis using assms(3) serverInvD(1)
    by (auto intro!: serverInv_object [of a P x obj "obj\<lparr>aa_locked := False\<rparr>"] simp: setObject_def bornOf_def)
next
  case (invoke_begin P g x a obj now obj')
  then show ?thesis using assms(3) serverInvD(1) invokeEnter_Ret [of now False obj obj']
    by (auto intro!: serverInv_object [of a P x obj "obj'\<lparr>aa_locked := True\<rparr>"] simp: setObject_def closedObj_def bornOf_def)
next
  case (invoke_end P g x a obj)
  then show ?thesis using assms(3) serverInvD(1)
    by (auto intro!: serverInv_object [of a P x obj "obj\<lparr>aa_locked := False\<rparr>"] simp: setObject_def bornOf_def)
next
  case (gc_close P g a x obj now)
  have "bornOf p \<noteq> Some x" if p: "P g' = Some p" for g' p
  proof
    assume b: "bornOf p = Some x"
    have "activating p \<noteq> Some x" using assms(2) gc_close p unfolding calm_def by (metis fun_upd_same snd_conv)
    then consider ref f where "p = PStartup ref f x" | ref f where "p = PForget ref f (Some x)"
      using b by (cases p) (auto simp: bornOf_def)
    then show False
      using serverInvD(2,3) [of a P g' p] assms(3) gc_close p by cases (auto simp: lockedObj_def closedObj_def)
  qed
  then show ?thesis using assms(3) gc_close serverInvD(1)
    by (auto intro!: serverInv_object [of a P x obj "obj\<lparr>aa_closed := True, aa_locked := True\<rparr>"] simp: setObject_def closedObj_def bornOf_def)
next
  case (gc_remove P g x a obj a')
  have "as_objects a' = (as_objects a)(x \<mapsto> obj\<lparr>aa_locked := False\<rparr>)" "as_futures a' = as_futures a"
    using gc_remove by (auto simp: onGc_def setObject_def split: if_splits option.splits)
  with gc_remove show ?thesis using assms(3) serverInvD(1)
    by (auto intro!: serverInv_object [of a P x obj "obj\<lparr>aa_locked := False\<rparr>"] simp: bornOf_def)
qed (use assms(3) in \<open>auto intro: serverInv_pc\<close>)

lemma calmReach_inv: "calmReach S \<Longrightarrow> serverInv S \<and> tableInv (tableOf S)"
proof (induction rule: calmReach.induct)
  case (start reg fns gc a)
  then have "as_actors a = Map.empty" "as_futures a = Map.empty" "as_objects a = Map.empty"
    by (auto simp: newActivations_def split: if_splits)
  then show ?case
    by (simp add: serverInv_def tableInv_def actorsInv_def futuresInv_def bornInv_def stagesInv_def settlingInv_def openObjects_def stagesOf_def settlingOf_def)
next
  case (step S S')
  then show ?case unfolding calmStep_def using serverInv_preserved simulation tableStep_inv by metis
qed

subsection \<open>Traces\<close>

text \<open>An activation that nobody overtakes, up to the invocation of the new actor.\<close>

definition activated :: "actorReferenceVirtual \<Rightarrow> 's Actor \<Rightarrow> 's activations \<Rightarrow> 's activations" where
  "activated r actor a =
     (let f = as_next a; x = Suc f; a1 = installFuture r a; obj = newObject 0 actor r f a1 in
      settled f (Some x) None (setObject x (obj\<lparr>aa_locked := False\<rparr>) (a1\<lparr>as_next := Suc x\<rparr>)))"

lemma activated_simps [simp]:
  "as_locked (activated r actor a) = False"
  "as_actors (activated r actor a) = (as_actors a)(refActorID r \<mapsto> as_next a)"
  "as_next (activated r actor a) = Suc (Suc (as_next a))"
  "as_objects (activated r actor a) =
     (as_objects a)(Suc (as_next a) \<mapsto> (newObject 0 actor r (as_next a) a)\<lparr>aa_locked := False\<rparr>)"
  "as_futures (activated r actor a) =
     (as_futures a)(as_next a \<mapsto> \<lparr>fu_result = Some (Suc (as_next a)), fu_err = None, fu_resolved = True, fu_pending = 0\<rparr>)"
  "as_gcActorsAfter (activated r actor a) = as_gcActorsAfter a"
  by (simp_all add: activated_def Let_def settled_def setObject_def installFuture_def futureSettle_def futureNew_def newObject_def)

lemma calm_steps:
  assumes "calmStep\<^sup>*\<^sup>* S (a, P)" "raceStep (a, P) (a', P(g \<mapsto> p))" "\<And>x. p \<noteq> PGcRemove x"
  shows "calmStep\<^sup>*\<^sup>* S (a', P(g \<mapsto> p))"
  using assms(1,2) calm_move [of p a P a' g] assms(3) by (auto intro: rtranclp.rtrancl_into_rtrancl simp: calmStep_def)

text \<open>Up to the startup operation.\<close>

lemma starting_steps:
  fixes a :: "'s activations"
  assumes "\<not> as_locked a" "as_actors a (refActorID r) = None" "P g = None" "f = as_next a"
  shows "calmStep\<^sup>*\<^sup>* (a, P) (setObject (Suc f) (newObject 0 actor r f a\<lparr>aa_locked := True\<rparr>) (installFuture r a\<lparr>as_next := Suc (Suc f)\<rparr>),
    P(g \<mapsto> PStartup r f (Suc f)))"
proof -
  let ?a1 = "installFuture r a" and ?o = "newObject 0 actor r f a"
  let ?a2 = "setObject (Suc f) ?o (?a1\<lparr>as_next := Suc (Suc f)\<rparr>)"
  have l: "\<not> as_locked ?a1" "as_next ?a1 = Suc f" "newObject 0 actor r f ?a1 = ?o" using assms(4) by (simp_all add: installFuture_def newObject_def)
  have "calmStep\<^sup>*\<^sup>* (a, P) (a, P(g \<mapsto> PStart r False))"
    by (rule calm_steps [OF rtranclp.rtrancl_refl]) (use raceStep.call [where P = P and g = g] assms(3) in auto)
  from calm_steps [OF this, of ?a1 g "PEnsure r f"] have "calmStep\<^sup>*\<^sup>* (a, P) (?a1, P(g \<mapsto> PEnsure r f))"
    using raceStep.lookup [of "P(g \<mapsto> PStart r False)" g r False a] assms(1,2,4) by (simp add: invokeLookup_def)
  from calm_steps [OF this, of ?a1 g "PInstantiate r f"] have "calmStep\<^sup>*\<^sup>* (a, P) (?a1, P(g \<mapsto> PInstantiate r f))"
    using raceStep.ensured [of "P(g \<mapsto> PEnsure r f)" g r f ?a1 "as_modules ?a1"] l by (simp add: installFuture_def)
  from calm_steps [OF this, of ?a2 g "PCreated r f (Suc f)"] have "calmStep\<^sup>*\<^sup>* (a, P) (?a2, P(g \<mapsto> PCreated r f (Suc f)))"
    using raceStep.instantiated [of "P(g \<mapsto> PInstantiate r f)" g r f "Suc f" ?a1 0 actor] l by simp
  from calm_steps [OF this, of "setObject (Suc f) (?o\<lparr>aa_locked := True\<rparr>) ?a2" g "PStartup r f (Suc f)"]
  have "calmStep\<^sup>*\<^sup>* (a, P) (setObject (Suc f) (?o\<lparr>aa_locked := True\<rparr>) ?a2, P(g \<mapsto> PStartup r f (Suc f)))"
    using raceStep.startup_begin [of "P(g \<mapsto> PCreated r f (Suc f))" g r f "Suc f" ?a2 ?o 0 ?o]
    by (simp add: setObject_def invokeEnter_def newObject_def)
  then show ?thesis by (simp add: setObject_def)
qed

lemma activated_steps:
  assumes "\<not> as_locked a" "as_actors a (refActorID r) = None" "P g = None"
  shows "calmStep\<^sup>*\<^sup>* (a, P) (activated r actor a, P(g \<mapsto> PInvoke (Suc (as_next a))))"
proof -
  let ?f = "as_next a" and ?o = "newObject 0 actor r (as_next a) a"
  let ?a2 = "setObject (Suc ?f) (?o\<lparr>aa_locked := True\<rparr>) (installFuture r a\<lparr>as_next := Suc (Suc ?f)\<rparr>)"
  let ?a3 = "setObject (Suc ?f) (?o\<lparr>aa_locked := False\<rparr>) ?a2"
  from calm_steps [OF starting_steps [where P = P and g = g and actor = actor, OF assms refl], of ?a3 g "PSettle ?f (Some (Suc ?f))"]
  have "calmStep\<^sup>*\<^sup>* (a, P) (?a3, P(g \<mapsto> PSettle ?f (Some (Suc ?f))))"
    using raceStep.started [of "P(g \<mapsto> PStartup r ?f (Suc ?f))" g r ?f "Suc ?f" ?a2 "?o\<lparr>aa_locked := True\<rparr>"] by (simp add: setObject_def)
  moreover have "settled ?f (Some (Suc ?f)) None ?a3 = activated r actor a"
    by (simp add: activated_def Let_def setObject_def installFuture_def newObject_def)
  ultimately show ?thesis
    using calm_steps [of _ ?a3 "P(g \<mapsto> PSettle ?f (Some (Suc ?f)))" "activated r actor a" g "PInvoke (Suc ?f)"]
      raceStep.resolve [of "P(g \<mapsto> PSettle ?f (Some (Suc ?f)))" g ?f "Suc ?f" ?a3] by simp
qed

text \<open>A later invocation waits for the future; if the generation of its reference is higher it goes on to the second lock.\<close>

lemma waiting_steps:
  assumes "\<not> as_locked a" "as_actors a (refActorID r) = Some f" "P g = None"
  shows "calmStep\<^sup>*\<^sup>* (a, P) (a, P(g \<mapsto> PWaiting r timer f))"
proof -
  have "calmStep\<^sup>*\<^sup>* (a, P) (a, P(g \<mapsto> PStart r timer))"
    by (rule calm_steps [OF rtranclp.rtrancl_refl]) (use raceStep.call [where P = P and g = g] assms(3) in auto)
  from calm_steps [OF this, of a g "PWaiting r timer f"] show ?thesis
    using raceStep.lookup [of "P(g \<mapsto> PStart r timer)" g r timer a] assms(1,2) by (simp add: invokeLookup_def)
qed

lemma relock_steps:
  assumes "\<not> as_locked a" "as_actors a (refActorID r) = Some f" "P g = None"
    and "as_futures a f = Some fu" "futureWait fu = Ret (Some x)" "as_objects a x = Some obj"
    and "refGeneration (aa_reference obj) < refGeneration r"
  shows "calmStep\<^sup>*\<^sup>* (a, P) (a, P(g \<mapsto> PRelock r f x))"
  using calm_steps [OF waiting_steps [where P = P and g = g and timer = False, OF assms(1-3)], of a g "PRelock r f x"]
    raceStep.waited [of "P(g \<mapsto> PWaiting r False f)" g r False f a fu x obj] assms(4-7)
  by (simp add: invokeWaited_def linorder_not_le [symmetric])

text \<open>The collection of an idle actor.\<close>

definition collected :: "nat \<Rightarrow> 's activatedActor \<Rightarrow> 's activations \<Rightarrow> 's activations" where
  "collected x obj a = setObject x (obj\<lparr>aa_closed := True, aa_locked := False\<rparr>) a\<lparr>as_actors := (as_actors a)(refActorID (aa_reference obj) := None)\<rparr>"

lemma collection_steps:
  assumes "\<not> as_locked a" "P g = None" "as_objects a x = Some obj" "\<not> aa_locked obj" "\<not> aa_closed obj"
    and "as_actors a (refActorID (aa_reference obj)) = Some (aa_onGc obj)"
  shows "\<exists>S1. raceStep (a, P) S1 \<and> raceStep S1 (collected x obj a, P(g \<mapsto> PDone))
    \<and> ((\<forall>g' p. P g' = Some p \<longrightarrow> activating p \<noteq> Some x) \<longrightarrow> calmStep\<^sup>*\<^sup>* (a, P) (collected x obj a, P(g \<mapsto> PDone)))"
proof -
  let ?a = "setObject x (obj\<lparr>aa_closed := True, aa_locked := True\<rparr>) a" and ?P = "P(g \<mapsto> PGcRemove x)"
  have 1: "raceStep (a, P) (?a, ?P)" by (rule raceStep.gc_close [where now = "aa_lastInvoke obj + aa_gcAfter obj + 1"]) (use assms in simp_all)
  have 2: "raceStep (?a, ?P) (collected x obj a, P(g \<mapsto> PDone))"
    using raceStep.gc_remove [of ?P g x ?a "obj\<lparr>aa_closed := True, aa_locked := True\<rparr>"] assms(1,6)
    by (simp add: setObject_def onGc_def collected_def)
  have "calmStep\<^sup>*\<^sup>* (a, P) (collected x obj a, P(g \<mapsto> PDone))" if "\<forall>g' p. P g' = Some p \<longrightarrow> activating p \<noteq> Some x"
  proof -
    have "calm (a, P) (?a, ?P)" using that by (auto simp: calm_def)
    then have "calmStep\<^sup>*\<^sup>* (a, P) (?a, ?P)" using 1 by (auto simp: calmStep_def)
    from calm_steps [OF this, of "collected x obj a" g PDone] 2 show ?thesis by simp
  qed
  with 1 2 show ?thesis by blast
qed

text \<open>A lost mutex stays lost, and goroutines that are before it stay there.\<close>

lemma locked_step:
  assumes "raceStep S S'" "as_locked (fst S)"
  shows "as_locked (fst S')" "snd S g = Some (PStart r t) \<Longrightarrow> snd S' g = Some (PStart r t)"
proof -
  have keep: "as_locked (settled f res e b) = as_locked b" "as_locked (forgetActor ref b) = as_locked b" for f res e ref and b :: "'a activations"
    by (simp_all add: settled_def forgetActor_def split: option.split)
  show "as_locked (fst S')"
    using assms by (cases rule: raceStep.cases) (auto simp: keep onGc_def split: option.splits if_splits)
  show "snd S g = Some (PStart r t) \<Longrightarrow> snd S' g = Some (PStart r t)"
    using assms by (cases rule: raceStep.cases) auto
qed

lemma locked_steps:
  assumes "raceStep\<^sup>*\<^sup>* S S'" "as_locked (fst S)"
  shows "as_locked (fst S') \<and> (snd S g = Some (PStart r t) \<longrightarrow> snd S' g = Some (PStart r t))"
  using assms by (induction rule: rtranclp_induct) (use locked_step in blast)+

definition mutexLost :: "'s server \<Rightarrow> bool" where
  "mutexLost S \<longleftrightarrow> (\<forall>S' S'' g r t. raceStep\<^sup>*\<^sup>* S S' \<longrightarrow> raceStep\<^sup>*\<^sup>* S' S'' \<longrightarrow>
     as_locked (fst S') \<and> (snd S' g = Some (PStart r t) \<longrightarrow> snd S'' g = Some (PStart r t)))"

lemma locked_lost: "as_locked (fst S) \<Longrightarrow> mutexLost S"
  unfolding mutexLost_def using locked_steps by meson

lemma two_steps: "r x y \<Longrightarrow> r y z \<Longrightarrow> r\<^sup>*\<^sup>* x z"
  by (meson converse_rtranclp_into_rtranclp r_into_rtranclp)

subsection \<open>Properties\<close>

text \<open>A server with the given reference activated, and the objects for the examples.\<close>

definition exampleRef :: "64 word \<Rightarrow> actorReferenceVirtual" where
  "exampleRef gen = VirtualRef \<lparr>vr_namespace = ''ns'', vr_moduleID = ''m'', vr_actorID = ''a'', vr_generation = gen, vr_idType = IDTypeActor\<rparr>"

definition exampleActor :: "'s Actor" where
  "exampleActor = \<lparr>ac_InvokeStream = None, ac_Invoke = Some (\<lambda>operation payload tr. ret []), ac_Close = ret ()\<rparr>"

definition exampleServer :: "'s registry \<Rightarrow> 's activations" where
  "exampleServer reg =
     \<lparr>as_locked = False, as_modules = Map.empty, as_actors = Map.empty, as_futures = Map.empty, as_objects = Map.empty, as_next = 0,
      as_serverID = [], as_serverVersion = 0, as_registry = reg, as_goModules = Map.empty, as_customHostFns = Map.empty, as_gcActorsAfter = 60\<rparr>"

lemma exampleServer_start: "calmReach (exampleServer reg, Map.empty)"
  by (rule calmReach.start [of reg Map.empty 60]) (simp add: newActivations_def exampleServer_def)

lemma exampleRef_simps [simp]:
  "refActorID (exampleRef 2) = refActorID (exampleRef 1)" "refGeneration (exampleRef g) = g"
  by (simp_all add: exampleRef_def refActorID_def refGeneration_def vrActorID_def)

definition activeServer :: "tree localKV activations" where
  "activeServer = activated (exampleRef 1) exampleActor (exampleServer (NewLocalRegistry rbtOps))"

definition activeObject :: "nat \<Rightarrow> tree localKV activatedActor" where
  "activeObject f = \<lparr>aa_a = exampleActor, aa_reference = exampleRef 1, aa_closed = False, aa_lastInvoke = 0, aa_gcAfter = 60,
     aa_gcTimer = 60, aa_gcChecks = [], aa_locked = False, aa_onGc = f\<rparr>"

definition doneFuture :: "nat \<Rightarrow> nat future" where
  "doneFuture x = \<lparr>fu_result = Some x, fu_err = None, fu_resolved = True, fu_pending = 0\<rparr>"

lemma wait_doneFuture [simp]: "futureWait (doneFuture x) = Ret (Some x)"
  by (simp add: doneFuture_def futureWait_def)

lemma activeObject_simps [simp]:
  "aa_reference (activeObject f) = exampleRef 1" "\<not> aa_closed (activeObject f)" "\<not> aa_locked (activeObject f)"
  "aa_onGc (activeObject f) = f" "aa_lastInvoke (activeObject f) = 0" "aa_gcAfter (activeObject f) = 60"
  by (simp_all add: activeObject_def)

lemma activated_active:
  assumes "as_gcActorsAfter a = 60"
  shows "as_objects (activated (exampleRef 1) exampleActor a) = (as_objects a)(Suc (as_next a) \<mapsto> activeObject (as_next a))"
    "as_futures (activated (exampleRef 1) exampleActor a) = (as_futures a)(as_next a \<mapsto> doneFuture (Suc (as_next a)))"
  using assms by (simp_all add: newObject_def activeObject_def doneFuture_def)

lemma activeServer_simps [simp]:
  "\<not> as_locked activeServer" "as_actors activeServer = [refActorID (exampleRef 1) \<mapsto> 0]" "as_next activeServer = Suc (Suc 0)"
  "as_objects activeServer = [Suc 0 \<mapsto> activeObject 0]" "as_futures activeServer = [0 \<mapsto> doneFuture (Suc 0)]"
  "as_gcActorsAfter activeServer = 60"
  unfolding activeServer_def by (simp_all add: activated_active exampleServer_def del: activated_simps(4,5))

lemma example_activated: "calmReach (activeServer, [10 \<mapsto> PInvoke (Suc 0)])"
proof -
  have "calmStep\<^sup>*\<^sup>* (exampleServer (NewLocalRegistry rbtOps), Map.empty) (activeServer, [10 \<mapsto> PInvoke (Suc 0)])"
    using activated_steps [of "exampleServer (NewLocalRegistry rbtOps)" "exampleRef 1" Map.empty 10 exampleActor]
    by (simp add: exampleServer_def activeServer_def)
  from calmReach_steps [OF this exampleServer_start] show ?thesis .
qed

text \<open>
  \<^bold>\<open>C4\<close> (one instance, one thread). Whatever invocations, timers, collections and failures overlap on a server in a calm history, that
  is, one in which the timer of an actor never collects it while it is being created and before its startup operation has the lock, nor between
  the failure of that operation and the close of the actor:
  of two instances of the same actor at most one is open, and at most one goroutine runs an operation of an instance of the actor.
\<close>

theorem actors_single_threaded:
  assumes "calmReach (a, P)" "as_objects a x = Some ox" "as_objects a y = Some oy"
    and "refActorID (aa_reference ox) = refActorID (aa_reference oy)"
  shows "(\<not> aa_closed ox \<and> \<not> aa_closed oy \<longrightarrow> x = y)
    \<and> (P g = Some (PRunning x) \<and> P g' = Some (PRunning y) \<longrightarrow> x = y \<and> g = g')"
proof -
  have inv: "serverInv (a, P)" "tableInv (tableOf (a, P))" using calmReach_inv [OF assms(1)] by auto
  have one: "x = y" if "\<not> aa_closed ox" "\<not> aa_closed oy"
    using tableInv_single [OF inv(2), of x y "refActorID (aa_reference ox)" "aa_onGc ox" "aa_onGc oy"] assms(2-4) that
    by (auto simp: openObjects_def bornAs_def)
  moreover have "x = y \<and> g = g'" if r: "P g = Some (PRunning x)" "P g' = Some (PRunning y)"
  proof -
    have "\<not> aa_closed ox" "\<not> aa_closed oy"
      using serverInvD(2) [OF inv(1) r(1)] serverInvD(2) [OF inv(1) r(2)] assms(2,3) by (auto simp: closedObj_def)
    then have "x = y" using one by blast
    with serverInvD(4) [OF inv(1) r(1) r(2)] show ?thesis by simp
  qed
  ultimately show ?thesis by blast
qed

theorem actors_single_threaded_witness:
  "\<exists>a :: tree localKV activations. \<exists>P x ox. calmReach (a, P) \<and> as_objects a x = Some ox \<and> \<not> aa_closed ox \<and> P 10 = Some (PRunning x)
     \<and> (\<forall>g. P g = Some (PRunning x) \<longrightarrow> 10 = g)"
proof -
  let ?o = "(activeObject 0)\<lparr>aa_lastInvoke := 0, aa_gcTimer := 60\<rparr>" and ?P = "[10 \<mapsto> PRunning (Suc 0)] :: nat \<rightharpoonup> pc"
  let ?a = "setObject (Suc 0) (?o\<lparr>aa_locked := True\<rparr>) activeServer"
  have "raceStep (activeServer, [10 \<mapsto> PInvoke (Suc 0)]) (?a, ?P)"
    using raceStep.invoke_begin [where P = "[10 \<mapsto> PInvoke (Suc 0)]" and a = activeServer and g = 10 and x = "Suc 0" and obj = "activeObject 0" and now = 0 and obj' = ?o]
    by (simp add: invokeEnter_def)
  moreover have "calm (activeServer, [10 \<mapsto> PInvoke (Suc 0)]) (?a, ?P)" by (simp add: calm_def)
  ultimately have r: "calmReach (?a, ?P)" using calmReach.step [OF example_activated] by (simp add: calmStep_def)
  have o: "as_objects ?a (Suc 0) = Some (?o\<lparr>aa_locked := True\<rparr>)" by (simp add: setObject_def)
  have run: "?P 10 = Some (PRunning (Suc 0))" by simp
  have "10 = g" if "?P g = Some (PRunning (Suc 0))" for g
    using actors_single_threaded [OF r o o refl, of 10 g] run that by blast
  moreover have "\<not> aa_closed (?o\<lparr>aa_locked := True\<rparr>)" by simp
  ultimately show ?thesis using r o run by blast
qed

text \<open>
  \<^bold>\<open>C12\<close> (a new generation can stop the server). Two invocations with the same new generation of an activated actor
  can both find the old instance. The one that comes second to the lock finds another future, checks the generation of
  the instance it knows already, which is still too low, and returns its error with the mutex locked. From then on no invocation
  of any actor on this server gets past its first line.
\<close>

theorem generation_race_deadlock:
  "\<exists>S :: tree localKV server. \<exists>f x. calmReach S \<and> mutexLost S
     \<and> snd S = [10 \<mapsto> PInvoke x, 11 \<mapsto> PClosePrev (exampleRef 2) f x, 12 \<mapsto> PDone]"
proof -
  let ?r = "exampleRef 2" and ?x = "Suc 0" and ?f = "Suc (Suc 0)" and ?a = activeServer
  have "calmStep\<^sup>*\<^sup>* (?a, [10 \<mapsto> PInvoke ?x]) (?a, [10 \<mapsto> PInvoke ?x, 11 \<mapsto> PRelock ?r 0 ?x])"
    by (rule relock_steps [where obj = "activeObject 0" and fu = "doneFuture ?x"]) simp_all
  then have 1: "calmReach (?a, [10 \<mapsto> PInvoke ?x, 11 \<mapsto> PRelock ?r 0 ?x])" by (rule calmReach_steps [OF _ example_activated])
  have "calmStep\<^sup>*\<^sup>* (?a, [10 \<mapsto> PInvoke ?x, 11 \<mapsto> PRelock ?r 0 ?x]) (?a, [10 \<mapsto> PInvoke ?x, 11 \<mapsto> PRelock ?r 0 ?x, 12 \<mapsto> PRelock ?r 0 ?x])"
    by (rule relock_steps [where obj = "activeObject 0" and fu = "doneFuture ?x"]) simp_all
  from calm_steps [OF this, of "installFuture ?r ?a" 11 "PClosePrev ?r ?f ?x"]
  have "calmStep\<^sup>*\<^sup>* (?a, [10 \<mapsto> PInvoke ?x, 11 \<mapsto> PRelock ?r 0 ?x])
      (installFuture ?r ?a, [10 \<mapsto> PInvoke ?x, 11 \<mapsto> PClosePrev ?r ?f ?x, 12 \<mapsto> PRelock ?r 0 ?x])"
    using raceStep.relock [where P = "[10 \<mapsto> PInvoke ?x, 11 \<mapsto> PRelock ?r 0 ?x, 12 \<mapsto> PRelock ?r 0 ?x]" and g = 11 and ref = ?r and f = 0 and x = ?x
        and obj = "activeObject 0" and n = "ActivateNow (Some ?x)" and a = ?a]
    by (simp add: invokeRelock_def fun_upd_twist)
  from calm_steps [OF this, of "(installFuture ?r ?a)\<lparr>as_locked := True\<rparr>" 12 PDone]
  have "calmStep\<^sup>*\<^sup>* (?a, [10 \<mapsto> PInvoke ?x, 11 \<mapsto> PRelock ?r 0 ?x])
      ((installFuture ?r ?a)\<lparr>as_locked := True\<rparr>, [10 \<mapsto> PInvoke ?x, 11 \<mapsto> PClosePrev ?r ?f ?x, 12 \<mapsto> PDone])"
    using raceStep.relock [where P = "[10 \<mapsto> PInvoke ?x, 11 \<mapsto> PClosePrev ?r ?f ?x, 12 \<mapsto> PRelock ?r 0 ?x]" and g = 12 and ref = ?r and f = 0 and x = ?x
        and obj = "activeObject 0" and n = "ReturnErr generationErr" and a = "installFuture ?r ?a"]
    by (simp add: invokeRelock_def installFuture_def linorder_not_le)
  from calmReach_steps [OF this 1]
  have "calmReach ((installFuture ?r ?a)\<lparr>as_locked := True\<rparr>, [10 \<mapsto> PInvoke ?x, 11 \<mapsto> PClosePrev ?r ?f ?x, 12 \<mapsto> PDone])" .
  moreover have "mutexLost ((installFuture ?r ?a)\<lparr>as_locked := True\<rparr>, [10 \<mapsto> PInvoke ?x, 11 \<mapsto> PClosePrev ?r ?f ?x, 12 \<mapsto> PDone])"
    by (rule locked_lost) simp
  ultimately show ?thesis by (metis snd_conv)
qed

text \<open>
  \<^bold>\<open>C13\<close> (timers are not pinned to their instance). A timer that an instance has set, and that fires after this
  instance was collected and another one was activated by an equal reference, runs on the other instance: references are compared by value.
\<close>

theorem timer_not_pinned:
  "\<exists>(a :: tree localKV activations) P x y obj a' P'. calmReach (a, P) \<and> as_objects a x = Some obj \<and> aa_closed obj
     \<and> P 13 = Some (PStart (aa_reference obj) True)
     \<and> raceStep\<^sup>*\<^sup>* (a, P) (a', P') \<and> P' 13 = Some (PInvoke y) \<and> y \<noteq> x"
proof -
  let ?r = "exampleRef 1" and ?o = "(activeObject 0)\<lparr>aa_closed := True, aa_locked := False\<rparr>"
  let ?b = "setObject (Suc 0) ?o activeServer\<lparr>as_actors := Map.empty\<rparr>" and ?f = "Suc (Suc 0)" and ?y = "Suc (Suc (Suc 0))"
  let ?c = "activated ?r exampleActor ?b" and ?P = "[10 \<mapsto> PInvoke (Suc 0), 11 \<mapsto> PDone, 12 \<mapsto> PInvoke ?y] :: nat \<rightharpoonup> pc"
  have "calmStep\<^sup>*\<^sup>* (activeServer, [10 \<mapsto> PInvoke (Suc 0)]) (collected (Suc 0) (activeObject 0) activeServer, [10 \<mapsto> PInvoke (Suc 0), 11 \<mapsto> PDone])"
    using collection_steps [of activeServer "[10 \<mapsto> PInvoke (Suc 0)]" 11 "Suc 0" "activeObject 0"] by (force split: if_splits)
  moreover have "collected (Suc 0) (activeObject 0) activeServer = ?b" by (simp add: collected_def)
  ultimately have "calmReach (?b, [10 \<mapsto> PInvoke (Suc 0), 11 \<mapsto> PDone])" using calmReach_steps [OF _ example_activated] by simp
  moreover have "calmStep\<^sup>*\<^sup>* (?b, [10 \<mapsto> PInvoke (Suc 0), 11 \<mapsto> PDone]) (?c, ?P)"
    using activated_steps [of ?b ?r "[10 \<mapsto> PInvoke (Suc 0), 11 \<mapsto> PDone]" 12 exampleActor] by simp
  ultimately have "calmReach (?c, ?P)" using calmReach_steps by blast
  moreover have "calmStep (?c, ?P) (?c, ?P(13 \<mapsto> PStart ?r True))"
    unfolding calmStep_def by (intro conjI raceStep.call calm_move) simp_all
  ultimately have s1: "calmReach (?c, ?P(13 \<mapsto> PStart ?r True))" by (rule calmReach.step)
  have c: "as_objects ?c = [Suc 0 \<mapsto> ?o, ?y \<mapsto> activeObject ?f]" "as_futures ?c = [0 \<mapsto> doneFuture (Suc 0), ?f \<mapsto> doneFuture ?y]"
    "as_actors ?c = [refActorID ?r \<mapsto> ?f]" "\<not> as_locked ?c"
    by (simp_all add: activated_active setObject_def del: activated_simps(4,5))
  have s2: "raceStep (?c, ?P(13 \<mapsto> PStart ?r True)) (?c, ?P(13 \<mapsto> PWaiting ?r True ?f))"
    using raceStep.lookup [where P = "?P(13 \<mapsto> PStart ?r True)" and g = 13 and ref = ?r and timer = True and a = ?c and n = "WaitFor ?f"] c
    by (simp add: invokeLookup_def del: activated_simps(2,4,5))
  have s3: "raceStep (?c, ?P(13 \<mapsto> PWaiting ?r True ?f)) (?c, ?P(13 \<mapsto> PInvoke ?y))"
    using raceStep.waited [where P = "?P(13 \<mapsto> PWaiting ?r True ?f)" and g = 13 and ref = ?r and timer = True and f = ?f and a = ?c
        and fu = "doneFuture ?y" and x = ?y and obj = "activeObject ?f"] c
    by (simp add: invokeWaited_def del: activated_simps(2,4,5))
  have o: "as_objects ?c (Suc 0) = Some ?o" "aa_reference ?o = ?r" "aa_closed ?o" unfolding c(1) by simp_all
  have "raceStep\<^sup>*\<^sup>* (?c, ?P(13 \<mapsto> PStart ?r True)) (?c, ?P(13 \<mapsto> PInvoke ?y))"
    by (rule two_steps [of raceStep, OF s2 s3])
  moreover have "(?P(13 \<mapsto> PStart ?r True)) 13 = Some (PStart (aa_reference ?o) True)" "(?P(13 \<mapsto> PInvoke ?y)) 13 = Some (PInvoke ?y)"
    "?y \<noteq> Suc 0" using o(2) by simp_all
  ultimately show ?thesis using s1 o by (intro exI conjI)
qed

text \<open>A further activation of the example actor, and an activation whose startup operation fails.\<close>

lemma activate_again:
  assumes "reaches (a, P)" "\<not> as_locked a" "as_actors a (refActorID (exampleRef 1)) = None" "P g = None" "as_next a = n" "as_gcActorsAfter a = 60"
  shows "\<exists>a'. reaches (a', P(g \<mapsto> PInvoke (Suc n))) \<and> as_objects a' = (as_objects a)(Suc n \<mapsto> activeObject n) \<and> as_next a' = Suc (Suc n)
    \<and> \<not> as_locked a' \<and> as_gcActorsAfter a' = 60"
  using reaches_steps [OF activated_steps [of a "exampleRef 1" P g exampleActor] assms(1)] assms(2-6) activated_active(1) [OF assms(6)]
  by (intro exI [of _ "activated (exampleRef 1) exampleActor a"]) simp

lemma failed_startup:
  obtains a :: "tree localKV activations" where "reaches (a, [10 \<mapsto> PStartupFailed (exampleRef 1) 0 1])" "as_objects a = [1 \<mapsto> activeObject 0]"
    "as_next a = 2" "\<not> as_locked a" "as_gcActorsAfter a = 60" "as_actors a = [refActorID (exampleRef 1) \<mapsto> 0]"
proof -
  let ?R = "NewLocalRegistry rbtOps" and ?r = "exampleRef 1" and ?o = "activeObject 0"
  let ?a1 = "setObject 1 (?o\<lparr>aa_locked := True\<rparr>) (installFuture ?r (exampleServer ?R)\<lparr>as_next := Suc (Suc 0)\<rparr>)"
  have "newObject 0 exampleActor ?r 0 (exampleServer ?R) = ?o" by (simp add: newObject_def activeObject_def exampleServer_def)
  then have "calmStep\<^sup>*\<^sup>* (exampleServer ?R, Map.empty) (?a1, [10 \<mapsto> PStartup ?r 0 1])"
    using starting_steps [of "exampleServer ?R" ?r Map.empty 10 0 exampleActor] by (simp add: exampleServer_def)
  then have "reaches (?a1, [10 \<mapsto> PStartup ?r 0 1])" using reaches_steps reaches.start [of ?R Map.empty 60 "exampleServer ?R"]
    by (fastforce simp: newActivations_def exampleServer_def)
  then have "reaches (setObject 1 ?o ?a1, [10 \<mapsto> PStartupFailed ?r 0 1])"
    by (rule reaches.step) (use raceStep.startup_failed [of "[10 \<mapsto> PStartup ?r 0 1]" 10 ?r 0 1 ?a1 "?o\<lparr>aa_locked := True\<rparr>"] in
      \<open>simp add: setObject_def activeObject_def\<close>)
  then show ?thesis by (rule that) (simp_all add: setObject_def installFuture_def exampleServer_def)
qed
text \<open>
  \<^bold>\<open>C11\<close> (a slow startup operation that fails leaves two instances). If the startup operation takes longer than the idle time and fails, the timer can take the lock of the actor first,
  close it and remove its entry; another invocation activates the actor again, and then the first goroutine deletes the entry of that new
  activation, without the mutex and without looking at it. The next invocation activates a second instance: two open instances of one actor run code
  at the same time.
\<close>

theorem failed_startup_two_instances:
  "\<exists>(a :: tree localKV activations) P x y ox oy. reaches (a, P) \<and> x \<noteq> y \<and> as_objects a x = Some ox \<and> as_objects a y = Some oy
     \<and> refActorID (aa_reference ox) = refActorID (aa_reference oy) \<and> \<not> aa_closed ox \<and> \<not> aa_closed oy
     \<and> P 12 = Some (PRunning x) \<and> P 13 = Some (PRunning y)"
proof -
  let ?r = "exampleRef 1" and ?o = "activeObject 0" and ?c = "activeObject 0\<lparr>aa_closed := True, aa_locked := False\<rparr>"
  let ?P3 = "[10 \<mapsto> PStartupFailed ?r 0 1, 11 \<mapsto> PDone] :: nat \<rightharpoonup> pc"
  let ?P5 = "[10 \<mapsto> PSettle 0 None, 11 \<mapsto> PDone, 12 \<mapsto> PInvoke 3] :: nat \<rightharpoonup> pc"
  have enter: "invokeEnter 0 False (activeObject f) = (Ret (), activeObject f)" for f by (simp add: invokeEnter_def activeObject_def)
  obtain a2 where a2: "reaches (a2, [10 \<mapsto> PStartupFailed ?r 0 1])" "as_objects a2 = [1 \<mapsto> ?o]" "as_next a2 = 2" "\<not> as_locked a2"
      "as_gcActorsAfter a2 = 60" "as_actors a2 = [refActorID ?r \<mapsto> 0]" by (rule failed_startup)
  have a3: "as_objects (collected 1 ?o a2) = [1 \<mapsto> ?c]" "as_next (collected 1 ?o a2) = 2" "\<not> as_locked (collected 1 ?o a2)"
      "as_gcActorsAfter (collected 1 ?o a2) = 60" "as_actors (collected 1 ?o a2) = Map.empty"
    using a2 by (simp_all add: collected_def setObject_def)
  obtain S where "raceStep (a2, [10 \<mapsto> PStartupFailed ?r 0 1]) S" "raceStep S (collected 1 ?o a2, ?P3)"
    using collection_steps [of a2 "[10 \<mapsto> PStartupFailed ?r 0 1]" 11 1 ?o] a2 by fastforce
  then have "reaches (collected 1 ?o a2, ?P3)" using reaches.step [OF reaches.step [OF a2(1)]] by blast
  then obtain a4 where a4: "reaches (a4, ?P3(12 \<mapsto> PInvoke 3))" "as_objects a4 = [1 \<mapsto> ?c, 3 \<mapsto> activeObject 2]" "as_next a4 = 4" "\<not> as_locked a4"
      "as_gcActorsAfter a4 = 60"
    using activate_again [of "collected 1 ?o a2" ?P3 12 2] a3 by auto
  have "reaches (setObject 1 ?c a4, ?P3(12 \<mapsto> PInvoke 3, 10 \<mapsto> PForget ?r 0 (Some 1)))"
    using a4(1) by (rule reaches.step) (use raceStep.startup_closed [of "?P3(12 \<mapsto> PInvoke 3)" 10 ?r 0 1 a4 ?c] a4(2) in \<open>simp add: activeObject_def\<close>)
  then have "reaches (forgetActor ?r (setObject 1 ?c a4), ?P5)"
    by (rule reaches.step) (use raceStep.forget [of "?P3(12 \<mapsto> PInvoke 3, 10 \<mapsto> PForget ?r 0 (Some 1))" 10 ?r 0 "Some 1"] in \<open>simp add: fun_upd_twist\<close>)
  then obtain a6 where a6: "reaches (a6, ?P5(13 \<mapsto> PInvoke 5))" "as_objects a6 = [3 \<mapsto> activeObject 2, 1 \<mapsto> ?c, 5 \<mapsto> activeObject 4]"
    using activate_again [of "forgetActor ?r (setObject 1 ?c a4)" ?P5 13 4] a4 by (auto simp: forgetActor_def setObject_def)
  let ?b = "setObject 3 (activeObject 2\<lparr>aa_locked := True\<rparr>) a6" and ?Q = "?P5(13 \<mapsto> PInvoke 5, 12 \<mapsto> PRunning 3)"
  have "reaches (?b, ?Q)"
    using a6(1) by (rule reaches.step) (use raceStep.invoke_begin [of "?P5(13 \<mapsto> PInvoke 5)" 12 3 a6 "activeObject 2" 0 "activeObject 2"] a6(2) enter in simp)
  then have "reaches (setObject 5 (activeObject 4\<lparr>aa_locked := True\<rparr>) ?b, ?Q(13 \<mapsto> PRunning 5))"
    by (rule reaches.step)
      (use raceStep.invoke_begin [of ?Q 13 5 ?b "activeObject 4" 0 "activeObject 4"] a6(2) enter in \<open>simp add: setObject_def\<close>)
  then show ?thesis using a6(2)
    by (intro exI [of _ "setObject 5 (activeObject 4\<lparr>aa_locked := True\<rparr>) ?b"] exI [of _ "?Q(13 \<mapsto> PRunning 5)"]
        exI [of _ 3] exI [of _ 5] exI [of _ "activeObject 2\<lparr>aa_locked := True\<rparr>"] exI [of _ "activeObject 4\<lparr>aa_locked := True\<rparr>"])
      (simp add: setObject_def)
qed

end
