(* ===== verification/Hash_Ring.thy ===== *)
theory Hash_Ring
  imports Go_JSON
begin

section \<open>Consistent hashing: \<open>virtual/registry/dnsregistry/consistent_hash.go\<close>\<close>

text \<open>
  The hash ring of the DNS registry with the parts of \<open>hash/crc32\<close> and \<open>sort\<close> that it uses. Every
  key owns as many points on the ring as there are replicas; a lookup finds the owner of the first point at or
  behind the hash of its argument.
\<close>

unbundle bit_operations_syntax

subsection \<open>\<open>crc32.ChecksumIEEE\<close> and \<open>sort.Search\<close>\<close>

definition crcBit :: "32 word \<Rightarrow> 32 word" where
  "crcBit c = (if c AND 1 \<noteq> 0 then drop_bit 1 c XOR 0xEDB88320 else drop_bit 1 c)"

definition crcByte :: "32 word \<Rightarrow> byte \<Rightarrow> 32 word" where
  "crcByte c b = (crcBit ^^ 8) (c XOR ucast b)"

definition ChecksumIEEE :: "bytes \<Rightarrow> 32 word" where
  "ChecksumIEEE data = NOT (foldl crcByte (NOT 0) data)"

function searchLoop :: "(nat \<Rightarrow> bool) \<Rightarrow> nat \<Rightarrow> nat \<Rightarrow> nat" where
  "searchLoop f i j =
     (if i < j then
        (let h = (i + j) div 2 in if \<not> f h then searchLoop f (h + 1) j else searchLoop f i h)
      else i)"
  by pat_completeness auto
termination
  by (relation "measure (\<lambda>(f, i, j). j - i)") auto

declare searchLoop.simps [simp del]

definition goSearch :: "nat \<Rightarrow> (nat \<Rightarrow> bool) \<Rightarrow> nat" where
  "goSearch n f = searchLoop f 0 n"

subsection \<open>The ring\<close>

record HashRing =
  hr_hash :: "bytes \<Rightarrow> 32 word"
  hr_replicas :: int
  hr_keys :: "int list"
  hr_hashMap :: "int \<rightharpoonup> string"

definition NewHashRing :: "int \<Rightarrow> (bytes \<Rightarrow> 32 word) option \<Rightarrow> HashRing" where
  "NewHashRing replicas fn =
     \<lparr>hr_hash = (case fn of None \<Rightarrow> ChecksumIEEE | Some h \<Rightarrow> h), hr_replicas = replicas, hr_keys = [],
      hr_hashMap = Map.empty\<rparr>"

definition ringIsEmpty :: "HashRing \<Rightarrow> bool" where
  "ringIsEmpty m \<longleftrightarrow> length (hr_keys m) = 0"

definition pointHash :: "HashRing \<Rightarrow> string \<Rightarrow> nat \<Rightarrow> int" where
  "pointHash m key i = uint (hr_hash m (go_bytes (decInt (int i) @ key)))"

text \<open>One iteration of the inner loop of \<open>Add\<close>, the inner loop, and the outer loop.\<close>

definition addPoint :: "string \<Rightarrow> nat \<Rightarrow> HashRing \<Rightarrow> HashRing" where
  "addPoint key i m =
     (let hash = pointHash m key i in
      m\<lparr>hr_keys := hr_keys m @ [hash], hr_hashMap := (hr_hashMap m)(hash \<mapsto> key)\<rparr>)"

definition addKey :: "string \<Rightarrow> HashRing \<Rightarrow> HashRing" where
  "addKey key m = fold (addPoint key) [0 ..< nat (hr_replicas m)] m"

definition ringAdd :: "string list \<Rightarrow> HashRing \<Rightarrow> HashRing" where
  "ringAdd keys m = (let m' = fold addKey keys m in m'\<lparr>hr_keys := sort (hr_keys m')\<rparr>)"

text \<open>A map lookup of a missing key is the zero value.\<close>

definition ringGet :: "HashRing \<Rightarrow> string \<Rightarrow> string" where
  "ringGet m key =
     (if ringIsEmpty m then []
      else
        (let hash = uint (hr_hash m (go_bytes key));
             idx = goSearch (length (hr_keys m)) (\<lambda>i. hr_keys m ! i \<ge> hash);
             idx' = (if idx = length (hr_keys m) then 0 else idx) in
         case hr_hashMap m (hr_keys m ! idx') of None \<Rightarrow> [] | Some s \<Rightarrow> s))"

subsection \<open>Binary search\<close>

lemma takeWhile_less_nth:
  assumes "sorted ks" "k < length ks"
  shows "ks ! k \<ge> h \<longleftrightarrow> length (takeWhile (\<lambda>x. x < h) ks) \<le> k"
proof
  assume "ks ! k \<ge> h"
  then show "length (takeWhile (\<lambda>x. x < h) ks) \<le> k"
    by (metis linorder_not_less nth_mem set_takeWhileD takeWhile_nth)
next
  let ?L = "length (takeWhile (\<lambda>x. x < h) ks)"
  assume L: "?L \<le> k"
  with assms(2) have "\<not> ks ! ?L < h" by (intro nth_length_takeWhile) simp
  moreover have "ks ! ?L \<le> ks ! k" using assms L by (intro sorted_nth_mono) auto
  ultimately show "ks ! k \<ge> h" by simp
qed

lemma searchLoop_sorted:
  assumes "sorted ks" "L = length (takeWhile (\<lambda>x. x < h) ks)"
  shows "i \<le> L \<Longrightarrow> L \<le> j \<Longrightarrow> j \<le> length ks \<Longrightarrow> searchLoop (\<lambda>k. ks ! k \<ge> h) i j = L"
proof (induction "j - i" arbitrary: i j rule: less_induct)
  case less
  show ?case
  proof (cases "i < j")
    case True
    let ?m = "(i + j) div 2"
    have m: "i \<le> ?m" "?m < j" "?m < length ks" using True less.prems by simp_all
    have "ks ! ?m \<ge> h \<longleftrightarrow> L \<le> ?m" using takeWhile_less_nth [OF assms(1) m(3)] assms(2) by simp
    then show ?thesis
      using less.hyps [of j "?m + 1"] less.hyps [of ?m i] less.prems True m
      by (subst searchLoop.simps) (auto simp: Let_def)
  qed (use less.prems in \<open>simp add: searchLoop.simps\<close>)
qed

lemma goSearch_sorted:
  "sorted ks \<Longrightarrow> goSearch (length ks) (\<lambda>k. ks ! k \<ge> h) = length (takeWhile (\<lambda>x. x < h) ks)"
  unfolding goSearch_def by (rule searchLoop_sorted) (simp_all add: length_takeWhile_le)

subsection \<open>The points of a ring\<close>

text \<open>The first point at or behind \<open>h\<close>, going round.\<close>

definition succPoint :: "int set \<Rightarrow> int \<Rightarrow> int" where
  "succPoint K h = (if \<exists>k \<in> K. h \<le> k then Min {k \<in> K. h \<le> k} else Min K)"

lemma succPoint_mem: "finite K \<Longrightarrow> K \<noteq> {} \<Longrightarrow> succPoint K h \<in> K"
  using Min_in [of "{k \<in> K. h \<le> k}"] by (auto simp: succPoint_def)

text \<open>A smaller set of points in which the successor stays has the same successor.\<close>

lemma succPoint_subset:
  assumes "finite K" "K' \<subseteq> K" "succPoint K h \<in> K'"
  shows "succPoint K' h = succPoint K h"
proof -
  have fin: "finite K'" using assms finite_subset by blast
  show ?thesis
  proof (cases "\<exists>k \<in> K. h \<le> k")
    case True
    then have s: "succPoint K h = Min {k \<in> K. h \<le> k}" by (simp add: succPoint_def)
    have "succPoint K h \<in> {k \<in> K. h \<le> k}" unfolding s using True assms(1) by (intro Min_in) auto
    then have "succPoint K h \<in> {k \<in> K'. h \<le> k}" using assms(3) by simp
    moreover have "succPoint K h \<le> k" if "k \<in> {k \<in> K'. h \<le> k}" for k
      unfolding s using that assms(1,2) by (intro Min_le) auto
    ultimately show ?thesis using fin unfolding succPoint_def [of K'] by (auto intro!: Min_eqI)
  next
    case False
    then have s: "succPoint K h = Min K" by (simp add: succPoint_def)
    moreover have "\<not> (\<exists>k \<in> K'. h \<le> k)" using False assms(2) by blast
    moreover have "Min K' = Min K" using assms fin s by (intro Min_eqI) auto
    ultimately show ?thesis by (simp add: succPoint_def)
  qed
qed

lemma sorted_succPoint:
  assumes "sorted ks" "ks \<noteq> []"
  shows "ks ! (let i = length (takeWhile (\<lambda>x. x < h) ks) in if i = length ks then 0 else i) = succPoint (set ks) h"
proof -
  let ?i = "length (takeWhile (\<lambda>x. x < h) ks)"
  show ?thesis
  proof (cases "?i = length ks")
    case True
    then have "\<forall>k \<in> set ks. k < h" by (metis takeWhile_eq_all_conv takeWhile_eq_take take_all_iff order.refl)
    then have "\<not> (\<exists>k \<in> set ks. h \<le> k)" by auto
    moreover have "ks ! 0 = Min (set ks)"
      using assms by (intro Min_eqI [symmetric]) (auto simp: in_set_conv_nth intro: sorted_nth_mono)
    ultimately show ?thesis using True by (simp add: succPoint_def)
  next
    case False
    then have i: "?i < length ks" using length_takeWhile_le [of "\<lambda>x. x < h" ks] by linarith
    have "h \<le> ks ! ?i" using takeWhile_less_nth [OF assms(1) i, of h] by simp
    moreover have "ks ! ?i \<le> k" if "k \<in> set ks" "h \<le> k" for k
    proof -
      obtain j where j: "j < length ks" "k = ks ! j" using \<open>k \<in> set ks\<close> by (auto simp: in_set_conv_nth)
      then have "?i \<le> j" using takeWhile_less_nth [OF assms(1) j(1), of h] \<open>h \<le> k\<close> by simp
      with j assms(1) show ?thesis by (simp add: sorted_nth_mono)
    qed
    ultimately have "Min {k \<in> set ks. h \<le> k} = ks ! ?i" using i by (intro Min_eqI) auto
    with False \<open>h \<le> ks ! ?i\<close> i show ?thesis by (auto simp: succPoint_def)
  qed
qed

text \<open>The points of the keys, and the ring that \<open>Add\<close> makes of them.\<close>

definition pointOf :: "(bytes \<Rightarrow> 32 word) \<Rightarrow> string \<Rightarrow> nat \<Rightarrow> int" where
  "pointOf h key i = uint (h (go_bytes (decInt (int i) @ key)))"

definition ringPoints :: "(bytes \<Rightarrow> 32 word) \<Rightarrow> int \<Rightarrow> string set \<Rightarrow> int set" where
  "ringPoints h r ks = {pointOf h k i |k i. k \<in> ks \<and> int i < r}"

lemma ringPoints_image: "ringPoints h r ks = (\<lambda>(k, i). pointOf h k i) ` (ks \<times> {..< nat r})"
  by (auto simp: ringPoints_def image_iff) (metis zless_nat_eq_int_zless)

lemma addKey_keys:
  "hr_hash (addKey k m) = hr_hash m \<and> hr_replicas (addKey k m) = hr_replicas m
   \<and> hr_keys (addKey k m) = hr_keys m @ map (pointOf (hr_hash m) k) [0 ..< nat (hr_replicas m)]
   \<and> hr_hashMap (addKey k m) = (\<lambda>p. if \<exists>i < nat (hr_replicas m). p = pointOf (hr_hash m) k i then Some k else hr_hashMap m p)"
proof -
  have "let m' = fold (addPoint k) [0 ..< n] m in
      hr_hash m' = hr_hash m \<and> hr_replicas m' = hr_replicas m
    \<and> hr_keys m' = hr_keys m @ map (pointOf (hr_hash m) k) [0 ..< n]
    \<and> hr_hashMap m' = (\<lambda>p. if \<exists>i < n. p = pointOf (hr_hash m) k i then Some k else hr_hashMap m p)" for n
    by (induction n) (auto simp: addPoint_def Let_def pointHash_def pointOf_def fun_eq_iff less_Suc_eq)
  then show ?thesis by (simp add: addKey_def Let_def)
qed

lemma ringPoints_insert: "ringPoints h r (insert k K) = pointOf h k ` {..< nat r} \<union> ringPoints h r K"
  by (auto simp: ringPoints_image)

lemma fold_addKey_fixed:
  "hr_hash (fold addKey ks m) = hr_hash m \<and> hr_replicas (fold addKey ks m) = hr_replicas m"
  by (induction ks arbitrary: m) (simp_all add: addKey_keys)

lemma fold_addKey_keys:
  "set (hr_keys (fold addKey ks m)) = set (hr_keys m) \<union> ringPoints (hr_hash m) (hr_replicas m) (set ks)"
  by (induction ks arbitrary: m)
    (simp_all add: addKey_keys ringPoints_insert Un_assoc atLeast0LessThan, simp add: ringPoints_def)

lemma fold_addKey_dom:
  "dom (hr_hashMap (fold addKey ks m)) = dom (hr_hashMap m) \<union> ringPoints (hr_hash m) (hr_replicas m) (set ks)"
proof (induction ks arbitrary: m)
  case (Cons k ks)
  have "dom (hr_hashMap (addKey k m)) = dom (hr_hashMap m) \<union> pointOf (hr_hash m) k ` {..< nat (hr_replicas m)}"
    by (auto simp: addKey_keys dom_def split: if_splits)
  then show ?case by (simp add: Cons.IH ringPoints_insert Un_assoc addKey_keys)
qed (simp add: ringPoints_def)

lemma fold_addKey_owner:
  "hr_hashMap (fold addKey ks m) p = Some k \<Longrightarrow>
   (k \<in> set ks \<and> (\<exists>i < nat (hr_replicas m). p = pointOf (hr_hash m) k i)) \<or> hr_hashMap m p = Some k"
proof (induction ks arbitrary: m)
  case (Cons a ks)
  from Cons.prems have "hr_hashMap (fold addKey ks (addKey a m)) p = Some k" by simp
  from Cons.IH [OF this] show ?case by (auto simp: addKey_keys split: if_splits)
qed simp

definition ringOf :: "(bytes \<Rightarrow> 32 word) \<Rightarrow> int \<Rightarrow> string list \<Rightarrow> HashRing" where
  "ringOf h r ks = ringAdd ks (NewHashRing r (Some h))"

lemma ringOf_facts:
  shows "hr_hash (ringOf h r ks) = h" "sorted (hr_keys (ringOf h r ks))"
    "set (hr_keys (ringOf h r ks)) = ringPoints h r (set ks)"
    "dom (hr_hashMap (ringOf h r ks)) = ringPoints h r (set ks)"
    "hr_hashMap (ringOf h r ks) p = Some k \<Longrightarrow> k \<in> set ks \<and> (\<exists>i < nat r. p = pointOf h k i)"
  using fold_addKey_owner [of ks "NewHashRing r (Some h)" p k]
  by (auto simp: ringOf_def ringAdd_def Let_def fold_addKey_fixed fold_addKey_keys fold_addKey_dom NewHashRing_def)

lemma finite_ringPoints: "finite ks \<Longrightarrow> finite (ringPoints h r ks)"
  by (simp add: ringPoints_image)

lemma ringPoints_empty: "0 < r \<Longrightarrow> ringPoints h r ks = {} \<longleftrightarrow> ks = {}"
  by (simp add: ringPoints_image lessThan_empty_iff)

text \<open>A lookup is the owner of the successor point.\<close>

lemma ringGet_owner:
  assumes "0 < r" "ks \<noteq> []"
  obtains k where "ringGet (ringOf h r ks) key = k" "k \<in> set ks"
    "hr_hashMap (ringOf h r ks) (succPoint (ringPoints h r (set ks)) (uint (h (go_bytes key)))) = Some k"
    "\<exists>i < nat r. succPoint (ringPoints h r (set ks)) (uint (h (go_bytes key))) = pointOf h k i"
proof -
  let ?R = "ringOf h r ks" and ?P = "ringPoints h r (set ks)" and ?h = "uint (h (go_bytes key))"
  note f = ringOf_facts [of h r ks]
  have ne: "hr_keys ?R \<noteq> []" "?P \<noteq> {}" using f(3) assms ringPoints_empty [of r h "set ks"] by auto
  have "succPoint ?P ?h \<in> ?P" using ne(2) by (intro succPoint_mem finite_ringPoints) simp_all
  then obtain k where k: "hr_hashMap ?R (succPoint ?P ?h) = Some k" using f(4) by blast
  have "ringGet ?R key = (case hr_hashMap ?R (succPoint ?P ?h) of None \<Rightarrow> [] | Some s \<Rightarrow> s)"
    unfolding ringGet_def f(1) goSearch_sorted [OF f(2)] sorted_succPoint [OF f(2) ne(1), symmetric, unfolded f(3)]
    using ne(1) by (simp only: ringIsEmpty_def Let_def length_0_conv if_False)
  then have "ringGet ?R key = k" using k by simp
  with k f(5) [OF k] that show ?thesis by blast
qed

lemma ringGet_eq:
  assumes "0 < r" "ks \<noteq> []" "hr_hashMap (ringOf h r ks) (succPoint (ringPoints h r (set ks)) (uint (h (go_bytes key)))) = Some k"
  shows "ringGet (ringOf h r ks) key = k"
  using ringGet_owner [OF assms(1,2), of h key] assms(3) by (metis option.inject)

text \<open>No two servers share a point; a server may hit a point of its own twice.\<close>

definition noCollisions :: "(bytes \<Rightarrow> 32 word) \<Rightarrow> int \<Rightarrow> string set \<Rightarrow> bool" where
  "noCollisions h r ks \<longleftrightarrow>
     (\<forall>k \<in> ks. \<forall>k' \<in> ks. \<forall>i \<in> {..< nat r}. \<forall>i' \<in> {..< nat r}. pointOf h k i = pointOf h k' i' \<longrightarrow> k = k')"

lemma owner_unique:
  assumes "noCollisions h r K" "set ks \<subseteq> K" "k \<in> set ks" "i < nat r"
  shows "hr_hashMap (ringOf h r ks) (pointOf h k i) = Some k"
proof -
  have "pointOf h k i \<in> dom (hr_hashMap (ringOf h r ks))" using assms(3,4) by (auto simp: ringOf_facts(4) ringPoints_image)
  then obtain k' where k': "hr_hashMap (ringOf h r ks) (pointOf h k i) = Some k'" by blast
  from ringOf_facts(5) [OF this] obtain i' where "k' \<in> set ks" "i' < nat r" "pointOf h k i = pointOf h k' i'" by blast
  with assms have "k' = k" unfolding noCollisions_def by blast
  with k' show ?thesis by simp
qed

text \<open>A smaller set of servers that still has the server of a key keeps it.\<close>

lemma ringGet_subset:
  assumes "0 < r" "ks' \<noteq> []" "set ks' \<subseteq> set ks" "noCollisions h r (set ks)"
    and "ringGet (ringOf h r ks) key \<in> set ks'"
  shows "ringGet (ringOf h r ks') key = ringGet (ringOf h r ks) key"
proof -
  let ?h = "uint (h (go_bytes key))" and ?k = "ringGet (ringOf h r ks) key"
  have "ks \<noteq> []" using assms(2,3) by auto
  then obtain i where i: "i < nat r" "succPoint (ringPoints h r (set ks)) ?h = pointOf h ?k i"
    using ringGet_owner [OF assms(1), of ks h key] by metis
  have P: "succPoint (ringPoints h r (set ks)) ?h \<in> ringPoints h r (set ks')"
    using i assms(5) by (auto simp: ringPoints_image)
  have S: "ringPoints h r (set ks') \<subseteq> ringPoints h r (set ks)" using assms(3) by (auto simp: ringPoints_def)
  have "succPoint (ringPoints h r (set ks')) ?h = pointOf h ?k i"
    unfolding i(2) [symmetric] by (rule succPoint_subset [OF finite_ringPoints S P]) simp
  moreover have "hr_hashMap (ringOf h r ks') (pointOf h ?k i) = Some ?k"
    by (rule owner_unique [OF assms(4,3,5) i(1)])
  ultimately show ?thesis using ringGet_eq [OF assms(1,2), of h key] by simp
qed

subsection \<open>Properties\<close>

text \<open>
  On a ring to which a non-empty list of servers was added a lookup
  returns one of these servers: the owner of the first point, going round, at or behind the hash
  of the key. This is what the binary search over the sorted points finds, and the whole of the ring's map
  is covered by points.
\<close>

lemma ringGet_spec:
  assumes "0 < r" "ks \<noteq> []"
  shows "ringGet (ringOf h r ks) key \<in> set ks
    \<and> (\<exists>i < nat r. pointOf h (ringGet (ringOf h r ks) key) i = succPoint (ringPoints h r (set ks)) (uint (h (go_bytes key))))"
  using ringGet_owner [OF assms, of h key] by metis

text \<open>
  Minimal disruption. If the points of the servers do not collide, then on two rings of which
  one has a subset of the other's servers (in any order) every key whose server is on both has
  the same server on both: adding or removing servers moves only the keys of the servers that came
  or went, and the order in which the resolver lists the servers does not matter.
\<close>

lemma ringGet_consistent:
  assumes "0 < r" "ks' \<noteq> []" "set ks' \<subseteq> set ks" "noCollisions h r (set ks)"
    and "ringGet (ringOf h r ks) key \<in> set ks'"
  shows "ringGet (ringOf h r ks') key = ringGet (ringOf h r ks) key"
  by (rule ringGet_subset [OF assms])

text \<open>A hash that sums the bytes, for the example.\<close>

definition byteSum :: "bytes \<Rightarrow> 32 word" where
  "byteSum bs = foldr (\<lambda>b s. ucast b + s) bs 0"

lemma two_server_ring:
  "noCollisions byteSum 1 {''a'', ''b''}"
  "ringGet (ringOf byteSum 1 [''a'', ''b'']) ''0b'' = ''b''"
proof -
  have p: "pointOf byteSum ''a'' 0 = 145" "pointOf byteSum ''b'' 0 = 146" "uint (byteSum (go_bytes ''0b'')) = 146"
    by (simp_all add: pointOf_def byteSum_def go_bytes_def decInt_def decNat.simps digit_def char_of_def bit_0)
  show "noCollisions byteSum 1 {''a'', ''b''}" by (simp add: noCollisions_def p lessThan_Suc)
  show "ringGet (ringOf byteSum 1 [''a'', ''b'']) ''0b'' = ''b''"
  proof -
    have P: "ringPoints byteSum 1 (set [''a'', ''b'']) = {145, 146}" by (auto simp: ringPoints_image lessThan_Suc p)
    have "{k \<in> {145, 146}. (146::int) \<le> k} = {146}" by auto
    then have "succPoint (ringPoints byteSum 1 (set [''a'', ''b''])) (uint (byteSum (go_bytes ''0b''))) = 146"
      unfolding P p(3) by (simp add: succPoint_def)
    moreover have "hr_hashMap (ringOf byteSum 1 [''a'', ''b'']) 146 = Some ''b''"
      using owner_unique [of byteSum 1 "{''a'', ''b''}" "[''a'', ''b'']" "''b''" 0] \<open>noCollisions byteSum 1 _\<close> p(2) by simp
    ultimately show ?thesis by (intro ringGet_eq) simp_all
  qed
qed

subsection \<open>Points that do not collide\<close>

text \<open>
  The checksum is injective in what comes before a common ending, and it can be computed: no two points of \<open>1.0.0.1:9090\<close> and
  \<open>2.0.0.1:9090\<close> are the same.
\<close>

lemma crcBit_numeral:
  "crcBit (numeral (num.Bit0 n)) = drop_bit 1 (numeral (num.Bit0 n))"
  "crcBit (numeral (num.Bit1 n)) = drop_bit 1 (numeral (num.Bit1 n)) XOR 0xEDB88320" "crcBit 1 = 0xEDB88320" "crcBit 0 = 0"
  by (simp_all add: crcBit_def)

lemma crcByte_unfold: "crcByte c b = crcBit (crcBit (crcBit (crcBit (crcBit (crcBit (crcBit (crcBit (c XOR ucast b))))))))"
  by (simp add: crcByte_def numeral_eq_Suc)

lemma ChecksumIEEE_numeral: "ChecksumIEEE data = foldl crcByte 0xFFFFFFFF data XOR 0xFFFFFFFF"
proof -
  have ones: "(0xFFFFFFFF :: 32 word) = - 1" by simp
  show ?thesis unfolding ones ChecksumIEEE_def by simp
qed

lemma crcBit_inject: "crcBit c = crcBit c' \<longleftrightarrow> c = c'"
proof
  assume e: "crcBit c = crcBit c'"
  have top: "bit (crcBit w) 31 = odd w" for w :: "32 word"
    using bit_imp_le_length [of w 32] by (auto simp: crcBit_def bit_simps and_one_eq odd_iff_mod_2_eq_one)
  have "drop_bit 1 w = (if odd w then crcBit w XOR 0xEDB88320 else crcBit w)" for w :: "32 word"
    by (auto simp: crcBit_def and_one_eq even_iff_mod_2_eq_zero odd_iff_mod_2_eq_one xor.assoc)
  then have "c div 2 = c' div 2" "c mod 2 = c' mod 2"
    using e top [of c] top [of c'] by (auto simp: drop_bit_Suc mod_2_eq_odd split: if_splits)
  then show "c = c'" by (metis div_mult_mod_eq)
qed simp

lemma crcByte_inject: "crcByte c b = crcByte c' b \<longleftrightarrow> c = c'"
proof -
  have "c XOR w = c' XOR w \<longleftrightarrow> c = c'" for w :: "32 word" by (metis xor.assoc xor.right_neutral xor_self_eq)
  then show ?thesis by (simp add: crcByte_unfold crcBit_inject)
qed

lemma checksum_ending: "ChecksumIEEE (a @ s) = ChecksumIEEE (b @ s) \<longleftrightarrow> ChecksumIEEE a = ChecksumIEEE b"
proof -
  have "foldl crcByte c s = foldl crcByte c' s \<longleftrightarrow> c = c'" for c c' by (induction s arbitrary: c c') (simp_all add: crcByte_inject)
  then show ?thesis by (simp add: ChecksumIEEE_def)
qed

lemmas checksum_simps = ChecksumIEEE_numeral crcByte_unfold crcBit_numeral upt_rec go_bytes_def decInt_def decNat.simps digit_def char_of_def bit_0

lemma points_1: "map (pointOf ChecksumIEEE ''1'') [0..<64] =
      [3477152822, 3596227959, 4252452532, 3832313845, 2871910706, 2989936755, 2568717232, 2147529457, 127446590, 511942527,
       1416650876, 1298878781, 1715864318, 2136814527, 807183736, 688362553, 36358138, 456259259, 2628381300, 2243091253,
       1446436389, 1328410468, 1677769895, 2098957798, 844765985, 725690976, 7109027, 427247842, 2666484781, 2280940908,
       1475654674, 1324320083, 1707267728, 2094655441, 865628438, 713244759, 28185492, 414524117, 2670542362, 2251689819,
       1388028567, 1268814806, 1619902485, 2039935316, 920086419, 801920722, 81855761, 502936656, 2590124191, 2205751774,
       1400490144, 1248000481, 1632610850, 2018810723, 924126628, 772685029, 86208294, 473456231, 2610971304, 2193322985,
       1363113721, 1210337208, 1661539451, 2048009530]"
  by (simp add: pointOf_def checksum_simps)

lemma points_2: "map (pointOf ChecksumIEEE ''2'') [0..<64] =
      [1447589260, 1330857165, 1685985038, 2103780943, 841265288, 725582281, 1233418, 420078411, 2660368260, 2274021061,
       3447271878, 3563192455, 4283388740, 3864289797, 2836788418, 2953758083, 2602800704, 2184750849, 94419918, 482052751,
       3477049247, 3592732382, 4245286173, 3826441308, 2874362523, 2991094746, 2573543449, 2155747672, 132515223, 519910614,
       3472745896, 3622229225, 4241196842, 3855660651, 2861637804, 3012170221, 2561098286, 2176611183, 103051168, 524246753,
       3417502509, 3534340716, 4186214831, 3768557806, 2950575657, 3066365800, 2649248939, 2230543850, 57375013, 443566180,
       3396376858, 3547048027, 4165401496, 3781020377, 2921094174, 3070717279, 2620014236, 2234585053, 44634898, 464659027,
       3358992195, 3509392898, 4194321857, 3810227328]"
  by (simp add: pointOf_def checksum_simps)

lemma two_addresses_noCollisions: "noCollisions ChecksumIEEE 64 {''1'' @ s, ''2'' @ s}"
proof -
  have "set (map (pointOf ChecksumIEEE ''1'') [0..<64]) \<inter> set (map (pointOf ChecksumIEEE ''2'') [0..<64]) = {}"
    unfolding points_1 points_2 by simp
  then have apart: "pointOf ChecksumIEEE ''1'' ` {..<64} \<inter> pointOf ChecksumIEEE ''2'' ` {..<64} = {}"
    by (simp add: atLeast0LessThan)
  have short: "pointOf ChecksumIEEE ''1'' i \<noteq> pointOf ChecksumIEEE ''2'' j" if "i < 64" "j < 64" for i j
  proof
    assume "pointOf ChecksumIEEE ''1'' i = pointOf ChecksumIEEE ''2'' j"
    moreover have "pointOf ChecksumIEEE ''1'' i \<in> pointOf ChecksumIEEE ''1'' ` {..<64}" using that(1) by (intro imageI) simp
    moreover have "pointOf ChecksumIEEE ''2'' j \<in> pointOf ChecksumIEEE ''2'' ` {..<64}" using that(2) by (intro imageI) simp
    ultimately show False using apart by (metis IntI empty_iff)
  qed
  have "pointOf ChecksumIEEE (k @ s) i = pointOf ChecksumIEEE (k' @ s) j \<longleftrightarrow> pointOf ChecksumIEEE k i = pointOf ChecksumIEEE k' j" for k k' i j
    using checksum_ending [of "go_bytes (decInt (int i) @ k)" "go_bytes s" "go_bytes (decInt (int j) @ k')"] by (simp add: pointOf_def flip: word_uint_eq_iff)
  from this [of "''1''" _ "''2''"] short have long: "pointOf ChecksumIEEE (''1'' @ s) i \<noteq> pointOf ChecksumIEEE (''2'' @ s) j"
    if "i < 64" "j < 64" for i j using that by blast
  show ?thesis
    unfolding noCollisions_def
  proof (intro ballI impI)
    fix k k' i i' assume "k \<in> {''1'' @ s, ''2'' @ s}" "k' \<in> {''1'' @ s, ''2'' @ s}" "i \<in> {..<nat 64}" "i' \<in> {..<nat 64}"
      "pointOf ChecksumIEEE k i = pointOf ChecksumIEEE k' i'"
    then show "k = k'" using long [of i i'] long [of i' i] by auto
  qed
qed

end
