(* ===== verification/DNS_Registry.thy ===== *)
theory DNS_Registry
  imports Hash_Ring Registry_Validator
begin

section \<open>The DNS registry: \<open>virtual/registry/dnsregistry\<close>\<close>

text \<open>
  A registry without storage: \<open>dns_registry.go\<close> resolves the servers of a host name again and again and places
  actors on them by consistent hashing. The resolver is an interface; its state is of type \<open>'r\<close> and
  \<open>net.LookupIP\<close> is a parameter. The mutexes are held for single assignments only and are not part of the state;
  the discovery goroutine is a sequence of ticks with the state of the resolver at each of them.
\<close>

unbundle bit_operations_syntax

subsection \<open>\<open>net.IP\<close>\<close>

text \<open>\<open>To4\<close>, \<open>To16\<close> and \<open>String\<close> of the standard library; \<open>None\<close> is the nil slice.\<close>

definition v4InV6Prefix :: bytes where
  "v4InV6Prefix = replicate 10 0 @ [255, 255]"

definition To4 :: "bytes \<Rightarrow> bytes option" where
  "To4 ip = (if length ip = 4 then Some ip
             else if length ip = 16 \<and> take 12 ip = v4InV6Prefix then Some (drop 12 ip)
             else None)"

definition To16 :: "bytes \<Rightarrow> bytes option" where
  "To16 ip = (if length ip = 4 then Some (v4InV6Prefix @ ip) else if length ip = 16 then Some ip else None)"

fun joinWith :: "string \<Rightarrow> string list \<Rightarrow> string" where
  "joinWith sep [] = []"
| "joinWith sep [x] = x"
| "joinWith sep (x # xs) = x @ sep @ joinWith sep xs"

definition ip4String :: "bytes \<Rightarrow> string" where
  "ip4String ip = joinWith ''.'' (map (\<lambda>b. decInt (uint b)) ip)"

fun groups16 :: "bytes \<Rightarrow> nat list" where
  "groups16 (a # b # bs) = (unat a * 256 + unat b) # groups16 bs"
| "groups16 _ = []"

definition hexDigit :: "nat \<Rightarrow> char" where
  "hexDigit n = (if n < 10 then digit n else char_of (87 + n))"

definition hexGroup :: "nat \<Rightarrow> string" where
  "hexGroup n =
     (if 4096 \<le> n then [hexDigit (n div 4096 mod 16)] else [])
     @ (if 256 \<le> n then [hexDigit (n div 256 mod 16)] else [])
     @ (if 16 \<le> n then [hexDigit (n div 16 mod 16)] else [])
     @ [hexDigit (n mod 16)]"

text \<open>The first longest run of at least two zero groups: its start and end (both 255 if there is none).\<close>

definition zeroRun :: "nat list \<Rightarrow> nat \<times> nat" where
  "zeroRun gs =
     fold (\<lambda>i (zs, ze).
             (let j = i + length (takeWhile (\<lambda>g. g = 0) (drop i gs)) in
              if 2 \<le> j - i \<and> ze - zs < j - i then (i, j) else (zs, ze)))
       [0 ..< 8] (255, 255)"

definition ip6String :: "bytes \<Rightarrow> string" where
  "ip6String ip =
     (let gs = map hexGroup (groups16 ip); (zs, ze) = zeroRun (groups16 ip) in
      if zs < 8 then joinWith '':'' (take zs gs) @ ''::'' @ joinWith '':'' (drop ze gs)
      else joinWith '':'' gs)"

subsection \<open>Constants and state\<close>

definition dnsLocalhost :: string where "dnsLocalhost = ''localhost''"
definition LocalAddress :: string where "LocalAddress = ''127.0.0.1''"
definition DNSServerID :: string where "DNSServerID = ''DNS_SERVER_ID''"
definition DNSServerVersion :: int where "DNSServerVersion = -1"
definition DNS_ACTOR_GENERATION :: "64 word" where "DNS_ACTOR_GENERATION = 1"
definition DNSVersionStamp :: int where "DNSVersionStamp = 1"

record 'r DNSResolver =
  LookupIP :: "string \<Rightarrow> ('r, bytes list) call"

record 'r dnsRegistry =
  d_resolverState :: 'r
  d_host :: string
  d_port :: int
  d_resolveEvery :: int
  d_ips :: "bytes list"
  d_hashRing :: "HashRing option"  \<comment> \<open>\<open>None\<close> is the nil pointer of a registry before its first discovery\<close>
  d_discoveryRunning :: bool
  d_closeCh :: bool
  d_closedCh :: bool

subsection \<open>Discovery\<close>

definition ipAddress :: "int \<Rightarrow> bytes \<Rightarrow> string list" where
  "ipAddress port ip =
     (case To4 ip of
        Some v4 \<Rightarrow> [ip4String v4 @ '':'' @ decInt port]
      | None \<Rightarrow>
          (case To16 ip of
             Some v6 \<Rightarrow> [''['' @ ip6String v6 @ '']:'' @ decInt port]
           | None \<Rightarrow> []))"

definition discover :: "'r DNSResolver \<Rightarrow> ('r dnsRegistry, unit) call" where
  "discover resolver d =
     (case LookupIP resolver (d_host d) (d_resolverState d) of
        (Fail e, r) \<Rightarrow> (Fail (Wrapf ''discover: error looking up IPs: %w'' [] e), d\<lparr>d_resolverState := r\<rparr>)
      | (Panic p, r) \<Rightarrow> (Panic p, d\<lparr>d_resolverState := r\<rparr>)
      | (Blocked, r) \<Rightarrow> (Blocked, d\<lparr>d_resolverState := r\<rparr>)
      | (Ret ips, r) \<Rightarrow>
          (let hashRing = NewHashRing 64 (Some ChecksumIEEE);
               ipStrs = fold (\<lambda>ip strs. strs @ ipAddress (d_port d) ip) ips [] in
           (Ret (), d\<lparr>d_resolverState := r, d_ips := ips, d_hashRing := Some (ringAdd ipStrs hashRing)\<rparr>)))"

definition NewDNSRegistryFromResolver ::
  "'r DNSResolver \<Rightarrow> 'r \<Rightarrow> string \<Rightarrow> int \<Rightarrow> int \<Rightarrow> 'r dnsRegistry outcome" where
  "NewDNSRegistryFromResolver resolver r host port resolveEvery =
     (let every = (if resolveEvery = 0 then 5 * 10 ^ 9 else resolveEvery);
          d = \<lparr>d_resolverState = r, d_host = host, d_port = port, d_resolveEvery = every, d_ips = [],
               d_hashRing = None, d_discoveryRunning = False, d_closeCh = False, d_closedCh = False\<rparr> in
      case discover resolver d of
        (Ret _, d') \<Rightarrow> Ret d'
      | (Fail e, _) \<Rightarrow> Fail (Wrapf ''NewDNSRegistry: error looking up IPs for name: %s, err: %w'' [AStr host] e)
      | (Panic p, _) \<Rightarrow> Panic p
      | (Blocked, _) \<Rightarrow> Blocked)"

text \<open>
  The goroutine: what it receives is a tick, with the resolver as it is then, or the closed channel.
  \<open>time.NewTicker\<close> panics on a period that is not positive.
\<close>

datatype 'r discoveryEvent = TickerC 'r | CloseCh

fun discoveryEvents :: "'r DNSResolver \<Rightarrow> 'r discoveryEvent list \<Rightarrow> ('r dnsRegistry, unit) call" where
  "discoveryEvents resolver [] = ret ()"
| "discoveryEvents resolver (TickerC r # evs) =
     (\<lambda>d. case discover resolver (d\<lparr>d_resolverState := r\<rparr>) of
            (Ret _, d') \<Rightarrow> discoveryEvents resolver evs d'
          | (Fail _, d') \<Rightarrow> discoveryEvents resolver evs d'
          | (Panic p, d') \<Rightarrow> (Panic p, d'\<lparr>d_closedCh := True\<rparr>)
          | (Blocked, d') \<Rightarrow> (Blocked, d'))"
| "discoveryEvents resolver (CloseCh # evs) = (\<lambda>d. (Ret (), d\<lparr>d_closedCh := True\<rparr>))"

definition discoveryLoop :: "'r DNSResolver \<Rightarrow> 'r discoveryEvent list \<Rightarrow> ('r dnsRegistry, unit) call" where
  "discoveryLoop resolver evs d =
     (if d_discoveryRunning d then (Panic ''[invariant violated] discovery already running'', d)
      else if d_resolveEvery d \<le> 0 then (Panic ''non-positive interval for NewTicker'', d\<lparr>d_closedCh := True\<rparr>)
      else discoveryEvents resolver evs d)"

subsection \<open>The operations\<close>

definition dnsRegisterModule :: "string \<Rightarrow> string \<Rightarrow> bytes option \<Rightarrow> ModuleOptions \<Rightarrow> ('r dnsRegistry, unit) call" where
  "dnsRegisterModule namespace moduleID moduleBytes opts = ret ()"

definition dnsGetModule :: "string \<Rightarrow> string \<Rightarrow> ('r dnsRegistry, bytes option \<times> ModuleOptions) call" where
  "dnsGetModule namespace moduleID = ret (None, \<lparr>AllowEmptyModuleBytes = False\<rparr>)"

definition dnsCreateActor :: "string \<Rightarrow> string \<Rightarrow> string \<Rightarrow> ActorOptions \<Rightarrow> ('r dnsRegistry, unit) call" where
  "dnsCreateActor namespace actorID moduleID opts = ret ()"

definition dnsIncGeneration :: "string \<Rightarrow> string \<Rightarrow> string \<Rightarrow> ('r dnsRegistry, unit) call" where
  "dnsIncGeneration namespace actorID moduleID = fail (Errorf ''DNSRegistry: IncGeneration: not implemented'' [])"

definition dnsEnsureActivation :: "string \<Rightarrow> string \<Rightarrow> string \<Rightarrow> ('r dnsRegistry, actorRef list) call" where
  "dnsEnsureActivation namespace actorID moduleID d =
     (case d_hashRing d of
        None \<Rightarrow> (Panic ''nil pointer dereference'', d)
      | Some ring \<Rightarrow>
          if ringIsEmpty ring then (Fail (Errorf ''EnsureActivation: hashring is empty'' []), d)
          else
            (let serverIP = ringGet ring (actorID @ ''::'' @ moduleID) in
             onError (Wrapf ''error creating actor reference: %w'' [])
               (andThen (lift (NewActorReference DNSServerID DNSServerVersion serverIP namespace moduleID actorID
                                 DNS_ACTOR_GENERATION))
                  (\<lambda>ref. ret [ref])) d))"

definition dnsGetVersionStamp :: "('r dnsRegistry, int) call" where
  "dnsGetVersionStamp = ret DNSVersionStamp"

definition dnsBeginTransaction ::
  "string \<Rightarrow> string \<Rightarrow> string \<Rightarrow> string \<Rightarrow> int \<Rightarrow> ('r dnsRegistry, 'r dnsRegistry actorKVTransaction) call" where
  "dnsBeginTransaction namespace actorID moduleID serverID serverVersion =
     fail (Errorf ''DNSRegistry: BeginTransaction: not implemented'' [])"

definition dnsHeartbeat :: "string \<Rightarrow> HeartbeatState \<Rightarrow> ('r dnsRegistry, HeartbeatResult) call" where
  "dnsHeartbeat serverID heartbeatState =
     ret \<lparr>hr_VersionStamp = DNSVersionStamp, hr_HeartbeatTTL = 1, hr_ServerVersion = DNSServerVersion\<rparr>"

text \<open>\<open>Close\<close> closes the channel, which panics the second time, and waits for the goroutine, which ends.\<close>

definition dnsClose :: "'r DNSResolver \<Rightarrow> ('r dnsRegistry, unit) call" where
  "dnsClose resolver d =
     (if d_closeCh d then (Panic ''close of closed channel'', d)
      else discoveryEvents resolver [CloseCh] (d\<lparr>d_closeCh := True\<rparr>))"

definition dnsUnsafeWipeAll :: "('r dnsRegistry, unit) call" where
  "dnsUnsafeWipeAll = ret ()"

definition dnsOps :: "'r DNSResolver \<Rightarrow> 'r dnsRegistry registry" where
  "dnsOps resolver =
     \<lparr>rRegisterModule = dnsRegisterModule, rGetModule = dnsGetModule, rIncGeneration = dnsIncGeneration,
      rEnsureActivation = dnsEnsureActivation, rGetVersionStamp = dnsGetVersionStamp,
      rBeginTransaction = dnsBeginTransaction, rHeartbeat = dnsHeartbeat, rClose = dnsClose resolver,
      rUnsafeWipeAll = dnsUnsafeWipeAll\<rparr>"

text \<open>The two resolvers, and the constructor that chooses between them.\<close>

definition constLookupIP :: "string \<Rightarrow> (bytes list, bytes list) call" where
  "constLookupIP host ips = (Ret ips, ips)"

definition setIPs :: "bytes list \<Rightarrow> (bytes list, unit) call" where
  "setIPs ips r = (Ret (), ips)"

definition newConstResolver :: "bytes list \<Rightarrow> bytes list DNSResolver \<times> bytes list" where
  "newConstResolver ips = (\<lparr>LookupIP = constLookupIP\<rparr>, ips)"

definition dnsLookupIP :: "(string \<Rightarrow> ('r, bytes list) call) \<Rightarrow> string \<Rightarrow> ('r, bytes list) call" where
  "dnsLookupIP netLookupIP host = netLookupIP host"

definition NewDNSResolver :: "(string \<Rightarrow> ('r, bytes list) call) \<Rightarrow> 'r DNSResolver" where
  "NewDNSResolver netLookupIP = \<lparr>LookupIP = dnsLookupIP netLookupIP\<rparr>"

definition loopbackIP :: bytes where  \<comment> \<open>\<open>net.ParseIP(LocalAddress)\<close>, in 16 bytes\<close>
  "loopbackIP = v4InV6Prefix @ [127, 0, 0, 1]"

text \<open>
  The addresses of the constant resolver are never set when \<open>NewDNSRegistry\<close> makes it, since nobody else has it: it answers without a state of its own.
\<close>

definition resolverFor :: "(string \<Rightarrow> ('r, bytes list) call) \<Rightarrow> string \<Rightarrow> 'r DNSResolver" where
  "resolverFor netLookupIP host =
     (if host = dnsLocalhost then \<lparr>LookupIP = (\<lambda>host r. (fst (constLookupIP host (snd (newConstResolver [loopbackIP]))), r))\<rparr>
      else NewDNSResolver netLookupIP)"

definition NewDNSRegistry ::
  "(string \<Rightarrow> ('r, bytes list) call) \<Rightarrow> 'r \<Rightarrow> string \<Rightarrow> int \<Rightarrow> int \<Rightarrow> 'r dnsRegistry outcome" where
  "NewDNSRegistry netLookupIP net host port resolveEvery =
     NewDNSRegistryFromResolver (resolverFor netLookupIP host) net host port resolveEvery"

subsection \<open>Discovery keeps the ring of the last lookup\<close>

definition addresses :: "int \<Rightarrow> bytes list \<Rightarrow> string list" where
  "addresses port ips = concat (map (ipAddress port) ips)"

text \<open>The ring is the one of the stored addresses; only a successful lookup changes them.\<close>

definition synced :: "'r dnsRegistry \<Rightarrow> bool" where
  "synced d \<longleftrightarrow> d_hashRing d = Some (ringOf ChecksumIEEE 64 (addresses (d_port d) (d_ips d)))"

definition sameConfig :: "'r dnsRegistry \<Rightarrow> 'r dnsRegistry \<Rightarrow> bool" where
  "sameConfig d d' \<longleftrightarrow> d_host d' = d_host d \<and> d_port d' = d_port d \<and> d_resolveEvery d' = d_resolveEvery d
     \<and> d_discoveryRunning d' = d_discoveryRunning d \<and> d_closeCh d' = d_closeCh d"

lemma fold_addresses: "fold (\<lambda>ip strs. strs @ ipAddress port ip) ips acc = acc @ addresses port ips"
  by (induction ips arbitrary: acc) (simp_all add: addresses_def)

lemma discover_Ret:
  "LookupIP resolver (d_host d) (d_resolverState d) = (Ret ips, r) \<Longrightarrow>
   discover resolver d = (Ret (), d\<lparr>d_resolverState := r, d_ips := ips,
     d_hashRing := Some (ringOf ChecksumIEEE 64 (addresses (d_port d) ips))\<rparr>)"
  by (simp add: discover_def fold_addresses ringOf_def)

lemma discover_cases:
  assumes "discover resolver d = (x, d')"
  shows "(\<exists>ips. fst (LookupIP resolver (d_host d) (d_resolverState d)) = Ret ips \<and> x = Ret () \<and> synced d' \<and> d_ips d' = ips)
    \<or> ((\<nexists>ips. fst (LookupIP resolver (d_host d) (d_resolverState d)) = Ret ips) \<and> x \<noteq> Ret ()
        \<and> d_ips d' = d_ips d \<and> d_hashRing d' = d_hashRing d)"
    and "sameConfig d d'" "d_closedCh d' = d_closedCh d"
  using assms
  by (auto simp: discover_def synced_def fold_addresses ringOf_def sameConfig_def split: prod.splits outcome.splits)

fun lastLookup :: "'r DNSResolver \<Rightarrow> string \<Rightarrow> bytes list \<Rightarrow> 'r discoveryEvent list \<Rightarrow> bytes list" where
  "lastLookup resolver host ips [] = ips"
| "lastLookup resolver host ips (TickerC r # evs) =
     (case fst (LookupIP resolver host r) of
        Ret ips' \<Rightarrow> lastLookup resolver host ips' evs
      | _ \<Rightarrow> lastLookup resolver host ips evs)"
| "lastLookup resolver host ips (CloseCh # evs) = ips"

definition answersLookups :: "'r DNSResolver \<Rightarrow> string \<Rightarrow> 'r discoveryEvent list \<Rightarrow> bool" where
  "answersLookups resolver host evs \<longleftrightarrow>
     (\<forall>r. TickerC r \<in> set evs \<longrightarrow> (\<exists>x. fst (LookupIP resolver host r) = Ret x) \<or> (\<exists>e. fst (LookupIP resolver host r) = Fail e))"

lemma discover_answers:
  "(\<exists>x. fst (LookupIP resolver (d_host d) (d_resolverState d)) = Ret x) \<or> (\<exists>e. fst (LookupIP resolver (d_host d) (d_resolverState d)) = Fail e)
   \<Longrightarrow> discover resolver d = (x, d') \<Longrightarrow> x = Ret () \<or> (\<exists>e. x = Fail e)"
  by (auto simp: discover_def split: prod.splits outcome.splits)

lemma discoveryEvents_last:
  assumes "synced d" "answersLookups resolver (d_host d) evs"
  shows "\<exists>d'. discoveryEvents resolver evs d = (Ret (), d') \<and> synced d' \<and> sameConfig d d'
    \<and> d_ips d' = lastLookup resolver (d_host d) (d_ips d) evs \<and> (d_closedCh d' \<longleftrightarrow> d_closedCh d \<or> CloseCh \<in> set evs)"
  using assms
proof (induction evs arbitrary: d)
  case (Cons ev evs)
  show ?case
  proof (cases ev)
    case (TickerC r)
    let ?d = "d\<lparr>d_resolverState := r\<rparr>"
    obtain x d' where x: "discover resolver ?d = (x, d')" by force
    note c = discover_cases [OF x]
    have A: "x = Ret () \<or> (\<exists>e. x = Fail e)"
      using discover_answers [OF _ x] Cons.prems(2) TickerC by (auto simp: answersLookups_def)
    have cfg: "sameConfig d d'" using c(2) by (simp add: sameConfig_def)
    have syn: "synced d'" using c(1) cfg Cons.prems(1) by (auto simp: synced_def sameConfig_def)
    have "answersLookups resolver (d_host d') evs"
      using Cons.prems(2) cfg by (auto simp: answersLookups_def sameConfig_def)
    from Cons.IH [OF syn this] obtain d'' where d'': "discoveryEvents resolver evs d' = (Ret (), d'')" "synced d''"
      "sameConfig d' d''" "d_ips d'' = lastLookup resolver (d_host d) (d_ips d') evs"
      "d_closedCh d'' \<longleftrightarrow> d_closedCh d \<or> CloseCh \<in> set evs"
      using cfg c(3) by (auto simp: sameConfig_def)
    have "discoveryEvents resolver (ev # evs) d = (Ret (), d'')" using A x d''(1) TickerC by auto
    moreover have "lastLookup resolver (d_host d) (d_ips d) (ev # evs) = lastLookup resolver (d_host d) (d_ips d') evs"
      using c(1) TickerC by (auto split: outcome.splits)
    moreover have "sameConfig d d''" using cfg d''(3) by (simp add: sameConfig_def)
    ultimately show ?thesis using d'' TickerC by auto
  next
    case CloseCh
    then show ?thesis using Cons.prems by (auto simp: synced_def sameConfig_def)
  qed
qed (simp add: sameConfig_def)

lemma NewDNSRegistryFromResolver_Ret:
  assumes "NewDNSRegistryFromResolver resolver r host port every = Ret d"
  shows "synced d" "d_host d = host" "d_port d = port" "d_resolveEvery d = (if every = 0 then 5 * 10 ^ 9 else every)"
    "\<not> d_discoveryRunning d" "\<not> d_closedCh d" "\<not> d_closeCh d" "fst (LookupIP resolver host r) = Ret (d_ips d)"
proof -
  let ?d = "\<lparr>d_resolverState = r, d_host = host, d_port = port, d_resolveEvery = if every = 0 then 5 * 10 ^ 9 else every,
               d_ips = [], d_hashRing = None, d_discoveryRunning = False, d_closeCh = False, d_closedCh = False\<rparr>"
  obtain x d' where x: "discover resolver ?d = (x, d')" by force
  have "x = Ret ()" "d' = d"
    using assms x by (auto simp: NewDNSRegistryFromResolver_def Let_def split: outcome.splits)
  with discover_cases [OF x] show "synced d" "d_host d = host" "d_port d = port"
    "d_resolveEvery d = (if every = 0 then 5 * 10 ^ 9 else every)"
    "\<not> d_discoveryRunning d" "\<not> d_closedCh d" "\<not> d_closeCh d" "fst (LookupIP resolver host r) = Ret (d_ips d)"
    by (auto simp: sameConfig_def)
qed

subsection \<open>Placement\<close>

lemma ringIsEmpty_ringOf: "0 < r \<Longrightarrow> ringIsEmpty (ringOf h r ks) \<longleftrightarrow> ks = []"
  using ringPoints_empty [of r h "set ks"] ringOf_facts(3) [of h r ks] by (auto simp: ringIsEmpty_def)

lemma ipAddress_mem: "x \<in> set (ipAddress port ip) \<Longrightarrow> ipAddress port ip = [x] \<and> x \<noteq> []"
  by (cases "To4 ip"; cases "To16 ip") (auto simp: ipAddress_def)

lemma addresses_mem:
  assumes "x \<in> set (addresses port ips)"
  shows "\<exists>ip \<in> set ips. ipAddress port ip = [x]" and "x \<noteq> []"
  using assms ipAddress_mem by (auto simp: addresses_def)

definition dnsRef :: "string \<Rightarrow> string \<Rightarrow> string \<Rightarrow> string \<Rightarrow> actorRef" where
  "dnsRef address namespace moduleID actorID =
     \<lparr>ar_virtualRef = \<lparr>vr_namespace = namespace, vr_moduleID = moduleID, vr_actorID = actorID, vr_generation = 1,
        vr_idType = IDTypeActor\<rparr>, ar_serverID = DNSServerID, ar_serverVersion = -1, ar_address = address\<rparr>"

definition placedOn :: "'r dnsRegistry \<Rightarrow> string \<Rightarrow> string \<Rightarrow> string" where
  "placedOn d actorID moduleID =
     ringGet (ringOf ChecksumIEEE 64 (addresses (d_port d) (d_ips d))) (actorID @ ''::'' @ moduleID)"

lemma dnsEnsureActivation_synced:
  assumes "synced d" "ns \<noteq> []" "a \<noteq> []" "m \<noteq> []"
  shows "dnsEnsureActivation ns a m d =
     (if addresses (d_port d) (d_ips d) = [] then (Fail (Errorf ''EnsureActivation: hashring is empty'' []), d)
      else (Ret [dnsRef (placedOn d a m) ns m a], d))"
proof (cases "addresses (d_port d) (d_ips d) = []")
  case False
  then have "placedOn d a m \<in> set (addresses (d_port d) (d_ips d))"
    unfolding placedOn_def by (metis ringGet_owner zero_less_numeral)
  then have "placedOn d a m \<noteq> []" by (rule addresses_mem(2))
  then have "NewActorReference DNSServerID DNSServerVersion (placedOn d a m) ns m a DNS_ACTOR_GENERATION
      = Ret (dnsRef (placedOn d a m) ns m a)"
    using assms(2-4) by (simp add: NewActorReference_def NewVirtualActorReference_def newVirtualActorReference_def
        dnsRef_def DNSServerID_def DNSServerVersion_def DNS_ACTOR_GENERATION_def)
  with False assms(1) show ?thesis
    by (simp add: dnsEnsureActivation_def synced_def ringIsEmpty_ringOf placedOn_def lift_def onError_def andThen_def)
qed (use assms(1) in \<open>simp add: dnsEnsureActivation_def synced_def ringIsEmpty_ringOf\<close>)

subsection \<open>Properties\<close>

text \<open>The states that the goroutine of a new registry reaches.\<close>

definition dnsReaches :: "'r DNSResolver \<Rightarrow> 'r \<Rightarrow> string \<Rightarrow> int \<Rightarrow> int \<Rightarrow> 'r discoveryEvent list \<Rightarrow> 'r dnsRegistry \<Rightarrow> bool" where
  "dnsReaches resolver r host port every evs d \<longleftrightarrow>
     (\<exists>d0. NewDNSRegistryFromResolver resolver r host port every = Ret d0 \<and> 0 \<le> every
        \<and> answersLookups resolver host evs \<and> d = snd (discoveryLoop resolver evs d0))"

lemma discoveryLoop_last:
  assumes "NewDNSRegistryFromResolver resolver r host port every = Ret d" "0 \<le> every" "answersLookups resolver host evs"
  shows "\<exists>d'. discoveryLoop resolver evs d = (Ret (), d') \<and> synced d' \<and> sameConfig d d'
    \<and> d_ips d' = lastLookup resolver host (d_ips d) evs \<and> (d_closedCh d' \<longleftrightarrow> CloseCh \<in> set evs)"
proof -
  note n = NewDNSRegistryFromResolver_Ret [OF assms(1)]
  have "discoveryLoop resolver evs d = discoveryEvents resolver evs d" using n(4,5) assms(2) by (simp add: discoveryLoop_def)
  with discoveryEvents_last [OF n(1), of resolver evs] n(2,6) assms(3) show ?thesis by simp
qed

lemma dnsReaches_synced:
  assumes "dnsReaches resolver r host port every evs d"
  shows "synced d" "d_port d = port"
proof -
  obtain d0 where d0: "NewDNSRegistryFromResolver resolver r host port every = Ret d0" "0 \<le> every"
    "answersLookups resolver host evs" "d = snd (discoveryLoop resolver evs d0)"
    using assms by (auto simp: dnsReaches_def)
  from discoveryLoop_last [OF d0(1-3)] d0(4) show "synced d" by auto
  from discoveryLoop_last [OF d0(1-3)] d0(4) NewDNSRegistryFromResolver_Ret(3) [OF d0(1)]
  show "d_port d = port" by (auto simp: sameConfig_def)
qed

text \<open>
  \<^bold>\<open>C32\<close> (background discovery). Whatever the resolver answers, tick after tick, the goroutine goes on
  until the registry is closed, and the ring is always the one of the last lookup that succeeded: a failed
  lookup keeps the servers that are known.
\<close>

theorem dns_discovery:
  assumes "NewDNSRegistryFromResolver resolver r host port every = Ret d" "0 \<le> every" "answersLookups resolver host evs"
  shows "\<exists>d'. discoveryLoop resolver evs d = (Ret (), d') \<and> (d_closedCh d' \<longleftrightarrow> CloseCh \<in> set evs)
    \<and> d_ips d' = lastLookup resolver host (d_ips d) evs
    \<and> d_hashRing d' = Some (ringAdd (addresses port (lastLookup resolver host (d_ips d) evs)) (NewHashRing 64 (Some ChecksumIEEE)))"
  using discoveryLoop_last [OF assms] NewDNSRegistryFromResolver_Ret(3) [OF assms(1)]
  by (auto simp: synced_def sameConfig_def ringOf_def)

definition flakyResolver :: "bytes list option DNSResolver" where
  "flakyResolver = \<lparr>LookupIP = \<lambda>host r. (case r of None \<Rightarrow> Fail (Errorf ''no such host'' []) | Some ips \<Rightarrow> Ret ips, r)\<rparr>"

lemma flaky_new:
  "NewDNSRegistryFromResolver flakyResolver (Some ips) host port every =
   Ret \<lparr>d_resolverState = Some ips, d_host = host, d_port = port, d_resolveEvery = if every = 0 then 5 * 10 ^ 9 else every,
     d_ips = ips, d_hashRing = Some (ringOf ChecksumIEEE 64 (addresses port ips)), d_discoveryRunning = False,
     d_closeCh = False, d_closedCh = False\<rparr>"
  by (simp add: NewDNSRegistryFromResolver_def Let_def discover_Ret flakyResolver_def)

lemma flaky_answers: "answersLookups flakyResolver host evs"
  by (auto simp: answersLookups_def flakyResolver_def split: option.splits)

theorem dns_discovery_witness:
  "\<exists>d d'. NewDNSRegistryFromResolver flakyResolver (Some [[10, 0, 0, 1]]) ''nola'' 9090 0 = Ret d
     \<and> discoveryLoop flakyResolver [TickerC (Some [[10, 0, 0, 2], [10, 0, 0, 3]]), TickerC None] d = (Ret (), d')
     \<and> d_ips d' = [[10, 0, 0, 2], [10, 0, 0, 3]] \<and> \<not> d_closedCh d'"
proof -
  obtain d where d: "NewDNSRegistryFromResolver flakyResolver (Some [[10, 0, 0, 1]]) ''nola'' 9090 0 = Ret d"
    using flaky_new by blast
  from dns_discovery [OF d _ flaky_answers, of "[TickerC (Some [[10, 0, 0, 2], [10, 0, 0, 3]]), TickerC None]"] d
  show ?thesis by (auto simp: flakyResolver_def)
qed

text \<open>
  Activation by DNS. In every state that the registry reaches an activation is a single
  reference to one of the addresses that were last resolved, with the constant server identifier, version and generation,
  and there is an error exactly if no valid address is known. The state does not change.
\<close>

lemma dns_EnsureActivation:
  assumes "dnsReaches resolver r host port every evs d" "ns \<noteq> []" "a \<noteq> []" "m \<noteq> []"
  shows "if \<exists>ip \<in> set (d_ips d). length ip = 4 \<or> length ip = 16
    then \<exists>ref ip. dnsEnsureActivation ns a m d = (Ret [ref], d) \<and> ip \<in> set (d_ips d) \<and> ipAddress port ip = [ar_address ref]
      \<and> ar_serverID ref = DNSServerID \<and> ar_serverVersion ref = DNSServerVersion \<and> arGeneration ref = DNS_ACTOR_GENERATION
      \<and> arActorID ref = NewNamespacedActorID ns a m IDTypeActor
    else dnsEnsureActivation ns a m d = (Fail (Errorf ''EnsureActivation: hashring is empty'' []), d)"
proof -
  note s = dnsReaches_synced [OF assms(1)]
  have addr: "addresses (d_port d) (d_ips d) = [] \<longleftrightarrow> \<not> (\<exists>ip \<in> set (d_ips d). length ip = 4 \<or> length ip = 16)"
    by (auto simp: addresses_def ipAddress_def To4_def To16_def split: option.splits)
  show ?thesis
  proof (cases "addresses (d_port d) (d_ips d) = []")
    case False
    then have "placedOn d a m \<in> set (addresses (d_port d) (d_ips d))"
      unfolding placedOn_def by (metis ringGet_owner zero_less_numeral)
    from addresses_mem(1) [OF this] s(2) obtain ip where "ip \<in> set (d_ips d)" "ipAddress port ip = [placedOn d a m]" by auto
    with False addr dnsEnsureActivation_synced [OF s(1) assms(2-4)] show ?thesis
      by (auto simp: dnsRef_def DNSServerVersion_def DNS_ACTOR_GENERATION_def arGeneration_def arActorID_def vrActorID_def)
  qed (use addr dnsEnsureActivation_synced [OF s(1) assms(2-4)] in simp)
qed

text \<open>
  \<^bold>\<open>C33\<close> (servers agree). Two registries, on two servers, whatever their resolvers have answered and in
  whatever order: if the addresses that the second one knows are a part (possibly all) of those that the first one knows, no two addresses share a point on the
  ring, and the server on which the first registry places an actor is among those that the second one knows, then the second registry places the actor on the
  same server.
\<close>

theorem dns_agreement:
  assumes "dnsReaches resolver r host port every evs d" "dnsReaches resolver' r' host' port every' evs' d'"
    and "noCollisions ChecksumIEEE 64 (set (addresses port (d_ips d)))"
    and "set (addresses port (d_ips d')) \<subseteq> set (addresses port (d_ips d))"
    and "ns \<noteq> []" "a \<noteq> []" "m \<noteq> []" "dnsEnsureActivation ns a m d = (Ret [ref], d)"
    and "ar_address ref \<in> set (addresses port (d_ips d'))"
  shows "dnsEnsureActivation ns a m d' = (Ret [ref], d')"
proof -
  note s = dnsReaches_synced [OF assms(1)] and s' = dnsReaches_synced [OF assms(2)]
  have ref: "ref = dnsRef (placedOn d a m) ns m a"
    using dnsEnsureActivation_synced [OF s(1) assms(5-7)] assms(8) by (auto split: if_splits)
  have "placedOn d' a m = placedOn d a m"
    unfolding placedOn_def s(2) s'(2) using assms(3,4,9) ref s(2)
    by (intro ringGet_subset) (auto simp: dnsRef_def placedOn_def)
  moreover have "addresses (d_port d') (d_ips d') \<noteq> []" using assms(9) s'(2) by auto
  ultimately show ?thesis using dnsEnsureActivation_synced [OF s'(1) assms(5-7)] ref by simp
qed

lemma singleton_psubset: "p \<in> {x, y} \<Longrightarrow> x \<noteq> y \<Longrightarrow> {p} \<subset> {x, y}"
  by auto

theorem dns_agreement_witness:
  "\<exists>d d' ref ip. dnsReaches flakyResolver (Some [[1, 0, 0, 1], [2, 0, 0, 1]]) ''nola'' 9090 0 [] d
     \<and> dnsReaches flakyResolver (Some [ip]) ''nola'' 9090 0 [] d' \<and> set (addresses 9090 (d_ips d')) \<subset> set (addresses 9090 (d_ips d))
     \<and> dnsEnsureActivation ''ns'' ''a'' ''m'' d = (Ret [ref], d) \<and> dnsEnsureActivation ''ns'' ''a'' ''m'' d' = (Ret [ref], d')"
proof -
  have reach: "\<exists>d. dnsReaches flakyResolver (Some ips) ''nola'' 9090 0 [] d \<and> d_ips d = ips \<and> d_port d = 9090 \<and> synced d" for ips
    using flaky_new [of ips "''nola''" 9090 0] flaky_answers [of "''nola''" "[]"]
    by (auto simp: dnsReaches_def discoveryLoop_def synced_def)
  let ?x = "''1'' @ ''.0.0.1:9090''" and ?y = "''2'' @ ''.0.0.1:9090''"
  have a: "addresses 9090 [[1, 0, 0, 1], [2, 0, 0, 1]] = [?x, ?y]" "addresses 9090 [[1, 0, 0, 1]] = [?x]" "addresses 9090 [[2, 0, 0, 1]] = [?y]"
    by (simp_all add: addresses_def ipAddress_def To4_def To16_def ip4String_def decInt_def decNat.simps digit_def char_of_def bit_0)
  obtain d where d: "dnsReaches flakyResolver (Some [[1, 0, 0, 1], [2, 0, 0, 1]]) ''nola'' 9090 0 [] d" "d_ips d = [[1, 0, 0, 1], [2, 0, 0, 1]]"
      "d_port d = 9090" "synced d"
    using reach by blast
  have e: "dnsEnsureActivation ''ns'' ''a'' ''m'' d = (Ret [dnsRef (placedOn d ''a'' ''m'') ''ns'' ''m'' ''a''], d)"
    using dnsEnsureActivation_synced [OF d(4), of "''ns''" "''a''" "''m''"] d(2,3) a(1) by simp
  have placed: "placedOn d ''a'' ''m'' \<in> {?x, ?y}"
    unfolding placedOn_def d(2,3) a(1) by (rule ringGet_owner [of 64 "[?x, ?y]" ChecksumIEEE]) auto
  then obtain ip where ip: "ip \<in> {[1, 0, 0, 1], [2, 0, 0, 1]}" "addresses 9090 [ip] = [placedOn d ''a'' ''m'']" using a(2,3) by (metis insert_iff singletonD)
  obtain d' where d': "dnsReaches flakyResolver (Some [ip]) ''nola'' 9090 0 [] d'" "d_ips d' = [ip]" using reach by blast
  have sub: "set (addresses 9090 (d_ips d')) \<subset> set (addresses 9090 (d_ips d))"
  proof -
    have "set (addresses 9090 (d_ips d')) = {placedOn d ''a'' ''m''}" "set (addresses 9090 (d_ips d)) = {?x, ?y}" using ip(2) a(1) d(2) d'(2) by simp_all
    moreover have "?x \<noteq> ?y" by simp
    ultimately show ?thesis using singleton_psubset [OF placed] by (simp only: not_False_eq_True simp_thms)
  qed
  have "noCollisions ChecksumIEEE 64 (set (addresses 9090 (d_ips d)))" using two_addresses_noCollisions d(2) a(1) by simp
  then have "dnsEnsureActivation ''ns'' ''a'' ''m'' d' = (Ret [dnsRef (placedOn d ''a'' ''m'') ''ns'' ''m'' ''a''], d')"
    using dns_agreement [OF d(1) d'(1) _ psubset_imp_subset [OF sub] _ _ _ e] ip(2) d'(2) by (simp add: dnsRef_def)
  with d(1) d'(1) e sub show ?thesis by blast
qed

text \<open>
  The local address. A registry for \<open>localhost\<close> always places actors on
  \<open>127.0.0.1:port\<close>. The address never is the bare name or number of the local host.
\<close>

lemma loopback_address: "addresses port [loopbackIP] = [LocalAddress @ '':'' @ decInt port]"
proof -
  have "ip4String [127, 0, 0, 1] = LocalAddress"
    by (simp add: ip4String_def LocalAddress_def decInt_def decNat.simps digit_def char_of_def bit_0)
  moreover have "To4 loopbackIP = Some [127, 0, 0, 1]" by (simp add: To4_def loopbackIP_def v4InV6Prefix_def)
  ultimately show ?thesis by (simp add: addresses_def ipAddress_def)
qed

text \<open>On a ring of one address every actor is placed there.\<close>

lemma dnsEnsureActivation_alone:
  assumes "synced d" "addresses (d_port d) (d_ips d) = [address]" "ns \<noteq> []" "a \<noteq> []" "m \<noteq> []"
  shows "dnsEnsureActivation ns a m d = (Ret [dnsRef address ns m a], d)"
proof -
  have "placedOn d a m = address"
    unfolding placedOn_def assms(2) by (rule ringGet_owner [of 64 "[address]" ChecksumIEEE]) auto
  with dnsEnsureActivation_synced [OF assms(1,3-5)] assms(2) show ?thesis by simp
qed

lemma dns_localhost_address:
  assumes "ns \<noteq> []" "a \<noteq> []" "m \<noteq> []"
  shows "\<exists>d ref. NewDNSRegistry netLookupIP net dnsLocalhost port every = Ret d
    \<and> dnsEnsureActivation ns a m d = (Ret [ref], d) \<and> ar_address ref = LocalAddress @ '':'' @ decInt port
    \<and> ar_address ref \<noteq> LocalAddress \<and> ar_address ref \<noteq> dnsLocalhost"
proof -
  obtain d where d: "NewDNSRegistry netLookupIP net dnsLocalhost port every = Ret d"
    "synced d" "d_ips d = [loopbackIP]" "d_port d = port"
    by (simp add: NewDNSRegistry_def NewDNSRegistryFromResolver_def resolverFor_def newConstResolver_def Let_def discover_Ret constLookupIP_def synced_def)
  from dnsEnsureActivation_alone [OF d(2) _ assms, of "LocalAddress @ '':'' @ decInt port"] d(1,3,4) loopback_address [of port] show ?thesis
    by (simp add: dnsRef_def LocalAddress_def dnsLocalhost_def)
qed

end
