(* ===== verification/Environment.thy ===== *)
theory Environment
  imports Activation_Races DNS_Registry
begin

section \<open>The environment: \<open>virtual/environment.go\<close>\<close>

text \<open>
  A server: it heartbeats the registry, finds the activation of an actor, through a cache, and sends invocations to it. The
  environments of one process know each other by a global map from addresses, so that the state of this theory is the
  outside world \<open>'s\<close> (the registry, the memory of the actors, other machines), all environments of the
  process, and that map. The cache (\<open>ristretto\<close>), the client for other machines and the WebAssembly engine are
  parameters. The background goroutine is a sequence of events.
\<close>

subsection \<open>Options\<close>

definition Localhost :: string where "Localhost = ''127.0.0.1''"
definition heartbeatTimeout :: int where "heartbeatTimeout = HeartbeatTTL"
definition defaultActivationsCacheTTL :: int where "defaultActivationsCacheTTL = heartbeatTimeout"
definition DiscoveryTypeLocalHost :: string where "DiscoveryTypeLocalHost = ''localhost''"
definition DiscoveryTypeRemote :: string where "DiscoveryTypeRemote = ''remote''"

record DiscoveryOptions =
  do_DiscoveryType :: string
  do_Port :: int

record EnvironmentOptions =
  eo_ActivationCacheTTL :: int
  eo_DisableActivationCache :: bool
  eo_Discovery :: DiscoveryOptions
  eo_ForceRemoteProcedureCalls :: bool
  eo_CustomHostFns :: "string \<rightharpoonup> (bytes \<Rightarrow> bytes outcome)"
  eo_GCActorsAfter :: int

definition validateDiscovery :: "DiscoveryOptions \<Rightarrow> unit outcome" where
  "validateDiscovery d =
     (if do_DiscoveryType d \<noteq> DiscoveryTypeLocalHost \<and> do_DiscoveryType d \<noteq> DiscoveryTypeRemote then
        Fail (Errorf ''unknown discovery type: %v'' [AStr (do_DiscoveryType d)])
      else if do_Port d = 0 \<and> do_DiscoveryType d \<noteq> DiscoveryTypeLocalHost then Fail (Errorf ''port cannot be zero'' [])
      else Ret ())"

definition validateOptions :: "EnvironmentOptions \<Rightarrow> unit outcome" where
  "validateOptions e =
     (case validateDiscovery (eo_Discovery e) of
        Fail err \<Rightarrow> Fail (wrap ''error validating discovery options: %w'' err)
      | _ \<Rightarrow>
          if eo_GCActorsAfter e < 0 then Fail (Errorf ''GCActorsAfterDurationWithNoInvocations must be >= 0'' [])
          else Ret ())"

text \<open>What \<open>NewDNSRegistryEnvironment\<close> makes of its arguments.\<close>

definition dnsEnvironmentOptions :: "string \<Rightarrow> int \<Rightarrow> EnvironmentOptions \<Rightarrow> EnvironmentOptions outcome" where
  "dnsEnvironmentOptions host port opts =
     (let d = (if host = Localhost \<or> host = LocalAddress then DiscoveryTypeLocalHost else DiscoveryTypeRemote);
          opts' = opts\<lparr>eo_Discovery := \<lparr>do_DiscoveryType = d, do_Port = port\<rparr>\<rparr> in
      case validateOptions opts' of
        Fail e \<Rightarrow> Fail (wrap ''error validating EnvironmentOptions: %w'' e)
      | _ \<Rightarrow> Ret opts')"

datatype ifaceAddr = IPNet "bytes option" | IPAddr "bytes option" | OtherAddr

definition isLoopback :: "bytes \<Rightarrow> bool" where
  "isLoopback ip = (case To4 ip of Some v4 \<Rightarrow> hd v4 = 127 | None \<Rightarrow> ip = replicate 15 0 @ [1])"

definition isLinkLocalUnicast :: "bytes \<Rightarrow> bool" where
  "isLinkLocalUnicast ip =
     (case To4 ip of
        Some v4 \<Rightarrow> v4 ! 0 = 169 \<and> v4 ! 1 = 254
      | None \<Rightarrow> length ip = 16 \<and> ip ! 0 = 0xfe \<and> and (ip ! 1) 0xc0 = 0x80)"

fun addrIP :: "ifaceAddr \<Rightarrow> bytes option" where
  "addrIP (IPNet ip) = ip"
| "addrIP (IPAddr ip) = ip"
| "addrIP OtherAddr = None"

fun getSelfIP :: "ifaceAddr list \<Rightarrow> bytes outcome" where
  "getSelfIP [] = Fail (Errorf ''could not discovery self IPV4'' [])"
| "getSelfIP (address # addrs) =
     (case addrIP address of
        None \<Rightarrow> getSelfIP addrs
      | Some ip \<Rightarrow>
          if isLoopback ip \<or> isLinkLocalUnicast ip then getSelfIP addrs
          else case To4 ip of None \<Rightarrow> getSelfIP addrs | Some v4 \<Rightarrow> Ret v4)"

subsection \<open>State\<close>

type_synonym 's remoteClient = "int \<Rightarrow> actorRef \<Rightarrow> string \<Rightarrow> bytes \<Rightarrow> CreateIfNotExist \<Rightarrow> ('s, ReadCloser option) call"

record 'c cacheOps =
  ch_Get :: "bytes \<Rightarrow> 'c \<Rightarrow> actorRef list option"
  ch_SetWithTTL :: "bytes \<Rightarrow> actorRef list \<Rightarrow> int \<Rightarrow> int \<Rightarrow> 'c \<Rightarrow> 'c"
  ch_New :: "'c outcome"

record ('s, 'c) environment =
  en_activations :: "'s activations"
  en_activationCache :: 'c
  en_HeartbeatResult :: HeartbeatResult
  en_frozen :: bool
  en_paused :: bool
  en_closeCh :: bool
  en_closedCh :: bool
  en_serverID :: string
  en_address :: string
  en_registry :: "'s registry"
  en_client :: "'s remoteClient"
  en_opts :: EnvironmentOptions

record ('s, 'c) process =
  pr_state :: 's
  pr_envs :: "nat \<rightharpoonup> ('s, 'c) environment"
  pr_localEnvironmentsRouter :: "string \<rightharpoonup> nat"
  pr_cache :: "'c cacheOps"
  pr_wasm :: "'s wasm"
  pr_now :: int

text \<open>A call of the registry, and a method of an environment.\<close>

definition onRegistry :: "('s, 'a) call \<Rightarrow> (('s, 'c) process, 'a) call" where
  "onRegistry f w = (case f (pr_state w) of (r, s') \<Rightarrow> (r, w\<lparr>pr_state := s'\<rparr>))"

definition onEnv :: "nat \<Rightarrow> (('s, 'c) environment \<Rightarrow> (('s, 'c) process, 'a) call) \<Rightarrow> (('s, 'c) process, 'a) call" where
  "onEnv e f w = (case pr_envs w e of None \<Rightarrow> (Panic ''nil pointer dereference'', w) | Some env \<Rightarrow> f env w)"

definition setEnv :: "nat \<Rightarrow> ('s, 'c) environment \<Rightarrow> ('s, 'c) process \<Rightarrow> ('s, 'c) process" where
  "setEnv e env w = w\<lparr>pr_envs := (pr_envs w)(e \<mapsto> env)\<rparr>"

definition onActivations :: "nat \<Rightarrow> ('s \<times> 's activations, 'a) call \<Rightarrow> (('s, 'c) process, 'a) call" where
  "onActivations e f =
     onEnv e (\<lambda>env w.
       case f (pr_state w, en_activations env) of
         (r, (s', a')) \<Rightarrow> (r, setEnv e (env\<lparr>en_activations := a'\<rparr>) (w\<lparr>pr_state := s'\<rparr>)))"

subsection \<open>Heartbeats\<close>

definition envNumActivatedActors :: "nat \<Rightarrow> (('s, 'c) process, int) call" where
  "envNumActivatedActors e = onActivations e (\<lambda>(s, a). case numActivatedActors a of (r, a') \<Rightarrow> (r, (s, a')))"

definition heartbeat :: "nat \<Rightarrow> (('s, 'c) process, unit) call" where
  "heartbeat e =
     andThen (envNumActivatedActors e) (\<lambda>n.
     onEnv e (\<lambda>env.
       andThen (onError (wrap ''error heartbeating: %w'')
                  (onRegistry (rHeartbeat (en_registry env) (en_serverID env)
                     \<lparr>hs_NumActivatedActors = n, hs_Address = en_address env\<rparr>)))
         (\<lambda>result. onEnv e (\<lambda>env' w.
            (let env1 = (if \<not> en_frozen env' then env'\<lparr>en_HeartbeatResult := result\<rparr> else env');
                 env2 = env1\<lparr>en_activations := setServerState (en_serverID env1) (hr_ServerVersion result) (en_activations env1)\<rparr> in
             (Ret (), setEnv e env2 w))))))"

definition updateEnv :: "nat \<Rightarrow> (('s, 'c) environment \<Rightarrow> ('s, 'c) environment) \<Rightarrow> (('s, 'c) process, unit) call" where
  "updateEnv e f = onEnv e (\<lambda>env w. (Ret (), setEnv e (f env) w))"

definition freezeHeartbeatState :: "nat \<Rightarrow> (('s, 'c) process, unit) call" where
  "freezeHeartbeatState e = updateEnv e (en_frozen_update (\<lambda>_. True))"

definition pauseHeartbeat :: "nat \<Rightarrow> (('s, 'c) process, unit) call" where
  "pauseHeartbeat e = updateEnv e (en_paused_update (\<lambda>_. True))"

definition resumeHeartbeat :: "nat \<Rightarrow> (('s, 'c) process, unit) call" where
  "resumeHeartbeat e = updateEnv e (en_paused_update (\<lambda>_. False))"

text \<open>The background goroutine, with what happens to the environment in between.\<close>

datatype heartbeatEvent = HeartbeatTick | HeartbeatPause | HeartbeatResume | HeartbeatClose

fun heartbeatLoop :: "nat \<Rightarrow> heartbeatEvent list \<Rightarrow> (('s, 'c) process, unit) call" where
  "heartbeatLoop e [] = ret ()"
| "heartbeatLoop e (ev # evs) = onEnv e (\<lambda>env w.
     let go = heartbeatLoop e evs; closed = env\<lparr>en_closedCh := True\<rparr> in
     case ev of
       HeartbeatPause \<Rightarrow> andThen (pauseHeartbeat e) (\<lambda>_. go) w
     | HeartbeatResume \<Rightarrow> andThen (resumeHeartbeat e) (\<lambda>_. go) w
     | HeartbeatClose \<Rightarrow>
         if en_closedCh env then go w else go (setEnv e closed w)
     | HeartbeatTick \<Rightarrow>
         if en_closedCh env then go w
         else if en_paused env then go (setEnv e closed w)
         else (case heartbeat e w of
                 (Ret _, w') \<Rightarrow> go w'
               | (Fail _, w') \<Rightarrow> go w'
               | (Panic p, w') \<Rightarrow> (Panic p, w')
               | (Blocked, w') \<Rightarrow> (Blocked, w')))"

subsection \<open>Life cycle\<close>

definition NewEnvironment ::
  "nat \<Rightarrow> ifaceAddr list outcome \<Rightarrow> string \<Rightarrow> 's registry \<Rightarrow> 's remoteClient \<Rightarrow> EnvironmentOptions \<Rightarrow> (('s, 'c) process, unit) call" where
  "NewEnvironment e interfaceAddrs serverID reg client opts0 =
     (let opts1 = (if eo_ActivationCacheTTL opts0 = 0 then opts0\<lparr>eo_ActivationCacheTTL := defaultActivationsCacheTTL\<rparr> else opts0);
          opts = (if eo_GCActorsAfter opts1 = 0 then opts1\<lparr>eo_GCActorsAfter := 60 * 10 ^ 9\<rparr> else opts1) in
      andThen (onError (wrap ''error validating EnvironmentOptions: %w'') (lift (validateOptions opts))) (\<lambda>_.
      andThen (\<lambda>w. onError (wrap ''error creating activationCache: %w'') (lift (ch_New (pr_cache w))) w) (\<lambda>activationCache.
      andThen (if do_DiscoveryType (eo_Discovery opts) = DiscoveryTypeRemote
               then onError (wrap ''error discovering self IP: %w'')
                      (lift (obind interfaceAddrs (\<lambda>addrs. obind (getSelfIP addrs) (\<lambda>ip. Ret (ip4String ip)))))
               else ret Localhost) (\<lambda>host.
      (let address = host @ '':'' @ decInt (do_Port (eo_Discovery opts)) in
       andThen (lift (newActivations reg (eo_CustomHostFns opts) (eo_GCActorsAfter opts))) (\<lambda>activations.
       andThen (\<lambda>w. (Ret (), setEnv e
                  \<lparr>en_activations = activations, en_activationCache = activationCache,
                   en_HeartbeatResult = \<lparr>hr_VersionStamp = 0, hr_HeartbeatTTL = 0, hr_ServerVersion = 0\<rparr>,
                   en_frozen = False, en_paused = False, en_closeCh = False, en_closedCh = False, en_serverID = serverID,
                   en_address = address, en_registry = reg, en_client = client, en_opts = opts\<rparr> w)) (\<lambda>_.
       andThen (onError (wrap ''failed to perform initial heartbeat: %w'') (heartbeat e)) (\<lambda>_ w.
         if pr_localEnvironmentsRouter w address \<noteq> None then
           (Fail (Errorf ''tried to register: %s to local environment router twice'' [AStr address]), w)
         else (Ret (), w\<lparr>pr_localEnvironmentsRouter := (pr_localEnvironmentsRouter w)(address \<mapsto> e)\<rparr>)))))))))"

definition envRegisterGoModule :: "nat \<Rightarrow> NamespacedIDNoType \<Rightarrow> 's Module \<Rightarrow> (('s, 'c) process, unit) call" where
  "envRegisterGoModule e i module =
     onEnv e (\<lambda>env.
       andThen (onError (Wrapf ''failed to register go module with ID: %v, err: %w'' [AStr (nint_Namespace i), AStr (nint_ID i)])
                  (onRegistry (rRegisterModule (en_registry env) (nint_Namespace i) (nint_ID i) None \<lparr>AllowEmptyModuleBytes = True\<rparr>)))
         (\<lambda>_. onActivations e (\<lambda>(s, a). case registerGoModule i module a of (r, a') \<Rightarrow> (r, (s, a')))))"

text \<open>\<open>Close\<close>: a second one closes the channel twice; the goroutine answers.\<close>

definition envClose :: "nat \<Rightarrow> (('s, 'c) process, unit) call" where
  "envClose e =
     onEnv e (\<lambda>env w.
       let w' = w\<lparr>pr_localEnvironmentsRouter := (pr_localEnvironmentsRouter w)(en_address env := None)\<rparr> in
       if en_closeCh env then (Panic ''close of closed channel'', w')
       else andThen (updateEnv e (en_closeCh_update (\<lambda>_. True))) (\<lambda>_. heartbeatLoop e [HeartbeatClose]) w')"

subsection \<open>Invocations\<close>

definition InvokeActorDirectStream ::
  "nat \<Rightarrow> int \<Rightarrow> string \<Rightarrow> int \<Rightarrow> actorReferenceVirtual \<Rightarrow> string \<Rightarrow> bytes \<Rightarrow> CreateIfNotExist \<Rightarrow> (('s, 'c) process, ReadCloser option) call" where
  "InvokeActorDirectStream e versionStamp serverID serverVersion reference operation payload create =
     onEnv e (\<lambda>env w.
       let hb = en_HeartbeatResult env in
       if serverID = [] then (Fail (Errorf ''serverID cannot be empty'' []), w)
       else if serverID \<noteq> en_serverID env \<and> serverID \<noteq> DNSServerID then
         (Fail (Errorf ''request for serverID: %s received by server: %s, cannot fullfil'' [AStr serverID, AStr (en_serverID env)]), w)
       else if versionStamp \<le> 0 then (Fail (Errorf ''versionStamp must be >= 0, but was: %d'' [AInt versionStamp]), w)
       else if i64 (hr_VersionStamp hb + hr_HeartbeatTTL hb) < versionStamp then
         (Fail (Errorf ''InvokeLocal: server heartbeat(%d) + TTL(%d) < versionStamp(%d)''
            [AInt (hr_VersionStamp hb), AInt (hr_HeartbeatTTL hb), AInt versionStamp]), w)
       else if hr_ServerVersion hb \<noteq> serverVersion then
         (Fail (Errorf ''InvokeLocal: server version(%d) != server version from reference(%d)''
            [AInt (hr_ServerVersion hb), AInt serverVersion]), w)
       else
         onActivations e (invoke (pr_wasm w) (pr_now w) reference operation (Some (cine_InstantiatePayload create))
           (Some payload) False) w)"

text \<open>\<open>ioutil.ReadAll\<close> of what a streaming method returns, with the messages of the two failures.\<close>

definition readAll :: "string \<Rightarrow> string \<Rightarrow> (('s, 'c) process, ReadCloser option) call \<Rightarrow> (('s, 'c) process, bytes) call" where
  "readAll msg readMsg f =
     andThen (onError (wrap msg) f)
       (\<lambda>reader. case reader of
          None \<Rightarrow> panic ''nil pointer dereference''
        | Some (Stream b None) \<Rightarrow> ret b
        | Some (Stream b (Some e)) \<Rightarrow> fail (wrap readMsg e))"

definition InvokeActorDirect ::
  "nat \<Rightarrow> int \<Rightarrow> string \<Rightarrow> int \<Rightarrow> actorReferenceVirtual \<Rightarrow> string \<Rightarrow> bytes \<Rightarrow> CreateIfNotExist \<Rightarrow> (('s, 'c) process, bytes) call" where
  "InvokeActorDirect e versionStamp serverID serverVersion reference operation payload create =
     readAll ''error invoking actor: %w'' ''error reading actor response from stream: %w''
       (InvokeActorDirectStream e versionStamp serverID serverVersion reference operation payload create)"

definition invokeReferences ::
  "nat \<Rightarrow> int \<Rightarrow> actorRef list \<Rightarrow> string \<Rightarrow> bytes \<Rightarrow> CreateIfNotExist \<Rightarrow> (('s, 'c) process, ReadCloser option) call" where
  "invokeReferences e versionStamp references operation payload create =
     onEnv e (\<lambda>env w.
       let ref = hd references;
           direct = (\<lambda>localEnv. InvokeActorDirectStream localEnv versionStamp (ar_serverID ref) (ar_serverVersion ref)
                       (ActorRef ref) operation payload create w);
           remote = onRegistry (en_client env versionStamp ref operation payload create) w in
       if \<not> eo_ForceRemoteProcedureCalls (en_opts env) then
         (case pr_localEnvironmentsRouter w (ar_address ref) of
            Some localEnv \<Rightarrow> direct localEnv
          | None \<Rightarrow>
              if ar_address ref = Localhost \<or> ar_address ref = dnsLocalhost
              then (Panic ''nil pointer dereference'', w)  \<comment> \<open>\<open>localEnv\<close> is the nil interface\<close>
              else remote)
       else remote)"

definition cacheKey :: "string \<Rightarrow> string \<Rightarrow> bytes" where
  "cacheKey namespace actorID = go_bytes namespace @ go_bytes actorID"

definition cachedReferences :: "nat \<Rightarrow> string \<Rightarrow> string \<Rightarrow> string \<Rightarrow> (('s, 'c) process, actorRef list) call" where
  "cachedReferences e namespace actorID moduleID =
     onEnv e (\<lambda>env w.
       let key = cacheKey namespace actorID in
       case (if eo_DisableActivationCache (en_opts env) then None else ch_Get (pr_cache w) key (en_activationCache env)) of
         Some references \<Rightarrow> (Ret references, w)
       | None \<Rightarrow>
           andThen (onError (Wrapf ''error ensuring activation of actor: %s in registry: %w'' [AStr actorID])
                      (onRegistry (rEnsureActivation (en_registry env) namespace actorID moduleID)))
             (\<lambda>references. andThen (updateEnv e (\<lambda>env'. env'\<lparr>en_activationCache :=
                  ch_SetWithTTL (pr_cache w) key references 1 (eo_ActivationCacheTTL (en_opts env')) (en_activationCache env')\<rparr>))
                (\<lambda>_. ret references)) w)"

definition InvokeActorStream ::
  "nat \<Rightarrow> string \<Rightarrow> string \<Rightarrow> string \<Rightarrow> string \<Rightarrow> bytes \<Rightarrow> CreateIfNotExist \<Rightarrow> (('s, 'c) process, ReadCloser option) call" where
  "InvokeActorStream e namespace actorID moduleID operation payload create =
     onEnv e (\<lambda>env.
       if namespace = [] then fail (Errorf ''InvokeActor: namespace cannot be empty'' [])
       else if actorID = [] then fail (Errorf ''InvokeActor: actorID cannot be empty'' [])
       else if moduleID = [] then fail (Errorf ''InvokeActor: moduleID cannot be empty'' [])
       else
         andThen (onError (wrap ''error getting version stamp: %w'') (onRegistry (rGetVersionStamp (en_registry env)))) (\<lambda>vs.
         andThen (cachedReferences e namespace actorID moduleID) (\<lambda>references.
           if references = [] then
             fail (Errorf ''ensureActivation() success with 0 references for actor ID: %s'' [AStr actorID])
           else invokeReferences e vs references operation payload create)))"

definition InvokeActor ::
  "nat \<Rightarrow> string \<Rightarrow> string \<Rightarrow> string \<Rightarrow> string \<Rightarrow> bytes \<Rightarrow> CreateIfNotExist \<Rightarrow> (('s, 'c) process, bytes) call" where
  "InvokeActor e namespace actorID moduleID operation payload create =
     readAll ''error invoking actor: %w'' ''error reading actor response from stream: %w''
       (InvokeActorStream e namespace actorID moduleID operation payload create)"

definition InvokeWorkerStream ::
  "nat \<Rightarrow> string \<Rightarrow> string \<Rightarrow> string \<Rightarrow> bytes \<Rightarrow> CreateIfNotExist \<Rightarrow> (('s, 'c) process, ReadCloser option) call" where
  "InvokeWorkerStream e namespace moduleID operation payload create =
     andThen (onError (wrap ''InvokeWorker: error creating actor reference: %w'')
                (lift (NewVirtualWorkerReference namespace moduleID moduleID)))
       (\<lambda>ref w. onActivations e (invoke (pr_wasm w) (pr_now w) (VirtualRef ref) operation
                   (Some (cine_InstantiatePayload create)) (Some payload) False) w)"

definition InvokeWorker ::
  "nat \<Rightarrow> string \<Rightarrow> string \<Rightarrow> string \<Rightarrow> bytes \<Rightarrow> CreateIfNotExist \<Rightarrow> (('s, 'c) process, bytes) call" where
  "InvokeWorker e namespace moduleID operation payload create =
     readAll ''error invoking worker: %w'' ''error reading worker response from stream: %w''
       (InvokeWorkerStream e namespace moduleID operation payload create)"

text \<open>\<open>hostCapabilities.InvokeActor\<close>: an actor invokes another one of its namespace through its environment.\<close>

definition hostInvokeActor :: "nat \<Rightarrow> virtualRef \<Rightarrow> InvokeActorRequest \<Rightarrow> (('s, 'c) process, bytes) call" where
  "hostInvokeActor e reference req =
     InvokeActor e (vr_namespace reference) (iar_ActorID req) (iar_ModuleID req) (iar_Operation req) (iar_Payload req)
       (iar_CreateIfNotExist req)"

subsection \<open>Invocations of an activated actor\<close>

text \<open>The stream of a byte slice does not fail.\<close>

abbreviation wholeStream :: "bytes \<Rightarrow> ReadCloser option" where
  "wholeStream \<equiv> (\<lambda>b. Some (Stream b None))"

text \<open>Mapping the result of the function given to \<open>Transact\<close>.\<close>

lemma hostTransact_map:
  "hostTransact h (\<lambda>tr. andThen (fn tr) (\<lambda>b. ret (g b))) s =
   (case hostTransact h fn s of (Ret b, s') \<Rightarrow> (Ret (g b), s') | (Fail e, s') \<Rightarrow> (Fail e, s') | (Panic p, s') \<Rightarrow> (Panic p, s') | (Blocked, s') \<Rightarrow> (Blocked, s'))"
  unfolding hostTransact_def Let_def andThen_def
  by (cases "fn (lazyOps (newLazyActorTransaction (hc_reg h) (hc_getServerStateFn h) (hc_reference h))) (s, freshLazy)")
    (auto split: outcome.splits prod.splits)

text \<open>
  An actor that is activated, open and idle, of the generation that is asked for, and whose code does what the program \<open>prog\<close>
  does when it is invoked with this operation and payload.
\<close>

definition activeActor :: "'s activations \<Rightarrow> actorReferenceVirtual \<Rightarrow> string \<Rightarrow> bytes \<Rightarrow> bytes actorProg \<Rightarrow> bool" where
  "activeActor a reference operation payload prog \<longleftrightarrow> \<not> as_locked a \<and>
     (\<exists>fut f x obj. as_actors a (refActorID reference) = Some fut \<and> as_futures a fut = Some f \<and> futureWait f = Ret (Some x)
        \<and> as_objects a x = Some obj \<and> \<not> aa_closed obj \<and> \<not> aa_locked obj
        \<and> refVirtual (aa_reference obj) = refVirtual reference \<and> vr_idType (refVirtual reference) = IDTypeActor
        \<and> ac_InvokeStream (aa_a obj) = None
        \<and> (\<exists>invk. ac_Invoke (aa_a obj) = Some invk
            \<and> (\<forall>tr. invk operation (Some payload) (Some tr) = runProg prog tr)))"

lemma invoke_active:
  assumes "activeActor a reference operation payload prog"
  shows "\<exists>a'. invoke wasm now reference operation ip (Some payload) False (s, a) =
    (case hostTransact (actorHost a reference) (runProg prog) s of
       (Ret b, s') \<Rightarrow> (Ret (wholeStream b), (s', a')) | (Fail e, s') \<Rightarrow> (Fail e, (s', a'))
     | (Panic p, s') \<Rightarrow> (Panic p, (s', a')) | (Blocked, s') \<Rightarrow> (Blocked, (s', a')))"
proof -
  obtain fut f x obj invk where o: "\<not> as_locked a" "as_actors a (refActorID reference) = Some fut" "as_futures a fut = Some f"
    "futureWait f = Ret (Some x)" "as_objects a x = Some obj" "\<not> aa_closed obj" "\<not> aa_locked obj"
    "refVirtual (aa_reference obj) = refVirtual reference" "vr_idType (refVirtual reference) = IDTypeActor"
    "ac_InvokeStream (aa_a obj) = None" "ac_Invoke (aa_a obj) = Some invk"
    "\<forall>tr. invk operation (Some payload) (Some tr) = runProg prog tr"
    using assms unfolding activeActor_def by blast
  have "invoke wasm now reference operation ip (Some payload) False (s, a) = invokeObject now operation (Some payload) x (s, a)"
    using o(1-5,8) by (simp add: invoke_def Let_def invokeLookup_def waitFuture_def andThen_def invokeWaited_def refGeneration_def)
  moreover have worker: "naid_IDType (refActorID (aa_reference obj)) \<noteq> IDTypeWorker"
    using o(8,9) by (simp add: refActorID_def vrActorID_def NewNamespacedActorID_def IDTypeActor_def IDTypeWorker_def)
  have "callActor (aa_a obj) operation (Some payload) (Some tr) = andThen (runProg prog tr) (\<lambda>b. ret (BytesResult b))" for tr
    using o(10-12) by (simp add: callActor_def)
  then have "actorInvoke (actorHost a reference) now operation (Some payload) False False (s, obj) =
    (let obj' = obj\<lparr>aa_lastInvoke := now, aa_gcTimer := now + aa_gcAfter obj\<rparr> in
     case hostTransact (actorHost a reference) (runProg prog) s of
       (Ret b, s') \<Rightarrow> (Ret (wholeStream b), (s', obj')) | (Fail e, s') \<Rightarrow> (Fail e, (s', obj'))
     | (Panic p, s') \<Rightarrow> (Panic p, (s', obj')) | (Blocked, s') \<Rightarrow> (Blocked, (s', obj')))"
    using o(6,7) worker
    by (auto simp: actorInvoke_def invokeEnter_def hostTransact_map split: prod.splits outcome.splits)
  moreover have "actorHost a (aa_reference obj) = actorHost a reference" using o(8) by (simp add: actorHost_def)
  ultimately show ?thesis
    using o(5)
    by (intro exI [of _ "a\<lparr>as_objects := (as_objects a)(x \<mapsto> obj\<lparr>aa_lastInvoke := now, aa_gcTimer := now + aa_gcAfter obj\<rparr>)\<rparr>"])
      (auto simp: invokeObject_def onObject_def split: prod.splits outcome.splits)
qed

text \<open>The guards of \<open>InvokeActorDirectStream\<close>.\<close>

definition accepts :: "('s, 'c) environment \<Rightarrow> int \<Rightarrow> string \<Rightarrow> int \<Rightarrow> bool" where
  "accepts env versionStamp serverID serverVersion \<longleftrightarrow>
     serverID \<noteq> [] \<and> (serverID = en_serverID env \<or> serverID = DNSServerID) \<and> 0 < versionStamp
     \<and> versionStamp \<le> i64 (hr_VersionStamp (en_HeartbeatResult env) + hr_HeartbeatTTL (en_HeartbeatResult env))
     \<and> serverVersion = hr_ServerVersion (en_HeartbeatResult env)"

lemma InvokeActorDirectStream_guards:
  assumes "pr_envs w e = Some env"
  shows "if accepts env vs sid ver
    then InvokeActorDirectStream e vs sid ver reference operation payload create w =
      onActivations e (invoke (pr_wasm w) (pr_now w) reference operation (Some (cine_InstantiatePayload create)) (Some payload) False) w
    else \<exists>err. InvokeActorDirectStream e vs sid ver reference operation payload create w = (Fail err, w)"
  using assms by (auto simp: accepts_def InvokeActorDirectStream_def onEnv_def Let_def)

lemma heartbeat_Ret:
  assumes "pr_envs w e = Some env" "\<not> as_locked (en_activations env)"
    and "rHeartbeat (en_registry env) (en_serverID env)
      \<lparr>hs_NumActivatedActors = int (card (dom (as_actors (en_activations env)))), hs_Address = en_address env\<rparr> (pr_state w) = (Ret result, s')"
  shows "heartbeat e w = (Ret (), setEnv e (env\<lparr>en_HeartbeatResult := if en_frozen env then en_HeartbeatResult env else result,
      en_activations := setServerState (en_serverID env) (hr_ServerVersion result) (en_activations env)\<rparr>) (w\<lparr>pr_state := s'\<rparr>))"
  using assms
  by (simp add: heartbeat_def envNumActivatedActors_def onActivations_def onEnv_def numActivatedActors_def andThen_def onError_def
      onRegistry_def setEnv_def)

lemma onActivations_result:
  assumes "pr_envs w e = Some env" "f (pr_state w, en_activations env) = (r, (s', a'))"
  shows "onActivations e f w = (r, setEnv e (env\<lparr>en_activations := a'\<rparr>) (w\<lparr>pr_state := s'\<rparr>))"
  using assms by (simp add: onActivations_def onEnv_def)

lemma localHolds_stamp:
  assumes "localHolds m tinv l A"
  shows "0 \<le> localStamp l" "localStamp l * 1000 < 2 ^ 63"
  using assms stamp_bounds [of "l_t l" "l_clock l (l_reads l)"] by (auto simp: localHolds_def local_state_defs)

context btree_contract
begin

lemma local_GetVersionStamp:
  assumes "localHolds m tinv l A"
  shows "\<exists>l'. rGetVersionStamp (NewLocalRegistry bt) l = (Ret (localStamp l), l') \<and> localHolds m tinv l' A"
  using reg.GetVersionStamp_refines [of l A] assms by (auto simp: reg_holds NewLocalRegistry_def registry_simps)

text \<open>The references of an actor that is placed on a live server, when the cache has none.\<close>

lemma local_cachedReferences:
  assumes "localHolds m tinv (pr_state w) A" "pr_envs w e = Some env" "en_registry env = NewLocalRegistry bt"
    and "eo_DisableActivationCache (en_opts env) \<or> ch_Get (pr_cache w) (cacheKey ns a) (en_activationCache env) = None"
    and "okNs ns" "validString mid" "validId ns" "validId a"
    and "a_actors A (ns, a, mid) = Some ra" "keptServer (localStamp (pr_state w)) ra A = Some ss" "referenceTo ns a ra ss = Ret ref"
  shows "\<exists>l' c. cachedReferences e ns a mid w = (Ret [ref], setEnv e (env\<lparr>en_activationCache := c\<rparr>) (w\<lparr>pr_state := l'\<rparr>))
    \<and> localHolds m tinv l' A"
proof -
  obtain r l' res A' where l': "rEnsureActivation (NewLocalRegistry bt) ns a mid (pr_state w) = (r, l')" "agrees r res"
    "ensures (localStamp (pr_state w)) ns a mid A res A'" "localHolds m tinv l' A'"
    using local_EnsureActivation [OF assms(1,5-8)] by blast
  from l'(3) assms(9-11) have "res = Some [ref]" "A' = A" by (simp_all add: ensures_def actorFor_def)
  with l' assms(2-4) show ?thesis
    by (intro exI [of _ l'] exI [of _ "ch_SetWithTTL (pr_cache w) (cacheKey ns a) [ref] 1 (eo_ActivationCacheTTL (en_opts env)) (en_activationCache env)"])
      (auto simp: cachedReferences_def onEnv_def Let_def onRegistry_def onError_def andThen_def updateEnv_def setEnv_def)
qed

end

lemma invokeReferences_local:
  assumes "pr_envs w e = Some env" "\<not> eo_ForceRemoteProcedureCalls (en_opts env)"
    and "pr_localEnvironmentsRouter w (ar_address ref) = Some e'"
  shows "invokeReferences e vs [ref] operation payload create w =
    InvokeActorDirectStream e' vs (ar_serverID ref) (ar_serverVersion ref) (ActorRef ref) operation payload create w"
  using assms by (simp add: invokeReferences_def onEnv_def)

lemma referenceTo_fields:
  assumes "referenceTo ns a ra ss = Ret ref"
  shows "ar_serverID ref = ss_ServerID ss" "ar_serverVersion ref = ss_ServerVersion ss"
    "ar_address ref = hs_Address (ss_HeartbeatState ss)" "vr_namespace (ar_virtualRef ref) = ns"
  using assms
  by (auto simp: referenceTo_def NewActorReference_def NewVirtualActorReference_def newVirtualActorReference_def
      split: outcome.splits if_splits)

subsection \<open>Properties\<close>

lemma readAll_agrees:
  assumes "f w = (r, w')" "agrees r (map_option wholeStream res)"
  shows "\<exists>r'. readAll msg readMsg f w = (r', w') \<and> agrees r' res"
  using assms by (cases res) (auto simp: readAll_def andThen_def onError_def)

text \<open>An accepted invocation of an activated actor is a transaction of the registry.\<close>

lemma InvokeActorDirectStream_active:
  assumes "btree_contract bt m tinv" "localHolds m tinv (pr_state w) A" "pr_envs w e = Some env"
    and "activeActor (en_activations env) reference operation payload prog" "as_registry (en_activations env) = NewLocalRegistry bt"
    and "okNs (vr_namespace (refVirtual reference))" "accepts env vs sid ver"
    and "absTransact (refVirtual reference) (as_serverID (en_activations env)) (as_serverVersion (en_activations env))
           prog A = (res, A')"
  shows "\<exists>r w'. InvokeActorDirectStream e vs sid ver reference operation payload create w = (r, w')
    \<and> agrees r (map_option wholeStream res) \<and> localHolds m tinv (pr_state w') A'"
proof -
  let ?a = "en_activations env" and ?s = "pr_state w" and ?p = prog
  let ?i = "invoke (pr_wasm w) (pr_now w) reference operation (Some (cine_InstantiatePayload create)) (Some payload) False"
  obtain r l' where t: "hostTransact (actorHost ?a reference) (runProg ?p) ?s = (r, l')" "agrees r res" "localHolds m tinv l' A'"
    using btree_contract.local_host_Transact [OF assms(1,2,6), of "actorHost ?a reference" "as_serverID ?a" "as_serverVersion ?a" ?p] assms(5,8)
    by (auto simp: actorHost_def newHostCapabilities_def getServerState_def)
  obtain a' where i: "?i (?s, ?a) =
      (case r of Ret b \<Rightarrow> (Ret (wholeStream b), (l', a')) | Fail e \<Rightarrow> (Fail e, (l', a')) | Panic p \<Rightarrow> (Panic p, (l', a')) | Blocked \<Rightarrow> (Blocked, (l', a')))"
    using invoke_active [OF assms(4), of "pr_wasm w" "pr_now w" "Some (cine_InstantiatePayload create)" ?s] t(1) by auto
  have d: "InvokeActorDirectStream e vs sid ver reference operation payload create w = onActivations e ?i w"
    using InvokeActorDirectStream_guards [OF assms(3)] assms(7) by metis
  obtain out where out: "?i (?s, ?a) = (out, (l', a'))" "agrees out (map_option wholeStream res)"
    using t(2) i by (cases res) auto
  have "onActivations e ?i w = (out, setEnv e (env\<lparr>en_activations := a'\<rparr>) (w\<lparr>pr_state := l'\<rparr>))"
    by (rule onActivations_result) (use assms(3) out(1) in auto)
  with d out(2) t(3) show ?thesis by (simp add: setEnv_def)
qed

text \<open>
  \<^bold>\<open>C6\<close> (a direct invocation is a fenced transaction). For an actor that is already activated, open and idle, and whose code does for this
  operation what a program of gets and puts does (\<open>activeActor\<close>): a direct invocation that passes the guards of the environment runs the
  operation as one transaction of the registry, under the server identifier and version of the last
  heartbeat; its result and its effect on the whole registry are those of \<open>absTransact\<close>. An invocation
  that does not pass is an error without any effect. (The first invocation of an actor activates it before, which is not part of this property.)
\<close>

theorem InvokeActorDirect_transaction:
  assumes "btree_contract bt m tinv" "localHolds m tinv (pr_state w) A" "pr_envs w e = Some env"
    and "activeActor (en_activations env) reference operation payload prog" "as_registry (en_activations env) = NewLocalRegistry bt"
    and "okNs (vr_namespace (refVirtual reference))"
  shows "if accepts env vs sid ver
    then \<exists>r w'. InvokeActorDirect e vs sid ver reference operation payload create w = (r, w')
      \<and> (let (res, A') = absTransact (refVirtual reference) (as_serverID (en_activations env)) (as_serverVersion (en_activations env))
                 prog A in
         agrees r res \<and> localHolds m tinv (pr_state w') A')
    else \<exists>err. InvokeActorDirect e vs sid ver reference operation payload create w = (Fail err, w)"
proof (cases "accepts env vs sid ver")
  case False
  then show ?thesis
    using InvokeActorDirectStream_guards [OF assms(3), of vs sid ver reference operation payload create]
    by (auto simp: InvokeActorDirect_def readAll_def andThen_def onError_def)
next
  case True
  obtain res A' where abs: "absTransact (refVirtual reference) (as_serverID (en_activations env)) (as_serverVersion (en_activations env))
      prog A = (res, A')" by force
  from InvokeActorDirectStream_active [OF assms True abs, of create] True abs show ?thesis
    unfolding InvokeActorDirect_def by (auto dest!: readAll_agrees [where msg = "''error invoking actor: %w''" and readMsg = "''error reading actor response from stream: %w''"])
qed

definition exampleEnv :: "(tree localKV, unit) environment" where
  "exampleEnv =
     \<lparr>en_activations = activeServer, en_activationCache = (),
      en_HeartbeatResult = \<lparr>hr_VersionStamp = 7, hr_HeartbeatTTL = 5000000, hr_ServerVersion = 1\<rparr>, en_frozen = False, en_paused = False,
      en_closeCh = False, en_closedCh = False, en_serverID = ''s1'', en_address = ''h:9090'', en_registry = NewLocalRegistry rbtOps,
      en_client = (\<lambda>vs ref operation payload create. fail (Errorf ''unreachable'' [])),
      en_opts = \<lparr>eo_ActivationCacheTTL = 5, eo_DisableActivationCache = False,
        eo_Discovery = \<lparr>do_DiscoveryType = DiscoveryTypeLocalHost, do_Port = 1\<rparr>, eo_ForceRemoteProcedureCalls = False,
        eo_CustomHostFns = Map.empty, eo_GCActorsAfter = 60\<rparr>\<rparr>"

definition exampleCreate :: CreateIfNotExist where
  "exampleCreate = \<lparr>cine_Options = ActorOptions, cine_InstantiatePayload = []\<rparr>"

definition exampleProcess :: "(tree localKV, unit) process" where
  "exampleProcess =
     \<lparr>pr_state = sampleKV 1 0 1 0, pr_envs = [0 \<mapsto> exampleEnv], pr_localEnvironmentsRouter = [''h:9090'' \<mapsto> 0],
      pr_cache = \<lparr>ch_Get = (\<lambda>key c. Some [dnsRef ''127.0.0.1'' ''ns'' ''m'' ''a'']), ch_SetWithTTL = (\<lambda>key refs cost ttl c. c), ch_New = Ret ()\<rparr>,
      pr_wasm = (\<lambda>i b. Fail (Errorf ''no engine'' [])), pr_now = 0\<rparr>"

lemma exampleProcess_holds: "localHolds RBT.lookup (\<lambda>_. True) (pr_state exampleProcess) (sampleState 1 0 1 0)"
  unfolding exampleProcess_def by (simp, intro sampleKV_holds) (simp_all add: is_i64_def)

lemma exampleEnv_registry: "as_registry (en_activations exampleEnv) = NewLocalRegistry rbtOps"
  by (simp add: exampleEnv_def activeServer_def activated_def Let_def settled_def setObject_def installFuture_def exampleServer_def
      split: option.split)

theorem InvokeActorDirect_transaction_witness:
  "\<exists>w'. InvokeActorDirect 0 8 ''s1'' 1 (exampleRef 1) ''op'' [] exampleCreate exampleProcess = (Ret [], w')"
proof -
  have act: "activeActor (en_activations exampleEnv) (exampleRef 1) ''op'' [] (Return [])"
    by (simp add: activeActor_def exampleEnv_def activeObject_def exampleActor_def exampleRef_def)
  have env: "pr_envs exampleProcess 0 = Some exampleEnv" by (simp add: exampleProcess_def)
  have ns: "okNs (vr_namespace (refVirtual (exampleRef 1)))" by (simp add: exampleRef_def)
  have "accepts exampleEnv 8 ''s1'' 1" by (simp add: accepts_def exampleEnv_def is_i64_def)
  with InvokeActorDirect_transaction [OF rbt_contract exampleProcess_holds env act exampleEnv_registry ns, of 8 "''s1''" 1 exampleCreate]
  show ?thesis by (auto simp: absTransact_def usesStorage_def Let_def)
qed

text \<open>
  \<^bold>\<open>C15\<close> (the window of a heartbeat). After a heartbeat of an environment that is not frozen, whose registry is the local one,
  \<open>InvokeActorDirectStream\<close> with its identity and version passes an invocation on to the activations exactly if its stamp is positive and at most the stamp
  that the heartbeat returned plus the time to live of 5 s, and refuses it without any effect otherwise. The stamp that the
  registry has stored is not later than the returned one, and the registry counts the server alive only before the time to live has passed
  since the stored one: at the last stamp that the environment accepts, the registry counts the server dead and may place its actors on another one.
\<close>

theorem heartbeat_window:
  assumes "btree_contract bt m tinv" "localHolds m tinv (pr_state w) A" "pr_envs w e = Some env" "en_registry env = NewLocalRegistry bt"
    and "\<not> as_locked (en_activations env)" "\<not> en_frozen env" "validId (en_serverID env)" "validId (en_address env)"
    and "wfHeartbeat (en_serverID env) \<lparr>hs_NumActivatedActors = int (card (dom (as_actors (en_activations env)))), hs_Address = en_address env\<rparr>"
  shows "\<exists>w' hb l' A' ss. heartbeat e w = (Ret (), w')
    \<and> rHeartbeat (NewLocalRegistry bt) (en_serverID env)
        \<lparr>hs_NumActivatedActors = int (card (dom (as_actors (en_activations env)))), hs_Address = en_address env\<rparr> (pr_state w) = (Ret hb, l')
    \<and> pr_state w' = l' \<and> localHolds m tinv l' A' \<and> a_servers A' (en_serverID env) = Some ss \<and> ss_ServerVersion ss = hr_ServerVersion hb
    \<and> (\<forall>v reference operation payload create.
         if 0 < v \<and> v \<le> hr_VersionStamp hb + 5000000
         then InvokeActorDirectStream e v (en_serverID env) (hr_ServerVersion hb) reference operation payload create w' =
           onActivations e (invoke (pr_wasm w') (pr_now w') reference operation (Some (cine_InstantiatePayload create)) (Some payload) False) w'
         else \<exists>err. InvokeActorDirectStream e v (en_serverID env) (hr_ServerVersion hb) reference operation payload create w' = (Fail err, w'))
    \<and> \<not> aliveAt (hr_VersionStamp hb + 5000000) ss"
proof -
  let ?hs = "\<lparr>hs_NumActivatedActors = int (card (dom (as_actors (en_activations env)))), hs_Address = en_address env\<rparr>" and ?i = "en_serverID env"
  obtain t0 t t' l' where h: "rHeartbeat (NewLocalRegistry bt) ?i ?hs (pr_state w)
      = (Ret \<lparr>hr_VersionStamp = t', hr_HeartbeatTTL = 5000000, hr_ServerVersion = heartbeatVersion ?i t0 t A\<rparr>, l')"
    "localHolds m tinv l' (aHeartbeat ?i ?hs t0 t A)" "localStamp (pr_state w) \<le> t0" "t0 \<le> t" "t \<le> t'" "t' \<le> localStamp l'"
    using btree_contract.local_Heartbeat [OF assms(1,2), of ?i ?hs] assms(7-9) by auto
  define hb where "hb = \<lparr>hr_VersionStamp = t', hr_HeartbeatTTL = 5000000, hr_ServerVersion = heartbeatVersion ?i t0 t A\<rparr>"
  define env' where "env' = env\<lparr>en_HeartbeatResult := hb, en_activations := setServerState ?i (hr_ServerVersion hb) (en_activations env)\<rparr>"
  define w' where "w' = setEnv e env' (w\<lparr>pr_state := l'\<rparr>)"
  have beat: "heartbeat e w = (Ret (), w')"
    using heartbeat_Ret [OF assms(3,5), of hb l'] h(1) assms(4,6) by (simp add: w'_def env'_def hb_def)
  have env': "pr_envs w' e = Some env'" "pr_state w' = l'" by (simp_all add: w'_def setEnv_def)
  have "is_i64 (t' + 5000000)"
    using h(3-6) localHolds_stamp [OF assms(2)] localHolds_stamp [OF h(2)] by (simp add: is_i64_def)
  moreover have "?i \<noteq> []" using assms(7) by (auto simp: validId_def)
  ultimately have "accepts env' v ?i (hr_ServerVersion hb) \<longleftrightarrow> 0 < v \<and> v \<le> hr_VersionStamp hb + 5000000" for v
    by (simp add: accepts_def env'_def hb_def)
  then have window: "if 0 < v \<and> v \<le> hr_VersionStamp hb + 5000000
     then InvokeActorDirectStream e v ?i (hr_ServerVersion hb) reference operation payload create w' =
       onActivations e (invoke (pr_wasm w') (pr_now w') reference operation (Some (cine_InstantiatePayload create)) (Some payload) False) w'
     else \<exists>err. InvokeActorDirectStream e v ?i (hr_ServerVersion hb) reference operation payload create w' = (Fail err, w')"
    for v reference operation payload create
    using InvokeActorDirectStream_guards [OF env'(1), of v ?i "hr_ServerVersion hb" reference operation payload create] by simp
  have ss: "a_servers (aHeartbeat ?i ?hs t0 t A) ?i =
      Some \<lparr>ss_ServerID = ?i, ss_LastHeartbeatedAt = t, ss_HeartbeatState = ?hs, ss_ServerVersion = hr_ServerVersion hb\<rparr>"
    by (simp add: aHeartbeat_def hb_def)
  have dead: "\<not> aliveAt (hr_VersionStamp hb + 5000000)
      \<lparr>ss_ServerID = ?i, ss_LastHeartbeatedAt = t, ss_HeartbeatState = ?hs, ss_ServerVersion = hr_ServerVersion hb\<rparr>"
    using h(5) by (simp add: aliveAt_def hb_def)
  show ?thesis
    by (rule exI [of _ w'], rule exI [of _ hb], rule exI, rule exI, rule exI, intro conjI allI, rule beat,
        rule h(1) [folded hb_def], rule env'(2), rule h(2), rule ss, simp, rule window, rule dead)
qed

theorem heartbeat_window_witness:
  "\<exists>w' hb l' A' ss. heartbeat 0 exampleProcess = (Ret (), w')
    \<and> rHeartbeat (NewLocalRegistry rbtOps) ''s1'' \<lparr>hs_NumActivatedActors = 1, hs_Address = ''h:9090''\<rparr> (pr_state exampleProcess) = (Ret hb, l')
    \<and> pr_state w' = l' \<and> localHolds RBT.lookup (\<lambda>_. True) l' A' \<and> a_servers A' ''s1'' = Some ss \<and> ss_ServerVersion ss = hr_ServerVersion hb
    \<and> (\<forall>v reference operation payload create.
         if 0 < v \<and> v \<le> hr_VersionStamp hb + 5000000
         then InvokeActorDirectStream 0 v ''s1'' (hr_ServerVersion hb) reference operation payload create w' =
           onActivations 0 (invoke (pr_wasm w') (pr_now w') reference operation (Some (cine_InstantiatePayload create)) (Some payload) False) w'
         else \<exists>err. InvokeActorDirectStream 0 v ''s1'' (hr_ServerVersion hb) reference operation payload create w' = (Fail err, w'))
    \<and> \<not> aliveAt (hr_VersionStamp hb + 5000000) ss"
proof -
  have env: "pr_envs exampleProcess 0 = Some exampleEnv" by (simp add: exampleProcess_def)
  have actors: "as_actors (en_activations exampleEnv) = [refActorID (exampleRef 1) \<mapsto> 0]" "\<not> as_locked (en_activations exampleEnv)"
    by (simp_all add: exampleEnv_def activeServer_def activated_def Let_def settled_def setObject_def installFuture_def exampleServer_def
        split: option.split)
  have self: "en_serverID exampleEnv = ''s1''" "en_address exampleEnv = ''h:9090''" "en_registry exampleEnv = NewLocalRegistry rbtOps" "\<not> en_frozen exampleEnv"
    by (simp_all add: exampleEnv_def)
  have hs: "\<lparr>hs_NumActivatedActors = int (card (dom (as_actors (en_activations exampleEnv)))), hs_Address = en_address exampleEnv\<rparr>
      = \<lparr>hs_NumActivatedActors = 1, hs_Address = ''h:9090''\<rparr>"
    using actors(1) self(2) by simp
  have ids: "validId (en_serverID exampleEnv)" "validId (en_address exampleEnv)"
    "wfHeartbeat (en_serverID exampleEnv) \<lparr>hs_NumActivatedActors = 1, hs_Address = ''h:9090''\<rparr>"
    using self by (simp_all add: wfHeartbeat_def is_i64_def)
  show ?thesis
    by (rule heartbeat_window [OF rbt_contract exampleProcess_holds env self(3) actors(2) self(4) ids(1,2), unfolded hs self(1), OF ids(3) [unfolded self(1)]])
qed

text \<open>
  \<^bold>\<open>C5\<close> (an invocation runs where the registry has placed the actor). \<open>InvokeActor\<close> on any environment of the
  process that has no entry for the actor in its cache and is not forced to use remote calls, of an actor that is placed on a live server whose environment
  is in the same process, accepts the stamp of the registry and has the actor activated, open and idle, with code that does for this operation what a program of gets and
  puts does: it runs the operation on that environment, as one transaction of the registry under the identity of that server.
\<close>

theorem InvokeActor_runs_on_owner:
  assumes "btree_contract bt m tinv" "localHolds m tinv (pr_state w) A" "pr_envs w e = Some env" "en_registry env = NewLocalRegistry bt"
    and "eo_DisableActivationCache (en_opts env) \<or> ch_Get (pr_cache w) (cacheKey ns a) (en_activationCache env) = None"
    and "\<not> eo_ForceRemoteProcedureCalls (en_opts env)" "okNs ns" "validString mid" "mid \<noteq> []" "validId ns" "validId a"
    and "rGetVersionStamp (NewLocalRegistry bt) (pr_state w) = (Ret vs, l)"
    and "a_actors A (ns, a, mid) = Some ra" "keptServer (localStamp l) ra A = Some ss" "referenceTo ns a ra ss = Ret ref"
    and "pr_localEnvironmentsRouter w (hs_Address (ss_HeartbeatState ss)) = Some e'" "pr_envs w e' = Some env'"
    and "accepts env' vs (ss_ServerID ss) (ss_ServerVersion ss)"
    and "activeActor (en_activations env') (ActorRef ref) operation payload prog" "as_registry (en_activations env') = NewLocalRegistry bt"
  shows "\<exists>r w'. InvokeActor e ns a mid operation payload create w = (r, w')
    \<and> (let (res, A') = absTransact (ar_virtualRef ref) (as_serverID (en_activations env')) (as_serverVersion (en_activations env'))
               prog A in
       agrees r res \<and> localHolds m tinv (pr_state w') A')"
proof -
  let ?w1 = "w\<lparr>pr_state := l\<rparr>"
  have l: "localHolds m tinv (pr_state ?w1) A"
    using btree_contract.local_GetVersionStamp [OF assms(1,2)] assms(12) by auto
  obtain l2 c where c: "cachedReferences e ns a mid ?w1 = (Ret [ref], setEnv e (env\<lparr>en_activationCache := c\<rparr>) (?w1\<lparr>pr_state := l2\<rparr>))"
    "localHolds m tinv l2 A"
    using btree_contract.local_cachedReferences [OF assms(1) l, of e env ns a mid ra ss ref] assms(3-5,7,8,10,11,13-15) by auto
  define w2 where "w2 = setEnv e (env\<lparr>en_activationCache := c\<rparr>) (?w1\<lparr>pr_state := l2\<rparr>)"
  have w2: "localHolds m tinv (pr_state w2) A" "pr_envs w2 e = Some (env\<lparr>en_activationCache := c\<rparr>)"
    "pr_localEnvironmentsRouter w2 (ar_address ref) = Some e'"
    using c(2) assms(16) referenceTo_fields(3) [OF assms(15)] by (simp_all add: w2_def setEnv_def)
  obtain env2 where env2: "pr_envs w2 e' = Some env2" "en_activations env2 = en_activations env'"
    "accepts env2 vs (ar_serverID ref) (ar_serverVersion ref)"
    using assms(3,17,18) referenceTo_fields(1,2) [OF assms(15)]
    by (cases "e' = e") (auto simp: w2_def setEnv_def accepts_def)
  obtain res A' where abs: "absTransact (ar_virtualRef ref) (as_serverID (en_activations env')) (as_serverVersion (en_activations env'))
      prog A = (res, A')" by force
  have "\<exists>r w'. InvokeActorDirectStream e' vs (ar_serverID ref) (ar_serverVersion ref) (ActorRef ref) operation payload create w2 = (r, w')
    \<and> agrees r (map_option wholeStream res) \<and> localHolds m tinv (pr_state w') A'"
    by (rule InvokeActorDirectStream_active [OF assms(1) w2(1) env2(1), where prog = prog])
      (use env2 abs assms(7,19,20) referenceTo_fields(4) [OF assms(15)] in auto)
  moreover have "InvokeActorStream e ns a mid operation payload create w = invokeReferences e vs [ref] operation payload create w2"
    using assms(3,4,9-12) c(1)
    by (auto simp: InvokeActorStream_def onEnv_def andThen_def onError_def onRegistry_def w2_def validId_def)
  moreover have "invokeReferences e vs [ref] operation payload create w2 =
      InvokeActorDirectStream e' vs (ar_serverID ref) (ar_serverVersion ref) (ActorRef ref) operation payload create w2"
    by (rule invokeReferences_local [OF w2(2) _ w2(3)]) (use assms(6) in simp)
  ultimately obtain r w' where "InvokeActorStream e ns a mid operation payload create w = (r, w')"
    "agrees r (map_option wholeStream res)" "localHolds m tinv (pr_state w') A'" by auto
  then show ?thesis
    using abs unfolding InvokeActor_def by (auto dest!: readAll_agrees [where msg = "''error invoking actor: %w''" and readMsg = "''error reading actor response from stream: %w''"])
qed

definition ownerProcess :: "(tree localKV, unit) process" where
  "ownerProcess = exampleProcess\<lparr>pr_state := sampleKV 1 9000000 1 0, pr_envs :=
     [0 \<mapsto> exampleEnv\<lparr>en_HeartbeatResult := \<lparr>hr_VersionStamp = 9000000, hr_HeartbeatTTL = 5000000, hr_ServerVersion = 1\<rparr>,
        en_opts := (en_opts exampleEnv)\<lparr>eo_DisableActivationCache := True\<rparr>\<rparr>]\<rparr>"

theorem InvokeActor_runs_on_owner_witness:
  "\<exists>w'. InvokeActor 0 ''ns'' ''a'' ''m'' ''op'' [] exampleCreate ownerProcess = (Ret [], w')"
proof -
  let ?A = "sampleState 1 9000000 1 0" and ?s = "sampleServer ''s1'' 1 9000000" and ?env = "the (pr_envs ownerProcess 0)"
  obtain l where l: "rGetVersionStamp (NewLocalRegistry rbtOps) (pr_state ownerProcess) = (Ret 10000000, l)" "localStamp l = 10000000"
    by (simp add: ownerProcess_def sampleKV_def newLocalKV_def NewLocalRegistry_def registry_simps GetVersionStamp_def getVersionStampTx_def
        andThen_def onError_def localStore_def localTransaction_def local_state_defs microseconds_def durationSub_def)
  have h: "localHolds RBT.lookup (\<lambda>_. True) (pr_state ownerProcess) ?A"
    unfolding ownerProcess_def by (simp, intro sampleKV_holds) (simp_all add: is_i64_def)
  have kept: "keptServer (localStamp l) sampleActor ?A = Some ?s"
    using l(2) by (simp add: sampleState_def keptServer_def sampleActor_def newActivation_def aliveAt_def sampleServer_def)
  obtain ref where ref: "referenceTo ''ns'' ''a'' sampleActor ?s = Ret ref" "ar_virtualRef ref = refVirtual (exampleRef 1)"
    by (simp add: referenceTo_def sampleActor_def newActor_def sampleServer_def NewActorReference_def NewVirtualActorReference_def
        newVirtualActorReference_def exampleRef_def)
  have act: "activeActor (en_activations ?env) (ActorRef ref) ''op'' [] (Return [])"
    using ref(2) by (simp add: ownerProcess_def activeActor_def exampleEnv_def activeObject_def exampleActor_def exampleRef_def refActorID_def)
  have "\<exists>r w'. InvokeActor 0 ''ns'' ''a'' ''m'' ''op'' [] exampleCreate ownerProcess = (r, w')
    \<and> (let (res, A') = absTransact (ar_virtualRef ref) (as_serverID (en_activations ?env)) (as_serverVersion (en_activations ?env)) (Return []) ?A in
       agrees r res \<and> localHolds RBT.lookup (\<lambda>_. True) (pr_state w') A')"
    by (rule InvokeActor_runs_on_owner [OF rbt_contract h, where prog = "Return []" and vs = 10000000 and l = l
        and ra = sampleActor and ss = ?s and e' = 0 and env' = ?env and env = ?env])
      (use l kept ref act exampleEnv_registry in
        \<open>simp_all add: ownerProcess_def exampleProcess_def exampleEnv_def sampleState_def sampleServer_def accepts_def is_i64_def\<close>)
  then show ?thesis by (auto simp: absTransact_def usesStorage_def Let_def)
qed

text \<open>
  With the DNS registry every server accepts every invocation. After a heartbeat an environment with the DNS registry
  accepts the invocations that any other one makes: those under the references of \<open>EnsureActivation\<close> and the
  stamp of \<open>GetVersionStamp\<close>, whichever addresses the two have discovered.
\<close>

lemma dns_environment_accepts:
  assumes "pr_envs w e = Some env" "en_registry env = dnsOps resolver" "\<not> as_locked (en_activations env)" "\<not> en_frozen env"
    and "dnsEnsureActivation ns a mid d = (Ret refs, d')" "dnsGetVersionStamp d' = (Ret vs, d'')"
  shows "\<exists>w' env' ref. heartbeat e w = (Ret (), w') \<and> pr_envs w' e = Some env' \<and> refs = [ref]
    \<and> accepts env' vs (ar_serverID ref) (ar_serverVersion ref)"
proof -
  obtain ref where ref: "refs = [ref]" "ar_serverID ref = DNSServerID" "ar_serverVersion ref = DNSServerVersion"
    using assms(5)
    by (auto simp: dnsEnsureActivation_def Let_def onError_def andThen_def NewActorReference_def
        split: option.splits if_splits outcome.splits)
  moreover have "vs = DNSVersionStamp" using assms(6) by (simp add: dnsGetVersionStamp_def)
  ultimately show ?thesis
    using heartbeat_Ret [OF assms(1,3), of _ "pr_state w"] assms(2,4)
    by (auto simp: dnsOps_def dnsHeartbeat_def setEnv_def accepts_def DNSServerID_def DNSVersionStamp_def is_i64_def)
qed

text \<open>
  \<^bold>\<open>C14\<close> (the cache confuses actors). The key of the activation cache is the namespace followed by the
  actor, without a separator and without the module: while the cache holds the references of one actor,
  an invocation of another actor whose namespace and identifier concatenate to the same text, of
  whatever module, is an invocation of the first one.
\<close>

theorem activation_cache_confusion:
  assumes "pr_envs w e = Some env" "\<not> eo_DisableActivationCache (en_opts env)"
    and "ch_Get (pr_cache w) (cacheKey ns a) (en_activationCache env) = Some refs" "ns' @ a' = ns @ a"
    and "ns \<noteq> []" "ns' \<noteq> []" "a \<noteq> []" "a' \<noteq> []" "mid \<noteq> []" "mid' \<noteq> []" "refs \<noteq> []"
  shows "InvokeActor e ns' a' mid' operation payload create w = InvokeActor e ns a mid operation payload create w"
proof -
  have "cacheKey ns' a' = cacheKey ns a"
    using assms(4) unfolding cacheKey_def go_bytes_append [symmetric] by simp
  then have "cachedReferences e ns' a' mid' (w\<lparr>pr_state := s\<rparr>) = cachedReferences e ns a mid (w\<lparr>pr_state := s\<rparr>)" for s
    using assms(1-3) by (simp add: cachedReferences_def onEnv_def)
  moreover have "cachedReferences e ns a mid (w\<lparr>pr_state := s\<rparr>) = (Ret refs, w\<lparr>pr_state := s\<rparr>)" for s
    using assms(1-3) by (simp add: cachedReferences_def onEnv_def)
  ultimately have "InvokeActorStream e ns' a' mid' operation payload create w = InvokeActorStream e ns a mid operation payload create w"
    using assms(1,5-11)
    by (simp add: InvokeActorStream_def onEnv_def andThen_def onError_def onRegistry_def split: prod.splits outcome.splits)
  then show ?thesis by (simp add: InvokeActor_def readAll_def andThen_def onError_def)
qed

theorem activation_cache_confusion_witness:
  "InvokeActor 0 ''n'' ''sa'' ''other'' ''op'' [] exampleCreate exampleProcess = InvokeActor 0 ''ns'' ''a'' ''m'' ''op'' [] exampleCreate exampleProcess"
  by (rule activation_cache_confusion [where env = exampleEnv and refs = "[dnsRef ''127.0.0.1'' ''ns'' ''m'' ''a'']"])
    (simp_all add: exampleProcess_def exampleEnv_def)

lemma heartbeatLoop_closed:
  assumes "pr_envs w e = Some env" "en_closedCh env"
  shows "\<exists>w' env'. heartbeatLoop e evs w = (Ret (), w') \<and> pr_state w' = pr_state w \<and> pr_envs w' e = Some env'
    \<and> en_closedCh env' \<and> en_HeartbeatResult env' = en_HeartbeatResult env"
  using assms
proof (induction evs arbitrary: w env)
  case (Cons ev evs)
  then show ?case
    using Cons.IH [of "setEnv e (env\<lparr>en_paused := True\<rparr>) w" "env\<lparr>en_paused := True\<rparr>"]
      Cons.IH [of "setEnv e (env\<lparr>en_paused := False\<rparr>) w" "env\<lparr>en_paused := False\<rparr>"] Cons.IH [of w env]
    by (cases ev) (auto simp: onEnv_def Let_def andThen_def pauseHeartbeat_def resumeHeartbeat_def updateEnv_def setEnv_def)
qed simp

text \<open>
  \<^bold>\<open>C31\<close> (a paused environment never resumes). The background goroutine returns when a tick finds the heartbeats
  paused: whatever happens after that tick, \<open>resumeHeartbeat\<close> and further ticks included, no heartbeat
  reaches the registry and the result of the last one stays, so that the environment refuses every invocation that is later than it
  allows.
\<close>

theorem paused_heartbeat_never_resumes:
  assumes "pr_envs w e = Some env" "en_paused env"
  shows "\<exists>w' env'. heartbeatLoop e (HeartbeatTick # evs) w = (Ret (), w') \<and> pr_state w' = pr_state w \<and> pr_envs w' e = Some env'
    \<and> en_HeartbeatResult env' = en_HeartbeatResult env
    \<and> (\<forall>v > i64 (hr_VersionStamp (en_HeartbeatResult env) + hr_HeartbeatTTL (en_HeartbeatResult env)). \<forall>sid ver. \<not> accepts env' v sid ver)"
proof (cases "en_closedCh env")
  case True
  from heartbeatLoop_closed [OF assms(1) this, of "HeartbeatTick # evs"] show ?thesis by (auto simp: accepts_def)
next
  case False
  have "pr_envs (setEnv e (env\<lparr>en_closedCh := True\<rparr>) w) e = Some (env\<lparr>en_closedCh := True\<rparr>)" by (simp add: setEnv_def)
  from heartbeatLoop_closed [OF this, of evs] False assms show ?thesis
    by (auto simp: onEnv_def setEnv_def accepts_def)
qed

theorem paused_heartbeat_never_resumes_witness:
  "\<exists>w' env'. heartbeatLoop 0 [HeartbeatPause, HeartbeatTick, HeartbeatResume, HeartbeatTick] exampleProcess = (Ret (), w')
     \<and> pr_state w' = pr_state exampleProcess \<and> pr_envs w' 0 = Some env' \<and> (\<forall>v > 5000007. \<not> accepts env' v ''s1'' 1)"
proof -
  let ?w = "setEnv 0 (exampleEnv\<lparr>en_paused := True\<rparr>) exampleProcess"
  have "heartbeatLoop 0 [HeartbeatPause, HeartbeatTick, HeartbeatResume, HeartbeatTick] exampleProcess =
      heartbeatLoop 0 [HeartbeatTick, HeartbeatResume, HeartbeatTick] ?w"
    unfolding heartbeatLoop.simps(2) [of 0 HeartbeatPause]
    by (simp add: onEnv_def andThen_def pauseHeartbeat_def updateEnv_def setEnv_def exampleProcess_def del: heartbeatLoop.simps)
  then show ?thesis
    using paused_heartbeat_never_resumes [of ?w 0 "exampleEnv\<lparr>en_paused := True\<rparr>" "[HeartbeatResume, HeartbeatTick]"]
    by (auto simp: setEnv_def exampleEnv_def is_i64_def)
qed

text \<open>A reference to the local machine that no environment of the process has registered is a call on the nil interface.\<close>

lemma localhost_reference_panics:
  assumes "pr_envs w e = Some env" "\<not> eo_ForceRemoteProcedureCalls (en_opts env)"
    and "ar_address ref = Localhost \<or> ar_address ref = dnsLocalhost" "pr_localEnvironmentsRouter w (ar_address ref) = None"
  shows "invokeReferences e vs (ref # refs) operation payload create w = (Panic ''nil pointer dereference'', w)"
  using assms by (auto simp: invokeReferences_def onEnv_def)

end
