(* ===== verification/HTTP_Transport.thy ===== *)
theory HTTP_Transport
  imports Environment
begin

section \<open>Invocations over HTTP: \<open>virtual/server.go\<close> and \<open>virtual/http_client.go\<close>\<close>

text \<open>
  The handlers of a server, as functions of the request and of what the connection does to the response, and
  the client that an environment reaches other machines with. The network is a parameter of the client.
  How an error prints is the parameter \<open>errText\<close>. A nil byte slice is the empty one: nothing on
  this path distinguishes them.
\<close>

subsection \<open>Requests and responses\<close>

record httpRequest =
  hq_Header :: "string \<Rightarrow> string"
  hq_Body :: bytes
  hq_bodyErr :: "goerr option"  \<comment> \<open>what ends the body instead of \<open>io.EOF\<close>\<close>

record ResponseWriter =
  rw_hijacker :: bool
  rw_hijackErr :: "goerr option"
  rw_failAfter :: "nat option"  \<comment> \<open>the bytes of the body after which writing fails\<close>
  rw_flushed :: nat  \<comment> \<open>how many of the bytes written are sent before the connection is hijacked\<close>

record httpResponse =
  hp_StatusCode :: int
  hp_Body :: bytes
  hp_terminated :: bool  \<comment> \<open>the connection was closed before the end of the body\<close>

text \<open>\<open>ioutil.ReadAll(io.LimitReader(r.Body, 1<<24))\<close>.\<close>

definition readLimited :: "httpRequest \<Rightarrow> bytes outcome" where
  "readLimited r =
     (if 2 ^ 24 \<le> length (hq_Body r) then Ret (take (2 ^ 24) (hq_Body r))
      else case hq_bodyErr r of Some e \<Rightarrow> Fail e | None \<Rightarrow> Ret (hq_Body r))"

definition errorResponse :: "bytes \<Rightarrow> httpResponse" where
  "errorResponse msg = \<lparr>hp_StatusCode = 500, hp_Body = msg, hp_terminated = False\<rparr>"

text \<open>Each failing step of a handler answers with status 500 and the text of the error.\<close>

definition orError :: "(goerr \<Rightarrow> bytes) \<Rightarrow> ('s, 'a) call \<Rightarrow> ('a \<Rightarrow> ('s, httpResponse) call) \<Rightarrow> ('s, httpResponse) call" where
  "orError errText f k s =
     (case f s of
        (Ret x, s') \<Rightarrow> k x s'
      | (Fail e, s') \<Rightarrow> (Ret (errorResponse (errText e)), s')
      | (Panic p, s') \<Rightarrow> (Panic p, s')
      | (Blocked, s') \<Rightarrow> (Blocked, s'))"

definition ensureHijackable :: "ResponseWriter \<Rightarrow> httpResponse option" where
  "ensureHijackable w =
     (if rw_hijacker w then None
      else Some (errorResponse (go_bytes (''webserver doesn'' @ [CHR 39] @ ''t support hijacking'' @ [CHR 10]))))"

definition terminateConnection :: "ResponseWriter \<Rightarrow> httpResponse \<Rightarrow> httpResponse outcome" where
  "terminateConnection w resp =
     (case rw_hijackErr w of
        Some e \<Rightarrow> Panic ''[invariant violated] Hijack() returned error: %v''
      | None \<Rightarrow> Ret (resp\<lparr>hp_Body := take (rw_flushed w) (hp_Body resp), hp_terminated := True\<rparr>))"

text \<open>Closing (deferred, on a nil stream a panic) and copying the stream: the copy fails if writing does or if the stream breaks off.\<close>

definition copyResult :: "ResponseWriter \<Rightarrow> ReadCloser option \<Rightarrow> ('s, httpResponse) call" where
  "copyResult w result =
     (case result of
        None \<Rightarrow> panic ''nil pointer dereference''
      | Some (Stream b err) \<Rightarrow>
          (let written = (case rw_failAfter w of None \<Rightarrow> b | Some n \<Rightarrow> take n b);
               resp = \<lparr>hp_StatusCode = 200, hp_Body = written, hp_terminated = False\<rparr> in
           if length written < length b \<or> err \<noteq> None then lift (terminateConnection w resp) else ret resp))"

subsection \<open>The requests as JSON\<close>

definition bytesOf :: "bytes option \<Rightarrow> bytes" where
  "bytesOf b = (case b of None \<Rightarrow> [] | Some bs \<Rightarrow> bs)"

definition intoSlice :: "json \<Rightarrow> bytes \<Rightarrow> bytes option" where
  "intoSlice j old = map_option bytesOf (intoBytes j (Some old))"

definition intoCreateIfNotExist :: "json \<Rightarrow> CreateIfNotExist \<Rightarrow> CreateIfNotExist option" where
  "intoCreateIfNotExist =
     intoStruct [(''actor_options'', field intoActorOptions cine_Options (\<lambda>x. cine_Options_update (\<lambda>_. x))),
                 (''InstantiatePayload'', field intoSlice cine_InstantiatePayload (\<lambda>x. cine_InstantiatePayload_update (\<lambda>_. x)))]"

definition zeroCreate :: CreateIfNotExist where
  "zeroCreate = \<lparr>cine_Options = ActorOptions, cine_InstantiatePayload = []\<rparr>"

record invokeActorRequest =
  ir_ServerID :: string
  ir_Namespace :: string
  ir_InvokeActorRequest :: InvokeActorRequest
  ir_PayloadJSON :: json  \<comment> \<open>\<open>JNull\<close> is the nil interface\<close>

definition zeroInvokeActorRequest :: invokeActorRequest where
  "zeroInvokeActorRequest =
     \<lparr>ir_ServerID = [], ir_Namespace = [],
      ir_InvokeActorRequest = \<lparr>iar_ActorID = [], iar_ModuleID = [], iar_Operation = [], iar_Payload = [], iar_CreateIfNotExist = zeroCreate\<rparr>,
      ir_PayloadJSON = JNull\<rparr>"

text \<open>The fields of \<open>types.InvokeActorRequest\<close>, in this struct and in the one that embeds it.\<close>

definition intoActorFields ::
  "('r \<Rightarrow> InvokeActorRequest) \<Rightarrow> (InvokeActorRequest \<Rightarrow> 'r \<Rightarrow> 'r) \<Rightarrow> (string \<times> (json \<Rightarrow> 'r \<Rightarrow> 'r option)) list" where
  "intoActorFields sel upd =
     [(''actor_id'', field intoString (\<lambda>r. iar_ActorID (sel r)) (\<lambda>x r. upd ((sel r)\<lparr>iar_ActorID := x\<rparr>) r)),
      (''module_id'', field intoString (\<lambda>r. iar_ModuleID (sel r)) (\<lambda>x r. upd ((sel r)\<lparr>iar_ModuleID := x\<rparr>) r)),
      (''operation'', field intoString (\<lambda>r. iar_Operation (sel r)) (\<lambda>x r. upd ((sel r)\<lparr>iar_Operation := x\<rparr>) r)),
      (''payload'', field intoSlice (\<lambda>r. iar_Payload (sel r)) (\<lambda>x r. upd ((sel r)\<lparr>iar_Payload := x\<rparr>) r)),
      (''create_if_not_exist'', field intoCreateIfNotExist (\<lambda>r. iar_CreateIfNotExist (sel r))
         (\<lambda>x r. upd ((sel r)\<lparr>iar_CreateIfNotExist := x\<rparr>) r))]"

text \<open>
  A value of type \<open>interface{}\<close>: numbers become \<open>float64\<close>, by the parameter \<open>float\<close> from the literal to the one that is
  printed again, and objects become maps, which keep the last value of a key and are printed by key.
\<close>

fun anyValue :: "(string \<Rightarrow> string option) \<Rightarrow> json \<Rightarrow> json option"
  and anyElems :: "(string \<Rightarrow> string option) \<Rightarrow> json list \<Rightarrow> json list option"
  and anyMembers :: "(string \<Rightarrow> string option) \<Rightarrow> (string \<times> json) list \<Rightarrow> (string \<times> json) list option"
where
  "anyValue float (JNum s) = map_option JNum (float s)"
| "anyValue float (JArr js) = map_option JArr (anyElems float js)"
| "anyValue float (JObj kvs) = map_option (\<lambda>ms. JObj (sort_key (\<lambda>kv. go_bytes (fst kv)) ms)) (anyMembers float kvs)"
| "anyValue float j = Some j"
| "anyElems float [] = Some []"
| "anyElems float (j # js) = Option.bind (anyValue float j) (\<lambda>j'. map_option (\<lambda>js'. j' # js') (anyElems float js))"
| "anyMembers float [] = Some []"
| "anyMembers float ((k, j) # kvs) =
     Option.bind (anyValue float j) (\<lambda>j'. map_option
       (\<lambda>ms. if k \<in> fst ` set ms then ms else (k, j') # ms) (anyMembers float kvs))"

definition intoAny :: "(string \<Rightarrow> string option) \<Rightarrow> json \<Rightarrow> json \<Rightarrow> json option" where
  "intoAny float j old = anyValue float j"

definition intoInvokeActorRequest :: "(string \<Rightarrow> string option) \<Rightarrow> json \<Rightarrow> invokeActorRequest \<Rightarrow> invokeActorRequest option" where
  "intoInvokeActorRequest float =
     intoStruct ([(''server_id'', field intoString ir_ServerID (\<lambda>x. ir_ServerID_update (\<lambda>_. x))),
                  (''namespace'', field intoString ir_Namespace (\<lambda>x. ir_Namespace_update (\<lambda>_. x)))]
       @ intoActorFields ir_InvokeActorRequest (\<lambda>x. ir_InvokeActorRequest_update (\<lambda>_. x))
       @ [(''payload_json'', field (intoAny float) ir_PayloadJSON (\<lambda>x. ir_PayloadJSON_update (\<lambda>_. x)))])"

record invokeActorDirectRequest =
  dr_VersionStamp :: int
  dr_ServerID :: string
  dr_ServerVersion :: int
  dr_Namespace :: string
  dr_ModuleID :: string
  dr_ActorID :: string
  dr_Generation :: "64 word"
  dr_Operation :: string
  dr_Payload :: bytes
  dr_CreateIfNotExist :: CreateIfNotExist

definition zeroDirectRequest :: invokeActorDirectRequest where
  "zeroDirectRequest =
     \<lparr>dr_VersionStamp = 0, dr_ServerID = [], dr_ServerVersion = 0, dr_Namespace = [], dr_ModuleID = [], dr_ActorID = [],
      dr_Generation = 0, dr_Operation = [], dr_Payload = [], dr_CreateIfNotExist = zeroCreate\<rparr>"

definition createJSON :: "CreateIfNotExist \<Rightarrow> json" where
  "createJSON c = JObj [(''actor_options'', JObj []), (''InstantiatePayload'', bytesJSON (Some (cine_InstantiatePayload c)))]"

definition directRequestJSON :: "invokeActorDirectRequest \<Rightarrow> json" where
  "directRequestJSON r =
     JObj [(''version_stamp'', JNum (decInt (dr_VersionStamp r))),
           (''server_id'', JStr (dr_ServerID r)),
           (''server_version'', JNum (decInt (dr_ServerVersion r))),
           (''namespace'', JStr (dr_Namespace r)),
           (''module_id'', JStr (dr_ModuleID r)),
           (''actor_id'', JStr (dr_ActorID r)),
           (''generation'', JNum (decInt (uint (dr_Generation r)))),
           (''operation'', JStr (dr_Operation r)),
           (''payload'', bytesJSON (Some (dr_Payload r))),
           (''create_if_not_exist'', createJSON (dr_CreateIfNotExist r))]"

definition intoDirectRequest :: "json \<Rightarrow> invokeActorDirectRequest \<Rightarrow> invokeActorDirectRequest option" where
  "intoDirectRequest =
     intoStruct [(''version_stamp'', field intoInt64 dr_VersionStamp (\<lambda>x. dr_VersionStamp_update (\<lambda>_. x))),
                 (''server_id'', field intoString dr_ServerID (\<lambda>x. dr_ServerID_update (\<lambda>_. x))),
                 (''server_version'', field intoInt64 dr_ServerVersion (\<lambda>x. dr_ServerVersion_update (\<lambda>_. x))),
                 (''namespace'', field intoString dr_Namespace (\<lambda>x. dr_Namespace_update (\<lambda>_. x))),
                 (''module_id'', field intoString dr_ModuleID (\<lambda>x. dr_ModuleID_update (\<lambda>_. x))),
                 (''actor_id'', field intoString dr_ActorID (\<lambda>x. dr_ActorID_update (\<lambda>_. x))),
                 (''generation'', field intoUint64 dr_Generation (\<lambda>x. dr_Generation_update (\<lambda>_. x))),
                 (''operation'', field intoString dr_Operation (\<lambda>x. dr_Operation_update (\<lambda>_. x))),
                 (''payload'', field intoSlice dr_Payload (\<lambda>x. dr_Payload_update (\<lambda>_. x))),
                 (''create_if_not_exist'', field intoCreateIfNotExist dr_CreateIfNotExist (\<lambda>x. dr_CreateIfNotExist_update (\<lambda>_. x)))]"

record invokeWorkerRequest =
  wr_Namespace :: string
  wr_ModuleID :: string
  wr_Operation :: string
  wr_Payload :: bytes
  wr_CreateIfNotExist :: CreateIfNotExist

definition zeroWorkerRequest :: invokeWorkerRequest where
  "zeroWorkerRequest = \<lparr>wr_Namespace = [], wr_ModuleID = [], wr_Operation = [], wr_Payload = [], wr_CreateIfNotExist = zeroCreate\<rparr>"

definition intoWorkerRequest :: "json \<Rightarrow> invokeWorkerRequest \<Rightarrow> invokeWorkerRequest option" where
  "intoWorkerRequest =
     intoStruct [(''namespace'', field intoString wr_Namespace (\<lambda>x. wr_Namespace_update (\<lambda>_. x))),
                 (''module_id'', field intoString wr_ModuleID (\<lambda>x. wr_ModuleID_update (\<lambda>_. x))),
                 (''operation'', field intoString wr_Operation (\<lambda>x. wr_Operation_update (\<lambda>_. x))),
                 (''payload'', field intoSlice wr_Payload (\<lambda>x. wr_Payload_update (\<lambda>_. x))),
                 (''create_if_not_exist'', field intoCreateIfNotExist wr_CreateIfNotExist (\<lambda>x. wr_CreateIfNotExist_update (\<lambda>_. x)))]"

subsection \<open>The handlers\<close>

record 's httpServer =
  sv_registry :: "'s registry"
  sv_environment :: nat

definition NewServer :: "'s registry \<Rightarrow> nat \<Rightarrow> 's httpServer" where
  "NewServer reg e = \<lparr>sv_registry = reg, sv_environment = e\<rparr>"

definition serverRegisterModule ::
  "(goerr \<Rightarrow> bytes) \<Rightarrow> 's httpServer \<Rightarrow> ResponseWriter \<Rightarrow> httpRequest \<Rightarrow> (('s, 'c) process, httpResponse) call" where
  "serverRegisterModule errText s w r =
     orError errText (lift (readLimited r)) (\<lambda>moduleBytes.
     orError errText (onRegistry (rRegisterModule (sv_registry s) (hq_Header r ''namespace'') (hq_Header r ''module_id'')
                        (Some moduleBytes) \<lparr>AllowEmptyModuleBytes = False\<rparr>)) (\<lambda>_.
       ret \<lparr>hp_StatusCode = 200, hp_Body = marshal (JObj []), hp_terminated = False\<rparr>))"

definition serverInvoke ::
  "(string \<Rightarrow> string option) \<Rightarrow> (goerr \<Rightarrow> bytes) \<Rightarrow> 's httpServer \<Rightarrow> ResponseWriter \<Rightarrow> httpRequest \<Rightarrow> (('s, 'c) process, httpResponse) call" where
  "serverInvoke float errText s w r =
     (case ensureHijackable w of
        Some resp \<Rightarrow> ret resp
      | None \<Rightarrow>
          orError errText (lift (readLimited r)) (\<lambda>jsonBytes.
          orError errText (lift (unmarshal (intoInvokeActorRequest float) zeroInvokeActorRequest jsonBytes)) (\<lambda>req.
            let a = ir_InvokeActorRequest req;
                payload = (if iar_Payload a = [] \<and> ir_PayloadJSON req \<noteq> JNull then marshal (ir_PayloadJSON req) else iar_Payload a) in
            orError errText (InvokeActorStream (sv_environment s) (ir_Namespace req) (iar_ActorID a) (iar_ModuleID a)
                               (iar_Operation a) payload (iar_CreateIfNotExist a)) (copyResult w))))"

definition serverInvokeDirect ::
  "(goerr \<Rightarrow> bytes) \<Rightarrow> 's httpServer \<Rightarrow> ResponseWriter \<Rightarrow> httpRequest \<Rightarrow> (('s, 'c) process, httpResponse) call" where
  "serverInvokeDirect errText s w r =
     (case ensureHijackable w of
        Some resp \<Rightarrow> ret resp
      | None \<Rightarrow>
          orError errText (lift (readLimited r)) (\<lambda>jsonBytes.
          orError errText (lift (unmarshal intoDirectRequest zeroDirectRequest jsonBytes)) (\<lambda>req.
          orError errText (lift (NewVirtualActorReference (dr_Namespace req) (dr_ModuleID req) (dr_ActorID req) (dr_Generation req)))
            (\<lambda>ref.
          orError errText (InvokeActorDirectStream (sv_environment s) (dr_VersionStamp req) (dr_ServerID req) (dr_ServerVersion req)
                             (VirtualRef ref) (dr_Operation req) (dr_Payload req) (dr_CreateIfNotExist req)) (copyResult w)))))"

definition serverInvokeWorker ::
  "(goerr \<Rightarrow> bytes) \<Rightarrow> 's httpServer \<Rightarrow> ResponseWriter \<Rightarrow> httpRequest \<Rightarrow> (('s, 'c) process, httpResponse) call" where
  "serverInvokeWorker errText s w r =
     (case ensureHijackable w of
        Some resp \<Rightarrow> ret resp
      | None \<Rightarrow>
          orError errText (lift (readLimited r)) (\<lambda>jsonBytes.
          orError errText (lift (unmarshal intoWorkerRequest zeroWorkerRequest jsonBytes)) (\<lambda>req.
          orError errText (InvokeWorkerStream (sv_environment s) (wr_Namespace req) (wr_ModuleID req) (wr_Operation req)
                             (wr_Payload req) (wr_CreateIfNotExist req)) (copyResult w))))"

text \<open>\<open>Start\<close>: the paths; \<open>net/http\<close> recovers a panic of a handler and closes the connection.\<close>

definition serve ::
  "(string \<Rightarrow> string option) \<Rightarrow> (goerr \<Rightarrow> bytes) \<Rightarrow> 's httpServer \<Rightarrow> string \<Rightarrow> ResponseWriter \<Rightarrow> httpRequest
   \<Rightarrow> (('s, 'c) process, httpResponse) call" where
  "serve float errText s path w r p =
     (let handler = (if path = ''/api/v1/register-module'' then serverRegisterModule errText s w r
                     else if path = ''/api/v1/invoke-actor'' then serverInvoke float errText s w r
                     else if path = ''/api/v1/invoke-actor-direct'' then serverInvokeDirect errText s w r
                     else if path = ''/api/v1/invoke-worker'' then serverInvokeWorker errText s w r
                     else ret \<lparr>hp_StatusCode = 404, hp_Body = go_bytes (''404 page not found'' @ [CHR 10]), hp_terminated = False\<rparr>) in
      case handler p of
        (Panic msg, p') \<Rightarrow> (Fail (Errorf ''EOF'' []), p')
      | res \<Rightarrow> res)"

subsection \<open>The client\<close>

text \<open>
  What the client uses of \<open>net/http\<close>: the check of the URL, and sending the request. Reading the body of a response that was
  terminated ends with \<open>io.ErrUnexpectedEOF\<close>.
\<close>

record 's httpClient =
  cl_NewRequest :: "string \<Rightarrow> goerr option"
  cl_Do :: "string \<Rightarrow> string \<Rightarrow> bytes \<Rightarrow> ('s, httpResponse) call"  \<comment> \<open>address, path and body\<close>

definition directPath :: string where
  "directPath = ''/api/v1/invoke-actor-direct''"

definition directRequest :: "int \<Rightarrow> actorRef \<Rightarrow> string \<Rightarrow> bytes \<Rightarrow> CreateIfNotExist \<Rightarrow> invokeActorDirectRequest" where
  "directRequest versionStamp reference operation payload create =
     \<lparr>dr_VersionStamp = versionStamp, dr_ServerID = ar_serverID reference, dr_ServerVersion = ar_serverVersion reference,
      dr_Namespace = arNamespace reference, dr_ModuleID = nid_ID (arModuleID reference), dr_ActorID = naid_ID (arActorID reference),
      dr_Generation = arGeneration reference, dr_Operation = operation, dr_Payload = payload, dr_CreateIfNotExist = create\<rparr>"

definition InvokeActorRemote :: "'s httpClient \<Rightarrow> 's remoteClient" where
  "InvokeActorRemote c versionStamp reference operation payload create =
     (let marshaled = marshal (directRequestJSON (directRequest versionStamp reference operation payload create)) in
      case cl_NewRequest c (''http://'' @ ar_address reference @ directPath) of
        Some e \<Rightarrow> fail (wrap ''HTTPClient: InvokeDirect: error constructing request: %w'' e)
      | None \<Rightarrow>
          andThen (onError (wrap ''HTTPClient: InvokeDirect: error running request: %w'') (cl_Do c (ar_address reference) directPath marshaled))
            (\<lambda>resp.
              if hp_StatusCode resp \<noteq> 200 then
                fail (Errorf ''HTTPClient: InvokeDirect: error status code: %d, msg: %s''
                        [AInt (hp_StatusCode resp), AStr (if hp_terminated resp then [] else go_string (hp_Body resp))])
              else ret (Some (Stream (hp_Body resp) (if hp_terminated resp then Some (Errorf ''unexpected EOF'' []) else None)))))"


subsection \<open>Lemmas\<close>

definition wfDirectRequest :: "invokeActorDirectRequest \<Rightarrow> bool" where
  "wfDirectRequest r \<longleftrightarrow> is_i64 (dr_VersionStamp r) \<and> is_i64 (dr_ServerVersion r) \<and> validString (dr_ServerID r)
     \<and> validString (dr_Namespace r) \<and> validString (dr_ModuleID r) \<and> validString (dr_ActorID r) \<and> validString (dr_Operation r)"

lemma http_names_valid [simp]:
  "validString ''version_stamp''" "validString ''server_id''" "validString ''server_version''" "validString ''namespace''"
  "validString ''module_id''" "validString ''actor_id''" "validString ''generation''" "validString ''operation''"
  "validString ''payload''" "validString ''create_if_not_exist''" "validString ''actor_options''" "validString ''InstantiatePayload''"
  by (rule validString_ascii, simp)+

lemma direct_request_roundtrip:
  assumes "wfDirectRequest r"
  shows "unmarshal intoDirectRequest zeroDirectRequest (marshal (directRequestJSON r)) = Ret r"
proof (rule unmarshal_marshal)
  show "wfJ (directRequestJSON r)"
    using assms by (simp add: directRequestJSON_def createJSON_def bytesJSON_def wfDirectRequest_def validString_b64 del: wfJ.simps(3))
  show "jdepth (directRequestJSON r) \<le> maxNestingDepth"
    by (simp add: directRequestJSON_def createJSON_def bytesJSON_def maxNestingDepth_def)
  show "intoDirectRequest (directRequestJSON r) zeroDirectRequest = Some r"
    using assms
    by (cases "cine_Options (dr_CreateIfNotExist r)")
      (simp add: directRequestJSON_def createJSON_def bytesJSON_def intoDirectRequest_def intoCreateIfNotExist_def intoActorOptions_def
        intoSlice_def bytesOf_def into_defs zeroDirectRequest_def zeroCreate_def parseInt64_decInt parseUint64_dec b64Decode_encode wfDirectRequest_def)
qed

lemma virtualRef_again:
  assumes "NewActorReference sid ver address ns m a gen = Ret ref"
  shows "NewVirtualActorReference (arNamespace ref) (nid_ID (arModuleID ref)) (naid_ID (arActorID ref)) (arGeneration ref) = Ret (ar_virtualRef ref)"
  using assms
  by (auto simp: NewActorReference_def NewVirtualActorReference_def newVirtualActorReference_def arNamespace_def arModuleID_def
      arActorID_def arGeneration_def vrActorID_def vrModuleID_def NewNamespacedActorID_def NewNamespacedID_def
      split: outcome.splits if_splits)

text \<open>A connection that works and can be taken over.\<close>

definition soundWriter :: "ResponseWriter \<Rightarrow> bool" where
  "soundWriter w \<longleftrightarrow> rw_hijacker w \<and> rw_hijackErr w = None \<and> rw_failAfter w = None"

lemma serveDirect_request:
  assumes "soundWriter w" "wfDirectRequest q" "length (marshal (directRequestJSON q)) \<le> 2 ^ 24"
    and "NewVirtualActorReference (dr_Namespace q) (dr_ModuleID q) (dr_ActorID q) (dr_Generation q) = Ret ref"
  shows "serverInvokeDirect errText s w \<lparr>hq_Header = h, hq_Body = marshal (directRequestJSON q), hq_bodyErr = None\<rparr> p =
    orError errText (InvokeActorDirectStream (sv_environment s) (dr_VersionStamp q) (dr_ServerID q) (dr_ServerVersion q)
      (VirtualRef ref) (dr_Operation q) (dr_Payload q) (dr_CreateIfNotExist q)) (copyResult w) p"
proof -
  have "readLimited \<lparr>hq_Header = h, hq_Body = marshal (directRequestJSON q), hq_bodyErr = None\<rparr> = Ret (marshal (directRequestJSON q))"
    using assms(3) by (simp add: readLimited_def)
  then show ?thesis
    using assms(1,4) direct_request_roundtrip [OF assms(2)]
    by (simp add: serverInvokeDirect_def ensureHijackable_def soundWriter_def orError_def [of _ "lift _"] lift_def)
qed

subsection \<open>Properties\<close>

text \<open>
  \<^bold>\<open>C16\<close> (a remote invocation is a direct invocation). For a request of valid UTF-8 strings and 64-bit numbers whose JSON has at most 16 MiB (the server reads no more), through
  a network that delivers the request to the server of the reference and its response back, over a connection that can be hijacked and that does not fail while the response is written,
  the client returns what \<open>InvokeActorDirectStream\<close> returns on the environment
  of that server for the same stamp, identity, actor, operation and payloads, with the same effects there: a whole stream comes back whole; a stream that breaks off
  comes back as the beginning of it that was sent, which ends with an error and not as if it were complete; an error comes back as the text of the error and a nil stream or a panic as a broken connection.
\<close>

theorem remote_invocation:
  assumes "NewActorReference sid ver address ns m a gen = Ret ref"
    and "wfDirectRequest (directRequest vs ref operation payload create)"
    and "length (marshal (directRequestJSON (directRequest vs ref operation payload create))) \<le> 2 ^ 24"
    and "cl_NewRequest c (''http://'' @ address @ directPath) = None" "soundWriter w"
    and "\<forall>body. cl_Do c address directPath body = serve float errText s directPath w \<lparr>hq_Header = h, hq_Body = body, hq_bodyErr = None\<rparr>"
  shows "InvokeActorRemote c vs ref operation payload create p =
    (case InvokeActorDirectStream (sv_environment s) vs sid ver (VirtualRef (ar_virtualRef ref)) operation payload create p of
       (Ret (Some (Stream b None)), p') \<Rightarrow> (Ret (Some (Stream b None)), p')
     | (Ret (Some (Stream b (Some e))), p') \<Rightarrow> (Ret (Some (Stream (take (rw_flushed w) b) (Some (Errorf ''unexpected EOF'' [])))), p')
     | (Fail e, p') \<Rightarrow> (Fail (Errorf ''HTTPClient: InvokeDirect: error status code: %d, msg: %s'' [AInt 500, AStr (go_string (errText e))]), p')
     | (Blocked, p') \<Rightarrow> (Blocked, p')
     | (_, p') \<Rightarrow> (Fail (wrap ''HTTPClient: InvokeDirect: error running request: %w'' (Errorf ''EOF'' [])), p'))"
proof -
  let ?q = "directRequest vs ref operation payload create"
  have ref: "ar_serverID ref = sid" "ar_serverVersion ref = ver" "ar_address ref = address"
    using assms(1) by (auto simp: NewActorReference_def split: outcome.splits if_splits)
  have "NewVirtualActorReference (dr_Namespace ?q) (dr_ModuleID ?q) (dr_ActorID ?q) (dr_Generation ?q) = Ret (ar_virtualRef ref)"
    using virtualRef_again [OF assms(1)] by (simp add: directRequest_def)
  from serveDirect_request [OF assms(5,2,3) this, of errText s h p]
  have "cl_Do c address directPath (marshal (directRequestJSON ?q)) p =
    (case orError errText (InvokeActorDirectStream (sv_environment s) vs sid ver (VirtualRef (ar_virtualRef ref)) operation payload create)
            (copyResult w) p of (Panic msg, p') \<Rightarrow> (Fail (Errorf ''EOF'' []), p') | res \<Rightarrow> res)"
    using assms(6) ref by (simp add: serve_def directPath_def directRequest_def)
  then show ?thesis
    using assms(4,5) ref
    by (auto simp: InvokeActorRemote_def andThen_def onError_def orError_def copyResult_def errorResponse_def soundWriter_def
        terminateConnection_def lift_def split: ReadCloser.splits prod.splits outcome.splits option.splits)
qed

text \<open>Text without special characters is printed as it is.\<close>

lemma escapeString_safe:
  "list_all (\<lambda>c. htmlSafe c \<and> code c < 128) s \<Longrightarrow> escapeString s = s"
proof (induction s)
  case (Cons c s)
  then show ?case by (subst escapeString.simps) (simp add: escAscii_def)
qed (subst escapeString.simps, simp)

definition exampleNetwork :: "(goerr \<Rightarrow> bytes) \<Rightarrow> (tree localKV, unit) process httpClient" where
  "exampleNetwork errText =
     \<lparr>cl_NewRequest = (\<lambda>url. None),
      cl_Do = (\<lambda>address path body. serve (\<lambda>n. Some n) errText (NewServer (NewLocalRegistry rbtOps) 0) path
        \<lparr>rw_hijacker = True, rw_hijackErr = None, rw_failAfter = None, rw_flushed = 0\<rparr> \<lparr>hq_Header = (\<lambda>_. []), hq_Body = body, hq_bodyErr = None\<rparr>)\<rparr>"

theorem remote_invocation_witness:
  "\<exists>ref p'. NewActorReference ''s1'' 1 ''h:9090'' ''ns'' ''m'' ''a'' 1 = Ret ref
     \<and> InvokeActorRemote (exampleNetwork (\<lambda>e. [])) 8 ref ''op'' [] exampleCreate exampleProcess = (Ret (Some (Stream [] None)), p')"
proof -
  obtain ref where ref: "NewActorReference ''s1'' 1 ''h:9090'' ''ns'' ''m'' ''a'' 1 = Ret ref" "VirtualRef (ar_virtualRef ref) = exampleRef 1"
    by (simp add: NewActorReference_def NewVirtualActorReference_def newVirtualActorReference_def exampleRef_def)
  have q: "directRequest 8 ref ''op'' [] exampleCreate =
      \<lparr>dr_VersionStamp = 8, dr_ServerID = ''s1'', dr_ServerVersion = 1, dr_Namespace = ''ns'', dr_ModuleID = ''m'', dr_ActorID = ''a'',
       dr_Generation = 1, dr_Operation = ''op'', dr_Payload = [], dr_CreateIfNotExist = exampleCreate\<rparr>"
    using ref(1)
    by (auto simp: directRequest_def NewActorReference_def NewVirtualActorReference_def newVirtualActorReference_def arNamespace_def arModuleID_def
        arActorID_def arGeneration_def vrActorID_def vrModuleID_def NewNamespacedActorID_def NewNamespacedID_def)
  have wf: "wfDirectRequest (directRequest 8 ref ''op'' [] exampleCreate)"
    unfolding q by (simp add: wfDirectRequest_def is_i64_def validString_ascii)
  have len: "length (marshal (directRequestJSON (directRequest 8 ref ''op'' [] exampleCreate))) \<le> 2 ^ 24"
    unfolding q
    by (simp add: directRequestJSON_def createJSON_def bytesJSON_def marshal_def go_bytes_def quoteString_def escapeString_safe htmlSafe_def
        decInt_def decNat.simps exampleCreate_def)
  have act: "activeActor (en_activations exampleEnv) (exampleRef 1) ''op'' [] (Return [])"
    by (simp add: activeActor_def exampleEnv_def activeObject_def exampleActor_def exampleRef_def)
  have env: "pr_envs exampleProcess 0 = Some exampleEnv" by (simp add: exampleProcess_def)
  have acc: "accepts exampleEnv 8 ''s1'' 1" by (simp add: accepts_def exampleEnv_def is_i64_def)
  have ns: "okNs (vr_namespace (refVirtual (exampleRef 1)))" by (simp add: exampleRef_def)
  have abs: "absTransact (refVirtual (exampleRef 1)) sid ver (Return []) A = (Some [], A)" for sid ver A
    by (simp add: absTransact_def usesStorage_def Let_def)
  obtain p' where p': "InvokeActorDirectStream 0 8 ''s1'' 1 (exampleRef 1) ''op'' [] exampleCreate exampleProcess = (Ret (Some (Stream [] None)), p')"
    using InvokeActorDirectStream_active [OF rbt_contract exampleProcess_holds env act exampleEnv_registry ns acc abs, of exampleCreate]
    by auto
  have "InvokeActorRemote (exampleNetwork (\<lambda>e. [])) 8 ref ''op'' [] exampleCreate exampleProcess = (Ret (Some (Stream [] None)), p')"
    using remote_invocation [OF ref(1) wf len, of "exampleNetwork (\<lambda>e. [])" "\<lparr>rw_hijacker = True, rw_hijackErr = None, rw_failAfter = None, rw_flushed = 0\<rparr>"
        "\<lambda>n. Some n" "\<lambda>e. []" "NewServer (NewLocalRegistry rbtOps) 0" "\<lambda>_. []" exampleProcess] p' ref(2)
    by (simp add: exampleNetwork_def soundWriter_def NewServer_def)
  with ref(1) show ?thesis by blast
qed

text \<open>
  \<^bold>\<open>C27\<close> (uploads are registered whole or not at all). The handler reads at most 16 MiB of the module, and yet an upload is exactly the registration of its
  whole body: it answers 200 if the registry registers all of it and 500 if the registry would refuse it, because the
  registry refuses what is longer than 4 MiB. Only the text of the error can differ.
\<close>

theorem register_module_upload:
  assumes "sv_registry s = NewLocalRegistry bt" "hq_bodyErr r = None"
  shows "\<exists>e'. serverRegisterModule errText s w r p =
    (case rRegisterModule (NewLocalRegistry bt) (hq_Header r ''namespace'') (hq_Header r ''module_id'') (Some (hq_Body r))
            \<lparr>AllowEmptyModuleBytes = False\<rparr> (pr_state p) of
       (Ret _, l) \<Rightarrow> (Ret \<lparr>hp_StatusCode = 200, hp_Body = go_bytes ''{}'', hp_terminated = False\<rparr>, p\<lparr>pr_state := l\<rparr>)
     | (Fail e, l) \<Rightarrow> (Ret (errorResponse (errText (if length (hq_Body r) \<le> 2 ^ 24 then e else e'))), p\<lparr>pr_state := l\<rparr>)
     | (Panic m, l) \<Rightarrow> (Panic m, p\<lparr>pr_state := l\<rparr>)
     | (Blocked, l) \<Rightarrow> (Blocked, p\<lparr>pr_state := l\<rparr>))"
proof (cases "length (hq_Body r) \<le> 2 ^ 24")
  case True
  then have "readLimited r = Ret (hq_Body r)" using assms(2) by (simp add: readLimited_def)
  then show ?thesis
    using True assms(1)
    by (auto simp: serverRegisterModule_def orError_def lift_def onRegistry_def marshal_def split: prod.splits outcome.splits)
next
  case False
  then have "readLimited r = Ret (take (2 ^ 24) (hq_Body r))" by (simp add: readLimited_def)
  then show ?thesis
    using False assms(1)
    by (auto simp: serverRegisterModule_def orError_def lift_def onRegistry_def NewLocalRegistry_def NewKVRegistry_def newValidatedRegistry_def
        vRegisterModule_def andThen_def split: prod.splits outcome.splits)
qed

theorem register_module_upload_witness:
  "\<exists>e'. serverRegisterModule (\<lambda>e. []) (NewServer (NewLocalRegistry rbtOps) 0)
      \<lparr>rw_hijacker = True, rw_hijackErr = None, rw_failAfter = None, rw_flushed = 0\<rparr>
      \<lparr>hq_Header = (\<lambda>_. ''ns''), hq_Body = [1], hq_bodyErr = None\<rparr> exampleProcess =
    (case rRegisterModule (NewLocalRegistry rbtOps) ''ns'' ''ns'' (Some [1]) \<lparr>AllowEmptyModuleBytes = False\<rparr> (pr_state exampleProcess) of
       (Ret _, l) \<Rightarrow> (Ret \<lparr>hp_StatusCode = 200, hp_Body = go_bytes ''{}'', hp_terminated = False\<rparr>, exampleProcess\<lparr>pr_state := l\<rparr>)
     | (Fail e, l) \<Rightarrow> (Ret (errorResponse []), exampleProcess\<lparr>pr_state := l\<rparr>)
     | (Panic m, l) \<Rightarrow> (Panic m, exampleProcess\<lparr>pr_state := l\<rparr>)
     | (Blocked, l) \<Rightarrow> (Blocked, exampleProcess\<lparr>pr_state := l\<rparr>))"
  using register_module_upload [of "NewServer (NewLocalRegistry rbtOps) 0" rbtOps
      "\<lparr>hq_Header = (\<lambda>_. ''ns''), hq_Body = [1], hq_bodyErr = None\<rparr>" "\<lambda>e. []" "\<lparr>rw_hijacker = True, rw_hijackErr = None, rw_failAfter = None, rw_flushed = 0\<rparr>" exampleProcess]
  by (simp add: NewServer_def)

end
