(* ===== verification/Wapc_KV.thy ===== *)
theory Wapc_KV
  imports Nola_Prelude
begin

section \<open>Put payloads: \<open>wapcutils/kv.go\<close>\<close>

text \<open>
  How a WebAssembly actor sends a key and a value to its host in one byte slice: the length of the
  key as a signed varint of \<open>encoding/binary\<close>, the key, the value.
\<close>

unbundle bit_operations_syntax

subsection \<open>\<open>encoding/binary\<close>\<close>

definition MaxVarintLen64 :: nat where
  "MaxVarintLen64 = 10"

lemma unat_drop7: "unat (drop_bit 7 (x :: 64 word)) = unat x div 128"
  by (simp add: drop_bit_eq_div unat_div)

function putUvarint :: "64 word \<Rightarrow> bytes" where
  "putUvarint x = (if x \<ge> 0x80 then (ucast x OR 0x80) # putUvarint (drop_bit 7 x) else [ucast x])"
  by pat_completeness auto
termination
proof (relation "measure unat")
  fix x :: "64 word"
  assume "0x80 \<le> x"
  then have "0 < unat x" by (simp add: word_le_nat_alt)
  then show "(drop_bit 7 x, x) \<in> measure unat" by (simp only: in_measure unat_drop7 div_less_dividend one_less_numeral_iff semiring_norm)
qed simp

declare putUvarint.simps [simp del]

definition putVarint :: "int \<Rightarrow> bytes" where
  "putVarint x =
     (let ux = push_bit 1 (word_of_int x) in putUvarint (if x < 0 then NOT ux else ux))"

fun uvarintLoop :: "nat \<Rightarrow> 64 word \<Rightarrow> nat \<Rightarrow> bytes \<Rightarrow> 64 word \<times> int" where
  "uvarintLoop i x s [] = (0, 0)"
| "uvarintLoop i x s (b # buf) =
     (if i = MaxVarintLen64 then (0, - (int i + 1))
      else if b < 0x80 then
        (if i = MaxVarintLen64 - 1 \<and> b > 1 then (0, - (int i + 1))
         else (x OR push_bit s (ucast b), int i + 1))
      else uvarintLoop (i + 1) (x OR push_bit s (ucast (b AND 0x7f))) (s + 7) buf)"

definition uvarint :: "bytes \<Rightarrow> 64 word \<times> int" where
  "uvarint buf = uvarintLoop 0 0 0 buf"

definition varint :: "bytes \<Rightarrow> int \<times> int" where
  "varint buf =
     (let (ux, n) = uvarint buf; x = drop_bit 1 ux in
      (sint (if ux AND 1 \<noteq> 0 then NOT x else x), n))"

subsection \<open>The payload\<close>

text \<open>A slice expression \<open>b[i:j]\<close>.\<close>

definition slice :: "bytes \<Rightarrow> int \<Rightarrow> int \<Rightarrow> bytes outcome" where
  "slice b i j =
     (if 0 \<le> i \<and> i \<le> j \<and> j \<le> int (length b) then Ret (take (nat j - nat i) (drop (nat i) b))
      else Panic ''slice bounds out of range'')"

definition ExtractKVFromPutPayload :: "bytes \<Rightarrow> (bytes \<times> bytes) outcome" where
  "ExtractKVFromPutPayload payload =
     (let (keyLen, n) = varint payload in
      if n = 0 then Fail (Errorf ''malformed PUT payload, unable to parse key varint'' [])
      else if keyLen > int (length payload) then
        Fail (Errorf ''keyLen: %d > len(payload): %d'' [AInt keyLen, AInt (int (length payload))])
      else
        (let keyStart = n; keyEnd = i64 (keyStart + keyLen) in
         if keyEnd < keyStart \<or> keyEnd < 0 \<or> keyEnd > int (length payload) then
           Fail (Errorf ''illegal keyEnd: %d, keyStart: %d, payload: %v''
                   [AInt keyEnd, AInt keyStart, AStr (go_string payload)])
         else
           obind (slice payload keyStart keyEnd) (\<lambda>k.
           obind (slice payload keyEnd (int (length payload))) (\<lambda>v. Ret (k, v)))))"

text \<open>
  The first \<open>MaxVarintLen64\<close> bytes of \<open>dst\<close> (or of a new slice, if its capacity is too small) are
  overwritten by the varint and the rest is cut off: the result does not depend on \<open>dst\<close>.
\<close>

definition EncodePutPayload :: "bytes \<Rightarrow> bytes \<Rightarrow> bytes \<Rightarrow> bytes" where
  "EncodePutPayload dst key value = putVarint (int (length key)) @ key @ value"

subsection \<open>Varints round trip\<close>

lemma low_bits: "bit ((ucast (y :: 64 word) OR 0x80 :: byte) AND 0x7f) k \<longleftrightarrow> k < 7 \<and> bit y k"
proof -
  have m: "(0x7f :: byte) = mask 7" by (simp add: mask_eq_exp_minus_1)
  have e: "(0x80 :: byte) = 2 ^ 7" by simp
  show ?thesis unfolding m e bit_and_iff bit_or_iff bit_ucast_iff bit_mask_iff bit_exp_iff by auto
qed

lemma varint_step:
  "x OR push_bit s (ucast ((ucast (y :: 64 word) OR 0x80 :: byte) AND 0x7f)) OR push_bit (s + 7) (drop_bit 7 y)
     = x OR push_bit s (y :: 64 word)"
proof (rule bit_word_eqI)
  fix n assume "n < LENGTH(64)"
  show "bit (x OR push_bit s (ucast ((ucast y OR 0x80 :: byte) AND 0x7f)) OR push_bit (s + 7) (drop_bit 7 y)) n
      = bit (x OR push_bit s y) n"
    by (cases "n < s + 7") (auto simp: bit_or_iff bit_push_bit_iff bit_ucast_iff low_bits bit_drop_bit_eq dest: bit_imp_le_length)
qed

lemma byte_flag: "\<not> (ucast (y :: 64 word) OR 0x80 :: byte) < 0x80"
proof -
  have "(0x80 :: byte) = 0x80 AND (ucast y OR 0x80)" by (rule bit_word_eqI) (auto simp: bit_and_iff bit_or_iff)
  then have "0x80 \<le> (ucast y OR 0x80 :: byte)" by (metis and.commute word_and_le1)
  then show ?thesis by simp
qed

lemma small_byte:
  assumes "(y :: 64 word) < 0x80"
  shows "(ucast y :: byte) < 0x80" "ucast (ucast y :: byte) = y"
proof -
  have y: "unat y < 128" using assms by (simp add: word_less_nat_alt)
  then have "unat (ucast y :: byte) = unat y" by (simp add: unsigned_ucast_eq unsigned_take_bit_eq take_bit_nat_eq_self)
  with y show "(ucast y :: byte) < 0x80" "ucast (ucast y :: byte) = y"
    by (simp_all add: word_less_nat_alt word_unat_eq_iff unsigned_ucast_eq unsigned_take_bit_eq take_bit_nat_eq_self)
qed

lemma uvarintLoop_put:
  "i \<le> 9 \<Longrightarrow> unat y < 2 ^ (64 - 7 * i) \<Longrightarrow>
     uvarintLoop i x (7 * i) (putUvarint y @ rest) = (x OR push_bit (7 * i) y, int (i + length (putUvarint y)))"
proof (induction y arbitrary: i x rule: putUvarint.induct)
  case (1 y)
  show ?case
  proof (cases "y \<ge> 0x80")
    case True
    then have "128 \<le> unat y" by (simp add: word_le_nat_alt)
    with 1(2,3) have i: "i \<le> 8" by (cases "i = 9") auto
    define k where "k = 64 - 7 * (i + 1)"
    have "64 - 7 * i = k + 7" using i by (simp add: k_def)
    with 1(3) have "unat y < 2 ^ k * 128" by (simp add: power_add)
    then have "unat (drop_bit 7 y) < 2 ^ k" by (simp only: unat_drop7 less_mult_imp_div_less)
    then have "unat (drop_bit 7 y) < 2 ^ (64 - 7 * (i + 1))" by (simp only: k_def)
    note IH = 1(1) [OF True _ this, of "x OR push_bit (7 * i) (ucast ((ucast y OR 0x80 :: byte) AND 0x7f))"]
    have put: "putUvarint y = (ucast y OR 0x80) # putUvarint (drop_bit 7 y)" using True by (subst putUvarint.simps) simp
    have "7 * i + 7 = 7 * (i + 1)" by simp
    then have "uvarintLoop i x (7 * i) (putUvarint y @ rest)
        = uvarintLoop (i + 1) (x OR push_bit (7 * i) (ucast ((ucast y OR 0x80 :: byte) AND 0x7f))) (7 * (i + 1)) (putUvarint (drop_bit 7 y) @ rest)"
      using byte_flag [of y] i by (simp only: put append_Cons uvarintLoop.simps if_False) (simp add: MaxVarintLen64_def)
    also have "\<dots> = (x OR push_bit (7 * i) y, int (i + 1 + length (putUvarint (drop_bit 7 y))))"
      using IH i varint_step [of x "7 * i" y] by (simp add: or.assoc algebra_simps)
    finally show ?thesis by (simp only: put) simp
  next
    case False
    then have y: "(ucast y :: byte) < 0x80" "ucast (ucast y :: byte) = y" using small_byte by simp_all
    have "\<not> 1 < (ucast y :: byte)" if "i = 9"
    proof -
      have "unat y < 2" using 1(3) that by simp
      then show ?thesis by (simp add: word_less_nat_alt unsigned_ucast_eq unsigned_take_bit_eq take_bit_nat_eq_self)
    qed
    with False y 1(2) show ?thesis by (auto simp: MaxVarintLen64_def putUvarint.simps [of y])
  qed
qed

lemma varint_put:
  assumes "0 \<le> x" "x < 2 ^ 63"
  shows "varint (putVarint x @ rest) = (x, int (length (putVarint x)))"
proof -
  let ?w = "word_of_int x :: 64 word"
  have w: "uint ?w = x" using assms by (simp add: uint_word_of_int_eq take_bit_int_eq_self)
  have "push_bit 1 ?w = 2 * ?w" by (simp add: push_bit_eq_mult)
  have "uvarint (putUvarint (push_bit 1 ?w) @ rest) = (push_bit 1 ?w, int (length (putUvarint (push_bit 1 ?w))))"
    unfolding uvarint_def using uvarintLoop_put [of 0 "push_bit 1 ?w" 0 rest] unsigned_less [of "push_bit 1 ?w", where 'a = nat] by simp
  moreover have "push_bit 1 ?w AND 1 = 0"
    by (rule bit_word_eqI) (simp only: bit_and_iff bit_push_bit_iff bit_1_iff, auto)
  moreover have "drop_bit 1 (push_bit 1 ?w) = ?w"
  proof (rule bit_word_eqI)
    fix n assume n: "n < LENGTH(64)"
    have "\<not> bit x 63" using assms by (simp add: bit_iff_odd)
    then show "bit (drop_bit 1 (push_bit 1 ?w)) n = bit ?w n"
      using n unfolding bit_drop_bit_eq bit_push_bit_iff o_def bit_word_of_int_iff by (cases "n = 63") auto
  qed
  moreover have "sint ?w = x" using assms by (simp add: signed_of_int signed_take_bit_int_eq_self)
  ultimately show ?thesis using assms(1) by (simp add: varint_def putVarint_def Let_def)
qed

lemma uvarintLoop_len: "snd (uvarintLoop i x s buf) \<le> int (i + length buf)"
  by (induction i x s buf rule: uvarintLoop.induct) (auto simp: Let_def)

lemma uvarintLoop_neg:
  "i \<le> 10 \<Longrightarrow> snd (uvarintLoop i x s buf) < 0 \<Longrightarrow> fst (uvarintLoop i x s buf) = 0 \<and> - 11 \<le> snd (uvarintLoop i x s buf)"
  by (induction i x s buf rule: uvarintLoop.induct) (auto simp: MaxVarintLen64_def split: if_splits)

lemma putUvarint_ne: "putUvarint x \<noteq> []"
  by (subst putUvarint.simps) simp

lemma varint_bounds: "is_i64 (fst (varint buf))" "snd (varint buf) \<le> int (length buf)"
proof -
  have "is_i64 (sint (w :: 64 word))" for w using sint_greater_eq [of w] sint_less [of w] by (simp add: is_i64_def)
  then show "is_i64 (fst (varint buf))" by (cases "uvarint buf") (simp add: varint_def Let_def)
  show "snd (varint buf) \<le> int (length buf)"
    using uvarintLoop_len [of 0 0 0 buf] by (cases "uvarintLoop 0 0 0 buf") (simp add: varint_def uvarint_def Let_def)
qed

lemma varint_neg: "snd (varint buf) < 0 \<Longrightarrow> fst (varint buf) = 0 \<and> is_i64 (snd (varint buf))"
  using uvarintLoop_neg [of 0 0 0 buf] by (auto simp: varint_def uvarint_def Let_def is_i64_def split: prod.splits)

lemma ExtractKVFromPutPayload_answered: "answered (ExtractKVFromPutPayload payload)"
  by (cases "varint payload")
    (use varint_neg [of payload] in \<open>auto simp: ExtractKVFromPutPayload_def answered_def Let_def slice_def\<close>)

subsection \<open>Properties\<close>

text \<open>
  Put payloads round trip. Whatever key and value are encoded, and whatever the destination
  buffer holds, the host extracts the same key and value.
\<close>

lemma put_payload_roundtrip:
  assumes "length (EncodePutPayload dst key value) < 2 ^ 63"
  shows "ExtractKVFromPutPayload (EncodePutPayload dst key value) = Ret (key, value)"
proof -
  let ?p = "putVarint (int (length key))" and ?k = "int (length key)"
  have len: "length ?p + length key + length value < 2 ^ 63" using assms by (simp add: EncodePutPayload_def)
  have v: "varint (?p @ key @ value) = (?k, int (length ?p))" using len by (intro varint_put) simp_all
  have "0 < length ?p" using putUvarint_ne by (simp add: putVarint_def Let_def)
  moreover have "is_i64 (int (length ?p) + ?k)" using len by (simp add: is_i64_def)
  ultimately show ?thesis
    by (simp add: ExtractKVFromPutPayload_def EncodePutPayload_def v slice_def nat_add_distrib)
qed

text \<open>
  Put payloads from the guest are safe. On every payload, however malformed, the host returns
  an error or a key and a value that are adjacent parts of the payload; no slice expression is out
  of range, also not for a varint that overflows or a negative key length.
\<close>

lemma put_payload_total:
  "case ExtractKVFromPutPayload payload of
     Ret (k, v) \<Rightarrow> \<exists>p. payload = p @ k @ v
   | Fail _ \<Rightarrow> True
   | _ \<Rightarrow> False"
proof -
  obtain keyLen n where v: "varint payload = (keyLen, n)" by force
  have n: "n \<le> int (length payload)" using varint_bounds(2) [of payload] v by simp
  have neg: "keyLen = 0 \<and> is_i64 n" if "n < 0" using varint_neg [of payload] that v by simp
  let ?e = "i64 (n + keyLen)"
  show ?thesis
  proof (cases "n = 0 \<or> keyLen > int (length payload) \<or> ?e < n \<or> ?e < 0 \<or> ?e > int (length payload)")
    case True
    then show ?thesis by (auto simp: ExtractKVFromPutPayload_def v Let_def)
  next
    case False
    then have "0 \<le> n" using neg by fastforce
    with False obtain i j where ij: "n = int i" "?e = int j" "i \<le> j" "j \<le> length payload"
      by (metis linorder_not_less nat_int_comparison(2) nat_0_le of_nat_le_iff)
    have "payload = take i payload @ take (j - i) (drop i payload) @ drop j payload"
      using ij(3) by (metis append_take_drop_id drop_drop le_add_diff_inverse2)
    with False ij show ?thesis
      by (auto simp: ExtractKVFromPutPayload_def v Let_def slice_def)
  qed
qed

end
