(* ===== verification/Wasm_Host.thy ===== *)
theory Wasm_Host
  imports HTTP_Transport Wapc_KV
begin

section \<open>WebAssembly actors: \<open>virtual/wazero.go\<close>\<close>

text \<open>
  How the code of a WebAssembly module reaches its host. A module has one router for all of its
  actors, so that the actor and its transaction travel in the \<open>context.Context\<close> of the invocation. The state \<open>'w\<close> is that of an
  invocation: the world and the lazy transaction. The environment, the timers and the WebAssembly engine are
  parameters; a guest is any program of host calls.
\<close>

subsection \<open>Operations of the host\<close>

definition KVPutOperationName :: string where "KVPutOperationName = ''KV-PUT''"
definition KVGetOperationName :: string where "KVGetOperationName = ''KV-GET''"
definition InvokeActorOperationName :: string where "InvokeActorOperationName = ''INVOKE-ACTOR''"
definition ScheduleSelfTimerOperationName :: string where "ScheduleSelfTimerOperationName = ''SCHEDULE-SELF-TIMER''"
definition CreateActorOperationName :: string where "CreateActorOperationName = ''CREATE-ACTOR''"

lemmas operation_names = KVPutOperationName_def KVGetOperationName_def InvokeActorOperationName_def
  ScheduleSelfTimerOperationName_def CreateActorOperationName_def

record ScheduleSelfTimer =
  st_Operation :: string
  st_Payload :: bytes
  st_AfterMillis :: int

definition intoScheduleSelfTimer :: "json \<Rightarrow> ScheduleSelfTimer \<Rightarrow> ScheduleSelfTimer option" where
  "intoScheduleSelfTimer =
     intoStruct [(''operation'', field intoString st_Operation (\<lambda>x. st_Operation_update (\<lambda>_. x))),
                 (''payload'', field intoSlice st_Payload (\<lambda>x. st_Payload_update (\<lambda>_. x))),
                 (''after_millis'', field intoInt64 st_AfterMillis (\<lambda>x. st_AfterMillis_update (\<lambda>_. x)))]"

definition zeroScheduleSelfTimer :: ScheduleSelfTimer where
  "zeroScheduleSelfTimer = \<lparr>st_Operation = [], st_Payload = [], st_AfterMillis = 0\<rparr>"

definition intoInvokeRequest :: "json \<Rightarrow> InvokeActorRequest \<Rightarrow> InvokeActorRequest option" where
  "intoInvokeRequest = intoStruct (intoActorFields id (\<lambda>x _. x))"

definition zeroInvokeRequest :: InvokeActorRequest where
  "zeroInvokeRequest = \<lparr>iar_ActorID = [], iar_ModuleID = [], iar_Operation = [], iar_Payload = [], iar_CreateIfNotExist = zeroCreate\<rparr>"

subsection \<open>The context\<close>

text \<open>
  What the two keys of this file hold in a context. A nil interface that is stored under a key reads like a key that is not there,
  and values of other types are not stored under these keys.
\<close>

record 'w hostCtx =
  cx_actorReference :: "actorReferenceVirtual option"
  cx_txn :: "'w actorKVTransaction option"

definition extractActorRef :: "'w hostCtx \<Rightarrow> actorReferenceVirtual outcome" where
  "extractActorRef ctx =
     (case cx_actorReference ctx of
        None \<Rightarrow> Fail (Errorf ''wazeroHostFnRouter: could not find non-empty actor reference in context'' [])
      | Some r \<Rightarrow> Ret r)"

definition extractTransaction :: "'w hostCtx \<Rightarrow> 'w actorKVTransaction outcome" where
  "extractTransaction ctx =
     (case cx_txn ctx of
        None \<Rightarrow> Fail (Errorf ''wazeroHostFnRouter: could not find non-empty transaction in context'' [])
      | Some tr \<Rightarrow> Ret tr)"

subsection \<open>The router\<close>

text \<open>
  What the router calls of the environment and of \<open>time\<close>: \<open>rd_AfterFunc\<close> starts a timer of so many nanoseconds that will invoke the
  operation on the actor (\<open>timerFired\<close> of the activations).
\<close>

record 'w routerDeps =
  rd_InvokeActor :: "string \<Rightarrow> string \<Rightarrow> string \<Rightarrow> string \<Rightarrow> bytes \<Rightarrow> CreateIfNotExist \<Rightarrow> ('w, bytes) call"
  rd_AfterFunc :: "int \<Rightarrow> actorReferenceVirtual \<Rightarrow> string \<Rightarrow> bytes \<Rightarrow> 'w \<Rightarrow> 'w"
  rd_customHostFns :: "string \<rightharpoonup> (bytes \<Rightarrow> bytes outcome)"
  rd_actorNamespace :: string

definition routePut :: "'w hostCtx \<Rightarrow> bytes \<Rightarrow> ('w, bytes) call" where
  "routePut ctx wapcPayload =
     andThen (onError (wrap ''error extracting KV from PUT payload: %w'') (lift (ExtractKVFromPutPayload wapcPayload))) (\<lambda>(k, v).
     andThen (onError (wrap ''error extracting transaction from context: %w'') (lift (extractTransaction ctx))) (\<lambda>tr.
     andThen (onError (wrap ''error performing PUT against registry: %w'') (aPut tr k v)) (\<lambda>_. ret [])))"

definition getResponse :: "bytes option \<Rightarrow> bytes" where
  "getResponse v = (case v of None \<Rightarrow> [0] | Some b \<Rightarrow> 1 # b)"

definition routeGet :: "'w hostCtx \<Rightarrow> bytes \<Rightarrow> ('w, bytes) call" where
  "routeGet ctx wapcPayload =
     andThen (onError (wrap ''error extracting transaction from context: %w'') (lift (extractTransaction ctx))) (\<lambda>tr.
     andThen (onError (wrap ''error performing GET against registry: %w'') (aGet tr wapcPayload)) (\<lambda>v. ret (getResponse v)))"

definition routeInvoke :: "'w routerDeps \<Rightarrow> bytes \<Rightarrow> ('w, bytes) call" where
  "routeInvoke d wapcPayload =
     andThen (onError (wrap ''error unmarshaling InvokeActorRequest: %w'') (lift (unmarshal intoInvokeRequest zeroInvokeRequest wapcPayload)))
       (\<lambda>req. rd_InvokeActor d (rd_actorNamespace d) (iar_ActorID req) (iar_ModuleID req) (iar_Operation req) (iar_Payload req)
                (iar_CreateIfNotExist req))"

definition timerRequest :: "bytes \<Rightarrow> ScheduleSelfTimer outcome" where
  "timerRequest wapcPayload =
     (case unmarshal intoScheduleSelfTimer zeroScheduleSelfTimer wapcPayload of
        Ret req \<Rightarrow>
          if st_Operation req = [] then Fail (Errorf ''cant schedule self timer with empty operation name'' [])
          else if st_AfterMillis req \<le> 0 then Fail (Errorf ''cant schedule self timer with AfterMillis <= 0'' [])
          else Ret req
      | Fail e \<Rightarrow> Fail (Wrapf ''error unmarshaling ScheduleSelfTimer: %w, payload: %s'' [AStr (go_string wapcPayload)] e)
      | r \<Rightarrow> r)"

definition routeTimer :: "'w routerDeps \<Rightarrow> actorReferenceVirtual \<Rightarrow> bytes \<Rightarrow> ('w, bytes) call" where
  "routeTimer d actorRef wapcPayload =
     andThen (lift (timerRequest wapcPayload)) (\<lambda>req w.
       (Ret [], rd_AfterFunc d (i64 (st_AfterMillis req * 10 ^ 6)) actorRef (st_Operation req) (st_Payload req) w))"

definition routeCustom :: "'w routerDeps \<Rightarrow> string \<Rightarrow> string \<Rightarrow> string \<Rightarrow> bytes \<Rightarrow> bytes outcome" where
  "routeCustom d wapcBinding wapcNamespace wapcOperation wapcPayload =
     (case rd_customHostFns d wapcOperation of
        Some customFn \<Rightarrow>
          (case customFn wapcPayload of
             Fail e \<Rightarrow> Fail (Wrapf ''error running custom host function: %s, err: %w'' [AStr wapcOperation] e)
           | r \<Rightarrow> r)
      | None \<Rightarrow> Fail (Errorf ''unknown host function: %s::%s::%s::%s''
                       [AStr wapcBinding, AStr wapcNamespace, AStr wapcOperation, AStr (go_string wapcPayload)]))"

type_synonym 'w hostFn = "'w hostCtx \<Rightarrow> string \<Rightarrow> string \<Rightarrow> string \<Rightarrow> bytes \<Rightarrow> ('w, bytes) call"

definition newHostFnRouter :: "'w routerDeps \<Rightarrow> 'w hostFn" where
  "newHostFnRouter d ctx wapcBinding wapcNamespace wapcOperation wapcPayload =
     andThen (onError (wrap ''error extracting actor reference from context: %w'') (lift (extractActorRef ctx))) (\<lambda>actorRef.
       if wapcOperation = KVPutOperationName then routePut ctx wapcPayload
       else if wapcOperation = KVGetOperationName then routeGet ctx wapcPayload
       else if wapcOperation = InvokeActorOperationName then routeInvoke d wapcPayload
       else if wapcOperation = ScheduleSelfTimerOperationName then routeTimer d actorRef wapcPayload
       else lift (routeCustom d wapcBinding wapcNamespace wapcOperation wapcPayload))"

subsection \<open>Modules and actors\<close>

text \<open>The interfaces of \<open>durable/durable.go\<close>, as far as the host uses them.\<close>

record 's durableObject =
  ob_Invoke :: "('s \<times> 's lazyState) hostCtx \<Rightarrow> string \<Rightarrow> bytes option \<Rightarrow> ('s \<times> 's lazyState, bytes) call"
  ob_Close :: "('s, unit) call"

record 's durableModule =
  du_Instantiate :: "string \<Rightarrow> ('s, 's durableObject) call"
  du_Close :: "('s, unit) call"

definition wazeroActor :: "'s durableObject \<Rightarrow> actorReferenceVirtual \<Rightarrow> 's Actor" where
  "wazeroActor obj reference =
     \<lparr>ac_InvokeStream = None,
      ac_Invoke = Some (\<lambda>operation payload transaction.
        ob_Invoke obj \<lparr>cx_actorReference = Some reference, cx_txn = transaction\<rparr> operation payload),
      ac_Close = ob_Close obj\<rparr>"

definition wazeroModule :: "'s durableModule \<Rightarrow> 's Module" where
  "wazeroModule m =
     \<lparr>mo_Instantiate = (\<lambda>reference instantiatePayload host.
        andThen (du_Instantiate m (naid_ID (refActorID reference))) (\<lambda>obj. ret (wazeroActor obj reference)))\<rparr>"

subsection \<open>Guests\<close>

text \<open>
  What the code of a module can do during an invocation: calls of the host, with a binding, a namespace, an operation and a
  payload, after which it goes on with the answer (it sees that a call has failed, not why), until it returns
  bytes or an error. A trap of the engine is an error too.
\<close>

datatype guestProg =
    GReturn bytes
  | GRaise goerr
  | HostCall string string string bytes "bytes option \<Rightarrow> guestProg"

primrec runGuest :: "guestProg \<Rightarrow> (string \<Rightarrow> string \<Rightarrow> string \<Rightarrow> bytes \<Rightarrow> ('w, bytes) call) \<Rightarrow> ('w, bytes) call" where
  "runGuest (GReturn b) = (\<lambda>host. ret b)"
| "runGuest (GRaise e) = (\<lambda>host. fail e)"
| "runGuest (HostCall binding namespace operation payload c) = (\<lambda>host w.
     case host binding namespace operation payload w of
       (Ret b, w') \<Rightarrow> runGuest (c (Some b)) host w'
     | (Fail _, w') \<Rightarrow> runGuest (c None) host w'
     | (Panic p, w') \<Rightarrow> (Panic p, w')
     | (Blocked, w') \<Rightarrow> (Blocked, w'))"

text \<open>Guests that do not invoke other actors.\<close>

primrec plainGuest :: "guestProg \<Rightarrow> bool" where
  "plainGuest (GReturn b) = True"
| "plainGuest (GRaise e) = True"
| "plainGuest (HostCall binding namespace operation payload c) =
     (operation \<noteq> InvokeActorOperationName \<and> (\<forall>r. plainGuest (c r)))"

definition answer :: "'a outcome \<Rightarrow> 'a option" where
  "answer r = (case r of Ret x \<Rightarrow> Some x | _ \<Rightarrow> None)"

definition customAnswer :: "(string \<rightharpoonup> (bytes \<Rightarrow> bytes outcome)) \<Rightarrow> string \<Rightarrow> bytes \<Rightarrow> bytes option" where
  "customAnswer fns operation payload = Option.bind (fns operation) (\<lambda>f. answer (f payload))"

text \<open>
  The meaning of a guest as an actor program: its host calls are puts and gets of the storage of the actor, and everything else is the
  answer of a function of the host.
\<close>

primrec guestMeaning :: "(string \<rightharpoonup> (bytes \<Rightarrow> bytes outcome)) \<Rightarrow> guestProg \<Rightarrow> bytes actorProg" where
  "guestMeaning fns (GReturn b) = Return b"
| "guestMeaning fns (GRaise e) = Raise e"
| "guestMeaning fns (HostCall binding namespace operation payload c) =
     (if operation = KVPutOperationName then
        (case answer (ExtractKVFromPutPayload payload) of
           Some kv \<Rightarrow> PutThen (fst kv) (snd kv) (\<lambda>ok. guestMeaning fns (c (if ok then Some [] else None)))
         | None \<Rightarrow> guestMeaning fns (c None))
      else if operation = KVGetOperationName then
        GetThen payload (\<lambda>r. guestMeaning fns (c (map_option (\<lambda>v. case v of None \<Rightarrow> [0] | Some b \<Rightarrow> 1 # b) r)))
      else if operation = ScheduleSelfTimerOperationName then
        guestMeaning fns (c (map_option (\<lambda>_. []) (answer (timerRequest payload))))
      else guestMeaning fns (c (customAnswer fns operation payload)))"

lemma timerRequest_answered: "answered (timerRequest payload)"
  by (auto simp: timerRequest_def answered_def unmarshal_def split: outcome.splits option.splits)

locale quiet_router =
  fixes d :: "'w routerDeps"
  assumes timers_outside: "rd_AfterFunc d after reference operation payload w = w"
    and custom_answers: "rd_customHostFns d operation = Some f \<Longrightarrow> answered (f payload)"
begin

text \<open>Each host call, with the transaction of the invocation in the context.\<close>

lemma route_call:
  assumes "operation \<noteq> InvokeActorOperationName"
  shows "newHostFnRouter d \<lparr>cx_actorReference = Some reference, cx_txn = Some tr\<rparr> binding namespace operation payload =
    (if operation = KVPutOperationName then routePut \<lparr>cx_actorReference = Some reference, cx_txn = Some tr\<rparr> payload
     else if operation = KVGetOperationName then routeGet \<lparr>cx_actorReference = Some reference, cx_txn = Some tr\<rparr> payload
     else if operation = ScheduleSelfTimerOperationName then routeTimer d reference payload
     else lift (routeCustom d binding namespace operation payload))"
  using assms by (simp add: newHostFnRouter_def extractActorRef_def andThen_def onError_def lift_def fun_eq_iff)

lemma runGuest_meaning:
  "plainGuest g \<Longrightarrow> runGuest g (newHostFnRouter d \<lparr>cx_actorReference = Some reference, cx_txn = Some tr\<rparr>) w
     = runProg (guestMeaning (rd_customHostFns d) g) tr w"
proof (induction g arbitrary: w)
  case (HostCall binding namespace operation payload c)
  let ?ctx = "\<lparr>cx_actorReference = Some reference, cx_txn = Some tr\<rparr>"
  from HostCall.prems have op: "operation \<noteq> InvokeActorOperationName" and IH: "runGuest (c r) (newHostFnRouter d ?ctx) w
     = runProg (guestMeaning (rd_customHostFns d) (c r)) tr w" for r w using HostCall.IH [of "c r"] by auto
  note call = route_call [OF op, of reference tr binding namespace payload]
  consider "operation = KVPutOperationName" | "operation = KVGetOperationName" | "operation = ScheduleSelfTimerOperationName"
    | "operation \<notin> {KVPutOperationName, KVGetOperationName, ScheduleSelfTimerOperationName}" by blast
  then show ?case
  proof cases
    case 1
    then have "newHostFnRouter d ?ctx binding namespace KVPutOperationName payload = routePut ?ctx payload" using call by simp
    then show ?thesis
      using answered_cases [OF ExtractKVFromPutPayload_answered [of payload]] unfolding 1
      by (auto simp: IH routePut_def extractTransaction_def andThen_def onError_def lift_def answer_def split: outcome.splits prod.splits)
  next
    case 2
    then have "newHostFnRouter d ?ctx binding namespace KVGetOperationName payload = routeGet ?ctx payload"
      using call by (simp add: operation_names)
    then show ?thesis unfolding 2
      by (auto simp: IH routeGet_def getResponse_def extractTransaction_def andThen_def onError_def lift_def operation_names split: outcome.splits prod.splits)
  next
    case 3
    then have "newHostFnRouter d ?ctx binding namespace ScheduleSelfTimerOperationName payload = routeTimer d reference payload"
      using call by (simp add: operation_names)
    then show ?thesis
      using answered_cases [OF timerRequest_answered [of payload]] unfolding 3
      by (auto simp: IH routeTimer_def andThen_def lift_def answer_def timers_outside operation_names)
  next
    case 4
    have "answered (f payload)" if "rd_customHostFns d operation = Some f" for f using custom_answers [OF that] .
    with 4 show ?thesis
      by (auto simp: call IH lift_def routeCustom_def customAnswer_def answer_def answered_def split: option.splits outcome.splits)
  qed
qed simp_all

end

context quiet_router
begin

text \<open>Workers have no transaction: their guests cannot touch any storage.\<close>

lemma no_txn_put: "\<exists>r. routePut \<lparr>cx_actorReference = Some reference, cx_txn = None\<rparr> payload w = (r, w) \<and> answered r"
  using answered_cases [OF ExtractKVFromPutPayload_answered [of payload]]
  by (auto simp: routePut_def extractTransaction_def andThen_def onError_def lift_def split: prod.splits)

lemma no_txn_get: "\<exists>r. routeGet \<lparr>cx_actorReference = Some reference, cx_txn = None\<rparr> payload w = (r, w) \<and> answered r"
  by (simp add: routeGet_def extractTransaction_def andThen_def onError_def lift_def)

lemma timer_call: "\<exists>r. routeTimer d reference payload w = (r, w) \<and> answered r"
  using answered_cases [OF timerRequest_answered [of payload]]
  by (auto simp: routeTimer_def andThen_def lift_def timers_outside)

lemma custom_call: "\<exists>r. lift (routeCustom d binding namespace operation payload) w = (r, w) \<and> answered r"
proof (cases "rd_customHostFns d operation")
  case (Some f)
  then show ?thesis using answered_cases [OF custom_answers [OF Some, of payload]] by (auto simp: routeCustom_def lift_def)
qed (simp add: routeCustom_def lift_def)

lemma worker_guest:
  "plainGuest g \<Longrightarrow> \<exists>r. runGuest g (newHostFnRouter d \<lparr>cx_actorReference = Some reference, cx_txn = None\<rparr>) w = (r, w) \<and> answered r"
proof (induction g arbitrary: w)
  case (HostCall binding namespace operation payload c)
  let ?ctx = "\<lparr>cx_actorReference = Some reference, cx_txn = None\<rparr>"
  from HostCall.prems have op: "operation \<noteq> InvokeActorOperationName" and plain: "plainGuest (c r)" for r by auto
  have "\<exists>r. newHostFnRouter d ?ctx binding namespace operation payload w = (r, w) \<and> answered r"
    using op no_txn_put [of reference payload w] no_txn_get [of reference payload w] timer_call [of reference payload w]
      custom_call [of binding namespace operation payload w]
    by (simp add: newHostFnRouter_def extractActorRef_def andThen_def onError_def lift_def)
  then obtain r where r: "newHostFnRouter d ?ctx binding namespace operation payload w = (r, w)" "answered r" by blast
  then show ?case using HostCall.IH [OF _ plain] answered_cases [OF r(2)] by auto
qed simp_all

end

text \<open>
  The router of a module: what \<open>ensureModule\<close> gives to \<open>newHostFnRouter\<close>. A timer that is started is kept by the Go runtime, outside of the state
  that an invocation works on; what it does when it fires is an event of its own (\<open>timerFired\<close>).
\<close>

definition moduleRouter ::
  "(string \<Rightarrow> string \<Rightarrow> string \<Rightarrow> string \<Rightarrow> bytes \<Rightarrow> CreateIfNotExist \<Rightarrow> ('w, bytes) call) \<Rightarrow> (string \<rightharpoonup> (bytes \<Rightarrow> bytes outcome)) \<Rightarrow> NamespacedID
   \<Rightarrow> 'w routerDeps" where
  "moduleRouter invokeActor customHostFns moduleID =
     \<lparr>rd_InvokeActor = invokeActor, rd_AfterFunc = (\<lambda>after reference operation payload w. w), rd_customHostFns = customHostFns,
      rd_actorNamespace = nid_Namespace moduleID\<rparr>"

interpretation plain_router: quiet_router "moduleRouter invokeActor Map.empty moduleID" for invokeActor moduleID
  by unfold_locales (simp_all add: moduleRouter_def)

lemma moduleRouter_quiet:
  assumes "\<And>operation f payload. customHostFns operation = Some f \<Longrightarrow> answered (f payload)"
  shows "quiet_router (moduleRouter invokeActor customHostFns moduleID)"
  by unfold_locales (use assms in \<open>simp_all add: moduleRouter_def\<close>)

subsection \<open>Invocations of guests\<close>

text \<open>An object whose instance runs the program \<open>guest\<close>, and an actor of such an object that is activated, open and idle.\<close>

definition guestObject :: "('s \<times> 's lazyState) routerDeps \<Rightarrow> (string \<Rightarrow> bytes \<Rightarrow> guestProg) \<Rightarrow> 's durableObject" where
  "guestObject d guest =
     \<lparr>ob_Invoke = (\<lambda>ctx operation payload. runGuest (guest operation (bytesOf payload)) (newHostFnRouter d ctx)), ob_Close = ret ()\<rparr>"

definition activeGuest :: "'s activations \<Rightarrow> actorReferenceVirtual \<Rightarrow> ('s \<times> 's lazyState) routerDeps \<Rightarrow> (string \<Rightarrow> bytes \<Rightarrow> guestProg) \<Rightarrow> bool" where
  "activeGuest a reference d guest \<longleftrightarrow> \<not> as_locked a \<and>
     (\<exists>fut f x obj. as_actors a (refActorID reference) = Some fut \<and> as_futures a fut = Some f \<and> futureWait f = Ret (Some x)
        \<and> as_objects a x = Some obj \<and> \<not> aa_closed obj \<and> \<not> aa_locked obj
        \<and> refVirtual (aa_reference obj) = refVirtual reference \<and> vr_idType (refVirtual reference) = IDTypeActor
        \<and> aa_a obj = wazeroActor (guestObject d guest) (aa_reference obj))"

lemma activeGuest_activeActor:
  assumes "quiet_router d" "activeGuest a reference d guest" "plainGuest (guest operation payload)"
  shows "activeActor a reference operation payload (guestMeaning (rd_customHostFns d) (guest operation payload))"
proof -
  have "ob_Invoke (guestObject d guest) \<lparr>cx_actorReference = Some r, cx_txn = Some tr\<rparr> operation (Some payload)
      = runProg (guestMeaning (rd_customHostFns d) (guest operation payload)) tr" for r tr
    using quiet_router.runGuest_meaning [OF assms(1,3)] by (auto simp: guestObject_def bytesOf_def fun_eq_iff)
  then show ?thesis using assms(2) unfolding activeGuest_def activeActor_def by (fastforce simp: wazeroActor_def)
qed

text \<open>One accepted invocation, given what the guest means as a transaction.\<close>

lemma wasm_direct:
  assumes "btree_contract bt m tinv" "localHolds m tinv (pr_state w) A" "pr_envs w e = Some env"
    and "activeGuest (en_activations env) reference (moduleRouter invokeActor fns moduleID) guest" "plainGuest (guest operation payload)"
    and "\<And>operation f payload. fns operation = Some f \<Longrightarrow> answered (f payload)"
    and "as_registry (en_activations env) = NewLocalRegistry bt" "okNs (vr_namespace (refVirtual reference))" "accepts env vs sid ver"
    and "absTransact (refVirtual reference) (as_serverID (en_activations env)) (as_serverVersion (en_activations env))
           (guestMeaning fns (guest operation payload)) A = (res, A')"
  shows "\<exists>r w'. InvokeActorDirect e vs sid ver reference operation payload create w = (r, w') \<and> agrees r res \<and> localHolds m tinv (pr_state w') A'"
proof -
  have fns: "rd_customHostFns (moduleRouter invokeActor fns moduleID) = fns" by (simp add: moduleRouter_def)
  have "quiet_router (moduleRouter invokeActor fns moduleID)" by (rule moduleRouter_quiet) (rule assms(6))
  note active = activeGuest_activeActor [where operation = operation and payload = payload, OF this assms(4,5), unfolded fns]
  from InvokeActorDirectStream_active [OF assms(1-3) active assms(7-10), of create]
  show ?thesis unfolding InvokeActorDirect_def by (auto dest!: readAll_agrees [where msg = "''error invoking actor: %w''" and readMsg = "''error reading actor response from stream: %w''"])
qed

text \<open>
  \<^bold>\<open>C17\<close> (a WebAssembly invocation is a transaction). A direct invocation that passes the guards of the environment, of a WebAssembly actor
  that is activated, open and idle, with a guest program that makes any host calls but \<open>INVOKE-ACTOR\<close>,
  is one transaction of the registry: the \<open>KV-PUT\<close> and \<open>KV-GET\<close> calls of the guest
  read and write the storage of this actor, under the identity of the last heartbeat, and become visible together if the guest returns
  and not at all if it fails. The custom host functions answer; the timers that the guest starts fire later, outside of the invocation.
\<close>

theorem wasm_invocation:
  assumes "btree_contract bt m tinv" "localHolds m tinv (pr_state w) A" "pr_envs w e = Some env"
    and "activeGuest (en_activations env) reference (moduleRouter invokeActor fns moduleID) guest" "plainGuest (guest operation payload)"
    and "\<And>operation f payload. fns operation = Some f \<Longrightarrow> answered (f payload)"
    and "as_registry (en_activations env) = NewLocalRegistry bt" "okNs (vr_namespace (refVirtual reference))" "accepts env vs sid ver"
    and "absTransact (refVirtual reference) (as_serverID (en_activations env)) (as_serverVersion (en_activations env))
           (guestMeaning fns (guest operation payload)) A = (res, A')"
  shows "\<exists>r w'. InvokeActorDirect e vs sid ver reference operation payload create w = (r, w') \<and> agrees r res \<and> localHolds m tinv (pr_state w') A'"
  using assms by (rule wasm_direct)

text \<open>A guest that stores a value under the key of its payload and reads it back.\<close>

definition exampleGuest :: "string \<Rightarrow> bytes \<Rightarrow> guestProg" where
  "exampleGuest operation payload =
     HostCall ''wapc'' ''nola'' KVPutOperationName (EncodePutPayload [] payload [7]) (\<lambda>_.
       HostCall ''wapc'' ''nola'' KVGetOperationName payload (\<lambda>r. case r of Some b \<Rightarrow> GReturn b | None \<Rightarrow> GRaise (Errorf ''lost'' [])))"

definition exampleRouter :: "('w :: type) routerDeps" where
  "exampleRouter = moduleRouter (\<lambda>namespace a m operation payload create. fail (Errorf ''offline'' [])) Map.empty (NewNamespacedID ''ns'' ''m'' IDTypeActor)"

definition guestEnv :: "(tree localKV, unit) environment" where
  "guestEnv = exampleEnv\<lparr>en_activations :=
     (activated (exampleRef 1) (wazeroActor (guestObject exampleRouter exampleGuest) (exampleRef 1)) (exampleServer (NewLocalRegistry rbtOps)))
       \<lparr>as_serverID := ''s1'', as_serverVersion := 1\<rparr>\<rparr>"

lemma exampleGuest_plain: "plainGuest (exampleGuest operation payload)"
  by (auto simp: exampleGuest_def operation_names split: option.split)

lemma guestEnv_simps:
  "as_registry (en_activations guestEnv) = NewLocalRegistry rbtOps" "accepts guestEnv 8 ''s1'' 1"
  "as_serverID (en_activations guestEnv) = ''s1''" "as_serverVersion (en_activations guestEnv) = 1"
  "activeGuest (en_activations guestEnv) (exampleRef 1) exampleRouter exampleGuest"
  by (simp_all add: guestEnv_def accepts_def exampleEnv_def is_i64_def activeGuest_def exampleServer_def newObject_def exampleRef_def futureWait_def
      activated_def settled_def setObject_def installFuture_def futureSettle_def futureNew_def Let_def)

lemma exampleGuest_meaning:
  "absTransact (refVirtual (exampleRef 1)) ''s1'' 1 (guestMeaning Map.empty (exampleGuest operation [1])) (sampleState 1 0 1 0)
     = (Some [1, 7], setStorage ''ns'' ''a'' ''m'' [[1] \<mapsto> [7]] (sampleState 1 0 1 0))"
proof -
  have "ExtractKVFromPutPayload (EncodePutPayload [] [1] [7]) = Ret ([1], [7])"
    by (simp add: ExtractKVFromPutPayload_def EncodePutPayload_def putVarint_def putUvarint.simps varint_def uvarint_def MaxVarintLen64_def slice_def
        is_i64_def Let_def)
  moreover have "storageOf ''ns'' ''a'' ''m'' (sampleState 1 0 1 0) = Map.empty"
    by (simp add: storageOf_def fun_eq_iff sampleState_def emptyRegistry_def)
  ultimately show ?thesis
    by (simp add: absTransact_def exampleGuest_def exampleRef_def answer_def okKey_def operation_names getResponse_def sample_fenced usesStorage_def Let_def)
qed

theorem wasm_invocation_witness:
  "\<exists>w' A'. InvokeActorDirect 0 8 ''s1'' 1 (exampleRef 1) ''put'' [1] exampleCreate (exampleProcess\<lparr>pr_envs := [0 \<mapsto> guestEnv]\<rparr>) = (Ret [1, 7], w')
     \<and> localHolds RBT.lookup (\<lambda>_. True) (pr_state w') A' \<and> storageOf ''ns'' ''a'' ''m'' A' = [[1] \<mapsto> [7]]"
proof -
  let ?w = "exampleProcess\<lparr>pr_envs := [0 \<mapsto> guestEnv]\<rparr>"
  have h: "localHolds RBT.lookup (\<lambda>_. True) (pr_state ?w) (sampleState 1 0 1 0)" using exampleProcess_holds by simp
  have "okNs (vr_namespace (refVirtual (exampleRef 1)))" by (simp add: exampleRef_def)
  moreover have "storageOf ''ns'' ''a'' ''m'' (setStorage ''ns'' ''a'' ''m'' st A) = st" for st A
    by (simp add: storageOf_def setStorage_def fun_eq_iff)
  ultimately show ?thesis
    using wasm_invocation [OF rbt_contract h _ guestEnv_simps(5) [unfolded exampleRouter_def] exampleGuest_plain _ guestEnv_simps(1) _ guestEnv_simps(2),
      of 0 "''put''" "[1]" "Some [1, 7]" _ exampleCreate] exampleGuest_meaning
    by (fastforce simp: guestEnv_simps)
qed

end
