(* ===== verification/Durable_Objects.thy ===== *)
theory Durable_Objects
  imports Wasm_Host
begin

section \<open>Durable modules: \<open>durable/durablewazero\<close>\<close>

text \<open>
  The modules and objects between the host and the WebAssembly engine. The engine (\<open>wapc-go\<close> and \<open>wazero\<close>) is a parameter: instances of
  type \<open>'i\<close> whose code runs on the world \<open>'s\<close>, with their linear memory. The variables of a module (the table of its instances, its
  mutex and the objects it has handed out) live in the world, in a cell with a reader and a writer. A mutex is a flag; waiting for it is \<open>Blocked\<close>.
\<close>

subsection \<open>The engine\<close>

record ('s, 'i) wapcModule =
  wm_Instantiate :: "('s, 'i) call"
  wm_Close :: "('s, unit) call"
  wm_InstanceInvoke :: "'i \<Rightarrow> ('s \<times> 's lazyState) hostCtx \<Rightarrow> string \<Rightarrow> bytes \<Rightarrow> ('s \<times> 's lazyState, bytes) call"
  wm_InstanceClose :: "'i \<Rightarrow> ('s, unit) call"

type_synonym ('s, 'i) wapcEngine = "('s \<times> 's lazyState) hostFn \<Rightarrow> bytes \<Rightarrow> ('s, ('s, 'i) wapcModule) call"

text \<open>The memory of an instance: \<open>lm_Read\<close> is a view, \<open>lm_cap\<close> its capacity as a slice and \<open>lm_Write\<close> a write through it.\<close>

record ('s, 'i) linearMemory =
  lm_Size :: "'i \<Rightarrow> 's \<Rightarrow> nat"
  lm_Read :: "'i \<Rightarrow> nat \<Rightarrow> nat \<Rightarrow> 's \<Rightarrow> bytes option"
  lm_cap :: "'i \<Rightarrow> 's \<Rightarrow> nat"
  lm_Write :: "'i \<Rightarrow> nat \<Rightarrow> bytes \<Rightarrow> 's \<Rightarrow> 's"
  lm_Grow :: "'i \<Rightarrow> nat \<Rightarrow> 's \<Rightarrow> 's"

subsection \<open>The variables of a module\<close>

record 'i object =
  oj_locked :: bool
  oj_instance :: 'i
  oj_id :: string  \<comment> \<open>the variable of the closure \<open>onClose\<close>\<close>

record 'i moduleVars =
  mv_locked :: bool
  mv_instances :: "string \<rightharpoonup> 'i"
  mv_objects :: "nat \<rightharpoonup> 'i object"
  mv_next :: nat

definition newModuleVars :: "'i moduleVars" where
  "newModuleVars = \<lparr>mv_locked = False, mv_instances = Map.empty, mv_objects = Map.empty, mv_next = 0\<rparr>"

record ('s, 'i) cell =
  rd :: "'s \<Rightarrow> 'i moduleVars"
  wr :: "'i moduleVars \<Rightarrow> 's \<Rightarrow> 's"

definition setVars :: "('s, 'i) cell \<Rightarrow> ('i moduleVars \<Rightarrow> 'i moduleVars) \<Rightarrow> 's \<Rightarrow> 's" where
  "setVars c f s = wr c (f (rd c s)) s"

definition pairCell :: "('s, 'i) cell \<Rightarrow> ('s \<times> 'z, 'i) cell" where
  "pairCell c = \<lparr>rd = (\<lambda>sz. rd c (fst sz)), wr = (\<lambda>v sz. (wr c v (fst sz), snd sz))\<rparr>"

subsection \<open>\<open>object.go\<close>\<close>

definition newDurableObject :: "('s, 'i) cell \<Rightarrow> 'i \<Rightarrow> string \<Rightarrow> ('s, nat) call" where
  "newDurableObject c inst i s =
     (let o' = mv_next (rd c s) in
      (Ret o', setVars c (\<lambda>v. v\<lparr>mv_objects := (mv_objects v)(o' \<mapsto> \<lparr>oj_locked = False, oj_instance = inst, oj_id = i\<rparr>), mv_next := Suc o'\<rparr>) s))"

text \<open>\<open>o.Lock(); defer o.Unlock()\<close> around a method.\<close>

definition lockObject :: "bool \<Rightarrow> nat \<Rightarrow> 'i moduleVars \<Rightarrow> 'i moduleVars" where
  "lockObject b x v = v\<lparr>mv_objects := (mv_objects v)(x := map_option (\<lambda>ob. ob\<lparr>oj_locked := b\<rparr>) (mv_objects v x))\<rparr>"

definition withObject :: "('s, 'i) cell \<Rightarrow> nat \<Rightarrow> ('i object \<Rightarrow> ('s, 'a) call) \<Rightarrow> ('s, 'a) call" where
  "withObject c x f s =
     (case mv_objects (rd c s) x of
        None \<Rightarrow> (Panic ''nil pointer dereference'', s)
      | Some ob \<Rightarrow>
          if oj_locked ob then (Blocked, s)
          else (case f ob (setVars c (lockObject True x) s) of
                  (Blocked, s') \<Rightarrow> (Blocked, s')
                | (r, s') \<Rightarrow> (r, setVars c (lockObject False x) s')))"

definition objectInvoke ::
  "('s, 'i) wapcModule \<Rightarrow> ('s, 'i) cell \<Rightarrow> nat \<Rightarrow> ('s \<times> 's lazyState) hostCtx \<Rightarrow> string \<Rightarrow> bytes option \<Rightarrow> ('s \<times> 's lazyState, bytes) call" where
  "objectInvoke m c x ctx operation payload =
     withObject (pairCell c) x (\<lambda>ob. wm_InstanceInvoke m (oj_instance ob) ctx operation (bytesOf payload))"

text \<open>The closure \<open>onClose\<close>.\<close>

definition onClose :: "('s, 'i) cell \<Rightarrow> string \<Rightarrow> ('s, unit) call" where
  "onClose c i s =
     (if mv_locked (rd c s) then (Blocked, s)
      else (Ret (), setVars c (\<lambda>v. v\<lparr>mv_instances := (mv_instances v)(i := None)\<rparr>) s))"

definition objectClose :: "('s, 'i) wapcModule \<Rightarrow> ('s, 'i) cell \<Rightarrow> nat \<Rightarrow> ('s, unit) call" where
  "objectClose m c x = withObject c x (\<lambda>ob. andThen (onClose c (oj_id ob)) (\<lambda>_. wm_InstanceClose m (oj_instance ob)))"

subsection \<open>\<open>module.go\<close>\<close>

definition moduleInstantiate :: "('s, 'i) wapcModule \<Rightarrow> ('s, 'i) cell \<Rightarrow> string \<Rightarrow> ('s, nat) call" where
  "moduleInstantiate m c i s =
     (if mv_locked (rd c s) then (Blocked, s)
      else if mv_instances (rd c s) i \<noteq> None then
        (Fail (Errorf ''instance with ID: %s already exists'' [AStr i]), s)
      else
        (case wm_Instantiate m (setVars c (mv_locked_update (\<lambda>_. True)) s) of
           (Ret inst, s1) \<Rightarrow>
             newDurableObject c inst i (setVars c (\<lambda>v. v\<lparr>mv_instances := (mv_instances v)(i \<mapsto> inst), mv_locked := False\<rparr>) s1)
         | (Fail e, s1) \<Rightarrow>
             (Fail (wrap ''module: error instantiating instance: %w'' e), setVars c (mv_locked_update (\<lambda>_. False)) s1)
         | (Panic p, s1) \<Rightarrow> (Panic p, setVars c (mv_locked_update (\<lambda>_. False)) s1)
         | (Blocked, s1) \<Rightarrow> (Blocked, s1)))"

definition moduleClose :: "('s, 'i) wapcModule \<Rightarrow> ('s, 'i) cell \<Rightarrow> ('s, unit) call" where
  "moduleClose m c s =
     (if mv_locked (rd c s) then (Blocked, s)
      else if mv_instances (rd c s) \<noteq> Map.empty then
        (Fail (Errorf ''module: Close: cannot close with > 0 unclosed instances'' []), s)
      else
        (case wm_Close m (setVars c (mv_locked_update (\<lambda>_. True)) s) of
           (Blocked, s') \<Rightarrow> (Blocked, s')
         | (r, s') \<Rightarrow> (r, setVars c (mv_locked_update (\<lambda>_. False)) s')))"

text \<open>A module as the interface \<open>durable.Module\<close>, and \<open>NewModule\<close>.\<close>

definition durableObjectOf :: "('s, 'i) wapcModule \<Rightarrow> ('s, 'i) cell \<Rightarrow> nat \<Rightarrow> 's durableObject" where
  "durableObjectOf m c x = \<lparr>ob_Invoke = objectInvoke m c x, ob_Close = objectClose m c x\<rparr>"

definition durableModuleOf :: "('s, 'i) wapcModule \<Rightarrow> ('s, 'i) cell \<Rightarrow> 's durableModule" where
  "durableModuleOf m c =
     \<lparr>du_Instantiate = (\<lambda>i. andThen (moduleInstantiate m c i) (\<lambda>x. ret (durableObjectOf m c x))), du_Close = moduleClose m c\<rparr>"

definition NewModule ::
  "('s, 'i) wapcEngine \<Rightarrow> ('s, 'i) cell \<Rightarrow> ('s \<times> 's lazyState) hostFn \<Rightarrow> bytes \<Rightarrow> ('s, 's durableModule) call" where
  "NewModule engine c host guestModuleBytes s =
     (case engine host guestModuleBytes s of
        (Ret m, s') \<Rightarrow> (Ret (durableModuleOf m c), wr c newModuleVars s')
      | (Fail e, s') \<Rightarrow> (Fail (wrap ''error creating new wazero module from engine: %w'' e), s')
      | (Panic p, s') \<Rightarrow> (Panic p, s')
      | (Blocked, s') \<Rightarrow> (Blocked, s'))"

subsection \<open>Snapshots\<close>

text \<open>The writer either takes everything or fails; the snapshot is what it was given.\<close>

definition objectSnapshot :: "('s, 'i) linearMemory \<Rightarrow> ('s, 'i) cell \<Rightarrow> nat \<Rightarrow> goerr option \<Rightarrow> ('s, bytes) call" where
  "objectSnapshot lm c x writeErr =
     withObject c x (\<lambda>ob s.
       case lm_Read lm (oj_instance ob) 0 (lm_Size lm (oj_instance ob) s) s of
         None \<Rightarrow> (Fail (Errorf ''error snapshotting object: memory.Read() return false for range: %d->%d''
                      [AInt 0, AInt (int (lm_Size lm (oj_instance ob) s))]), s)
       | Some b \<Rightarrow>
           (case writeErr of
              Some e \<Rightarrow> (Fail (wrap ''error snapshotting object: write failed with error: %w'' e), s)
            | None \<Rightarrow> (Ret b, s)))"

definition objectSnapshotIncremental :: "bytes \<Rightarrow> ('s, bytes) call" where
  "objectSnapshotIncremental prev = panic ''implemented incorrectly only for benchmarking.''"

definition wasmPageSize :: int where
  "wasmPageSize = 65536"

definition additionalPages :: "int \<Rightarrow> int \<Rightarrow> int" where
  "additionalPages readerSize memSize =
     (let additionalBytesNeeded = readerSize - memSize in
      additionalBytesNeeded div wasmPageSize + (if additionalBytesNeeded mod wasmPageSize > 0 then 1 else 0))"

text \<open>
  A reader: what each call of \<open>Read\<close> has to deliver, of which it delivers as much as fits into the slice it is given, and the error that
  follows (\<open>None\<close> is \<open>io.EOF\<close>). \<open>bufferReadFrom\<close> is \<open>(*bytes.Buffer).ReadFrom\<close> of a reader limited to \<open>n\<close> bytes, for a
  buffer of capacity \<open>cap\<close> that holds \<open>len\<close> bytes: every round first makes room for 512 bytes, which moves the buffer away from the
  memory if there is less, and then reads into the free part. The capacity of the new buffer only decides how the rest is cut into rounds.
\<close>

definition growBuffer :: "nat \<Rightarrow> nat \<Rightarrow> bool \<Rightarrow> nat \<times> bool" where
  "growBuffer cap len attached = (if 512 \<le> cap - len then (cap, attached) else (max (2 * cap) (len + 512), False))"

lemma growBuffer_room: "512 \<le> fst (growBuffer cap len attached) - len"
  by (auto simp: growBuffer_def)

function bufferReadFrom ::
  "(nat \<Rightarrow> bytes \<Rightarrow> 's \<Rightarrow> 's) \<Rightarrow> nat \<Rightarrow> nat \<Rightarrow> bool \<Rightarrow> nat \<Rightarrow> bytes list \<Rightarrow> goerr option \<Rightarrow> 's \<Rightarrow> (nat \<times> goerr option) \<times> 's" where
  "bufferReadFrom write cap len attached n pieces err s =
     (let (cap', attached') = growBuffer cap len attached in
      if n = 0 then ((len, None), s)
      else case pieces of
        [] \<Rightarrow> ((len, err), s)
      | p # ps \<Rightarrow>
          (let k = min (length p) (min (cap' - len) n);
               s' = (if attached' then write len (take k p) s else s) in
           bufferReadFrom write cap' (len + k) attached' (n - k) (if k = length p then ps else drop k p # ps) err s'))"
  by pat_completeness auto
termination
proof (relation "measure (\<lambda>(write, cap, len, attached, n, pieces, err, s). sum_list (map length pieces) + length pieces)", goal_cases)
  case (2 wrt cap len attached n pieces err s g cap' attached' p ps k s')
  have "512 \<le> cap' - len" using growBuffer_room [of cap len attached] 2(1,2) by (metis fst_conv)
  with 2(3,5) show ?case by (auto simp: 2(4))
qed simp

declare bufferReadFrom.simps [simp del]

text \<open>\<open>io.CopyN\<close> into a buffer on the first bytes of a slice.\<close>

definition copyN ::
  "(nat \<Rightarrow> bytes \<Rightarrow> 's \<Rightarrow> 's) \<Rightarrow> nat \<Rightarrow> bytes list \<times> goerr option \<Rightarrow> int \<Rightarrow> 's \<Rightarrow> goerr option \<times> 's" where
  "copyN write cap r n s =
     (case bufferReadFrom write cap 0 True (nat n) (fst r) (snd r) s of
        ((written, err), s') \<Rightarrow>
          (if int written = n then None else if int written < n \<and> err = None then Some (Errorf ''EOF'' []) else err, s'))"

definition objectHydrate ::
  "('s, 'i) linearMemory \<Rightarrow> ('s, 'i) cell \<Rightarrow> nat \<Rightarrow> bytes list \<times> goerr option \<Rightarrow> int \<Rightarrow> ('s, unit) call" where
  "objectHydrate lm c x r readerSize =
     withObject c x (\<lambda>ob s.
       let i = oj_instance ob; memSize = int (lm_Size lm i s);
           s1 = (if readerSize > memSize then lm_Grow lm i (nat (additionalPages readerSize memSize mod 2 ^ 32)) s else s) in
       case lm_Read lm i 0 (lm_Size lm i s1) s1 of
         None \<Rightarrow> (Fail (Errorf ''error hydrating object: memory.Read() return false for range: %d->%d''
                      [AInt 0, AInt (int (lm_Size lm i s1))]), s1)
       | Some memBytes \<Rightarrow>
           (let s2 = lm_Write lm i 0 (replicate (length memBytes) 0) s1 in
            case copyN (lm_Write lm i) (lm_cap lm i s2) r readerSize s2 of
              (Some e, s3) \<Rightarrow> (Fail (wrap ''error hydrating object: error copying bytes from reader to memory: %w'' e), s3)
            | (None, s3) \<Rightarrow> (Ret (), s3)))"

subsection \<open>One instance per identifier\<close>

text \<open>
  The laws that the module relies on: its variables are a cell of the world that the engine does not touch, and the engine answers. The code of an
  instance may use the transaction of the invocation, which does not touch the cell either; code that makes the host instantiate the same
  module again from inside is left out.
\<close>

definition keepsVars :: "('s, 'i) cell \<Rightarrow> ('s \<times> 's lazyState) hostCtx \<Rightarrow> bool" where
  "keepsVars c ctx \<longleftrightarrow> (\<forall>tr w k v. cx_txn ctx = Some tr \<longrightarrow>
     rd c (fst (snd (aPut tr k v w))) = rd c (fst w) \<and> fst (aPut tr k v w) \<noteq> Blocked
     \<and> rd c (fst (snd (aGet tr k w))) = rd c (fst w) \<and> fst (aGet tr k w) \<noteq> Blocked)"

locale durable_engine =
  fixes m :: "('s, 'i) wapcModule" and c :: "('s, 'i) cell"
  assumes rd_wr [simp]: "rd c (wr c v s) = v"
    and instantiate_vars: "wm_Instantiate m s = (r, s') \<Longrightarrow> rd c s' = rd c s \<and> r \<noteq> Blocked"
    and close_vars: "wm_InstanceClose m inst s = (r1, s') \<Longrightarrow> rd c s' = rd c s \<and> r1 \<noteq> Blocked"
    and invoke_vars: "keepsVars c ctx \<Longrightarrow> wm_InstanceInvoke m inst ctx operation payload sz = (r2, sz') \<Longrightarrow> rd c (fst sz') = rd c (fst sz) \<and> r2 \<noteq> Blocked"

text \<open>
  The states of a module in use, with the objects that have been closed. The host closes an object at most once (\<open>closeWithLock\<close> of
  an activated actor).
\<close>

inductive durableReach :: "('s, 'i) wapcModule \<Rightarrow> ('s, 'i) cell \<Rightarrow> 's \<Rightarrow> nat set \<Rightarrow> bool" for m c where
  start: "rd c s = newModuleVars \<Longrightarrow> durableReach m c s {}"
| instantiate: "durableReach m c s D \<Longrightarrow> moduleInstantiate m c i s = (r, s') \<Longrightarrow> durableReach m c s' D"
| invoke: "durableReach m c s D \<Longrightarrow> keepsVars c ctx \<Longrightarrow> objectInvoke m c x ctx operation payload (s, z) = (r, (s', z')) \<Longrightarrow> durableReach m c s' D"
| close: "durableReach m c s D \<Longrightarrow> mv_objects (rd c s) x \<noteq> None \<Longrightarrow> x \<notin> D \<Longrightarrow> objectClose m c x s = (r, s') \<Longrightarrow> durableReach m c s' (insert x D)"
| other: "durableReach m c s D \<Longrightarrow> rd c s' = rd c s \<Longrightarrow> durableReach m c s' D"

definition openObject :: "'i moduleVars \<Rightarrow> nat set \<Rightarrow> nat \<Rightarrow> 'i object \<Rightarrow> bool" where
  "openObject v D x ob \<longleftrightarrow> mv_objects v x = Some ob \<and> x \<notin> D"

definition durableInv :: "'i moduleVars \<Rightarrow> nat set \<Rightarrow> bool" where
  "durableInv v D \<longleftrightarrow> \<not> mv_locked v \<and> (\<forall>x ob. mv_objects v x = Some ob \<longrightarrow> \<not> oj_locked ob \<and> x < mv_next v) \<and> (\<forall>x \<in> D. x < mv_next v)
     \<and> (\<forall>i inst. mv_instances v i = Some inst \<longleftrightarrow> (\<exists>x ob. openObject v D x ob \<and> oj_id ob = i \<and> oj_instance ob = inst))
     \<and> (\<forall>x y ob ob'. openObject v D x ob \<longrightarrow> openObject v D y ob' \<longrightarrow> oj_id ob = oj_id ob' \<longrightarrow> x = y)"

lemma lock_unlock:
  "mv_objects v x = Some ob \<Longrightarrow> \<not> oj_locked ob \<Longrightarrow> lockObject False x (lockObject True x v) = v"
  by (simp add: lockObject_def fun_upd_idem)

lemma lockObject_fields [simp]:
  "mv_locked (lockObject b x v) = mv_locked v" "mv_instances (lockObject b x v) = mv_instances v" "mv_next (lockObject b x v) = mv_next v"
  by (simp_all add: lockObject_def)

text \<open>The table of instances after an object has been added or closed.\<close>

lemma durableInv_add:
  assumes "durableInv v D" "mv_instances v i = None"
  shows "durableInv (v\<lparr>mv_instances := (mv_instances v)(i \<mapsto> inst),
    mv_objects := (mv_objects v)(mv_next v \<mapsto> \<lparr>oj_locked = False, oj_instance = inst, oj_id = i\<rparr>), mv_next := Suc (mv_next v)\<rparr>) D"
    (is "durableInv ?v D")
proof -
  define nob where "nob = \<lparr>oj_locked = False, oj_instance = inst, oj_id = i\<rparr>"
  have nob: "oj_id nob = i" "oj_instance nob = inst" "\<not> oj_locked nob" by (simp_all add: nob_def)
  have open': "openObject ?v D x ob \<longleftrightarrow> openObject v D x ob \<or> x = mv_next v \<and> ob = nob" for x ob
    using assms(1) by (auto simp: durableInv_def openObject_def nob_def)
  have fresh: "\<not> openObject v D x ob" if "oj_id ob = i" for x ob
    using assms that unfolding durableInv_def by (metis option.distinct(1))
  have "mv_instances ?v j = Some k \<longleftrightarrow> (\<exists>x ob. openObject ?v D x ob \<and> oj_id ob = j \<and> oj_instance ob = k)" for j k
  proof -
    have inst: "mv_instances v j = Some k \<longleftrightarrow> (\<exists>x ob. openObject v D x ob \<and> oj_id ob = j \<and> oj_instance ob = k)"
      using assms(1) by (simp add: durableInv_def)
    have "mv_instances ?v = (mv_instances v)(i \<mapsto> inst)" by simp
    then show ?thesis unfolding open' using inst fresh nob by (cases "j = i") auto
  qed
  then show ?thesis
    using assms(1) fresh nob unfolding durableInv_def open' by (auto simp: less_Suc_eq)
qed

lemma durableInv_remove:
  assumes "durableInv v D" "mv_objects v x = Some ob" "x \<notin> D"
  shows "durableInv (v\<lparr>mv_instances := (mv_instances v)(oj_id ob := None)\<rparr>) (insert x D)" (is "durableInv ?v _")
proof -
  have x: "openObject v D x ob" using assms(2,3) by (simp add: openObject_def)
  have open': "openObject ?v (insert x D) y o' \<longleftrightarrow> openObject v D y o' \<and> y \<noteq> x" for y o' by (auto simp: openObject_def)
  have uniq: "y = x" if "openObject v D y o'" "oj_id o' = oj_id ob" for y o' using assms(1) x that by (simp add: durableInv_def)
  have "mv_instances ?v j = Some k \<longleftrightarrow> (\<exists>y o'. openObject ?v (insert x D) y o' \<and> oj_id o' = j \<and> oj_instance o' = k)" for j k
  proof -
    have inst: "mv_instances v j = Some k \<longleftrightarrow> (\<exists>y o'. openObject v D y o' \<and> oj_id o' = j \<and> oj_instance o' = k)"
      using assms(1) by (simp add: durableInv_def)
    have self: "oj_id o' = oj_id ob" if "openObject v D x o'" for o' using that assms(2) by (simp add: openObject_def)
    have "(\<exists>y o'. openObject ?v (insert x D) y o' \<and> oj_id o' = j \<and> oj_instance o' = k)
        \<longleftrightarrow> j \<noteq> oj_id ob \<and> (\<exists>y o'. openObject v D y o' \<and> oj_id o' = j \<and> oj_instance o' = k)"
      unfolding open' using uniq self by blast
    then show ?thesis using inst by (cases "j = oj_id ob") simp_all
  qed
  moreover have "x < mv_next v" using assms(1,2) by (simp add: durableInv_def)
  ultimately show ?thesis using assms(1) unfolding durableInv_def open' by (simp, blast)
qed

context durable_engine
begin

lemma rd_setVars [simp]: "rd c (setVars c f s) = f (rd c s)"
  by (simp add: setVars_def)

lemma instantiate_cases:
  assumes "\<not> mv_locked (rd c s)" "moduleInstantiate m c i s = (r, s')"
  shows "rd c s' = rd c s \<and> \<not> (\<exists>x. r = Ret x)
    \<or> mv_instances (rd c s) i = None \<and> r = Ret (mv_next (rd c s))
      \<and> (\<exists>inst. rd c s' = (rd c s)\<lparr>mv_instances := (mv_instances (rd c s))(i \<mapsto> inst),
            mv_objects := (mv_objects (rd c s))(mv_next (rd c s) \<mapsto> \<lparr>oj_locked = False, oj_instance = inst, oj_id = i\<rparr>),
            mv_next := Suc (mv_next (rd c s))\<rparr>)"
proof (cases "mv_instances (rd c s) i")
  case None
  obtain r0 s1 where run: "wm_Instantiate m (setVars c (mv_locked_update (\<lambda>_. True)) s) = (r0, s1)" by force
  note v = instantiate_vars [OF run]
  show ?thesis
    using assms None v run
    by (cases r0; cases "rd c s") (auto simp: moduleInstantiate_def newDurableObject_def Let_def)
qed (use assms in \<open>auto simp: moduleInstantiate_def\<close>)

lemma invoke_unchanged:
  assumes "mv_objects (rd c s) x = Some ob \<longrightarrow> \<not> oj_locked ob" "keepsVars c ctx" "objectInvoke m c x ctx operation payload (s, z) = (r, (s', z'))"
  shows "rd c s' = rd c s"
proof (cases "mv_objects (rd c s) x")
  case (Some ob')
  obtain r0 s1 z1 where run: "wm_InstanceInvoke m (oj_instance ob') ctx operation (bytesOf payload)
      (setVars (pairCell c) (lockObject True x) (s, z)) = (r0, (s1, z1))" by (metis prod_cases3)
  have "rd c s1 = lockObject True x (rd c s)" "r0 \<noteq> Blocked"
    using invoke_vars [OF assms(2) run] by (simp_all add: setVars_def pairCell_def)
  then show ?thesis
    using assms Some run lock_unlock [of "rd c s" x ob']
    by (cases r0) (auto simp: objectInvoke_def withObject_def pairCell_def setVars_def split: if_splits)
qed (use assms in \<open>simp add: objectInvoke_def withObject_def pairCell_def\<close>)

lemma close_vars_after:
  assumes "\<not> mv_locked (rd c s)" "mv_objects (rd c s) x = Some ob" "\<not> oj_locked ob" "objectClose m c x s = (r, s')"
  shows "rd c s' = (rd c s)\<lparr>mv_instances := (mv_instances (rd c s))(oj_id ob := None)\<rparr>"
proof -
  let ?s1 = "setVars c (\<lambda>v. v\<lparr>mv_instances := (mv_instances v)(oj_id ob := None)\<rparr>) (setVars c (lockObject True x) s)"
  obtain r0 s2 where run: "wm_InstanceClose m (oj_instance ob) ?s1 = (r0, s2)" by force
  have "rd c s2 = (lockObject True x (rd c s))\<lparr>mv_instances := (mv_instances (rd c s))(oj_id ob := None)\<rparr>" "r0 \<noteq> Blocked"
    using close_vars [OF run] by simp_all
  moreover have "lockObject False x ((lockObject True x (rd c s))\<lparr>mv_instances := f\<rparr>) = (rd c s)\<lparr>mv_instances := f\<rparr>" for f
    using assms(2,3) by (cases "rd c s") (simp add: lockObject_def fun_upd_idem)
  ultimately show ?thesis
    using assms run by (cases r0) (auto simp: objectClose_def withObject_def andThen_def onClose_def)
qed

lemma durableInv_reach: "durableReach m c s D \<Longrightarrow> durableInv (rd c s) D"
proof (induction rule: durableReach.induct)
  case (start s)
  then show ?case by (simp add: durableInv_def newModuleVars_def openObject_def)
next
  case (instantiate s D i r s')
  have "\<not> mv_locked (rd c s)" using instantiate.IH by (simp add: durableInv_def)
  from instantiate_cases [OF this instantiate.hyps(2)] show ?case using instantiate.IH durableInv_add by auto
next
  case (invoke s D ctx x operation payload z r s' z')
  then have "rd c s' = rd c s" by (intro invoke_unchanged [OF _ invoke.hyps(2,3)]) (auto simp: durableInv_def)
  with invoke.IH show ?case by simp
next
  case (close s D x r s')
  then obtain ob where ob: "mv_objects (rd c s) x = Some ob" by blast
  have "rd c s' = (rd c s)\<lparr>mv_instances := (mv_instances (rd c s))(oj_id ob := None)\<rparr>"
    by (rule close_vars_after [OF _ ob _ close.hyps(4)]) (use close.IH ob in \<open>auto simp: durableInv_def\<close>)
  with durableInv_remove [OF close.IH ob close.hyps(3)] show ?case by simp
next
  case (other s D s')
  then show ?case by simp
qed

end

text \<open>
  An engine whose instances run a guest on the router of its module; the instances have no memory of their own. The world is anything beside the
  variables of the module.
\<close>

definition guestModule :: "('s \<times> 's lazyState) routerDeps \<Rightarrow> (string \<Rightarrow> bytes \<Rightarrow> guestProg) \<Rightarrow> ('s, unit) wapcModule" where
  "guestModule d guest =
     \<lparr>wm_Instantiate = ret (), wm_Close = ret (),
      wm_InstanceInvoke = (\<lambda>_ ctx operation payload. runGuest (guest operation payload) (newHostFnRouter d ctx)),
      wm_InstanceClose = (\<lambda>_. ret ())\<rparr>"

definition besideCell :: "('r \<times> 'i moduleVars, 'i) cell" where
  "besideCell = \<lparr>rd = snd, wr = (\<lambda>v s. (fst s, v))\<rparr>"

lemma guest_keeps:
  assumes "quiet_router d" "keepsVars c ctx"
  shows "plainGuest g \<Longrightarrow> runGuest g (newHostFnRouter d ctx) w = (r, w') \<Longrightarrow> rd c (fst w') = rd c (fst w) \<and> r \<noteq> Blocked"
proof (induction g arbitrary: w)
  case (HostCall binding namespace operation payload g)
  from HostCall.prems have op: "operation \<noteq> InvokeActorOperationName" and plain: "plainGuest (g a)" for a by auto
  obtain r0 w0 where call: "newHostFnRouter d ctx binding namespace operation payload w = (r0, w0)" by (rule prod.exhaust)
  have "rd c (fst w0) = rd c (fst w) \<and> r0 \<noteq> Blocked"
  proof (cases "cx_actorReference ctx")
    case None
    with call show ?thesis by (auto simp: newHostFnRouter_def extractActorRef_def andThen_def onError_def lift_def)
  next
    case (Some reference)
    note reference = Some
    show ?thesis
    proof (cases "cx_txn ctx")
      case None
      then have ctx: "ctx = \<lparr>cx_actorReference = Some reference, cx_txn = None\<rparr>" using reference by (cases ctx) simp
      with op call quiet_router.no_txn_put [OF assms(1), of reference payload w] quiet_router.no_txn_get [OF assms(1), of reference payload w]
        quiet_router.timer_call [OF assms(1), of reference payload w] quiet_router.custom_call [OF assms(1), of binding namespace operation payload w]
      show ?thesis by (auto simp: newHostFnRouter_def extractActorRef_def andThen_def onError_def lift_def split: if_splits)
    next
      case (Some tr)
      then have ctx: "ctx = \<lparr>cx_actorReference = Some reference, cx_txn = Some tr\<rparr>" using reference by (cases ctx) simp
      have put: "rd c (fst w1) = rd c (fst w) \<and> r1 \<noteq> Blocked" if "aPut tr k v w = (r1, w1)" for k v r1 w1
        using assms(2) Some that unfolding keepsVars_def by (metis fst_conv snd_conv)
      have get: "rd c (fst w1) = rd c (fst w) \<and> r1 \<noteq> Blocked" if "aGet tr k w = (r1, w1)" for k r1 w1
        using assms(2) Some that unfolding keepsVars_def by (metis fst_conv snd_conv)
      show ?thesis
        using call quiet_router.timer_call [OF assms(1), of reference payload w] quiet_router.custom_call [OF assms(1), of binding namespace operation payload w]
          answered_cases [OF ExtractKVFromPutPayload_answered [of payload]]
        unfolding ctx quiet_router.route_call [OF assms(1) op]
        by (auto simp: routePut_def routeGet_def extractTransaction_def andThen_def onError_def lift_def
            dest!: put get split: if_splits prod.splits outcome.splits)
    qed
  qed
  with HostCall.prems call HostCall.IH [OF _ plain] show ?case by (cases r0) auto
qed auto

interpretation guest_engine: durable_engine "guestModule (moduleRouter invokeActor Map.empty moduleID) exampleGuest" besideCell for invokeActor moduleID
proof (unfold_locales, goal_cases)
  case (4 ctx inst operation payload sz r sz')
  then show ?case
    using guest_keeps [OF plain_router.quiet_router_axioms 4(1) exampleGuest_plain] by (simp add: guestModule_def)
qed (auto simp: guestModule_def besideCell_def)

text \<open>
  \<^bold>\<open>C20\<close> (one instance per actor). However a module is used, as long as no object is closed twice (the host does not do so, and the code is not
  resilient to it: \<open>second_close_two_objects\<close>): there is at most one open object per
  identifier, a second one is refused exactly as long as the first one is open, and the module can be closed exactly if no object is open.
\<close>

theorem durable_instances:
  assumes "durable_engine m c" "durableReach m c s D"
  shows "(\<forall>x y ob ob'. openObject (rd c s) D x ob \<and> openObject (rd c s) D y ob' \<and> oj_id ob = oj_id ob' \<longrightarrow> x = y)
    \<and> (moduleInstantiate m c i s = (Fail (Errorf ''instance with ID: %s already exists'' [AStr i]), s) \<longleftrightarrow> (\<exists>x ob. openObject (rd c s) D x ob \<and> oj_id ob = i))
    \<and> (if \<exists>x ob. openObject (rd c s) D x ob
       then moduleClose m c s = (Fail (Errorf ''module: Close: cannot close with > 0 unclosed instances'' []), s)
       else fst (moduleClose m c s) = fst (wm_Close m (setVars c (mv_locked_update (\<lambda>_. True)) s)))"
proof -
  have inv: "durableInv (rd c s) D" by (rule durable_engine.durableInv_reach [OF assms])
  then have l: "\<not> mv_locked (rd c s)" and inst: "\<And>j k. mv_instances (rd c s) j = Some k \<longleftrightarrow>
      (\<exists>x ob. openObject (rd c s) D x ob \<and> oj_id ob = j \<and> oj_instance ob = k)" by (simp_all add: durableInv_def)
  have some: "mv_instances (rd c s) j \<noteq> None \<longleftrightarrow> (\<exists>x ob. openObject (rd c s) D x ob \<and> oj_id ob = j)" for j using inst by auto
  then have "mv_instances (rd c s) \<noteq> Map.empty \<longleftrightarrow> (\<exists>x ob. openObject (rd c s) D x ob)" by (auto simp: fun_eq_iff)
  then show ?thesis
    using inv l some [of i]
    by (auto simp: durableInv_def moduleInstantiate_def moduleClose_def newDurableObject_def wrap_def Let_def split: outcome.splits prod.splits)
qed

definition exampleModule :: "(nat \<times> unit moduleVars, unit) wapcModule" where
  "exampleModule = guestModule exampleRouter exampleGuest"

lemma exampleModule_engine: "durable_engine exampleModule besideCell"
  using guest_engine.durable_engine_axioms by (simp add: exampleModule_def exampleRouter_def)

lemma exampleModule_reach:
  obtains s where "durableReach exampleModule besideCell s {}" "openObject (rd besideCell s) {} 0 \<lparr>oj_locked = False, oj_instance = (), oj_id = ''a''\<rparr>"
proof -
  let ?s = "(0, newModuleVars) :: nat \<times> unit moduleVars"
  obtain s where s: "moduleInstantiate exampleModule besideCell ''a'' ?s = (Ret 0, s)"
      "openObject (rd besideCell s) {} 0 \<lparr>oj_locked = False, oj_instance = (), oj_id = ''a''\<rparr>"
    by (simp add: moduleInstantiate_def newDurableObject_def exampleModule_def guestModule_def besideCell_def setVars_def newModuleVars_def
        openObject_def Let_def)
  have "durableReach exampleModule besideCell ?s {}" by (rule durableReach.start) (simp add: besideCell_def)
  from durableReach.instantiate [OF this s(1)] s(2) show thesis by (rule that)
qed

theorem durable_instances_witness:
  "\<exists>s. moduleInstantiate exampleModule besideCell ''a'' s = (Fail (Errorf ''instance with ID: %s already exists'' [AStr ''a'']), s)"
proof -
  obtain s where s: "durableReach exampleModule besideCell s {}"
    "openObject (rd besideCell s) {} 0 \<lparr>oj_locked = False, oj_instance = (), oj_id = ''a''\<rparr>" by (rule exampleModule_reach)
  then have "\<exists>x ob. openObject (rd besideCell s) {} x ob \<and> oj_id ob = ''a''" by (metis object.select_convs(3))
  with durable_instances [OF exampleModule_engine s(1), of "''a''"] show ?thesis by blast
qed

text \<open>
  Closing an object twice: the second time removes the entry of the instance that has been created under the same identifier meanwhile, and a
  third one is created while the second is open.
\<close>

lemma second_close_two_objects:
  "fst (andThen (moduleInstantiate exampleModule besideCell ''a'') (\<lambda>x.
     andThen (objectClose exampleModule besideCell x) (\<lambda>_. andThen (moduleInstantiate exampleModule besideCell ''a'') (\<lambda>y.
     andThen (objectClose exampleModule besideCell x) (\<lambda>_. andThen (moduleInstantiate exampleModule besideCell ''a'') (\<lambda>z.
     ret (x, y, z)))))) (0, newModuleVars)) = Ret (0, 1, 2)"
  by (simp add: moduleInstantiate_def newDurableObject_def exampleModule_def guestModule_def besideCell_def setVars_def newModuleVars_def
      objectClose_def withObject_def onClose_def lockObject_def andThen_def Let_def)

subsection \<open>Restoring a snapshot\<close>

lemma bufferReadFrom_stop:
  "bufferReadFrom wrt cp len att 0 pieces err s = ((len, None), s)"
  "0 < n \<Longrightarrow> bufferReadFrom wrt cp len att n [] err s = ((len, err), s)"
  by (subst bufferReadFrom.simps, simp split: prod.split)+

lemma bufferReadFrom_Cons:
  assumes "0 < n" "growBuffer cp len att = (cp', att')"
  shows "bufferReadFrom wrt cp len att n (p # ps) err s =
    (let k = min (length p) (min (cp' - len) n) in
     bufferReadFrom wrt cp' (len + k) att' (n - k) (if k = length p then ps else drop k p # ps) err (if att' then wrt len (take k p) s else s))"
  using assms by (subst bufferReadFrom.simps) (simp add: Let_def)

text \<open>How many bytes are read does not depend on where they go; a buffer that has moved away leaves the memory alone.\<close>

lemma bufferReadFrom_count:
  "fst (bufferReadFrom wrt cp len att n pieces err s) =
     (len + min n (length (concat pieces)), if n \<le> length (concat pieces) then None else err)"
proof (induction wrt cp len att n pieces err s rule: bufferReadFrom.induct)
  case (1 wrt cp len att n pieces err s)
  consider "n = 0" | "0 < n" "pieces = []" | p ps where "0 < n" "pieces = p # ps" by (cases pieces) auto
  then show ?case
  proof cases
    case (3 p ps)
    obtain cp' att' where g: "growBuffer cp len att = (cp', att')" by force
    then have "512 \<le> cp' - len" using growBuffer_room [of cp len att] by simp
    then show ?thesis
      using 1 [OF refl g [symmetric] _ 3(2) refl refl] 3 by (auto simp: bufferReadFrom_Cons [OF 3(1) g] Let_def min_def)
  qed (simp_all add: bufferReadFrom_stop)
qed

lemma bufferReadFrom_detached: "snd (bufferReadFrom wrt cp len False n pieces err s) = s"
proof (induction wrt cp len False n pieces err s rule: bufferReadFrom.induct)
  case (1 wrt cp len n pieces err s)
  consider "n = 0" | "0 < n" "pieces = []" | p ps where "0 < n" "pieces = p # ps" by (cases pieces) auto
  then show ?case
  proof cases
    case (3 p ps)
    obtain cp' where g: "growBuffer cp len False = (cp', False)" by (cases "512 \<le> cp - len") (auto simp: growBuffer_def)
    show ?thesis using 1 [OF refl g [symmetric] _ 3(2) refl refl] 3 by (simp add: bufferReadFrom_Cons [OF 3(1) g] Let_def)
  qed (simp_all add: bufferReadFrom_stop)
qed

text \<open>
  The memory of instances, as the WebAssembly specification and the documentation of \<open>wazero\<close> have it: it grows by zeroed pages or not at all,
  and a view writes through. The variables of the module are not in it.
\<close>

locale linear_memory =
  fixes lm :: "('s, 'i) linearMemory" and c :: "('s, 'i) cell" and mem :: "'i \<Rightarrow> 's \<Rightarrow> bytes"
  assumes rd_wr [simp]: "rd c (wr c v s) = v"
    and mem_wr [simp]: "mem i (wr c v s) = mem i s"
    and rd_Write [simp]: "rd c (lm_Write lm i off b s) = rd c s"
    and rd_Grow [simp]: "rd c (lm_Grow lm i n s) = rd c s"
    and size [simp]: "lm_Size lm i s = length (mem i s)"
    and read: "lm_Read lm i off n s = (if off + n \<le> length (mem i s) then Some (take n (drop off (mem i s))) else None)"
    and cap: "length (mem i s) \<le> lm_cap lm i s"
    and cap_Write: "lm_cap lm i (lm_Write lm i off b s) = lm_cap lm i s"
    and mem_Write: "off + length b \<le> length (mem i s) \<Longrightarrow> mem i (lm_Write lm i off b s) = take off (mem i s) @ b @ drop (off + length b) (mem i s)"
    and mem_Grow: "mem i (lm_Grow lm i n s) \<in> {mem i s @ replicate (n * 65536) 0, mem i s}"
begin

lemma mem_setVars [simp]: "mem i (setVars c f s) = mem i s" "rd c (setVars c f s) = f (rd c s)"
  by (simp_all add: setVars_def)

lemma bufferReadFrom_vars:
  "bufferReadFrom (lm_Write lm i) cp len att n pieces err s = (res, s') \<Longrightarrow> rd c s' = rd c s"
proof (induction "lm_Write lm i" cp len att n pieces err s rule: bufferReadFrom.induct)
  case (1 cp len att n pieces err s)
  consider "n = 0" | "0 < n" "pieces = []" | p ps where "0 < n" "pieces = p # ps" by (cases pieces) auto
  then show ?case
  proof cases
    case (3 p ps)
    obtain cp' att' where g: "growBuffer cp len att = (cp', att')" by force
    show ?thesis
      using 1(2) 1(1) [OF refl g [symmetric] _ 3(2) refl refl] 3 by (auto simp: bufferReadFrom_Cons [OF 3(1) g] Let_def split: if_splits)
  qed (use 1(2) in \<open>simp_all add: bufferReadFrom_stop\<close>)
qed

end

context linear_memory
begin

text \<open>The memory that a snapshot is copied into: the old one, grown if need be, and zeroed.\<close>

definition room :: "'i \<Rightarrow> int \<Rightarrow> 's \<Rightarrow> nat" where
  "room i readerSize s =
     length (mem i (if readerSize > int (length (mem i s)) then lm_Grow lm i (nat (additionalPages readerSize (int (length (mem i s))) mod 2 ^ 32)) s else s))"

lemma hydrate_run:
  assumes "mv_objects (rd c s) x = Some ob" "\<not> oj_locked ob"
  obtains s2 where "mem (oj_instance ob) s2 = replicate (room (oj_instance ob) n (setVars c (lockObject True x) s)) 0"
    "objectHydrate lm c x r n s =
      (case copyN (lm_Write lm (oj_instance ob)) (lm_cap lm (oj_instance ob) s2) r n s2 of
         (Some e, s3) \<Rightarrow> (Fail (wrap ''error hydrating object: error copying bytes from reader to memory: %w'' e), setVars c (lockObject False x) s3)
       | (None, s3) \<Rightarrow> (Ret (), setVars c (lockObject False x) s3))"
proof -
  let ?i = "oj_instance ob" and ?s0 = "setVars c (lockObject True x) s"
  define s1 where "s1 = (if n > int (length (mem ?i ?s0)) then lm_Grow lm ?i (nat (additionalPages n (int (length (mem ?i ?s0))) mod 2 ^ 32)) ?s0 else ?s0)"
  define s2 where "s2 = lm_Write lm ?i 0 (replicate (length (mem ?i s1)) 0) s1"
  have m2: "mem ?i s2 = replicate (room ?i n ?s0) 0"
    using mem_Write [of 0 "replicate (length (mem ?i s1)) 0" ?i s1] by (simp add: s2_def s1_def room_def)
  have rd1: "lm_Read lm ?i 0 (lm_Size lm ?i s1) s1 = Some (mem ?i s1)" by (simp add: read)
  have "objectHydrate lm c x r n s =
      (case copyN (lm_Write lm ?i) (lm_cap lm ?i s2) r n s2 of
         (Some e, s3) \<Rightarrow> (Fail (wrap ''error hydrating object: error copying bytes from reader to memory: %w'' e), setVars c (lockObject False x) s3)
       | (None, s3) \<Rightarrow> (Ret (), setVars c (lockObject False x) s3))"
    using assms rd1 unfolding s2_def s1_def
    by (simp add: objectHydrate_def withObject_def Let_def split: prod.splits option.splits)
  with m2 show thesis by (rule that)
qed

text \<open>A reader that delivers everything at once, and one that leaves less than 512 bytes for a second call.\<close>

lemma copy_at_once:
  assumes "mem i s = replicate N 0" "length b \<le> N" "512 \<le> N"
  obtains s' where "copyN (lm_Write lm i) (lm_cap lm i s) ([b], None) (int (length b)) s = (None, s')" "mem i s' = b @ replicate (N - length b) 0"
proof (cases "b = []")
  case True
  then show thesis using that [of s] assms by (simp add: copyN_def bufferReadFrom_stop)
next
  case False
  have cp: "512 \<le> lm_cap lm i s" "length b \<le> lm_cap lm i s" using cap [of i s] assms by simp_all
  then have g: "growBuffer (lm_cap lm i s) 0 True = (lm_cap lm i s, True)" by (simp add: growBuffer_def)
  have "bufferReadFrom (lm_Write lm i) (lm_cap lm i s) 0 True (length b) [b] None s = ((length b, None), lm_Write lm i 0 b s)"
    using False cp by (simp add: bufferReadFrom_Cons [OF _ g] bufferReadFrom_stop Let_def)
  then show thesis
    using that [of "lm_Write lm i 0 b s"] mem_Write [of 0 b i s] assms by (simp add: copyN_def)
qed

lemma copy_two_reads:
  assumes "mem i s = replicate (length a + length d) 0" "lm_cap lm i s = length a + length d" "512 \<le> length a + length d" "d \<noteq> []" "length d < 512"
  obtains s' where "copyN (lm_Write lm i) (lm_cap lm i s) ([a, d], None) (int (length a + length d)) s = (None, s')" "mem i s' = a @ replicate (length d) 0"
proof -
  let ?n = "length a + length d" and ?w = "lm_Write lm i"
  have g: "growBuffer ?n 0 True = (?n, True)" using assms(3) by (simp add: growBuffer_def)
  have g2: "growBuffer ?n (length a) True = (max (2 * ?n) (length a + 512), False)" using assms(5) by (simp add: growBuffer_def)
  let ?s = "?w 0 a s"
  have "bufferReadFrom ?w ?n 0 True ?n [a, d] None s = bufferReadFrom ?w ?n (length a) True (length d) [d] None ?s"
    using assms(3,4) by (subst bufferReadFrom_Cons [OF _ g]) (auto simp: Let_def)
  also have "\<dots> = bufferReadFrom ?w (max (2 * ?n) (length a + 512)) (?n) False 0 [] None ?s"
    using assms(4,5) by (subst bufferReadFrom_Cons [OF _ g2]) (auto simp: Let_def min_def max_def)
  also have "\<dots> = ((?n, None), ?s)" by (rule bufferReadFrom_stop)
  finally show thesis
    using that [of ?s] mem_Write [of 0 a i s] assms(1,2) by (simp add: copyN_def nat_add_distrib)
qed

lemma snapshot_memory:
  assumes "mv_objects (rd c s) x = Some ob" "objectSnapshot lm c x None s = (Ret b, s')"
  shows "b = mem (oj_instance ob) s"
  using assms by (auto simp: objectSnapshot_def withObject_def read split: if_splits)

end

lemma additionalPages_bounds:
  assumes "m < n" "n \<le> int P * 65536" "0 \<le> m" "65536 dvd m" "P \<le> 65536"
  shows "additionalPages n m mod 2 ^ 32 = additionalPages n m" "n - m \<le> additionalPages n m * 65536" "m + additionalPages n m * 65536 \<le> int P * 65536"
    "0 \<le> additionalPages n m"
proof -
  define a q r where "a = n - m" and "q = a div 65536" and "r = a mod 65536"
  obtain k where k: "m = 65536 * k" using assms(4) by blast
  have a: "q * 65536 + r = a" "0 \<le> r" "r < 65536" "0 < a" "a \<le> (int P - k) * 65536" using assms(1,2) k by (simp_all add: q_def r_def a_def algebra_simps)
  then have p: "a \<le> (q + (if r > 0 then 1 else 0)) * 65536" "0 \<le> q + (if r > 0 then 1 else 0)" "q + (if r > 0 then 1 else 0) \<le> int P - k" by auto
  moreover have "additionalPages n m = q + (if r > 0 then 1 else 0)" by (simp add: additionalPages_def wasmPageSize_def a_def q_def r_def)
  moreover have "0 \<le> k" "int P \<le> 65536" using assms(3,5) k by simp_all
  ultimately show "additionalPages n m mod 2 ^ 32 = additionalPages n m" "n - m \<le> additionalPages n m * 65536"
    "m + additionalPages n m * 65536 \<le> int P * 65536" "0 \<le> additionalPages n m"
    using k unfolding a_def by (simp_all add: mod_pos_pos_trivial)
qed

lemma additionalPages_ceiling:
  assumes "65536 dvd m"
  shows "m + additionalPages n m * 65536 = (n + 65535) div 65536 * 65536"
proof -
  obtain k where k: "m = 65536 * k" using assms by blast
  have "(n + 65535) div 65536 = (n - m + 65535) div 65536 + k"
    using div_mult_self2 [of 65536 "n - m + 65535" k] k by (simp add: algebra_simps)
  moreover have "(n - m + 65535) div 65536 = additionalPages n m"
  proof -
    define q r where "q = (n - m) div 65536" and "r = (n - m) mod 65536"
    have a: "n - m = 65536 * q + r" "0 \<le> r" "r < 65536" by (simp_all add: q_def r_def)
    have "(r + 65535) div 65536 = (if r > 0 then 1 else 0)"
      using a int_div_pos_eq [of "r + 65535" 65536 1 "r - 1"] int_div_pos_eq [of "r + 65535" 65536 0 "r + 65535"] by auto
    moreover have "(n - m + 65535) div 65536 = q + (r + 65535) div 65536"
      using a(1) div_mult_self2 [of 65536 "r + 65535" q] by (simp add: algebra_simps)
    ultimately show ?thesis by (simp add: additionalPages_def wasmPageSize_def q_def r_def)
  qed
  ultimately show ?thesis using k by (simp add: algebra_simps)
qed

context linear_memory
begin

text \<open>A memory that grows up to its maximum of \<open>P\<close> pages.\<close>

definition growsTo :: "nat \<Rightarrow> 'i \<Rightarrow> bool" where
  "growsTo P i \<longleftrightarrow> P \<le> 65536
     \<and> (\<forall>k u. length (mem i u) + k * 65536 \<le> P * 65536 \<longrightarrow> mem i (lm_Grow lm i k u) = mem i u @ replicate (k * 65536) 0)"

lemma room_enough:
  assumes "growsTo P i" "n \<le> int P * 65536" "65536 dvd length (mem i s)"
  shows "n \<le> int (room i n s)" "length (mem i s) \<le> room i n s"
    "int (room i n s) = max (int (length (mem i s))) ((n + 65535) div 65536 * 65536)"
proof -
  let ?m = "int (length (mem i s))" and ?p = "additionalPages n (int (length (mem i s)))"
  have d: "65536 dvd ?m" using assms(3) by (metis int_dvd_int_iff of_nat_numeral)
  have r: "int (room i n s) = (if n > ?m then ?m + ?p * 65536 else ?m) \<and> (n > ?m \<longrightarrow> n - ?m \<le> ?p * 65536 \<and> 0 \<le> ?p)"
  proof (cases "n > ?m")
    case True
    note b = additionalPages_bounds [OF True assms(2) _ d]
    have P: "P \<le> 65536" using assms(1) by (simp add: growsTo_def)
    obtain k where k: "?p = int k" using b(4) P by (metis nat_0_le of_nat_0_le_iff)
    have "length (mem i s) + k * 65536 \<le> P * 65536" using b(3) P k by linarith
    then have "mem i (lm_Grow lm i k s) = mem i s @ replicate (k * 65536) 0" using assms(1) by (simp add: growsTo_def)
    then show ?thesis using True b(1,2) P k by (simp add: room_def)
  qed (simp add: room_def)
  then show "n \<le> int (room i n s)" "length (mem i s) \<le> room i n s" by (auto split: if_splits)
  have "(n + 65535) div 65536 * 65536 \<le> ?m" if "n \<le> ?m"
  proof -
    obtain k where k: "?m = 65536 * k" using d by blast
    have "(n + 65535) div 65536 \<le> (65536 * k + 65535) div 65536" using that k by (intro zdiv_mono1) simp_all
    then show ?thesis using k by simp
  qed
  then show "int (room i n s) = max ?m ((n + 65535) div 65536 * 65536)"
    using r additionalPages_ceiling [OF d, of n] by (auto split: if_splits)
qed

end

text \<open>The memory of a single instance as a list of bytes, up to a maximal number of pages.\<close>

definition listMemory :: "nat \<Rightarrow> (bytes \<times> unit moduleVars, unit) linearMemory" where
  "listMemory maxPages =
     \<lparr>lm_Size = (\<lambda>_ s. length (fst s)),
      lm_Read = (\<lambda>_ off n s. if off + n \<le> length (fst s) then Some (take n (drop off (fst s))) else None),
      lm_cap = (\<lambda>_ s. length (fst s)),
      lm_Write = (\<lambda>_ off b s. if off + length b \<le> length (fst s) then (take off (fst s) @ b @ drop (off + length b) (fst s), snd s) else s),
      lm_Grow = (\<lambda>_ n s. if length (fst s) + n * 65536 \<le> maxPages * 65536 then (fst s @ replicate (n * 65536) 0, snd s) else s)\<rparr>"

interpretation list_memory: linear_memory "listMemory maxPages" besideCell "\<lambda>_ s. fst s" for maxPages
  by unfold_locales (auto simp: listMemory_def besideCell_def)

text \<open>
  \<^bold>\<open>C21\<close> (snapshots round trip). A snapshot of an object, from a reader that delivers all of it in one read, restored into any object whose memory
  is a positive number of pages and can grow to the size of the snapshot, restores the memory byte by byte. The memory grows by exactly the missing pages, not at all if the snapshot
  fits, and is zero behind the snapshot.
\<close>

theorem hydrate_snapshot:
  assumes "linear_memory lm c mem" "mv_objects (rd c s) x = Some ob" "objectSnapshot lm c x None s = (Ret b, s')"
    and "mv_objects (rd c t) y = Some ob'" "\<not> oj_locked ob'" "linear_memory.growsTo lm mem P (oj_instance ob')" "length b \<le> P * 65536"
    and "mem (oj_instance ob') t \<noteq> []" "65536 dvd length (mem (oj_instance ob') t)"
  shows "\<exists>t'. objectHydrate lm c y ([b], None) (int (length b)) t = (Ret (), t')
    \<and> mem (oj_instance ob') t' = mem (oj_instance ob) s
        @ replicate (max (length (mem (oj_instance ob') t)) ((length b + 65535) div 65536 * 65536) - length b) 0"
proof -
  let ?i = "oj_instance ob'" and ?t = "setVars c (lockObject True y) t"
  note lm = assms(1)
  obtain t2 where t2: "mem ?i t2 = replicate (linear_memory.room lm mem ?i (int (length b)) ?t) 0"
    "objectHydrate lm c y ([b], None) (int (length b)) t =
      (case copyN (lm_Write lm ?i) (lm_cap lm ?i t2) ([b], None) (int (length b)) t2 of
         (Some e, s3) \<Rightarrow> (Fail (wrap ''error hydrating object: error copying bytes from reader to memory: %w'' e), setVars c (lockObject False y) s3)
       | (None, s3) \<Rightarrow> (Ret (), setVars c (lockObject False y) s3))"
    by (rule linear_memory.hydrate_run [OF lm assms(4,5)])
  have room: "length b \<le> linear_memory.room lm mem ?i (int (length b)) ?t" (is "_ \<le> ?r") "512 \<le> linear_memory.room lm mem ?i (int (length b)) ?t"
    "linear_memory.room lm mem ?i (int (length b)) ?t = max (length (mem ?i t)) ((length b + 65535) div 65536 * 65536)"
  proof -
    have "65536 dvd length (mem ?i ?t)" "int (length b) \<le> int P * 65536" "mem ?i ?t \<noteq> []"
      using assms(7-9) linear_memory.mem_setVars(1) [OF lm] by (simp_all flip: of_nat_mult)
    note enough = linear_memory.room_enough [OF lm assms(6) this(2,1)]
    from enough(1,2) \<open>65536 dvd length (mem ?i ?t)\<close> \<open>mem ?i ?t \<noteq> []\<close> show "length b \<le> ?r" "512 \<le> ?r" by (auto dest: dvd_imp_le)
    have "int ?r = int (max (length (mem ?i t)) ((length b + 65535) div 65536 * 65536))"
      using enough(3) linear_memory.mem_setVars(1) [OF lm] by (simp add: zdiv_int of_nat_max)
    then show "?r = max (length (mem ?i t)) ((length b + 65535) div 65536 * 65536)" by (simp only: of_nat_eq_iff)
  qed
  from room(1,2) obtain t3 where "copyN (lm_Write lm ?i) (lm_cap lm ?i t2) ([b], None) (int (length b)) t2 = (None, t3)" "mem ?i t3 = b @ replicate (?r - length b) 0"
    by (rule linear_memory.copy_at_once [OF lm t2(1)])
  with t2(2) linear_memory.mem_setVars(1) [OF lm] linear_memory.snapshot_memory [OF lm assms(2,3)] room(3) show ?thesis by auto
qed

text \<open>
  \<^bold>\<open>C22\<close> (hydrating loses the end of a snapshot). For a snapshot that is exactly as long as the memory, at least 512 bytes, and a reader that delivers it in two reads of
  which the second has between 1 and 511 bytes: the buffer on the memory has less room than the 512 bytes that it wants before every read, so it is moved away from the memory before the
  second one. \<open>Hydrate\<close> returns no error, and the memory ends with zeros instead of the bytes of the second read.
\<close>

theorem hydrate_loses_tail:
  assumes "linear_memory lm c mem" "mv_objects (rd c t) y = Some ob" "\<not> oj_locked ob" "length (mem (oj_instance ob) t) = length a + length d"
    and "\<And>u. lm_cap lm (oj_instance ob) u = length (mem (oj_instance ob) u)" "512 \<le> length a + length d" "d \<noteq> []" "length d < 512"
  shows "\<exists>t'. objectHydrate lm c y ([a, d], None) (int (length a + length d)) t = (Ret (), t')
    \<and> mem (oj_instance ob) t' = a @ replicate (length d) 0"
proof -
  let ?i = "oj_instance ob" and ?t = "setVars c (lockObject True y) t"
  note lm = assms(1)
  obtain t2 where t2: "mem ?i t2 = replicate (linear_memory.room lm mem ?i (int (length a + length d)) ?t) 0"
    "objectHydrate lm c y ([a, d], None) (int (length a + length d)) t =
      (case copyN (lm_Write lm ?i) (lm_cap lm ?i t2) ([a, d], None) (int (length a + length d)) t2 of
         (Some e, s3) \<Rightarrow> (Fail (wrap ''error hydrating object: error copying bytes from reader to memory: %w'' e), setVars c (lockObject False y) s3)
       | (None, s3) \<Rightarrow> (Ret (), setVars c (lockObject False y) s3))"
    by (rule linear_memory.hydrate_run [OF lm assms(2,3)])
  have "linear_memory.room lm mem ?i (int (length a + length d)) ?t = length a + length d"
    using assms(4) by (simp add: linear_memory.room_def [OF lm] linear_memory.mem_setVars(1) [OF lm])
  with t2(1) assms(5) have m: "mem ?i t2 = replicate (length a + length d) 0" "lm_cap lm ?i t2 = length a + length d" by simp_all
  obtain t3 where "copyN (lm_Write lm ?i) (lm_cap lm ?i t2) ([a, d], None) (int (length a + length d)) t2 = (None, t3)" "mem ?i t3 = a @ replicate (length d) 0"
    by (rule linear_memory.copy_two_reads [OF lm m assms(6-8)])
  with t2(2) linear_memory.mem_setVars(1) [OF lm] show ?thesis by auto
qed

definition objectWorld :: "bytes \<Rightarrow> bytes \<times> unit moduleVars" where
  "objectWorld b = (b, \<lparr>mv_locked = False, mv_instances = [''a'' \<mapsto> ()], mv_objects = [0 \<mapsto> \<lparr>oj_locked = False, oj_instance = (), oj_id = ''a''\<rparr>], mv_next = 1\<rparr>)"

lemma objectWorld_object: "mv_objects (rd besideCell (objectWorld b)) 0 = Some \<lparr>oj_locked = False, oj_instance = (), oj_id = ''a''\<rparr>"
  by (simp add: objectWorld_def besideCell_def)

lemma listMemory_growsTo: "P \<le> 65536 \<Longrightarrow> list_memory.growsTo P P i"
  unfolding list_memory.growsTo_def by (simp add: listMemory_def)

theorem hydrate_snapshot_witness:
  "\<exists>t'. objectHydrate (listMemory 2) besideCell 0 ([replicate 70000 7], None) 70000 (objectWorld (replicate 65536 0)) = (Ret (), t')
     \<and> fst t' = replicate 70000 7 @ replicate 61072 0"
proof -
  have snap: "objectSnapshot (listMemory 2) besideCell 0 None (objectWorld (replicate 70000 7)) = (Ret (replicate 70000 7), objectWorld (replicate 70000 7))"
    by (simp add: objectSnapshot_def withObject_def objectWorld_object)
      (simp add: listMemory_def setVars_def besideCell_def objectWorld_def lockObject_def)
  from hydrate_snapshot [OF list_memory.linear_memory_axioms objectWorld_object this objectWorld_object [of "replicate 65536 0"] _ listMemory_growsTo]
  show ?thesis by (simp add: objectWorld_def)
qed

theorem hydrate_loses_tail_witness:
  "\<exists>t'. objectHydrate (listMemory 1) besideCell 0 ([replicate 65535 7, [7]], None) 65536 (objectWorld (replicate 65536 0)) = (Ret (), t')
     \<and> fst t' = replicate 65535 7 @ [0]"
proof -
  let ?w = "objectWorld (replicate 65536 0)"
  from hydrate_loses_tail [OF list_memory.linear_memory_axioms objectWorld_object, of "replicate 65536 0" "replicate 65535 7" "[7]" 1]
  show ?thesis by (simp add: objectWorld_def listMemory_def)
qed

end
