(* ===== verification/Util_Guest.thy ===== *)
theory Util_Guest
  imports Durable_Objects
begin

section \<open>The test module: \<open>testdata/tinygo/util/main.go\<close>\<close>

text \<open>
  The WebAssembly module that the repository ships. Its global variables are the memory of an instance. An operation changes the memory before
  it calls the host, if it does both, so that it is a function from the memory to a guest program and the new memory. The guest side of \<open>wapc\<close> is
  a parameter: the errors for a failed host call, for an operation that is not registered, and for a trap. What it prints is not modelled.
\<close>

subsection \<open>Variables and operations\<close>

record utilVars =
  gv_count :: int
  gv_instantiatePayload :: bytes
  gv_startupWasCalled :: bool

definition freshVars :: utilVars where
  "freshVars = \<lparr>gv_count = 0, gv_instantiatePayload = [], gv_startupWasCalled = False\<rparr>"

record wapcGuest =
  wg_hostError :: goerr
  wg_notFound :: "string \<Rightarrow> goerr"
  wg_trap :: goerr

type_synonym utilFn = "bytes \<Rightarrow> utilVars \<Rightarrow> guestProg \<times> utilVars"

definition getInstantiatePayload :: utilFn where
  "getInstantiatePayload payload v = (GReturn (gv_instantiatePayload v), v)"

definition inc :: utilFn where
  "inc payload v = (let count = i64 (gv_count v + 1) in (GReturn (go_bytes (decInt count)), v\<lparr>gv_count := count\<rparr>))"

definition incFast :: utilFn where
  "incFast payload v = (GReturn [], v\<lparr>gv_count := i64 (gv_count v + 1)\<rparr>)"

definition dec :: utilFn where
  "dec payload v = (let count = i64 (gv_count v - 1) in (GReturn (go_bytes (decInt count)), v\<lparr>gv_count := count\<rparr>))"

definition getCount :: utilFn where
  "getCount payload v = (GReturn (go_bytes (decInt (gv_count v))), v)"

definition echo :: utilFn where
  "echo payload v = (HostCall ''wapc'' ''testing'' ''echo'' payload (\<lambda>_. GReturn payload), v)"

definition utilLog :: utilFn where
  "utilLog payload v = (GReturn [], v)"

definition utilFail :: utilFn where
  "utilFail payload v = (GRaise (Errorf ''planned Failure'' []), v)"

definition putPayload :: "bytes \<Rightarrow> utilVars \<Rightarrow> bytes" where
  "putPayload reqPayload v = EncodePutPayload [] reqPayload (go_bytes (decInt (gv_count v)))"

definition putCount :: "wapcGuest \<Rightarrow> utilFn" where
  "putCount W reqPayload v =
     (HostCall ''wapc'' ''nola'' KVPutOperationName (putPayload reqPayload v) (\<lambda>r.
        case r of Some _ \<Rightarrow> GReturn [] | None \<Rightarrow> GRaise (wg_hostError W)), v)"

definition putCountError :: "wapcGuest \<Rightarrow> utilFn" where
  "putCountError W reqPayload v =
     (HostCall ''wapc'' ''nola'' KVPutOperationName (putPayload reqPayload v) (\<lambda>r.
        case r of Some _ \<Rightarrow> GRaise (Errorf ''some fake error'' []) | None \<Rightarrow> GRaise (wg_hostError W)), v)"

definition kvGet :: "wapcGuest \<Rightarrow> utilFn" where
  "kvGet W payload v =
     (HostCall ''wapc'' ''nola'' KVGetOperationName payload (\<lambda>r.
        case r of
          Some (_ # b) \<Rightarrow> GReturn b
        | Some [] \<Rightarrow> GRaise (wg_trap W)
        | None \<Rightarrow> GRaise (wg_hostError W)), v)"

text \<open>The operations that pass the answer of the host through.\<close>

definition passThrough :: "wapcGuest \<Rightarrow> bytes option \<Rightarrow> guestProg" where
  "passThrough W r = (case r of Some b \<Rightarrow> GReturn b | None \<Rightarrow> GRaise (wg_hostError W))"

definition fork :: "wapcGuest \<Rightarrow> utilFn" where
  "fork W payload v =
     (let createActorReq = go_bytes ''{\"actor_id\":\"'' @ payload @ go_bytes ''\"}'' in
      (HostCall ''wapc'' ''nola'' CreateActorOperationName createActorReq (passThrough W), v))"

definition invokeActor :: "wapcGuest \<Rightarrow> utilFn" where
  "invokeActor W payload v = (HostCall ''wapc'' ''nola'' InvokeActorOperationName payload (passThrough W), v)"

definition scheduleSelfTimer :: "wapcGuest \<Rightarrow> utilFn" where
  "scheduleSelfTimer W payload v = (HostCall ''wapc'' ''nola'' ScheduleSelfTimerOperationName payload (passThrough W), v)"

definition invokeCustomHostFn :: "wapcGuest \<Rightarrow> utilFn" where
  "invokeCustomHostFn W payload v = (HostCall ''wapc'' ''nola'' (go_string payload) payload (passThrough W), v)"

definition utilStartup :: utilFn where
  "utilStartup payload v = (GReturn [], v\<lparr>gv_startupWasCalled := True, gv_instantiatePayload := payload\<rparr>)"

definition getStartupWasCalled :: utilFn where
  "getStartupWasCalled payload v = (GReturn (go_bytes (if gv_startupWasCalled v then ''true'' else ''false'')), v)"

definition shutdown :: utilFn where
  "shutdown payload v = (GReturn [], v)"

text \<open>\<open>main\<close>: the functions that are registered.\<close>

definition utilFunctions :: "wapcGuest \<Rightarrow> (string \<times> utilFn) list" where
  "utilFunctions W =
     [(StartupOperationName, utilStartup), (ShutdownOperationName, shutdown), (''getInstantiatePayload'', getInstantiatePayload),
      (''getStartupWasCalled'', getStartupWasCalled), (''inc'', inc), (''incFast'', incFast), (''dec'', dec), (''getCount'', getCount),
      (''echo'', echo), (''log'', utilLog), (''fail'', utilFail), (''kvPutCount'', putCount W), (''kvPutCountError'', putCountError W),
      (''kvGet'', kvGet W), (''fork'', fork W), (''invokeActor'', invokeActor W), (''scheduleSelfTimer'', scheduleSelfTimer W),
      (''invokeCustomHostFn'', invokeCustomHostFn W)]"

definition utilInvoke :: "wapcGuest \<Rightarrow> string \<Rightarrow> utilFn" where
  "utilInvoke W operation payload v =
     (case map_of (utilFunctions W) operation of
        Some f \<Rightarrow> f payload v
      | None \<Rightarrow> (GRaise (wg_notFound W operation), v))"

lemma utilInvoke_simps [simp]:
  "utilInvoke W ''inc'' = inc" "utilInvoke W ''incFast'' = incFast" "utilInvoke W ''dec'' = dec" "utilInvoke W ''getCount'' = getCount"
  "utilInvoke W ''kvPutCount'' = putCount W" "utilInvoke W ''kvPutCountError'' = putCountError W" "utilInvoke W ''kvGet'' = kvGet W"
  "utilInvoke W ''fork'' = fork W"
  by (simp_all add: utilInvoke_def utilFunctions_def StartupOperationName_def ShutdownOperationName_def fun_eq_iff)

subsection \<open>The module in the engine\<close>

text \<open>An engine that runs the module: each instance has its variables, in a table beside the rest of the world.\<close>

record utilMemory =
  um_vars :: "nat \<Rightarrow> utilVars"
  um_next :: nat

type_synonym 'r utilWorld = "('r \<times> utilMemory) \<times> nat moduleVars"

definition utilModule :: "wapcGuest \<Rightarrow> ('r utilWorld \<times> 'r utilWorld lazyState) routerDeps \<Rightarrow> ('r utilWorld, nat) wapcModule" where
  "utilModule W d =
     \<lparr>wm_Instantiate = (\<lambda>((r, m), mv). (Ret (um_next m), ((r, m\<lparr>um_vars := (um_vars m)(um_next m := freshVars), um_next := Suc (um_next m)\<rparr>), mv))),
      wm_Close = ret (),
      wm_InstanceInvoke = (\<lambda>inst ctx operation payload (((r, m), mv), z).
        case utilInvoke W operation payload (um_vars m inst) of
          (g, v) \<Rightarrow> runGuest g (newHostFnRouter d ctx) (((r, m\<lparr>um_vars := (um_vars m)(inst := v)\<rparr>), mv), z)),
      wm_InstanceClose = (\<lambda>_. ret ())\<rparr>"

text \<open>
  A host that starts actors, calls their operations and closes them; it keeps the object of each actor. An actor that is not running
  is an error of the host.
\<close>

datatype utilEvent = Start string | Call string string bytes | Stop string

record 'r utilHost =
  uh_objects :: "string \<rightharpoonup> nat"
  uh_world :: "'r utilWorld"

definition hostStart :: "('r utilWorld, nat) wapcModule \<Rightarrow> string \<Rightarrow> ('r utilHost, bytes) call" where
  "hostStart m i h =
     (case moduleInstantiate m besideCell i (uh_world h) of
        (Ret x, s) \<Rightarrow> (Ret [], \<lparr>uh_objects = (uh_objects h)(i \<mapsto> x), uh_world = s\<rparr>)
      | (Fail e, s) \<Rightarrow> (Fail e, h\<lparr>uh_world := s\<rparr>)
      | (Panic p, s) \<Rightarrow> (Panic p, h\<lparr>uh_world := s\<rparr>)
      | (Blocked, s) \<Rightarrow> (Blocked, h\<lparr>uh_world := s\<rparr>))"

definition hostCall ::
  "('r utilWorld, nat) wapcModule \<Rightarrow> ('r utilWorld \<times> 'r utilWorld lazyState) hostCtx \<Rightarrow> string \<Rightarrow> string \<Rightarrow> bytes \<Rightarrow> ('r utilHost, bytes) call" where
  "hostCall m ctx i operation payload h =
     (case uh_objects h i of
        None \<Rightarrow> (Fail (Errorf ''no actor: %s'' [AStr i]), h)
      | Some x \<Rightarrow>
          (case objectInvoke m besideCell x ctx operation (Some payload) (uh_world h, freshLazy) of
             (r, (s, _)) \<Rightarrow> (r, h\<lparr>uh_world := s\<rparr>)))"

definition hostStop :: "('r utilWorld, nat) wapcModule \<Rightarrow> string \<Rightarrow> ('r utilHost, bytes) call" where
  "hostStop m i h =
     (case uh_objects h i of
        None \<Rightarrow> (Fail (Errorf ''no actor: %s'' [AStr i]), h)
      | Some x \<Rightarrow>
          (case andThen (objectClose m besideCell x) (\<lambda>_. ret []) (uh_world h) of (r, s) \<Rightarrow> (r, \<lparr>uh_objects = (uh_objects h)(i := None), uh_world = s\<rparr>)))"

primrec hostEvent ::
  "('r utilWorld, nat) wapcModule \<Rightarrow> ('r utilWorld \<times> 'r utilWorld lazyState) hostCtx \<Rightarrow> utilEvent \<Rightarrow> ('r utilHost, bytes) call" where
  "hostEvent m ctx (Start i) = hostStart m i"
| "hostEvent m ctx (Call i operation payload) = hostCall m ctx i operation payload"
| "hostEvent m ctx (Stop i) = hostStop m i"

primrec hostRun ::
  "('r utilWorld, nat) wapcModule \<Rightarrow> ('r utilWorld \<times> 'r utilWorld lazyState) hostCtx \<Rightarrow> utilEvent list \<Rightarrow> 'r utilHost \<Rightarrow> bytes outcome list" where
  "hostRun m ctx [] h = []"
| "hostRun m ctx (ev # evs) h = (case hostEvent m ctx ev h of (r, h') \<Rightarrow> r # hostRun m ctx evs h')"

subsection \<open>Counters of actors\<close>

text \<open>
  What the counters of the module are meant to be: a number of 64 bits for each running actor, zero when it starts.
\<close>

definition counterOps :: "string set" where
  "counterOps = {''inc'', ''incFast'', ''dec'', ''getCount''}"

definition counterCall :: "string \<Rightarrow> int \<Rightarrow> bytes \<times> int" where
  "counterCall operation n =
     (let n' = i64 (n + (if operation \<in> {''inc'', ''incFast''} then 1 else if operation = ''dec'' then - 1 else 0)) in
      (if operation = ''incFast'' then [] else go_bytes (decInt n'), n'))"

primrec counterEvent :: "utilEvent \<Rightarrow> (string \<rightharpoonup> int) \<Rightarrow> bytes option \<times> (string \<rightharpoonup> int)" where
  "counterEvent (Start i) N = (if i \<in> dom N then (None, N) else (Some [], N(i \<mapsto> 0)))"
| "counterEvent (Call i operation payload) N =
     (case N i of None \<Rightarrow> (None, N) | Some n \<Rightarrow> (case counterCall operation n of (b, n') \<Rightarrow> (Some b, N(i \<mapsto> n'))))"
| "counterEvent (Stop i) N = (if i \<in> dom N then (Some [], N(i := None)) else (None, N))"

primrec counterRun :: "utilEvent list \<Rightarrow> (string \<rightharpoonup> int) \<Rightarrow> bytes option list" where
  "counterRun [] N = []"
| "counterRun (ev # evs) N = (case counterEvent ev N of (r, N') \<Rightarrow> r # counterRun evs N')"

primrec counterOnly :: "utilEvent \<Rightarrow> bool" where
  "counterOnly (Start i) = True"
| "counterOnly (Call i operation payload) = (operation \<in> counterOps)"
| "counterOnly (Stop i) = True"

text \<open>The objects of the host are open and idle objects of the module, each with an instance of its own that holds the counter.\<close>

definition runsWith :: "'r utilHost \<Rightarrow> string \<Rightarrow> nat \<Rightarrow> int \<Rightarrow> bool" where
  "runsWith h i inst n \<longleftrightarrow> (let m = snd (fst (uh_world h)); v = snd (uh_world h) in
     mv_instances v i = Some inst \<and> inst < um_next m \<and> gv_count (um_vars m inst) = n \<and> is_i64 n
     \<and> (case uh_objects h i of None \<Rightarrow> False
        | Some x \<Rightarrow> x < mv_next v \<and> mv_objects v x = Some \<lparr>oj_locked = False, oj_instance = inst, oj_id = i\<rparr>))"

definition counterInv :: "'r utilHost \<Rightarrow> (string \<rightharpoonup> int) \<Rightarrow> bool" where
  "counterInv h N \<longleftrightarrow> \<not> mv_locked (snd (uh_world h))
     \<and> (\<forall>i. case N i of None \<Rightarrow> uh_objects h i = None \<and> mv_instances (snd (uh_world h)) i = None | Some n \<Rightarrow> \<exists>inst. runsWith h i inst n)
     \<and> (\<forall>i j inst n n'. runsWith h i inst n \<longrightarrow> runsWith h j inst n' \<longrightarrow> i = j)"

lemma counterInv_running: "counterInv h N \<Longrightarrow> N i = Some n \<Longrightarrow> \<exists>inst. runsWith h i inst n"
  by (auto simp: counterInv_def dest: spec [of _ i])

lemma counterInv_idle: "counterInv h N \<Longrightarrow> N i = None \<Longrightarrow> uh_objects h i = None \<and> mv_instances (snd (uh_world h)) i = None"
  by (auto simp: counterInv_def dest: spec [of _ i])

lemma counterInv_inj: "counterInv h N \<Longrightarrow> runsWith h i inst n \<Longrightarrow> runsWith h j inst n' \<Longrightarrow> i = j"
  unfolding counterInv_def by blast

lemma counterInv_counted:
  assumes "counterInv h N" "runsWith h i inst n"
  shows "N i = Some n"
proof (cases "N i")
  case (Some k)
  with counterInv_running [OF assms(1)] assms(2) show ?thesis by (fastforce simp: runsWith_def Let_def)
qed (use counterInv_idle [OF assms(1)] assms(2) in \<open>simp add: runsWith_def Let_def\<close>)

text \<open>
  A step that changes what one actor \<open>i\<close> has: the others keep their objects, instances and counters, and \<open>i\<close> has either
  nothing or an instance that no other actor has.
\<close>

lemma counterInv_step:
  assumes "counterInv h N" "\<not> mv_locked (snd (uh_world h'))"
    and others: "\<And>j inst n. j \<noteq> i \<Longrightarrow> runsWith h j inst n \<Longrightarrow> runsWith h' j inst n"
    and idle: "\<And>j. j \<noteq> i \<Longrightarrow> uh_objects h' j = uh_objects h j \<and> mv_instances (snd (uh_world h')) j = mv_instances (snd (uh_world h)) j"
    and actor: "case q of None \<Rightarrow> uh_objects h' i = None \<and> mv_instances (snd (uh_world h')) i = None
      | Some n \<Rightarrow> \<exists>inst. runsWith h' i inst n \<and> (\<forall>j k. j \<noteq> i \<longrightarrow> \<not> runsWith h j inst k)"
  shows "counterInv h' (N(i := q))"
proof -
  have old: "\<exists>n. runsWith h j inst n" if run: "runsWith h' j inst n'" and "j \<noteq> i" for j inst n'
  proof (cases "N j")
    case None
    with counterInv_idle [OF assms(1)] run idle [OF \<open>j \<noteq> i\<close>] show ?thesis by (auto simp: runsWith_def Let_def)
  next
    case (Some n)
    then obtain inst' where r: "runsWith h j inst' n" using counterInv_running [OF assms(1)] by blast
    with others [OF \<open>j \<noteq> i\<close>] run have "inst' = inst" by (fastforce simp: runsWith_def Let_def)
    with r show ?thesis by blast
  qed
  have own: "\<not> runsWith h j inst k" if "runsWith h' i inst n" "j \<noteq> i" for j inst k n
    using actor that by (cases q) (auto simp: runsWith_def Let_def)
  have "j = k" if "runsWith h' j inst n" "runsWith h' k inst n'" for j k inst n n'
    using that old own counterInv_inj [OF assms(1)] by metis
  moreover have "case (N(i := q)) j of None \<Rightarrow> uh_objects h' j = None \<and> mv_instances (snd (uh_world h')) j = None
      | Some n \<Rightarrow> \<exists>inst. runsWith h' j inst n" for j
  proof (cases "j = i")
    case False
    with others [OF False] idle [OF False] counterInv_running [OF assms(1), of j] counterInv_idle [OF assms(1), of j] show ?thesis
      by (cases "N j") auto
  qed (use actor in \<open>auto split: option.splits\<close>)
  ultimately show ?thesis using assms(2) unfolding counterInv_def by blast
qed

lemma utilHost_cases: obtains H r m v where "h = \<lparr>uh_objects = H, uh_world = ((r, m), v)\<rparr>"
  by (metis utilHost.surjective old.unit.exhaust surj_pair)

lemma hostStart_counter:
  assumes "counterInv h N"
  shows "\<exists>r h'. hostStart (utilModule W d) i h = (r, h') \<and> agrees r (fst (counterEvent (Start i) N)) \<and> counterInv h' (snd (counterEvent (Start i) N))"
proof (cases "N i")
  case (Some n)
  then have "mv_instances (snd (uh_world h)) i \<noteq> None" using counterInv_running [OF assms Some] by (auto simp: runsWith_def Let_def)
  then show ?thesis using assms Some
    by (auto simp: hostStart_def moduleInstantiate_def besideCell_def counterInv_def)
next
  case None
  obtain H r m v where h: "h = \<lparr>uh_objects = H, uh_world = ((r, m), v)\<rparr>" by (rule utilHost_cases)
  let ?m = "m\<lparr>um_vars := (um_vars m)(um_next m := freshVars), um_next := Suc (um_next m)\<rparr>"
  let ?v = "v\<lparr>mv_instances := (mv_instances v)(i \<mapsto> um_next m),
    mv_objects := (mv_objects v)(mv_next v \<mapsto> \<lparr>oj_locked = False, oj_instance = um_next m, oj_id = i\<rparr>), mv_next := Suc (mv_next v)\<rparr>"
  let ?h = "\<lparr>uh_objects = H(i \<mapsto> mv_next v), uh_world = ((r, ?m), ?v)\<rparr>"
  have "\<not> mv_locked v" "mv_instances v i = None" using assms counterInv_idle [OF assms None] h by (simp_all add: counterInv_def)
  then have "hostStart (utilModule W d) i h = (Ret [], ?h)"
    using h by (cases v) (simp add: hostStart_def moduleInstantiate_def utilModule_def besideCell_def setVars_def newDurableObject_def Let_def)
  moreover have "counterInv ?h (N(i := Some 0))"
    by (rule counterInv_step [OF assms]) (use \<open>\<not> mv_locked v\<close> h in \<open>auto simp: runsWith_def freshVars_def is_i64_def Let_def split: option.splits\<close>)
  ultimately show ?thesis using None by (auto simp: dom_def)
qed

lemma counter_ops_run:
  assumes "operation \<in> counterOps" "is_i64 n" "gv_count v = n"
  shows "\<exists>b. utilInvoke W operation payload v = (GReturn b, v\<lparr>gv_count := snd (counterCall operation n)\<rparr>) \<and> fst (counterCall operation n) = b"
proof -
  have v: "v\<lparr>gv_count := n\<rparr> = v" using assms(3) by (cases v) simp
  consider "operation = ''inc''" | "operation = ''incFast''" | "operation = ''dec''" | "operation = ''getCount''"
    using assms(1) by (auto simp: counterOps_def)
  then show ?thesis
    using assms(2,3) v by cases (simp_all add: counterCall_def inc_def incFast_def dec_def getCount_def Let_def)
qed

lemma hostCall_counter:
  assumes "counterInv h N" "operation \<in> counterOps"
  shows "\<exists>r h'. hostCall (utilModule W d) ctx i operation payload h = (r, h')
    \<and> agrees r (fst (counterEvent (Call i operation payload) N)) \<and> counterInv h' (snd (counterEvent (Call i operation payload) N))"
proof (cases "N i")
  case None
  then show ?thesis using assms(1) counterInv_idle [OF assms(1) None] by (auto simp: hostCall_def)
next
  case (Some n)
  obtain H r m v where h: "h = \<lparr>uh_objects = H, uh_world = ((r, m), v)\<rparr>" by (rule utilHost_cases)
  obtain inst where run: "runsWith h i inst n" using counterInv_running [OF assms(1) Some] by blast
  let ?ob = "\<lparr>oj_locked = False, oj_instance = inst, oj_id = i\<rparr>" and ?n = "snd (counterCall operation n)"
  from run h obtain x where x: "H i = Some x" "mv_objects v x = Some ?ob" "is_i64 n" "gv_count (um_vars m inst) = n"
    by (auto simp: runsWith_def Let_def split: option.splits)
  let ?m = "m\<lparr>um_vars := (um_vars m)(inst := (um_vars m inst)\<lparr>gv_count := ?n\<rparr>)\<rparr>"
  obtain b where b: "utilInvoke W operation payload (um_vars m inst) = (GReturn b, (um_vars m inst)\<lparr>gv_count := ?n\<rparr>)" "fst (counterCall operation n) = b"
    using counter_ops_run [OF assms(2) x(3,4)] by blast
  have "lockObject False x (lockObject True x v) = v" using lock_unlock [of v x ?ob] x(2) by simp
  then have "objectInvoke (utilModule W d) besideCell x ctx operation (Some payload) (((r, m), v), freshLazy) = (Ret b, (((r, ?m), v), freshLazy))"
    using x(2) b(1)
    by (simp add: objectInvoke_def withObject_def pairCell_def besideCell_def setVars_def utilModule_def bytesOf_def)
  then have "hostCall (utilModule W d) ctx i operation payload h = (Ret b, \<lparr>uh_objects = H, uh_world = ((r, ?m), v)\<rparr>)"
    using h x(1) by (simp add: hostCall_def)
  moreover have "counterInv \<lparr>uh_objects = H, uh_world = ((r, ?m), v)\<rparr> (N(i := Some ?n))"
  proof (rule counterInv_step [OF assms(1)], goal_cases)
    case (2 j inst' k)
    then have "inst' \<noteq> inst" using counterInv_inj [OF assms(1) _ run] by blast
    with 2 h show ?case by (auto simp: runsWith_def Let_def)
  next
    case 4
    have "is_i64 ?n" by (simp add: counterCall_def Let_def)
    then have "runsWith \<lparr>uh_objects = H, uh_world = ((r, ?m), v)\<rparr> i inst ?n" using run h by (auto simp: runsWith_def Let_def)
    moreover have "\<not> runsWith h j inst k" if "j \<noteq> i" for j k using counterInv_inj [OF assms(1) _ run] that by blast
    ultimately show ?case by auto
  qed (use assms(1) h in \<open>auto simp: counterInv_def\<close>)
  ultimately show ?thesis using Some b(2) by (auto split: prod.splits)
qed

lemma hostStop_counter:
  assumes "counterInv h N"
  shows "\<exists>r h'. hostStop (utilModule W d) i h = (r, h') \<and> agrees r (fst (counterEvent (Stop i) N)) \<and> counterInv h' (snd (counterEvent (Stop i) N))"
proof (cases "N i")
  case None
  then show ?thesis using assms counterInv_idle [OF assms None] by (auto simp: hostStop_def)
next
  case (Some n)
  obtain H r m v where h: "h = \<lparr>uh_objects = H, uh_world = ((r, m), v)\<rparr>" by (rule utilHost_cases)
  obtain inst where run: "runsWith h i inst n" using counterInv_running [OF assms Some] by blast
  let ?ob = "\<lparr>oj_locked = False, oj_instance = inst, oj_id = i\<rparr>"
  from run h obtain x where x: "H i = Some x" "mv_objects v x = Some ?ob" by (auto simp: runsWith_def Let_def split: option.splits)
  let ?v = "v\<lparr>mv_instances := (mv_instances v)(i := None)\<rparr>" and ?h = "\<lparr>uh_objects = H(i := None), uh_world = ((r, m), v\<lparr>mv_instances := (mv_instances v)(i := None)\<rparr>)\<rparr>"
  have unlocked: "\<not> mv_locked v" using assms h by (simp add: counterInv_def)
  moreover have "lockObject False x ((lockObject True x v)\<lparr>mv_instances := f\<rparr>) = v\<lparr>mv_instances := f\<rparr>" for f
    using x(2) by (cases v) (simp add: lockObject_def fun_upd_idem)
  ultimately have "hostStop (utilModule W d) i h = (Ret [], ?h)"
    using h x by (simp add: hostStop_def objectClose_def withObject_def andThen_def onClose_def utilModule_def besideCell_def setVars_def)
  moreover have "counterInv ?h (N(i := None))"
    by (rule counterInv_step [OF assms]) (use unlocked h in \<open>auto simp: runsWith_def Let_def split: option.splits\<close>)
  ultimately show ?thesis using Some by (auto simp: dom_def)
qed

lemma hostRun_counters:
  assumes "counterInv h N" "list_all counterOnly evs"
  shows "list_all2 agrees (hostRun (utilModule W d) ctx evs h) (counterRun evs N)"
  using assms
proof (induction evs arbitrary: h N)
  case (Cons ev evs)
  have "\<exists>r h'. hostEvent (utilModule W d) ctx ev h = (r, h') \<and> agrees r (fst (counterEvent ev N)) \<and> counterInv h' (snd (counterEvent ev N))"
    using hostStart_counter [OF Cons.prems(1)] hostCall_counter [OF Cons.prems(1)] hostStop_counter [OF Cons.prems(1)] Cons.prems(2)
    by (cases ev) (simp_all del: counterEvent.simps)
  then obtain r h' where "hostEvent (utilModule W d) ctx ev h = (r, h')" "agrees r (fst (counterEvent ev N))" "counterInv h' (snd (counterEvent ev N))" by blast
  with Cons.IH [of h' "snd (counterEvent ev N)"] Cons.prems(2) show ?case by (simp add: case_prod_beta)
qed simp

text \<open>
  \<^bold>\<open>C18\<close> (actors of the test module count separately). Start actors of the module, call their counter operations and close them in any order:
  every answer is that of one 64-bit counter per running actor, which starts at zero, wraps around at the ends of its range, is not touched by the
  calls of other actors and is lost when the actor is closed. Starting an actor that is running is an error.
\<close>

theorem util_counters:
  assumes "list_all counterOnly evs"
  shows "list_all2 agrees (hostRun (utilModule W d) ctx evs \<lparr>uh_objects = Map.empty, uh_world = ((r, m), newModuleVars)\<rparr>) (counterRun evs Map.empty)"
  by (rule hostRun_counters [OF _ assms]) (simp add: counterInv_def newModuleVars_def runsWith_def)

definition exampleWapc :: wapcGuest where
  "exampleWapc = \<lparr>wg_hostError = Errorf ''host error'' [], wg_notFound = (\<lambda>operation. Errorf ''could not find function'' []), wg_trap = Errorf ''trap'' []\<rparr>"

lemma small_numbers:
  "go_bytes (decInt 0) = [48]" "go_bytes (decInt 1) = [49]" "go_bytes (decInt 2) = [50]" "go_bytes (decInt 12) = [49, 50]"
  "go_bytes (decInt (- 1)) = [45, 49]"
  by code_simp+

theorem util_counters_witness:
  "list_all2 agrees
     (hostRun (utilModule exampleWapc exampleRouter) \<lparr>cx_actorReference = None, cx_txn = None\<rparr>
        [Start ''a'', Start ''b'', Call ''a'' ''inc'' [], Call ''b'' ''dec'' [], Call ''a'' ''inc'' [], Start ''a'', Stop ''a'', Call ''a'' ''inc'' [],
         Start ''a'', Call ''a'' ''getCount'' []]
        \<lparr>uh_objects = Map.empty, uh_world = (((), \<lparr>um_vars = (\<lambda>_. freshVars), um_next = 0\<rparr>), newModuleVars)\<rparr>)
     [Some [], Some [], Some [49], Some [45, 49], Some [50], None, Some [], None, Some [], Some [48]]"
  using util_counters [of "[Start ''a'', Start ''b'', Call ''a'' ''inc'' [], Call ''b'' ''dec'' [], Call ''a'' ''inc'' [], Start ''a'', Stop ''a'',
      Call ''a'' ''inc'' [], Start ''a'', Call ''a'' ''getCount'' []]" exampleWapc exampleRouter "\<lparr>cx_actorReference = None, cx_txn = None\<rparr>"
      "()" "\<lparr>um_vars = (\<lambda>_. freshVars), um_next = 0\<rparr>"]
  by (simp add: counterOps_def counterCall_def is_i64_def small_numbers Let_def)

subsection \<open>Storage of actors\<close>

text \<open>The operations on the storage, as transactions: what they return and leave behind when the server may write.\<close>

definition mayWrite :: "virtualRef \<Rightarrow> string \<Rightarrow> int \<Rightarrow> regState \<Rightarrow> bool" where
  "mayWrite ref sid ver A \<longleftrightarrow> validId (vr_namespace ref) \<and> fenced (vr_namespace ref) (vr_actorID ref) (vr_moduleID ref) sid ver A"

definition storedAt :: "virtualRef \<Rightarrow> regState \<Rightarrow> bytes \<rightharpoonup> bytes" where
  "storedAt ref A = storageOf (vr_namespace ref) (vr_actorID ref) (vr_moduleID ref) A"

definition storing :: "virtualRef \<Rightarrow> (bytes \<rightharpoonup> bytes) \<Rightarrow> regState \<Rightarrow> regState" where
  "storing ref st A = setStorage (vr_namespace ref) (vr_actorID ref) (vr_moduleID ref) st A"

lemmas transact_defs = absTransact_def mayWrite_def storedAt_def storing_def usesStorage_def Let_def

lemma put_meaning:
  assumes "length (putPayload k v) < 2 ^ 63"
  shows "guestMeaning fns (HostCall b n KVPutOperationName (putPayload k v) c)
    = PutThen k (go_bytes (decInt (gv_count v))) (\<lambda>ok. guestMeaning fns (c (if ok then Some [] else None)))"
  using put_payload_roundtrip [OF assms [unfolded putPayload_def]] by (simp add: putPayload_def answer_def)

lemma putCount_transact:
  assumes "mayWrite ref sid ver A" "okKey k" "length (putPayload k v) < 2 ^ 63"
  shows "absTransact ref sid ver (guestMeaning fns (fst (utilInvoke W ''kvPutCount'' k v))) A
    = (Some [], storing ref ((storedAt ref A)(k \<mapsto> go_bytes (decInt (gv_count v)))) A)"
  using assms(1,2) by (simp add: putCount_def put_meaning [OF assms(3)] transact_defs del: guestMeaning.simps(3))

lemma putCountError_transact:
  assumes "length (putPayload k v) < 2 ^ 63"
  shows "absTransact ref sid ver (guestMeaning fns (fst (utilInvoke W ''kvPutCountError'' k v))) A = (None, A)"
  by (simp add: putCountError_def put_meaning [OF assms] transact_defs del: guestMeaning.simps(3))

lemma kvGet_transact:
  assumes "mayWrite ref sid ver A" "okKey k"
  shows "absTransact ref sid ver (guestMeaning fns (fst (utilInvoke W ''kvGet'' k v))) A = (Some (bytesOf (storedAt ref A k)), A)"
  using assms
  by (cases "storageOf (vr_namespace ref) (vr_actorID ref) (vr_moduleID ref) A k")
    (simp_all add: kvGet_def transact_defs operation_names bytesOf_def)

text \<open>The host has no operation \<open>CREATE-ACTOR\<close>.\<close>

lemma fork_transact:
  assumes "fns CreateActorOperationName = None"
  shows "absTransact ref sid ver (guestMeaning fns (fst (utilInvoke W ''fork'' k v))) A = (None, A)"
  using assms by (simp add: fork_def passThrough_def transact_defs operation_names customAnswer_def)

lemma util_plain:
  assumes "operation \<in> {''kvPutCount'', ''kvPutCountError'', ''kvGet'', ''fork''}"
  shows "plainGuest (fst (utilInvoke W operation payload v))"
  using assms by (auto simp: putCount_def putCountError_def kvGet_def fork_def passThrough_def operation_names Let_def split: option.split list.split)

text \<open>An actor of the module, in the environment of a server that may write to its storage.\<close>

definition utilServer ::
  "('s, 'c) environment \<Rightarrow> 's registry \<Rightarrow> wapcGuest \<Rightarrow> utilVars \<Rightarrow> actorReferenceVirtual \<Rightarrow> (string \<rightharpoonup> (bytes \<Rightarrow> bytes outcome)) \<Rightarrow> regState \<Rightarrow> bool" where
  "utilServer env R W v reference fns A \<longleftrightarrow> as_registry (en_activations env) = R
     \<and> (\<exists>invokeActor moduleID. activeGuest (en_activations env) reference (moduleRouter invokeActor fns moduleID)
           (\<lambda>operation payload. fst (utilInvoke W operation payload v)))
     \<and> mayWrite (refVirtual reference) (as_serverID (en_activations env)) (as_serverVersion (en_activations env)) A
     \<and> okNs (vr_namespace (refVirtual reference)) \<and> (\<forall>operation f payload. fns operation = Some f \<longrightarrow> answered (f payload))"

lemma util_direct:
  assumes "btree_contract bt m tinv" "localHolds m tinv (pr_state w) A" "pr_envs w e = Some env" "utilServer env (NewLocalRegistry bt) W v reference fns A"
    and "accepts env vs sid ver"
    and "operation \<in> {''kvPutCount'', ''kvPutCountError'', ''kvGet'', ''fork''}"
    and "absTransact (refVirtual reference) (as_serverID (en_activations env)) (as_serverVersion (en_activations env))
           (guestMeaning fns (fst (utilInvoke W operation k v))) A = (res, A')"
  shows "\<exists>r w'. InvokeActorDirect e vs sid ver reference operation k create w = (r, w') \<and> agrees r res \<and> localHolds m tinv (pr_state w') A'"
proof -
  obtain invokeActor moduleID where guest: "activeGuest (en_activations env) reference (moduleRouter invokeActor fns moduleID)
      (\<lambda>operation payload. fst (utilInvoke W operation payload v))"
    and env: "as_registry (en_activations env) = NewLocalRegistry bt" "okNs (vr_namespace (refVirtual reference))"
    using assms(4) by (auto simp: utilServer_def)
  have fns: "answered (f payload)" if "fns operation = Some f" for operation f payload using assms(4) that by (auto simp: utilServer_def)
  show ?thesis
    by (rule wasm_direct [where guest = "\<lambda>operation payload. fst (utilInvoke W operation payload v)" and fns = fns and A = A, OF assms(1-3) guest])
      (use util_plain [OF assms(6)] fns env assms(5,7) in auto)
qed

text \<open>
  \<^bold>\<open>C19\<close> (the storage of the test module). On a server that owns the actor and has it activated, open and idle, \<open>kvPutCount\<close> stores the decimal digits of the counter under the key, and nothing else
  changes in the whole registry; \<open>kvPutCountError\<close> makes the same put and fails, which leaves no trace of it; \<open>kvGet\<close> answers with the
  stored value, or with no bytes if there is none; and \<open>fork\<close> fails, because the host has no operation \<open>CREATE-ACTOR\<close>.
\<close>

theorem util_storage:
  assumes "btree_contract bt m tinv" "localHolds m tinv (pr_state w) A" "pr_envs w e = Some env" "utilServer env (NewLocalRegistry bt) W v reference fns A"
    and "fns CreateActorOperationName = None" "accepts env vs sid ver"
    and "okKey k" "length (putPayload k v) < 2 ^ 63"
  shows "(\<exists>w'. InvokeActorDirect e vs sid ver reference ''kvPutCount'' k create w = (Ret [], w')
      \<and> localHolds m tinv (pr_state w') (storing (refVirtual reference) ((storedAt (refVirtual reference) A)(k \<mapsto> go_bytes (decInt (gv_count v)))) A))
    \<and> (\<exists>err w'. InvokeActorDirect e vs sid ver reference ''kvPutCountError'' k create w = (Fail err, w') \<and> localHolds m tinv (pr_state w') A)
    \<and> (\<exists>w'. InvokeActorDirect e vs sid ver reference ''kvGet'' k create w = (Ret (bytesOf (storedAt (refVirtual reference) A k)), w')
      \<and> localHolds m tinv (pr_state w') A)
    \<and> (\<exists>err w'. InvokeActorDirect e vs sid ver reference ''fork'' k create w = (Fail err, w') \<and> localHolds m tinv (pr_state w') A)"
proof -
  note direct = util_direct [OF assms(1-4,6), where k = k and create = create]
  have may: "mayWrite (refVirtual reference) (as_serverID (en_activations env)) (as_serverVersion (en_activations env)) A"
    using assms(4) by (simp add: utilServer_def)
  have "\<exists>w'. InvokeActorDirect e vs sid ver reference ''kvPutCount'' k create w = (Ret [], w')
      \<and> localHolds m tinv (pr_state w') (storing (refVirtual reference) ((storedAt (refVirtual reference) A)(k \<mapsto> go_bytes (decInt (gv_count v)))) A)"
    using direct [OF _ putCount_transact [OF may assms(7,8)]] by simp
  moreover have "\<exists>err w'. InvokeActorDirect e vs sid ver reference ''kvPutCountError'' k create w = (Fail err, w') \<and> localHolds m tinv (pr_state w') A"
    using direct [OF _ putCountError_transact [OF assms(8)]] by fastforce
  moreover have "\<exists>w'. InvokeActorDirect e vs sid ver reference ''kvGet'' k create w = (Ret (bytesOf (storedAt (refVirtual reference) A k)), w')
      \<and> localHolds m tinv (pr_state w') A"
    using direct [OF _ kvGet_transact [OF may assms(7)]] by simp
  moreover have "\<exists>err w'. InvokeActorDirect e vs sid ver reference ''fork'' k create w = (Fail err, w') \<and> localHolds m tinv (pr_state w') A"
    using direct [OF _ fork_transact [where fns = fns, OF assms(5)]] by fastforce
  ultimately show ?thesis by (intro conjI)
qed

definition utilEnv :: "(tree localKV, unit) environment" where
  "utilEnv = exampleEnv\<lparr>en_activations :=
     (activated (exampleRef 1) (wazeroActor (guestObject exampleRouter (\<lambda>operation payload. fst (utilInvoke exampleWapc operation payload (freshVars\<lparr>gv_count := 12\<rparr>))))
        (exampleRef 1)) (exampleServer (NewLocalRegistry rbtOps)))\<lparr>as_serverID := ''s1'', as_serverVersion := 1\<rparr>\<rparr>"

lemma utilEnv_server: "utilServer utilEnv (NewLocalRegistry rbtOps) exampleWapc (freshVars\<lparr>gv_count := 12\<rparr>) (exampleRef 1) Map.empty (sampleState 1 0 1 0)"
  unfolding utilServer_def
  by (intro conjI exI [of _ "\<lambda>namespace a m operation payload create. fail (Errorf ''offline'' [])"] exI [of _ "NewNamespacedID ''ns'' ''m'' IDTypeActor"])
    (simp_all add: utilEnv_def exampleEnv_def activeGuest_def exampleServer_def newObject_def exampleRef_def futureWait_def exampleRouter_def [symmetric]
      activated_def settled_def setObject_def installFuture_def futureSettle_def futureNew_def mayWrite_def sample_fenced Let_def)

theorem util_storage_witness:
  "\<exists>w'. InvokeActorDirect 0 8 ''s1'' 1 (exampleRef 1) ''kvPutCount'' [107] exampleCreate (exampleProcess\<lparr>pr_envs := [0 \<mapsto> utilEnv]\<rparr>) = (Ret [], w')
     \<and> localHolds RBT.lookup (\<lambda>_. True) (pr_state w') (storing (refVirtual (exampleRef 1)) [[107] \<mapsto> [49, 50]] (sampleState 1 0 1 0))"
proof -
  let ?w = "exampleProcess\<lparr>pr_envs := [0 \<mapsto> utilEnv]\<rparr>" and ?v = "freshVars\<lparr>gv_count := 12\<rparr>"
  have h: "localHolds RBT.lookup (\<lambda>_. True) (pr_state ?w) (sampleState 1 0 1 0)" using exampleProcess_holds by simp
  have acc: "accepts utilEnv 8 ''s1'' 1" by (simp add: utilEnv_def accepts_def exampleEnv_def is_i64_def)
  have "storedAt (refVirtual (exampleRef 1)) (sampleState 1 0 1 0) = Map.empty"
    by (simp add: storedAt_def storageOf_def fun_eq_iff sampleState_def emptyRegistry_def)
  moreover have "length (putPayload [107] ?v) < 2 ^ 63"
    by (simp add: putPayload_def EncodePutPayload_def putVarint_def putUvarint.simps small_numbers Let_def)
  ultimately show ?thesis
    using util_storage [OF rbt_contract h _ utilEnv_server _ acc, of 0 "[107]" exampleCreate, THEN conjunct1]
    by (simp add: okKey_def small_numbers)
qed

end
