(* ===== verification/DNS_Example.thy ===== *)
theory DNS_Example
  imports HTTP_Transport
begin

section \<open>Environments with the DNS registry, and the example: \<open>virtual/environment.go\<close>, \<open>examples/dnsregistry/main.go\<close>\<close>

text \<open>
  \<open>NewDNSRegistryEnvironment\<close> puts the DNS registry and an environment together; the example program registers a Go module in such an
  environment and increments the counters of ten actors in turn. The state outside the environments is the registry and the memory of the
  actors side by side. The property is about all of it: discovery, hash ring, reference, routing, activation, actor.
\<close>

subsection \<open>The registry beside the memory of the actors\<close>

definition beside :: "('s, 'a) call \<Rightarrow> ('s \<times> 'm, 'a) call" where
  "beside f sm = (case f (fst sm) of (r, s') \<Rightarrow> (r, (s', snd sm)))"

definition besideTransaction :: "'s actorKVTransaction \<Rightarrow> ('s \<times> 'm) actorKVTransaction" where
  "besideTransaction tr =
     \<lparr>aPut = (\<lambda>k v. beside (aPut tr k v)), aGet = (\<lambda>k. beside (aGet tr k)), aCommit = beside (aCommit tr), aCancel = beside (aCancel tr)\<rparr>"

definition besideRegistry :: "'s registry \<Rightarrow> ('s \<times> 'm) registry" where
  "besideRegistry r =
     \<lparr>rRegisterModule = (\<lambda>ns m b opts. beside (rRegisterModule r ns m b opts)), rGetModule = (\<lambda>ns m. beside (rGetModule r ns m)),
      rIncGeneration = (\<lambda>ns a m. beside (rIncGeneration r ns a m)), rEnsureActivation = (\<lambda>ns a m. beside (rEnsureActivation r ns a m)),
      rGetVersionStamp = beside (rGetVersionStamp r),
      rBeginTransaction = (\<lambda>ns a m sid ver. andThen (beside (rBeginTransaction r ns a m sid ver)) (\<lambda>tr. ret (besideTransaction tr))),
      rHeartbeat = (\<lambda>i hs. beside (rHeartbeat r i hs)), rClose = beside (rClose r), rUnsafeWipeAll = beside (rUnsafeWipeAll r)\<rparr>"

subsection \<open>\<open>NewDNSRegistryEnvironment\<close>\<close>

text \<open>The interfaces of the machine, \<open>net.LookupIP\<close> with its state \<open>net\<close>, and the HTTP client are arguments.\<close>

definition createDNSRegistry ::
  "(string \<Rightarrow> ('r, bytes list) call) \<Rightarrow> 'r \<Rightarrow> string \<Rightarrow> int \<Rightarrow> (('r dnsRegistry \<times> 'm, 'c) process, unit) call" where
  "createDNSRegistry netLookupIP net host port w =
     (case NewDNSRegistry netLookupIP net host port 0 of
        Ret d \<Rightarrow> (Ret (), w\<lparr>pr_state := (d, snd (pr_state w))\<rparr>)
      | Fail e \<Rightarrow> (Fail (wrap ''error creating DNS registry: %w'' e), w)
      | Panic p \<Rightarrow> (Panic p, w)
      | Blocked \<Rightarrow> (Blocked, w))"

definition NewDNSRegistryEnvironment ::
  "nat \<Rightarrow> ifaceAddr list outcome \<Rightarrow> (string \<Rightarrow> ('r, bytes list) call) \<Rightarrow> 'r \<Rightarrow> ('r dnsRegistry \<times> 'm) remoteClient
   \<Rightarrow> string \<Rightarrow> int \<Rightarrow> EnvironmentOptions \<Rightarrow> (('r dnsRegistry \<times> 'm, 'c) process, unit) call" where
  "NewDNSRegistryEnvironment e interfaceAddrs netLookupIP net client host port opts =
     andThen (lift (dnsEnvironmentOptions host port opts)) (\<lambda>opts'.
     andThen (createDNSRegistry netLookupIP net host port) (\<lambda>_.
       onError (wrap ''error creating new virtual environment: %w'')
         (NewEnvironment e interfaceAddrs DNSServerID (besideRegistry (dnsOps (resolverFor netLookupIP host))) client opts')))"

definition NewTestDNSRegistryEnvironment ::
  "nat \<Rightarrow> ifaceAddr list outcome \<Rightarrow> (string \<Rightarrow> ('r, bytes list) call) \<Rightarrow> 'r \<Rightarrow> ('r dnsRegistry \<times> 'm) remoteClient
   \<Rightarrow> EnvironmentOptions \<Rightarrow> (('r dnsRegistry \<times> 'm, 'c) process, unit) call" where
  "NewTestDNSRegistryEnvironment e interfaceAddrs netLookupIP net client opts =
     NewDNSRegistryEnvironment e interfaceAddrs netLookupIP net client Localhost 9093 opts"

subsection \<open>The actor of the example\<close>

text \<open>The objects \<open>testActor\<close> live in the memory; a pointer is a number.\<close>

record testMemory =
  tm_count :: "nat \<Rightarrow> int"
  tm_next :: nat

definition testInvoke ::
  "nat \<Rightarrow> string \<Rightarrow> bytes option \<Rightarrow> ('s \<times> testMemory) lazyTr option \<Rightarrow> (('s \<times> testMemory) \<times> ('s \<times> testMemory) lazyState, bytes) call" where
  "testInvoke ta operation payload transaction sz =
     (if operation = StartupOperationName then (Ret [], sz)
      else if operation = ShutdownOperationName then (Ret [], sz)
      else if operation = ''inc'' then
        (let ((s, m), z) = sz; count = i64 (tm_count m ta + 1) in
         (Ret (go_bytes (decInt count)), ((s, m\<lparr>tm_count := (tm_count m)(ta := count)\<rparr>), z)))
      else (Fail (Errorf ''testActor: unhandled operation: %s'' [AStr operation]), sz))"

definition testActor :: "nat \<Rightarrow> ('s \<times> testMemory) Actor" where
  "testActor ta = \<lparr>ac_InvokeStream = None, ac_Invoke = Some (testInvoke ta), ac_Close = ret ()\<rparr>"

definition testModule :: "('s \<times> testMemory) Module" where
  "testModule =
     \<lparr>mo_Instantiate = (\<lambda>reference payload host (s, m).
        (Ret (testActor (tm_next m)), (s, m\<lparr>tm_count := (tm_count m)(tm_next m := 0), tm_next := Suc (tm_next m)\<rparr>)))\<rparr>"

subsection \<open>The program\<close>

text \<open>The zero value of the options, and \<open>main\<close> up to the registration of the module; \<open>log.Fatalf\<close> ends the program.\<close>

definition zeroOptions :: EnvironmentOptions where
  "zeroOptions =
     \<lparr>eo_ActivationCacheTTL = 0, eo_DisableActivationCache = False, eo_Discovery = \<lparr>do_DiscoveryType = [], do_Port = 0\<rparr>,
      eo_ForceRemoteProcedureCalls = False, eo_CustomHostFns = Map.empty, eo_GCActorsAfter = 0\<rparr>"

definition exampleSetup ::
  "nat \<Rightarrow> ifaceAddr list outcome \<Rightarrow> (string \<Rightarrow> ('r, bytes list) call) \<Rightarrow> 'r \<Rightarrow> ('r dnsRegistry \<times> testMemory) remoteClient
   \<Rightarrow> string \<Rightarrow> int \<Rightarrow> (('r dnsRegistry \<times> testMemory, 'c) process, unit) call" where
  "exampleSetup e interfaceAddrs netLookupIP net client host port =
     (if host = [] then fail (Errorf ''host cannot be empty'' [])
      else
        andThen (onError (wrap ''error creating virtual environment: %v'')
                   (NewDNSRegistryEnvironment e interfaceAddrs netLookupIP net client host port zeroOptions)) (\<lambda>_.
          onError (wrap ''error registering Go module with virtual environment: %v'')
            (envRegisterGoModule e (NewNamespacedIDNoType ''example'' ''test-module'') testModule)))"

text \<open>\<open>strconv.ParseInt(s, 10, 64)\<close>.\<close>

definition parseInt :: "string \<Rightarrow> int option" where
  "parseInt s =
     (case s of
        c # r \<Rightarrow> if c = CHR ''+'' then Option.bind (parseDigits r) (\<lambda>n. if is_i64 (int n) then Some (int n) else None) else parseInt64 s
      | [] \<Rightarrow> None)"

text \<open>One round of the loop: the number that is logged, or \<open>None\<close> when an error is.\<close>

definition actorName :: "nat \<Rightarrow> string" where
  "actorName i = ''actor-'' @ decInt (int (i mod 10))"

definition clientStep :: "nat \<Rightarrow> nat \<Rightarrow> (('s, 'c) process, int option) call" where
  "clientStep e i w =
     (case InvokeActor e ''example'' (actorName i) ''test-module'' ''inc'' [] zeroCreate w of
        (Ret resp, w') \<Rightarrow>
          (case parseInt (go_string resp) of
             Some v \<Rightarrow> (Ret (Some v), w')
           | None \<Rightarrow> (Panic ''actor %s returned unparseable response: %v'', w'))
      | (Fail _, w') \<Rightarrow> (Ret None, w')
      | (Panic p, w') \<Rightarrow> (Panic p, w')
      | (Blocked, w') \<Rightarrow> (Blocked, w'))"

text \<open>
  What runs beside the loop: the heartbeats of the environment, the lookups of the registry (with the resolver as it is then) and the timers that
  collect idle actors. A timer function of any object may run at any time: it checks itself how long the actor has been idle.
\<close>

datatype 'r background = HeartbeatTicker | DiscoveryTicker 'r | GcTimer nat

definition backgroundStep ::
  "'r DNSResolver \<Rightarrow> nat \<Rightarrow> int \<Rightarrow> 'r background \<Rightarrow> (('r dnsRegistry \<times> 'm, 'c) process, unit) call" where
  "backgroundStep resolver e now ev =
     (case ev of
        HeartbeatTicker \<Rightarrow> heartbeatLoop e [HeartbeatTick]
      | DiscoveryTicker r \<Rightarrow> onRegistry (beside (discoveryEvents resolver [TickerC r]))
      | GcTimer x \<Rightarrow> onActivations e (\<lambda>sa. if as_objects (snd sa) x = None then (Ret (), sa) else gcFunc now x sa))"

text \<open>The events while the client waits for its next round, each with the time since the last round.\<close>

fun backgroundEvents :: "'r DNSResolver \<Rightarrow> nat \<Rightarrow> (int \<times> 'r background) list \<Rightarrow> (('r dnsRegistry \<times> 'm, 'c) process, unit) call" where
  "backgroundEvents resolver e [] = ret ()"
| "backgroundEvents resolver e ((d, ev) # evs) =
     andThen (\<lambda>w. backgroundStep resolver e (pr_now w + d) ev w) (\<lambda>_. backgroundEvents resolver e evs)"

text \<open>The loop, under a schedule: how long each round takes until its invocation, and what happens meanwhile.\<close>

fun clientLoop ::
  "'r DNSResolver \<Rightarrow> nat \<Rightarrow> (nat \<Rightarrow> int \<times> (int \<times> 'r background) list) \<Rightarrow> nat \<Rightarrow> nat
   \<Rightarrow> (('r dnsRegistry \<times> 'm, 'c) process, int option list) call" where
  "clientLoop resolver e sched 0 i = ret []"
| "clientLoop resolver e sched (Suc n) i =
     andThen (backgroundEvents resolver e (snd (sched i))) (\<lambda>_.
     andThen (\<lambda>w. clientStep e i (w\<lparr>pr_now := pr_now w + fst (sched i)\<rparr>)) (\<lambda>v.
     andThen (clientLoop resolver e sched n (i + 1)) (\<lambda>vs. ret (v # vs))))"

subsection \<open>Invocations of the actor\<close>

lemma hostTransact_plain:
  assumes "\<And>tr. fn tr (s, freshLazy) = (Ret r, (s', freshLazy))"
  shows "hostTransact h fn s = (Ret r, s')"
proof -
  have "\<exists>z. aCommit (lazyOps l) (s', freshLazy) = (Ret (), (s', z))" for l :: "'a lazyActorTransaction"
    by (simp add: lazyOps_def lazyCommit_def maybeInitTr_def checkErr_def freshLazy_def andThen_def onError_def)
  then obtain z where "aCommit (lazyOps (newLazyActorTransaction (hc_reg h) (hc_getServerStateFn h) (hc_reference h))) (s', freshLazy) = (Ret (), (s', z))"
    by blast
  then show ?thesis by (simp add: hostTransact_def Let_def assms)
qed

lemma callActor_test:
  "callActor (testActor y) operation payload (Some tr) sz = andThen (testInvoke y operation payload (Some tr)) (\<lambda>b. ret (BytesResult b)) sz"
  by (simp add: callActor_def testActor_def)

lemma test_inc:
  assumes "is_i64 (tm_count m y + 1)"
  shows "hostTransact h (\<lambda>tr. callActor (testActor y) ''inc'' payload (Some tr)) (s, m)
    = (Ret (BytesResult (go_bytes (decInt (tm_count m y + 1)))), (s, m\<lparr>tm_count := (tm_count m)(y := tm_count m y + 1)\<rparr>))"
  by (rule hostTransact_plain) (use assms in
    \<open>simp add: callActor_test testInvoke_def StartupOperationName_def ShutdownOperationName_def andThen_def i64_id Let_def\<close>)

lemma test_startup:
  "hostTransact h (\<lambda>tr. callActor (testActor y) StartupOperationName payload (Some tr)) sm = (Ret (BytesResult []), sm)"
  by (rule hostTransact_plain) (simp add: callActor_test testInvoke_def andThen_def)

text \<open>The object of an open and idle actor of the module with its counter, which is collected after a minute.\<close>

definition testObject :: "actorReferenceVirtual \<Rightarrow> nat \<Rightarrow> ('s \<times> testMemory) activatedActor \<Rightarrow> bool" where
  "testObject reference y obj \<longleftrightarrow> \<not> aa_closed obj \<and> \<not> aa_locked obj \<and> refVirtual (aa_reference obj) = refVirtual reference \<and> aa_a obj = testActor y
     \<and> aa_gcAfter obj = 60 * 10 ^ 9"

lemma invokeObject_inc:
  assumes "as_objects a x = Some obj" "testObject reference y obj" "vr_idType (refVirtual reference) = IDTypeActor" "is_i64 (tm_count m y + 1)"
  shows "\<exists>obj'. testObject reference y obj' \<and> aa_lastInvoke obj' = now \<and> invokeObject now ''inc'' payload x ((s, m), a)
    = (Ret (wholeStream (go_bytes (decInt (tm_count m y + 1)))), ((s, m\<lparr>tm_count := (tm_count m)(y := tm_count m y + 1)\<rparr>), a\<lparr>as_objects := (as_objects a)(x \<mapsto> obj')\<rparr>))"
proof -
  let ?obj = "obj\<lparr>aa_lastInvoke := now, aa_gcTimer := now + aa_gcAfter obj\<rparr>"
  have "naid_IDType (refActorID (aa_reference obj)) \<noteq> IDTypeWorker"
    using assms(2,3) by (simp add: testObject_def refActorID_def vrActorID_def NewNamespacedActorID_def IDTypeActor_def IDTypeWorker_def)
  then have "actorInvoke h now ''inc'' payload False False ((s, m), obj)
      = (Ret (wholeStream (go_bytes (decInt (tm_count m y + 1)))), ((s, m\<lparr>tm_count := (tm_count m)(y := tm_count m y + 1)\<rparr>), ?obj))" for h
    using assms(2,4) by (simp add: actorInvoke_def invokeEnter_def testObject_def test_inc)
  then show ?thesis using assms(1,2)
    by (intro exI [of _ ?obj]) (simp add: invokeObject_def onObject_def testObject_def)
qed

lemma invokeObject_startup:
  assumes "as_objects a x = Some obj" "testObject reference y obj" "vr_idType (refVirtual reference) = IDTypeActor"
  shows "\<exists>obj'. testObject reference y obj' \<and> invokeObject now StartupOperationName payload x (sm, a)
    = (Ret (wholeStream []), (sm, a\<lparr>as_objects := (as_objects a)(x \<mapsto> obj')\<rparr>))"
proof -
  let ?obj = "obj\<lparr>aa_lastInvoke := now, aa_gcTimer := now + aa_gcAfter obj\<rparr>"
  have "naid_IDType (refActorID (aa_reference obj)) \<noteq> IDTypeWorker"
    using assms(2,3) by (simp add: testObject_def refActorID_def vrActorID_def NewNamespacedActorID_def IDTypeActor_def IDTypeWorker_def)
  then have "actorInvoke h now StartupOperationName payload False False (sm, obj) = (Ret (wholeStream []), (sm, ?obj))" for h
    using assms(2) by (simp add: actorInvoke_def invokeEnter_def testObject_def test_startup)
  then show ?thesis using assms(1,2)
    by (intro exI [of _ ?obj]) (simp add: invokeObject_def onObject_def testObject_def)
qed

text \<open>An activated actor: its future, its object and its counter.\<close>

definition counting ::
  "('s \<times> testMemory) activations \<Rightarrow> testMemory \<Rightarrow> actorReferenceVirtual \<Rightarrow> nat \<Rightarrow> nat \<Rightarrow> nat \<Rightarrow> int \<Rightarrow> bool" where
  "counting a m reference fut x y n \<longleftrightarrow>
     as_actors a (refActorID reference) = Some fut \<and> (\<exists>f. as_futures a fut = Some f \<and> futureWait f = Ret (Some x))
     \<and> (\<exists>obj. as_objects a x = Some obj \<and> testObject reference y obj)
     \<and> tm_count m y = n \<and> fut < as_next a \<and> x < as_next a \<and> y < tm_next m"

lemma invoke_counting:
  assumes "counting a m reference fut x y n" "\<not> as_locked a" "vr_idType (refVirtual reference) = IDTypeActor" "is_i64 (n + 1)"
  shows "\<exists>obj'. testObject reference y obj' \<and> aa_lastInvoke obj' = now \<and> invoke wasm now reference ''inc'' ip payload False ((s, m), a)
    = (Ret (wholeStream (go_bytes (decInt (n + 1)))), ((s, m\<lparr>tm_count := (tm_count m)(y := n + 1)\<rparr>), a\<lparr>as_objects := (as_objects a)(x \<mapsto> obj')\<rparr>))"
proof -
  obtain f obj where o: "as_actors a (refActorID reference) = Some fut" "as_futures a fut = Some f" "futureWait f = Ret (Some x)"
    "as_objects a x = Some obj" "testObject reference y obj" "tm_count m y = n"
    using assms(1) by (auto simp: counting_def)
  then have "invoke wasm now reference ''inc'' ip payload False ((s, m), a) = invokeObject now ''inc'' payload x ((s, m), a)"
    using assms(2) by (simp add: invoke_def Let_def invokeLookup_def waitFuture_def andThen_def invokeWaited_def refGeneration_def testObject_def)
  with invokeObject_inc [OF o(4,5) assms(3), of m] assms(4) o(6) show ?thesis by simp
qed

text \<open>The table of a server of the example: unlocked, with the Go module, and nothing else under its name.\<close>

definition exampleTable :: "'r DNSResolver \<Rightarrow> ('r dnsRegistry \<times> testMemory) activations \<Rightarrow> bool" where
  "exampleTable resolver a \<longleftrightarrow> \<not> as_locked a \<and> as_gcActorsAfter a = 60 * 10 ^ 9 \<and> as_registry a = besideRegistry (dnsOps resolver)
     \<and> as_goModules a (NewNamespacedIDNoType ''example'' ''test-module'') = Some testModule
     \<and> as_modules a (NewNamespacedID ''example'' ''test-module'' IDTypeActor) \<in> {None, Some testModule}"

lemma beside_ret [simp]: "beside (ret x) = ret x"
  by (auto simp: beside_def ret_def)

lemma ensure_testModule:
  assumes "exampleTable resolver a" "refModuleID reference = NewNamespacedID ''example'' ''test-module'' IDTypeActor"
  shows "\<exists>ms. ensureModule wasm (refModuleID reference) (sm, a) = (Ret testModule, (sm, a\<lparr>as_modules := ms\<rparr>))
    \<and> exampleTable resolver (a\<lparr>as_modules := ms\<rparr>)"
proof (cases "as_modules a (refModuleID reference)")
  case None
  then show ?thesis
    using assms by (intro exI [of _ "(as_modules a)(refModuleID reference \<mapsto> testModule)"])
      (auto simp: ensureModule_def fetchModule_def exampleTable_def besideRegistry_def dnsOps_def dnsGetModule_def buildModule_def NewNamespacedID_def)
next
  case (Some mo)
  then show ?thesis using assms by (intro exI [of _ "as_modules a"]) (auto simp: ensureModule_def exampleTable_def)
qed

lemma instantiate_test [simp]:
  "mo_Instantiate testModule reference payload host (s, m)
    = (Ret (testActor (tm_next m)), (s, m\<lparr>tm_count := (tm_count m)(tm_next m := 0), tm_next := Suc (tm_next m)\<rparr>))"
  "assertActorIface (testActor y) = Ret ()"
  by (simp_all add: testModule_def assertActorIface_def testActor_def)

lemma newActivatedActor_test:
  assumes "vr_idType (refVirtual reference) = IDTypeActor" "as_gcActorsAfter a = 60 * 10 ^ 9"
  shows "\<exists>obj. testObject reference y obj \<and> newActivatedActor now (testActor y) reference ip fut (sm, a)
    = (Ret (as_next a), (sm, a\<lparr>as_objects := (as_objects a)(as_next a \<mapsto> obj), as_next := Suc (as_next a)\<rparr>))"
proof -
  let ?obj = "\<lparr>aa_a = testActor y, aa_reference = reference, aa_closed = False, aa_lastInvoke = now, aa_gcAfter = as_gcActorsAfter a,
      aa_gcTimer = now + as_gcActorsAfter a, aa_gcChecks = [], aa_locked = False, aa_onGc = fut\<rparr>"
  let ?a = "a\<lparr>as_objects := (as_objects a)(as_next a \<mapsto> ?obj), as_next := Suc (as_next a)\<rparr>"
  have "as_objects ?a (as_next a) = Some ?obj" "testObject reference y ?obj" using assms(2) by (simp_all add: testObject_def)
  from invokeObject_startup [OF this assms(1), of now ip sm] obtain obj where
    "testObject reference y obj" "invokeObject now StartupOperationName ip (as_next a) (sm, ?a)
      = (Ret (wholeStream []), (sm, ?a\<lparr>as_objects := (as_objects ?a)(as_next a \<mapsto> obj)\<rparr>))" by blast
  then show ?thesis by (intro exI [of _ obj]) (simp add: newActivatedActor_def Let_def)
qed

lemma activate_test:
  assumes "exampleTable resolver a" "refModuleID reference = NewNamespacedID ''example'' ''test-module'' IDTypeActor"
    and "vr_idType (refVirtual reference) = IDTypeActor"
  shows "\<exists>ms obj. testObject reference (tm_next m) obj \<and> exampleTable resolver (a\<lparr>as_modules := ms\<rparr>)
    \<and> activateActor wasm now reference ip fut ((s, m), a)
      = (Ret (as_next a), ((s, m\<lparr>tm_count := (tm_count m)(tm_next m := 0), tm_next := Suc (tm_next m)\<rparr>),
           a\<lparr>as_modules := ms, as_objects := (as_objects a)(as_next a \<mapsto> obj), as_next := Suc (as_next a)\<rparr>))"
proof -
  let ?m = "m\<lparr>tm_count := (tm_count m)(tm_next m := 0), tm_next := Suc (tm_next m)\<rparr>"
  obtain ms where ms: "ensureModule wasm (refModuleID reference) ((s, m), a) = (Ret testModule, ((s, m), a\<lparr>as_modules := ms\<rparr>))"
    "exampleTable resolver (a\<lparr>as_modules := ms\<rparr>)" using ensure_testModule [OF assms(1,2)] by blast
  obtain obj where obj: "testObject reference (tm_next m) obj"
    "newActivatedActor now (testActor (tm_next m)) reference ip fut ((s, ?m), a\<lparr>as_modules := ms\<rparr>)
      = (Ret (as_next a), ((s, ?m), a\<lparr>as_modules := ms, as_objects := (as_objects a)(as_next a \<mapsto> obj), as_next := Suc (as_next a)\<rparr>))"
    using newActivatedActor_test [OF assms(3), of "a\<lparr>as_modules := ms\<rparr>" "tm_next m" now ip fut "(s, ?m)"] assms(1) by (auto simp: exampleTable_def)
  with ms show ?thesis by (intro exI [of _ ms] exI [of _ obj]) (simp add: activateActor_def andThen_def onError_def)
qed

lemma invoke_first:
  assumes "exampleTable resolver a" "refModuleID reference = NewNamespacedID ''example'' ''test-module'' IDTypeActor"
    and "vr_idType (refVirtual reference) = IDTypeActor" "as_actors a (refActorID reference) = None"
  shows "\<exists>ms f obj. testObject reference (tm_next m) obj \<and> aa_lastInvoke obj = now \<and> exampleTable resolver (a\<lparr>as_modules := ms\<rparr>) \<and> futureWait f = Ret (Some (Suc (as_next a)))
    \<and> invoke wasm now reference ''inc'' ip payload False ((s, m), a)
      = (Ret (wholeStream (go_bytes (decInt 1))), ((s, m\<lparr>tm_count := (tm_count m)(tm_next m := 1), tm_next := Suc (tm_next m)\<rparr>),
           a\<lparr>as_modules := ms, as_actors := (as_actors a)(refActorID reference \<mapsto> as_next a), as_futures := (as_futures a)(as_next a \<mapsto> f),
             as_objects := (as_objects a)(Suc (as_next a) \<mapsto> obj), as_next := Suc (Suc (as_next a))\<rparr>))"
proof -
  let ?fut = "as_next a" and ?x = "Suc (as_next a)" and ?y = "tm_next m"
  let ?a1 = "installFuture reference (a\<lparr>as_locked := True\<rparr>)"
  let ?m1 = "m\<lparr>tm_count := (tm_count m)(?y := 0), tm_next := Suc ?y\<rparr>"
  let ?f = "\<lparr>fu_result = Some (Suc (as_next a)), fu_err = None, fu_resolved = True, fu_pending = 0\<rparr>"
  have a1: "exampleTable resolver ?a1" "as_next ?a1 = ?x" using assms(1) by (simp_all add: exampleTable_def installFuture_def)
  obtain ms obj where act: "testObject reference ?y obj" "exampleTable resolver (?a1\<lparr>as_modules := ms\<rparr>)"
    "activateActor wasm now reference ip ?fut ((s, m), ?a1)
      = (Ret ?x, ((s, ?m1), ?a1\<lparr>as_modules := ms, as_objects := (as_objects ?a1)(?x \<mapsto> obj), as_next := Suc ?x\<rparr>))"
    using activate_test [OF a1(1) assms(2,3), of m wasm now ip ?fut s] a1(2) by auto
  define a2 where "a2 = ?a1\<lparr>as_modules := ms, as_objects := (as_objects ?a1)(?x \<mapsto> obj), as_next := Suc ?x,
    as_futures := (as_futures ?a1)(?fut \<mapsto> ?f)\<rparr>"
  have "as_objects a2 ?x = Some obj" "is_i64 (tm_count ?m1 ?y + 1)" by (simp_all add: a2_def is_i64_def)
  from invokeObject_inc [OF this(1) act(1) assms(3) this(2), of now payload s] obtain obj' where o': "testObject reference ?y obj' \<and> aa_lastInvoke obj' = now"
    "invokeObject now ''inc'' payload ?x ((s, ?m1), a2)
      = (Ret (wholeStream (go_bytes (decInt 1))), ((s, ?m1\<lparr>tm_count := (tm_count m)(?y := 1)\<rparr>), a2\<lparr>as_objects := (as_objects a2)(?x \<mapsto> obj')\<rparr>))" by auto
  have "settleFuture ?fut (Some ?x) None ((s, ?m1), ?a1\<lparr>as_modules := ms, as_objects := (as_objects ?a1)(?x \<mapsto> obj), as_next := Suc ?x\<rparr>)
      = (Ret (), ((s, ?m1), a2))"
    by (simp add: settleFuture_def futureSettle_def installFuture_def futureNew_def a2_def)
  moreover have w: "futureWait ?f = Ret (Some ?x)" by (simp add: futureWait_def futureNew_def)
  then have "waitFuture ?fut ((s, ?m1), a2) = (Ret ?x, ((s, ?m1), a2))" by (simp add: waitFuture_def a2_def)
  ultimately have "invoke wasm now reference ''inc'' ip payload False ((s, m), a)
      = (Ret (wholeStream (go_bytes (decInt 1))), ((s, ?m1\<lparr>tm_count := (tm_count m)(?y := 1)\<rparr>), a2\<lparr>as_objects := (as_objects a2)(?x \<mapsto> obj')\<rparr>))"
    using assms(1,4) act(3) o'(2)
    by (simp add: invoke_def Let_def invokeLookup_def exampleTable_def invokeNotExistWithLock_def closePrev_def andThen_def)
  moreover have "exampleTable resolver (a\<lparr>as_modules := ms\<rparr>)" using act(2) assms(1) by (simp add: exampleTable_def installFuture_def)
  ultimately show ?thesis using o'(1) w assms(1)
    by (intro exI [of _ ms] exI [of _ ?f] exI [of _ obj']) (simp add: a2_def installFuture_def exampleTable_def)
qed

subsection \<open>The counters of the ten actors\<close>

lemma counting_frame:
  assumes "counting a m reference fut x y n" "as_actors a' (refActorID reference) = as_actors a (refActorID reference)"
    and "as_futures a' fut = as_futures a fut" "as_objects a' x = as_objects a x" "tm_count m' y = tm_count m y"
    and "as_next a \<le> as_next a'" "tm_next m \<le> tm_next m'"
  shows "counting a' m' reference fut x y n"
  using assms by (auto simp: counting_def)

text \<open>How often the actor \<open>k\<close> has been invoked before round \<open>i\<close>.\<close>

definition rounds :: "nat \<Rightarrow> nat \<Rightarrow> nat" where
  "rounds i k = i div 10 + (if k < i mod 10 then 1 else 0)"

lemma rounds_Suc: "k < 10 \<Longrightarrow> rounds (Suc i) k = (if k = i mod 10 then Suc (i div 10) else rounds i k)"
  using mod_less_divisor [of 10 i] by (auto simp: rounds_def div_Suc mod_Suc)

lemma rounds_now: "rounds i (i mod 10) = i div 10"
  by (simp add: rounds_def)

lemma rounds_0: "k < 10 \<Longrightarrow> rounds 0 k = 0"
  by (simp add: rounds_def)

definition exampleActor :: "string \<Rightarrow> nat \<Rightarrow> actorReferenceVirtual" where
  "exampleActor address k = ActorRef (dnsRef address ''example'' ''test-module'' (actorName k))"

lemma exampleActor_fields [simp]:
  "refModuleID (exampleActor address k) = NewNamespacedID ''example'' ''test-module'' IDTypeActor"
  "vr_idType (refVirtual (exampleActor address k)) = IDTypeActor"
  "exampleActor address (i mod 10) = exampleActor address i"
  by (simp_all add: exampleActor_def dnsRef_def refModuleID_def vrModuleID_def actorName_def)

lemma decInt_digit: "k < 10 \<Longrightarrow> decInt (int k) = [digit k]"
  by (simp add: decInt_def decNat.simps)

lemma actorName_inject: "j < 10 \<Longrightarrow> k < 10 \<Longrightarrow> actorName j = actorName k \<longleftrightarrow> j = k"
  using char_of_eq_iff [of "48 + j" "digit k"] by (auto simp: actorName_def decInt_digit digit_def)

lemma exampleActor_distinct:
  "j < 10 \<Longrightarrow> k < 10 \<Longrightarrow> refActorID (exampleActor address j) = refActorID (exampleActor address k) \<longleftrightarrow> j = k"
  by (auto simp: exampleActor_def refActorID_def dnsRef_def vrActorID_def NewNamespacedActorID_def actorName_inject)

text \<open>Before round \<open>i\<close>: the actors that have been invoked are active, with their counters, the others are not.\<close>

definition countersAt ::
  "string \<Rightarrow> nat \<Rightarrow> (nat \<Rightarrow> nat \<times> nat \<times> nat) \<Rightarrow> ('s \<times> testMemory) activations \<Rightarrow> testMemory \<Rightarrow> bool" where
  "countersAt address i P a m \<longleftrightarrow>
     (\<forall>k < 10. if rounds i k = 0 then as_actors a (refActorID (exampleActor address k)) = None
        else case P k of (fut, x, y) \<Rightarrow> counting a m (exampleActor address k) fut x y (int (rounds i k)))
   \<and> (\<forall>j < 10. \<forall>k < 10. j \<noteq> k \<longrightarrow> rounds i j \<noteq> 0 \<longrightarrow> rounds i k \<noteq> 0 \<longrightarrow>
        fst (snd (P j)) \<noteq> fst (snd (P k)) \<and> snd (snd (P j)) \<noteq> snd (snd (P k)))"

lemma counters_none: "countersAt address i P a m \<Longrightarrow> k < 10 \<Longrightarrow> rounds i k = 0 \<Longrightarrow> as_actors a (refActorID (exampleActor address k)) = None"
  unfolding countersAt_def by metis

lemma counters_some:
  "countersAt address i P a m \<Longrightarrow> k < 10 \<Longrightarrow> rounds i k \<noteq> 0 \<Longrightarrow>
     counting a m (exampleActor address k) (fst (P k)) (fst (snd (P k))) (snd (snd (P k))) (int (rounds i k))"
  unfolding countersAt_def by (auto split: prod.splits)

lemma counters_distinct:
  "countersAt address i P a m \<Longrightarrow> j < 10 \<Longrightarrow> k < 10 \<Longrightarrow> j \<noteq> k \<Longrightarrow> rounds i j \<noteq> 0 \<Longrightarrow> rounds i k \<noteq> 0 \<Longrightarrow>
     fst (snd (P j)) \<noteq> fst (snd (P k)) \<and> snd (snd (P j)) \<noteq> snd (snd (P k))"
  unfolding countersAt_def by blast

text \<open>
  No actor has been idle for long: every object is the one of an actor that has been invoked, at most nine rounds of at most six seconds ago.
\<close>

definition since :: "nat \<Rightarrow> nat \<Rightarrow> nat" where
  "since i k = (if k < i mod 10 then i mod 10 - 1 - k else i mod 10 + 9 - k)"

lemma since_Suc: "k < 10 \<Longrightarrow> since (Suc i) k = (if k = i mod 10 then 0 else Suc (since i k))"
  using mod_less_divisor [of 10 i] by (auto simp: since_def mod_Suc)

lemma since_less: "since i k \<le> 9"
  using mod_less_divisor [of 10 i] by (auto simp: since_def)

definition recentObjects :: "nat \<Rightarrow> int \<Rightarrow> (nat \<Rightarrow> nat \<times> nat \<times> nat) \<Rightarrow> 's activations \<Rightarrow> bool" where
  "recentObjects i now P a \<longleftrightarrow>
     (\<forall>x obj. as_objects a x = Some obj \<longrightarrow>
        (\<exists>k < 10. rounds i k \<noteq> 0 \<and> fst (snd (P k)) = x \<and> now - aa_lastInvoke obj \<le> int (since i k) * (6 * 10 ^ 9)))"

lemma recent_step:
  assumes "recentObjects i now P a" "now' \<le> now + 6 * 10 ^ 9" "as_objects a' = (as_objects a)(x \<mapsto> obj)" "aa_lastInvoke obj = now'"
    and "fst (snd (P' (i mod 10))) = x" "rounds i (i mod 10) \<noteq> 0 \<Longrightarrow> fst (snd (P (i mod 10))) = x" "\<And>j. j < 10 \<Longrightarrow> j \<noteq> i mod 10 \<Longrightarrow> P' j = P j"
  shows "recentObjects (Suc i) now' P' a'"
  unfolding recentObjects_def
proof (intro allI impI)
  fix x' obj' assume o: "as_objects a' x' = Some obj'"
  show "\<exists>k < 10. rounds (Suc i) k \<noteq> 0 \<and> fst (snd (P' k)) = x' \<and> now' - aa_lastInvoke obj' \<le> int (since (Suc i) k) * (6 * 10 ^ 9)"
  proof (cases "x' = x")
    case True
    then show ?thesis using o assms(3-5) by (intro exI [of _ "i mod 10"]) (simp add: rounds_Suc since_Suc)
  next
    case False
    then obtain k where k: "k < 10" "rounds i k \<noteq> 0" "fst (snd (P k)) = x'" "now - aa_lastInvoke obj' \<le> int (since i k) * (6 * 10 ^ 9)"
      using o assms(1,3) by (auto simp: recentObjects_def)
    moreover from this have "k \<noteq> i mod 10" using assms(6) False by auto
    ultimately show ?thesis using assms(2) assms(7) [of k] by (intro exI [of _ k]) (simp add: rounds_Suc since_Suc algebra_simps)
  qed
qed

lemma counters_first:
  assumes "countersAt address i P a m" "i div 10 = 0" "exampleTable resolver a"
  shows "\<exists>a' m' P'. invoke wasm now (exampleActor address i) ''inc'' ip payload False ((s, m), a) = (Ret (wholeStream (go_bytes (decInt 1))), ((s, m'), a'))
    \<and> exampleTable resolver a' \<and> countersAt address (Suc i) P' a' m'
    \<and> (\<forall>before. recentObjects i before P a \<longrightarrow> now \<le> before + 6 * 10 ^ 9 \<longrightarrow> recentObjects (Suc i) now P' a')"
proof -
  let ?k = "i mod 10" and ?r = "exampleActor address i" and ?P = "P(i mod 10 := (as_next a, Suc (as_next a), tm_next m))"
  have k: "?k < 10" "rounds i ?k = 0" "refActorID (exampleActor address ?k) = refActorID ?r" using assms(2) rounds_now [of i] by simp_all
  have n: "as_actors a (refActorID ?r) = None" using counters_none [OF assms(1) k(1,2)] by simp
  obtain ms f obj where last: "aa_lastInvoke obj = now" and o: "testObject ?r (tm_next m) obj" "exampleTable resolver (a\<lparr>as_modules := ms\<rparr>)" "futureWait f = Ret (Some (Suc (as_next a)))"
    and inv: "invoke wasm now ?r ''inc'' ip payload False ((s, m), a)
      = (Ret (wholeStream (go_bytes (decInt 1))), ((s, m\<lparr>tm_count := (tm_count m)(tm_next m := 1), tm_next := Suc (tm_next m)\<rparr>),
           a\<lparr>as_modules := ms, as_actors := (as_actors a)(refActorID ?r \<mapsto> as_next a), as_futures := (as_futures a)(as_next a \<mapsto> f),
             as_objects := (as_objects a)(Suc (as_next a) \<mapsto> obj), as_next := Suc (Suc (as_next a))\<rparr>))" (is "_ = (_, ((_, ?m), ?a))")
    using invoke_first [OF assms(3) _ _ n, of m now wasm ip payload s] by auto
  have other: "refActorID (exampleActor address j) \<noteq> refActorID ?r" if "j < 10" "j \<noteq> ?k" for j
    using exampleActor_distinct [OF that(1) k(1), of address] that(2) by simp
  have old: "counting ?a ?m (exampleActor address j) (fst (P j)) (fst (snd (P j))) (snd (snd (P j))) (int (rounds i j))"
    if "j < 10" "j \<noteq> ?k" "rounds i j \<noteq> 0" for j
  proof (rule counting_frame [OF counters_some [OF assms(1) that(1,3)]])
    have "fst (P j) < as_next a \<and> fst (snd (P j)) < as_next a \<and> snd (snd (P j)) < tm_next m"
      using counters_some [OF assms(1) that(1,3)] by (simp add: counting_def)
    then show "as_futures ?a (fst (P j)) = as_futures a (fst (P j))" "as_objects ?a (fst (snd (P j))) = as_objects a (fst (snd (P j)))"
      "tm_count ?m (snd (snd (P j))) = tm_count m (snd (snd (P j)))" by simp_all
  qed (use other [OF that(1,2)] in simp_all)
  have new: "counting ?a ?m ?r (as_next a) (Suc (as_next a)) (tm_next m) 1" using o by (simp add: counting_def)
  have "countersAt address (Suc i) ?P ?a ?m"
    unfolding countersAt_def
  proof (intro conjI allI impI)
    fix j :: nat assume j: "j < 10"
    show "if rounds (Suc i) j = 0 then as_actors ?a (refActorID (exampleActor address j)) = None
        else case ?P j of (fut, x, y) \<Rightarrow> counting ?a ?m (exampleActor address j) fut x y (int (rounds (Suc i) j))"
      using j new old [OF j] other [OF j] counters_none [OF assms(1) j] assms(2)
      by (cases "j = ?k") (auto simp: rounds_Suc split: prod.splits)
  next
    fix j j' :: nat assume j: "j < 10" "j' < 10" "j \<noteq> j'" "rounds (Suc i) j \<noteq> 0" "rounds (Suc i) j' \<noteq> 0"
    have r: "rounds i l \<noteq> 0" if "l < 10" "l \<noteq> ?k" "rounds (Suc i) l \<noteq> 0" for l using that by (simp add: rounds_Suc)
    have lt: "fst (snd (P l)) < as_next a \<and> snd (snd (P l)) < tm_next m" if "l < 10" "l \<noteq> ?k" "rounds (Suc i) l \<noteq> 0" for l
      using counters_some [OF assms(1) that(1) r [OF that]] by (simp add: counting_def)
    consider "j = ?k" "j' \<noteq> ?k" | "j \<noteq> ?k" "j' = ?k" | "j \<noteq> ?k" "j' \<noteq> ?k" using j(3) by blast
    then have "fst (snd (?P j)) \<noteq> fst (snd (?P j')) \<and> snd (snd (?P j)) \<noteq> snd (snd (?P j'))"
    proof cases
      case 1
      with lt [OF j(2) _ j(5)] show ?thesis by simp
    next
      case 2
      with lt [OF j(1) _ j(4)] show ?thesis by simp
    next
      case 3
      with counters_distinct [OF assms(1) j(1-3) r [OF j(1) _ j(4)] r [OF j(2) _ j(5)]] show ?thesis by simp
    qed
    then show "fst (snd (?P j)) \<noteq> fst (snd (?P j'))" "snd (snd (?P j)) \<noteq> snd (snd (?P j'))" by simp_all
  qed
  moreover have "exampleTable resolver ?a" using o(2) by (simp add: exampleTable_def)
  moreover have "recentObjects (Suc i) now ?P ?a" if "recentObjects i before P a" "now \<le> before + 6 * 10 ^ 9" for before
    by (rule recent_step [OF that, where x = "Suc (as_next a)" and obj = obj]) (use last k(2) in simp_all)
  ultimately show ?thesis using inv by blast
qed

lemma counters_next:
  assumes "countersAt address i P a m" "i div 10 \<noteq> 0" "exampleTable resolver a" "int (i div 10) + 1 < 2 ^ 63"
  shows "\<exists>a' m'. invoke wasm now (exampleActor address i) ''inc'' ip payload False ((s, m), a)
      = (Ret (wholeStream (go_bytes (decInt (int (i div 10) + 1)))), ((s, m'), a'))
    \<and> exampleTable resolver a' \<and> countersAt address (Suc i) P a' m'
    \<and> (\<forall>before. recentObjects i before P a \<longrightarrow> now \<le> before + 6 * 10 ^ 9 \<longrightarrow> recentObjects (Suc i) now P a')"
proof -
  let ?k = "i mod 10" and ?r = "exampleActor address i"
  obtain fut x y where P: "P ?k = (fut, x, y)" by (cases "P ?k") auto
  have k: "?k < 10" "rounds i ?k = i div 10" by (simp_all add: rounds_now)
  have c: "counting a m ?r fut x y (int (i div 10))" using counters_some [OF assms(1) k(1)] assms(2) P k(2) by simp
  obtain obj where last: "aa_lastInvoke obj = now" and o: "testObject ?r y obj" and inv: "invoke wasm now ?r ''inc'' ip payload False ((s, m), a)
    = (Ret (wholeStream (go_bytes (decInt (int (i div 10) + 1)))),
        ((s, m\<lparr>tm_count := (tm_count m)(y := int (i div 10) + 1)\<rparr>), a\<lparr>as_objects := (as_objects a)(x \<mapsto> obj)\<rparr>))" (is "_ = (_, ((_, ?m), ?a))")
    using invoke_counting [OF c, of now wasm ip payload s] assms(3,4) by (auto simp: exampleTable_def is_i64_def)
  have new: "counting ?a ?m ?r fut x y (int (i div 10) + 1)" using c o by (auto simp: counting_def)
  have old: "counting ?a ?m (exampleActor address j) (fst (P j)) (fst (snd (P j))) (snd (snd (P j))) (int (rounds i j))"
    if "j < 10" "j \<noteq> ?k" "rounds i j \<noteq> 0" for j
  proof (rule counting_frame [OF counters_some [OF assms(1) that(1,3)]])
    have "fst (snd (P j)) \<noteq> x \<and> snd (snd (P j)) \<noteq> y"
      using counters_distinct [OF assms(1) that(1) k(1) that(2,3)] assms(2) k(2) P by simp
    then show "as_objects ?a (fst (snd (P j))) = as_objects a (fst (snd (P j)))" "tm_count ?m (snd (snd (P j))) = tm_count m (snd (snd (P j)))"
      by simp_all
  qed simp_all
  have "countersAt address (Suc i) P ?a ?m"
    unfolding countersAt_def
  proof (intro conjI allI impI)
    fix j :: nat assume j: "j < 10"
    show "if rounds (Suc i) j = 0 then as_actors ?a (refActorID (exampleActor address j)) = None
        else case P j of (fut, x, y) \<Rightarrow> counting ?a ?m (exampleActor address j) fut x y (int (rounds (Suc i) j))"
      using j new old [OF j] counters_none [OF assms(1) j] P
      by (cases "j = ?k") (auto simp: rounds_Suc add.commute split: prod.splits)
  next
    fix j j' :: nat assume j: "j < 10" "j' < 10" "j \<noteq> j'" "rounds (Suc i) j \<noteq> 0" "rounds (Suc i) j' \<noteq> 0"
    have "rounds i l \<noteq> 0" if "l < 10" "rounds (Suc i) l \<noteq> 0" for l using that k assms(2) by (cases "l = ?k") (auto simp: rounds_Suc)
    then show "fst (snd (P j)) \<noteq> fst (snd (P j'))" "snd (snd (P j)) \<noteq> snd (snd (P j'))"
      using j counters_distinct [OF assms(1) j(1-3)] by simp_all
  qed
  moreover have "exampleTable resolver ?a" using assms(3) by (simp add: exampleTable_def)
  moreover have "recentObjects (Suc i) now P ?a" if "recentObjects i before P a" "now \<le> before + 6 * 10 ^ 9" for before
    by (rule recent_step [OF that, where x = x and obj = obj]) (use last P in simp_all)
  ultimately show ?thesis using inv by blast
qed

subsection \<open>The cache of the environment\<close>

text \<open>
  What the code relies on of the cache (ristretto): a new one is empty, and what it returns was set under the same key. It may forget entries
  and ignore new ones.
\<close>

locale cache_contract =
  fixes ops :: "'c cacheOps"
  assumes new: "\<exists>c. ch_New ops = Ret c \<and> (\<forall>key. ch_Get ops key c = None)"
    and set: "ch_Get ops key' (ch_SetWithTTL ops key v cost ttl c) \<in> {None, ch_Get ops key' c} \<union> (if key' = key then {Some v} else {})"
begin

definition holdsOnly :: "(bytes \<Rightarrow> actorRef list \<Rightarrow> bool) \<Rightarrow> 'c \<Rightarrow> bool" where
  "holdsOnly good c \<longleftrightarrow> (\<forall>key v. ch_Get ops key c = Some v \<longrightarrow> good key v)"

lemma holdsOnly_new: "\<exists>c. ch_New ops = Ret c \<and> holdsOnly good c"
  using new by (auto simp: holdsOnly_def)

lemma holdsOnly_set:
  assumes "holdsOnly good c" "good key v"
  shows "holdsOnly good (ch_SetWithTTL ops key v cost ttl c)"
  unfolding holdsOnly_def
proof (intro allI impI)
  fix key' v' assume g: "ch_Get ops key' (ch_SetWithTTL ops key v cost ttl c) = Some v'"
  have "ch_Get ops key' c = Some v' \<or> key' = key \<and> v' = v"
    using set [of key' key v cost ttl c] unfolding g by (cases "key' = key") auto
  with assms show "good key' v'" by (auto simp: holdsOnly_def)
qed

lemma holdsOnly_get: "holdsOnly good c \<Longrightarrow> ch_Get ops key c = None \<or> (\<exists>v. ch_Get ops key c = Some v \<and> good key v)"
  by (cases "ch_Get ops key c") (auto simp: holdsOnly_def)

end

definition mapCache :: "(bytes \<rightharpoonup> actorRef list) cacheOps" where
  "mapCache = \<lparr>ch_Get = (\<lambda>key c. c key), ch_SetWithTTL = (\<lambda>key v cost ttl c. c(key \<mapsto> v)), ch_New = Ret Map.empty\<rparr>"

interpretation map_cache: cache_contract mapCache
  by unfold_locales (auto simp: mapCache_def)

subsection \<open>A round of the program\<close>

definition exampleEntry :: "string \<Rightarrow> bytes \<Rightarrow> actorRef list \<Rightarrow> bool" where
  "exampleEntry address key refs \<longleftrightarrow>
     (\<forall>i. key = cacheKey ''example'' (actorName i) \<longrightarrow> refs = [dnsRef address ''example'' ''test-module'' (actorName i)])"

lemma exampleEntry_own:
  "exampleEntry address (cacheKey ''example'' (actorName i)) [dnsRef address ''example'' ''test-module'' (actorName i)]"
  by (simp add: exampleEntry_def cacheKey_def)

text \<open>The process before round \<open>i\<close>.\<close>

definition exampleReady ::
  "nat \<Rightarrow> 'r DNSResolver \<Rightarrow> string \<Rightarrow> nat \<Rightarrow> ('r dnsRegistry \<times> testMemory, 'c) process \<Rightarrow> bool" where
  "exampleReady e resolver address i w \<longleftrightarrow> cache_contract (pr_cache w) \<and> pr_localEnvironmentsRouter w address = Some e
     \<and> synced (fst (pr_state w)) \<and> addresses (d_port (fst (pr_state w))) (d_ips (fst (pr_state w))) = [address]
     \<and> d_host (fst (pr_state w)) = Localhost \<and> (\<forall>ip. To4 ip = Some [127, 0, 0, 1] \<longrightarrow> addresses (d_port (fst (pr_state w))) [ip] = [address])
     \<and> (\<exists>env P. pr_envs w e = Some env \<and> en_registry env = besideRegistry (dnsOps resolver)
         \<and> en_HeartbeatResult env = \<lparr>hr_VersionStamp = 1, hr_HeartbeatTTL = 1, hr_ServerVersion = -1\<rparr>
         \<and> \<not> eo_ForceRemoteProcedureCalls (en_opts env) \<and> \<not> en_paused env \<and> \<not> en_closedCh env
         \<and> cache_contract.holdsOnly (pr_cache w) (exampleEntry address) (en_activationCache env)
         \<and> exampleTable resolver (en_activations env) \<and> countersAt address i P (en_activations env) (snd (pr_state w))
         \<and> recentObjects i (pr_now w) P (en_activations env))"

lemma example_references:
  assumes "cache_contract (pr_cache w)" "pr_envs w e = Some env" "en_registry env = besideRegistry (dnsOps resolver)"
    and "synced (fst (pr_state w))" "addresses (d_port (fst (pr_state w))) (d_ips (fst (pr_state w))) = [address]"
    and "cache_contract.holdsOnly (pr_cache w) (exampleEntry address) (en_activationCache env)"
  shows "\<exists>c. cachedReferences e ''example'' (actorName i) ''test-module'' w
      = (Ret [dnsRef address ''example'' ''test-module'' (actorName i)], setEnv e (env\<lparr>en_activationCache := c\<rparr>) w)
    \<and> cache_contract.holdsOnly (pr_cache w) (exampleEntry address) c"
proof -
  let ?key = "cacheKey ''example'' (actorName i)" and ?ref = "dnsRef address ''example'' ''test-module'' (actorName i)"
  have id: "setEnv e env w = w" using assms(2) by (simp add: setEnv_def fun_upd_idem)
  let ?hit = "if eo_DisableActivationCache (en_opts env) then None else ch_Get (pr_cache w) ?key (en_activationCache env)"
  consider "?hit = Some [?ref]" | "?hit = None"
    using cache_contract.holdsOnly_get [OF assms(1,6), of ?key] by (cases "eo_DisableActivationCache (en_opts env)") (auto simp: exampleEntry_def)
  then show ?thesis
  proof cases
    case 1
    then show ?thesis using assms(2,6) id by (intro exI [of _ "en_activationCache env"]) (simp add: cachedReferences_def onEnv_def Let_def)
  next
    case 2
    let ?c = "ch_SetWithTTL (pr_cache w) ?key [?ref] 1 (eo_ActivationCacheTTL (en_opts env)) (en_activationCache env)"
    have "dnsEnsureActivation ''example'' (actorName i) ''test-module'' (fst (pr_state w)) = (Ret [?ref], fst (pr_state w))"
      by (rule dnsEnsureActivation_alone [OF assms(4,5)]) (simp_all add: actorName_def)
    then have "onRegistry (rEnsureActivation (en_registry env) ''example'' (actorName i) ''test-module'') w = (Ret [?ref], w)"
      using assms(3) by (simp add: onRegistry_def besideRegistry_def dnsOps_def beside_def)
    moreover have "cache_contract.holdsOnly (pr_cache w) (exampleEntry address) ?c"
      by (rule cache_contract.holdsOnly_set [OF assms(1,6) exampleEntry_own])
    ultimately show ?thesis using 2 assms(2)
      by (intro exI [of _ ?c]) (simp add: cachedReferences_def onEnv_def Let_def onError_def andThen_def updateEnv_def)
  qed
qed

lemma parseInt_decInt: "is_i64 z \<Longrightarrow> parseInt (decInt z) = Some z"
  using decInt_head [of z] parseInt64_decInt [of z] by (auto simp: parseInt_def isDigit_def)

lemma counters_step:
  assumes "countersAt address i P a m" "exampleTable resolver a" "int (i div 10) + 1 < 2 ^ 63"
  shows "\<exists>a' m' P'. invoke wasm now (exampleActor address i) ''inc'' ip payload False ((s, m), a)
      = (Ret (wholeStream (go_bytes (decInt (int (i div 10) + 1)))), ((s, m'), a'))
    \<and> exampleTable resolver a' \<and> countersAt address (Suc i) P' a' m'
    \<and> (\<forall>before. recentObjects i before P a \<longrightarrow> now \<le> before + 6 * 10 ^ 9 \<longrightarrow> recentObjects (Suc i) now P' a')"
proof (cases "i div 10 = 0")
  case True
  from counters_first [OF assms(1) this assms(2)] show ?thesis unfolding True by simp
next
  case False
  from counters_next [OF assms(1) this assms(2,3)] show ?thesis by blast
qed

lemma client_round:
  assumes "exampleReady e resolver address i w" "int (i div 10) + 1 < 2 ^ 63" "d \<le> 6 * 10 ^ 9"
  shows "\<exists>w'. clientStep e i (w\<lparr>pr_now := pr_now w + d\<rparr>) = (Ret (Some (int (i div 10) + 1)), w') \<and> exampleReady e resolver address (Suc i) w'"
proof -
  let ?w = "w\<lparr>pr_now := pr_now w + d\<rparr>" and ?ref = "dnsRef address ''example'' ''test-module'' (actorName i)"
  obtain env P where live: "\<not> en_paused env" "\<not> en_closedCh env" "recentObjects i (pr_now w) P (en_activations env)"
      "d_host (fst (pr_state w)) = Localhost" "\<forall>ip. To4 ip = Some [127, 0, 0, 1] \<longrightarrow> addresses (d_port (fst (pr_state w))) [ip] = [address]"
    and env: "cache_contract (pr_cache w)" "pr_localEnvironmentsRouter w address = Some e"
    "synced (fst (pr_state w))" "addresses (d_port (fst (pr_state w))) (d_ips (fst (pr_state w))) = [address]"
    "pr_envs w e = Some env" "en_registry env = besideRegistry (dnsOps resolver)"
    "en_HeartbeatResult env = \<lparr>hr_VersionStamp = 1, hr_HeartbeatTTL = 1, hr_ServerVersion = -1\<rparr>" "\<not> eo_ForceRemoteProcedureCalls (en_opts env)"
    "cache_contract.holdsOnly (pr_cache w) (exampleEntry address) (en_activationCache env)"
    "exampleTable resolver (en_activations env)" "countersAt address i P (en_activations env) (snd (pr_state w))"
    using assms(1) unfolding exampleReady_def by blast
  obtain c where c: "cachedReferences e ''example'' (actorName i) ''test-module'' ?w = (Ret [?ref], setEnv e (env\<lparr>en_activationCache := c\<rparr>) ?w)"
    "cache_contract.holdsOnly (pr_cache w) (exampleEntry address) c"
    using example_references [of ?w e env resolver address i] env(1,3-6,9) by auto
  let ?w1 = "setEnv e (env\<lparr>en_activationCache := c\<rparr>) ?w"
  let ?i = "invoke (pr_wasm ?w1) (pr_now ?w1) (ActorRef ?ref) ''inc'' (Some (cine_InstantiatePayload zeroCreate)) (Some []) False"
  obtain a' m' P' where step: "?i (pr_state w, en_activations env) = (Ret (wholeStream (go_bytes (decInt (int (i div 10) + 1)))), ((fst (pr_state w), m'), a'))"
    "exampleTable resolver a'" "countersAt address (Suc i) P' a' m'" "recentObjects (Suc i) (pr_now w + d) P' a'"
    using counters_step [OF env(11,10) assms(2), of "pr_wasm ?w1" "pr_now ?w1" "Some (cine_InstantiatePayload zeroCreate)" "Some []" "fst (pr_state w)"]
      live(3) assms(3) by (fastforce simp: exampleActor_def setEnv_def)
  let ?w2 = "setEnv e (env\<lparr>en_activationCache := c, en_activations := a'\<rparr>) (?w1\<lparr>pr_state := (fst (pr_state w), m')\<rparr>)"
  have w1: "pr_envs ?w1 e = Some (env\<lparr>en_activationCache := c\<rparr>)" "pr_localEnvironmentsRouter ?w1 (ar_address ?ref) = Some e"
    using env(2) by (simp_all add: setEnv_def dnsRef_def)
  have "accepts (env\<lparr>en_activationCache := c\<rparr>) 1 (ar_serverID ?ref) (ar_serverVersion ?ref)"
    using env(7) by (simp add: accepts_def dnsRef_def DNSServerID_def is_i64_def)
  then have "InvokeActorDirectStream e 1 (ar_serverID ?ref) (ar_serverVersion ?ref) (ActorRef ?ref) ''inc'' [] zeroCreate ?w1 = onActivations e ?i ?w1"
    using InvokeActorDirectStream_guards [OF w1(1), of 1 "ar_serverID ?ref" "ar_serverVersion ?ref" "ActorRef ?ref" "''inc''" "[]" zeroCreate] by simp
  moreover have "onActivations e ?i ?w1 = (Ret (wholeStream (go_bytes (decInt (int (i div 10) + 1)))), ?w2)"
    using onActivations_result [OF w1(1), of ?i] step(1) by (simp add: setEnv_def)
  moreover have "invokeReferences e 1 [?ref] ''inc'' [] zeroCreate ?w1
      = InvokeActorDirectStream e 1 (ar_serverID ?ref) (ar_serverVersion ?ref) (ActorRef ?ref) ''inc'' [] zeroCreate ?w1"
    using env(8) by (intro invokeReferences_local [OF w1(1) _ w1(2)]) simp
  moreover have "onRegistry (rGetVersionStamp (en_registry env)) ?w = (Ret 1, ?w)"
    using env(6) by (simp add: onRegistry_def besideRegistry_def dnsOps_def dnsGetVersionStamp_def DNSVersionStamp_def)
  ultimately have "InvokeActor e ''example'' (actorName i) ''test-module'' ''inc'' [] zeroCreate ?w = (Ret (go_bytes (decInt (int (i div 10) + 1))), ?w2)"
    using c(1) env(5) by (simp add: InvokeActor_def InvokeActorStream_def readAll_def onEnv_def andThen_def onError_def actorName_def)
  moreover have "is_i64 (int (i div 10) + 1)" using assms(2) by (simp add: is_i64_def)
  ultimately have "clientStep e i ?w = (Ret (Some (int (i div 10) + 1)), ?w2)" by (simp add: clientStep_def parseInt_decInt)
  moreover have "exampleReady e resolver address (Suc i) ?w2"
    using env(1-4,6-8) live c(2) step(2-4) by (auto simp: exampleReady_def setEnv_def)
  ultimately show ?thesis by blast
qed

text \<open>Nothing that runs beside the loop disturbs the actors, as long as the local address resolves to the machine itself or not at all.\<close>

definition localLookups :: "'r DNSResolver \<Rightarrow> bool" where
  "localLookups resolver \<longleftrightarrow>
     (\<forall>r. case fst (LookupIP resolver Localhost r) of
        Ret ips \<Rightarrow> (\<exists>ip. ips = [ip] \<and> To4 ip = Some [127, 0, 0, 1]) | Fail _ \<Rightarrow> True | _ \<Rightarrow> False)"

lemma serverState_frame:
  "counting (setServerState sid ver a) m reference fut x y n = counting a m reference fut x y n"
  "as_actors (setServerState sid ver a) = as_actors a" "exampleTable resolver (setServerState sid ver a) = exampleTable resolver a"
  "recentObjects i now P (setServerState sid ver a) = recentObjects i now P a"
  by (simp_all add: setServerState_def counting_def exampleTable_def recentObjects_def)

lemma heartbeat_ready:
  assumes "exampleReady e resolver address i w"
  shows "\<exists>w'. heartbeatLoop e [HeartbeatTick] w = (Ret (), w') \<and> exampleReady e resolver address i w' \<and> pr_now w' = pr_now w"
proof -
  obtain env P where env: "pr_envs w e = Some env" "en_registry env = besideRegistry (dnsOps resolver)" "\<not> en_paused env" "\<not> en_closedCh env"
    "en_HeartbeatResult env = \<lparr>hr_VersionStamp = 1, hr_HeartbeatTTL = 1, hr_ServerVersion = -1\<rparr>" "exampleTable resolver (en_activations env)"
    "countersAt address i P (en_activations env) (snd (pr_state w))" "recentObjects i (pr_now w) P (en_activations env)"
    "\<not> eo_ForceRemoteProcedureCalls (en_opts env)" "cache_contract.holdsOnly (pr_cache w) (exampleEntry address) (en_activationCache env)"
    using assms unfolding exampleReady_def by blast
  let ?hb = "\<lparr>hr_VersionStamp = 1, hr_HeartbeatTTL = 1, hr_ServerVersion = -1\<rparr>"
  let ?env = "env\<lparr>en_HeartbeatResult := ?hb, en_activations := setServerState (en_serverID env) (-1) (en_activations env)\<rparr>"
  have "heartbeat e w = (Ret (), setEnv e ?env w)"
    using heartbeat_Ret [of w e env ?hb "pr_state w"] env(1,2,5,6)
    by (simp add: exampleTable_def besideRegistry_def dnsOps_def dnsHeartbeat_def DNSVersionStamp_def DNSServerVersion_def)
  then have "heartbeatLoop e [HeartbeatTick] w = (Ret (), setEnv e ?env w)"
    using env(1,3,4) by (simp add: onEnv_def Let_def)
  moreover have "exampleTable resolver (en_activations ?env)" "countersAt address i P (en_activations ?env) (snd (pr_state w))"
    "recentObjects i (pr_now w) P (en_activations ?env)"
    using env(6-8) by (simp_all add: countersAt_def serverState_frame cong: if_cong)
  then have "exampleReady e resolver address i (setEnv e ?env w)"
    using assms env(2-5,9,10) unfolding exampleReady_def by (auto simp: setEnv_def)
  ultimately show ?thesis by (simp add: setEnv_def)
qed

lemma discovery_ready:
  assumes "exampleReady e resolver address i w" "localLookups resolver"
  shows "\<exists>w'. onRegistry (beside (discoveryEvents resolver [TickerC r])) w = (Ret (), w') \<and> exampleReady e resolver address i w' \<and> pr_now w' = pr_now w"
proof -
  let ?d = "(fst (pr_state w))\<lparr>d_resolverState := r\<rparr>"
  have look: "case fst (LookupIP resolver Localhost r) of
      Ret ips \<Rightarrow> (\<exists>ip. ips = [ip] \<and> To4 ip = Some [127, 0, 0, 1]) | Fail _ \<Rightarrow> True | _ \<Rightarrow> False"
    using assms(2) unfolding localLookups_def by (rule spec)
  obtain x d' where x: "discover resolver ?d = (x, d')" by force
  have d: "d_host (fst (pr_state w)) = Localhost" "synced (fst (pr_state w))" "addresses (d_port (fst (pr_state w))) (d_ips (fst (pr_state w))) = [address]"
    "\<forall>ip. To4 ip = Some [127, 0, 0, 1] \<longrightarrow> addresses (d_port (fst (pr_state w))) [ip] = [address]"
    using assms(1) unfolding exampleReady_def by blast+
  have "x = Ret () \<or> (\<exists>e. x = Fail e)"
  proof (rule discover_answers [OF _ x])
    show "(\<exists>ips. fst (LookupIP resolver (d_host ?d) (d_resolverState ?d)) = Ret ips) \<or> (\<exists>e. fst (LookupIP resolver (d_host ?d) (d_resolverState ?d)) = Fail e)"
      using look d(1) by (cases "fst (LookupIP resolver Localhost r)") simp_all
  qed
  then have "discoveryEvents resolver [TickerC r] (fst (pr_state w)) = (Ret (), d')" using x by auto
  moreover have "sameConfig ?d d'" by (rule discover_cases(2) [OF x])
  moreover have "synced d' \<and> addresses (d_port d') (d_ips d') = [address]"
  proof (cases "fst (LookupIP resolver Localhost r)")
    case (Ret ips)
    then obtain ip where "ips = [ip]" "To4 ip = Some [127, 0, 0, 1]" using look by auto
    then show ?thesis using discover_cases(1) [OF x] Ret d(1,4) \<open>sameConfig ?d d'\<close> by (auto simp: sameConfig_def)
  qed (use discover_cases(1) [OF x] d \<open>sameConfig ?d d'\<close> in \<open>auto simp: sameConfig_def synced_def\<close>)
  ultimately show ?thesis
    using assms(1) d(1,4) unfolding exampleReady_def by (auto simp: onRegistry_def beside_def sameConfig_def)
qed

text \<open>A collection timer finds that the actor has been idle for less than a minute and starts another timer.\<close>

lemma counting_checks:
  assumes "counting a m reference fut x y n" "as_objects a x' = Some obj"
  shows "counting (a\<lparr>as_objects := (as_objects a)(x' \<mapsto> obj\<lparr>aa_gcChecks := c\<rparr>)\<rparr>) m reference fut x y n"
  using assms by (auto simp: counting_def testObject_def)

lemma gc_ready:
  assumes "countersAt address i P a m" "recentObjects i now P a" "as_objects a x = Some obj" "d \<le> 6 * 10 ^ 9"
  shows "\<exists>c. gcFunc (now + d) x (sm, a) = (Ret (), (sm, a\<lparr>as_objects := (as_objects a)(x \<mapsto> obj\<lparr>aa_gcChecks := c\<rparr>)\<rparr>))
    \<and> countersAt address i P (a\<lparr>as_objects := (as_objects a)(x \<mapsto> obj\<lparr>aa_gcChecks := c\<rparr>)\<rparr>) m
    \<and> recentObjects i now P (a\<lparr>as_objects := (as_objects a)(x \<mapsto> obj\<lparr>aa_gcChecks := c\<rparr>)\<rparr>)"
proof -
  obtain k where k: "k < 10" "rounds i k \<noteq> 0" "fst (snd (P k)) = x" "now - aa_lastInvoke obj \<le> int (since i k) * (6 * 10 ^ 9)"
    using assms(2,3) unfolding recentObjects_def by blast
  have "testObject (exampleActor address k) (snd (snd (P k))) obj"
    using counters_some [OF assms(1) k(1,2)] k(3) assms(3) by (auto simp: counting_def)
  moreover have "int (since i k) * (6 * 10 ^ 9) \<le> 9 * (6 * 10 ^ 9)" using since_less [of i k] by (intro mult_right_mono) simp_all
  then have "\<not> now + d - aa_lastInvoke obj > 60 * 10 ^ 9" using k(4) assms(4) by simp
  ultimately have "gcFunc (now + d) x (sm, a) = (Ret (), (sm, a\<lparr>as_objects := (as_objects a)(x \<mapsto> obj\<lparr>aa_gcChecks := (now + d + 60 * 10 ^ 9) # aa_gcChecks obj\<rparr>)\<rparr>))"
    using assms(3) by (simp add: gcFunc_def onObject_def testObject_def)
  moreover have "countersAt address i P (a\<lparr>as_objects := (as_objects a)(x \<mapsto> obj\<lparr>aa_gcChecks := c\<rparr>)\<rparr>) m" for c
    using assms(1) counting_checks [OF _ assms(3)] unfolding countersAt_def by (auto split: prod.splits)
  moreover have "recentObjects i now P (a\<lparr>as_objects := (as_objects a)(x \<mapsto> obj\<lparr>aa_gcChecks := c\<rparr>)\<rparr>)" for c
    using assms(2) k unfolding recentObjects_def by auto
  ultimately show ?thesis by blast
qed

lemma timer_ready:
  assumes "exampleReady e resolver address i w" "d \<le> 6 * 10 ^ 9"
  shows "\<exists>w'. backgroundStep resolver e (pr_now w + d) (GcTimer x) w = (Ret (), w') \<and> exampleReady e resolver address i w' \<and> pr_now w' = pr_now w"
proof -
  let ?f = "\<lambda>sa. if as_objects (snd sa) x = None then (Ret (), sa) else gcFunc (pr_now w + d) x sa"
  obtain env P where env: "pr_envs w e = Some env" "countersAt address i P (en_activations env) (snd (pr_state w))"
    "recentObjects i (pr_now w) P (en_activations env)" "exampleTable resolver (en_activations env)"
    and rest: "en_registry env = besideRegistry (dnsOps resolver)" "\<not> en_paused env" "\<not> en_closedCh env"
    "en_HeartbeatResult env = \<lparr>hr_VersionStamp = 1, hr_HeartbeatTTL = 1, hr_ServerVersion = -1\<rparr>"
    "\<not> eo_ForceRemoteProcedureCalls (en_opts env)" "cache_contract.holdsOnly (pr_cache w) (exampleEntry address) (en_activationCache env)"
    using assms(1) unfolding exampleReady_def by blast
  obtain a where a: "?f (pr_state w, en_activations env) = (Ret (), (pr_state w, a))"
    "countersAt address i P a (snd (pr_state w))" "recentObjects i (pr_now w) P a" "exampleTable resolver a"
  proof (cases "as_objects (en_activations env) x")
    case None
    with env show ?thesis by (intro that [of "en_activations env"]) simp_all
  next
    case (Some obj)
    with gc_ready [OF env(2,3) Some assms(2), of "pr_state w"] env(4) show ?thesis by (auto intro!: that simp: exampleTable_def)
  qed
  let ?w = "setEnv e (env\<lparr>en_activations := a\<rparr>) w"
  have "backgroundStep resolver e (pr_now w + d) (GcTimer x) w = (Ret (), ?w)"
    using onActivations_result [OF env(1), of ?f] a(1) by (simp add: backgroundStep_def)
  moreover have "exampleReady e resolver address i ?w"
    using assms(1) a(2-4) rest unfolding exampleReady_def by (auto simp: setEnv_def)
  ultimately show ?thesis by (simp add: setEnv_def)
qed

lemma background_ready:
  assumes "exampleReady e resolver address i w" "localLookups resolver" "\<forall>(d, ev) \<in> set evs. d \<le> 6 * 10 ^ 9"
  shows "\<exists>w'. backgroundEvents resolver e evs w = (Ret (), w') \<and> exampleReady e resolver address i w'"
  using assms
proof (induction evs arbitrary: w)
  case (Cons dev evs)
  obtain d ev where dev: "dev = (d, ev)" "d \<le> 6 * 10 ^ 9" using Cons.prems(3) by (cases dev) auto
  obtain w1 where w1: "backgroundStep resolver e (pr_now w + d) ev w = (Ret (), w1)" "exampleReady e resolver address i w1"
    using heartbeat_ready [OF Cons.prems(1)] discovery_ready [OF Cons.prems(1,2)] timer_ready [OF Cons.prems(1) dev(2)]
    by (cases ev) (fastforce simp: backgroundStep_def)+
  with Cons.IH [OF w1(2) Cons.prems(2)] Cons.prems(3) show ?case by (auto simp: dev(1) andThen_def)
qed auto

lemma client_rounds:
  assumes "exampleReady e resolver address i w" "i + n \<le> 2 ^ 63" "localLookups resolver"
    and "\<forall>j. fst (sched j) \<le> 6 * 10 ^ 9 \<and> (\<forall>(d, ev) \<in> set (snd (sched j)). d \<le> fst (sched j))"
  shows "\<exists>w'. clientLoop resolver e sched n i w = (Ret (map (\<lambda>j. Some (int (j div 10) + 1)) [i..<i + n]), w') \<and> exampleReady e resolver address (i + n) w'"
  using assms(1,2)
proof (induction n arbitrary: i w)
  case (Suc n)
  have "i < 2 ^ 63" using Suc.prems(2) by simp
  then have "i div 10 \<le> 2 ^ 63 div 10" by (intro div_le_mono) simp
  then have "int (i div 10) + 1 < 2 ^ 63" by simp
  moreover have "\<forall>(d, ev) \<in> set (snd (sched i)). d \<le> 6 * 10 ^ 9" using assms(4) by (fastforce dest: spec [of _ i])
  from background_ready [OF Suc.prems(1) assms(3) this] obtain w0 where w0: "backgroundEvents resolver e (snd (sched i)) w = (Ret (), w0)"
    "exampleReady e resolver address i w0" by blast
  ultimately obtain w1 where w1: "clientStep e i (w0\<lparr>pr_now := pr_now w0 + fst (sched i)\<rparr>) = (Ret (Some (int (i div 10) + 1)), w1)"
    "exampleReady e resolver address (Suc i) w1" using client_round [OF w0(2), of "fst (sched i)"] assms(4) by blast
  from Suc.IH [OF this(2)] Suc.prems(2) obtain w2 where
    "clientLoop resolver e sched n (Suc i) w1 = (Ret (map (\<lambda>j. Some (int (j div 10) + 1)) [Suc i..<Suc i + n]), w2)"
    "exampleReady e resolver address (Suc i + n) w2" by auto
  with w0(1) w1(1) show ?case by (simp add: andThen_def upt_rec [of i])
qed auto

lemma local_address:
  assumes "To4 ip = Some [127, 0, 0, 1]"
  shows "addresses port [ip] = [Localhost @ '':'' @ decInt port]"
proof -
  have "addresses port [ip] = addresses port [loopbackIP]"
    using assms by (simp add: addresses_def ipAddress_def To4_def loopbackIP_def v4InV6Prefix_def)
  then show ?thesis by (simp only: loopback_address LocalAddress_def Localhost_def)
qed

lemma example_registry:
  assumes "netLookupIP Localhost net = (Ret [ip], net')" "To4 ip = Some [127, 0, 0, 1]"
  shows "\<exists>d. NewDNSRegistry netLookupIP net Localhost port 0 = Ret d \<and> synced d \<and> d_host d = Localhost \<and> d_port d = port
    \<and> addresses (d_port d) (d_ips d) = [Localhost @ '':'' @ decInt port]"
proof -
  show ?thesis using assms(1) local_address [OF assms(2), of port]
    by (simp add: NewDNSRegistry_def NewDNSRegistryFromResolver_def resolverFor_def NewDNSResolver_def dnsLookupIP_def Let_def
        discover_Ret synced_def Localhost_def dnsLocalhost_def)
qed

text \<open>The environment of the example, and its table once the module is registered.\<close>

lemma example_environment:
  assumes "ch_New (pr_cache w) = Ret c" "pr_localEnvironmentsRouter w address = None" "address = Localhost @ '':'' @ decInt port"
    and "opts = zeroOptions\<lparr>eo_Discovery := \<lparr>do_DiscoveryType = DiscoveryTypeLocalHost, do_Port = port\<rparr>\<rparr>" "R = besideRegistry (dnsOps resolver)"
  shows "\<exists>env. NewEnvironment e interfaceAddrs DNSServerID R client opts w
      = (Ret (), setEnv e env (w\<lparr>pr_localEnvironmentsRouter := (pr_localEnvironmentsRouter w)(address \<mapsto> e)\<rparr>))
    \<and> en_registry env = R \<and> en_HeartbeatResult env = \<lparr>hr_VersionStamp = 1, hr_HeartbeatTTL = 1, hr_ServerVersion = -1\<rparr>
    \<and> \<not> eo_ForceRemoteProcedureCalls (en_opts env) \<and> en_activationCache env = c
    \<and> as_actors (en_activations env) = Map.empty \<and> as_modules (en_activations env) = Map.empty
    \<and> as_goModules (en_activations env) = Map.empty \<and> \<not> as_locked (en_activations env) \<and> as_registry (en_activations env) = R
    \<and> as_objects (en_activations env) = Map.empty \<and> as_gcActorsAfter (en_activations env) = 60 * 10 ^ 9 \<and> \<not> en_paused env \<and> \<not> en_closedCh env"
proof -
  let ?opts = "opts\<lparr>eo_ActivationCacheTTL := defaultActivationsCacheTTL, eo_GCActorsAfter := 60 * 10 ^ 9\<rparr>"
  obtain a where a: "newActivations R (eo_CustomHostFns ?opts) (60 * 10 ^ 9) = Ret a" "\<not> as_locked a" "as_actors a = Map.empty"
      "as_modules a = Map.empty" "as_goModules a = Map.empty" "as_registry a = R" "as_objects a = Map.empty" "as_gcActorsAfter a = 60 * 10 ^ 9"
    by (simp add: newActivations_def)
  let ?env = "\<lparr>en_activations = a, en_activationCache = c, en_HeartbeatResult = \<lparr>hr_VersionStamp = 0, hr_HeartbeatTTL = 0, hr_ServerVersion = 0\<rparr>,
      en_frozen = False, en_paused = False, en_closeCh = False, en_closedCh = False, en_serverID = DNSServerID, en_address = address,
      en_registry = R, en_client = client, en_opts = ?opts\<rparr>"
  let ?env' = "?env\<lparr>en_HeartbeatResult := \<lparr>hr_VersionStamp = 1, hr_HeartbeatTTL = 1, hr_ServerVersion = -1\<rparr>,
      en_activations := setServerState DNSServerID (-1) a\<rparr>"
  have "heartbeat e (setEnv e ?env w) = (Ret (), setEnv e ?env' (setEnv e ?env w))"
    using heartbeat_Ret [of "setEnv e ?env w" e ?env "\<lparr>hr_VersionStamp = 1, hr_HeartbeatTTL = 1, hr_ServerVersion = -1\<rparr>" "pr_state w"] a(2) assms(5)
    by (simp add: setEnv_def besideRegistry_def dnsOps_def dnsHeartbeat_def DNSVersionStamp_def DNSServerVersion_def)
  moreover have "validateOptions ?opts = Ret ()"
    using assms(4) by (simp add: validateOptions_def validateDiscovery_def)
  ultimately have "NewEnvironment e interfaceAddrs DNSServerID R client opts w
      = (Ret (), setEnv e ?env' (w\<lparr>pr_localEnvironmentsRouter := (pr_localEnvironmentsRouter w)(address \<mapsto> e)\<rparr>))"
    using assms(1-4) a(1)
    by (simp add: NewEnvironment_def zeroOptions_def Let_def andThen_def onError_def DiscoveryTypeLocalHost_def DiscoveryTypeRemote_def setEnv_def)
  with a show ?thesis by (intro exI [of _ ?env']) (simp add: setServerState_def assms(4) zeroOptions_def)
qed

lemma example_setup:
  assumes "cache_contract (pr_cache w)" "netLookupIP Localhost net = (Ret [ip], net')" "To4 ip = Some [127, 0, 0, 1]"
    and "address = Localhost @ '':'' @ decInt port" "pr_localEnvironmentsRouter w address = None"
  shows "\<exists>w'. exampleSetup e interfaceAddrs netLookupIP net client Localhost port w = (Ret (), w')
    \<and> exampleReady e (resolverFor netLookupIP Localhost) address 0 w'"
proof -
  let ?res = "resolverFor netLookupIP Localhost" and ?i = "NewNamespacedIDNoType ''example'' ''test-module''"
  let ?opts = "zeroOptions\<lparr>eo_Discovery := \<lparr>do_DiscoveryType = DiscoveryTypeLocalHost, do_Port = port\<rparr>\<rparr>"
  obtain d where d: "NewDNSRegistry netLookupIP net Localhost port 0 = Ret d" "synced d" "addresses (d_port d) (d_ips d) = [address]"
      "d_host d = Localhost" "d_port d = port"
    using example_registry [of netLookupIP net ip net' port] assms(2-4) by auto
  obtain c where c: "ch_New (pr_cache w) = Ret c" "cache_contract.holdsOnly (pr_cache w) (exampleEntry address) c"
    using cache_contract.holdsOnly_new [OF assms(1)] by blast
  let ?w = "w\<lparr>pr_state := (d, snd (pr_state w))\<rparr>"
  obtain env where env: "NewEnvironment e interfaceAddrs DNSServerID (besideRegistry (dnsOps ?res)) client ?opts ?w
      = (Ret (), setEnv e env (?w\<lparr>pr_localEnvironmentsRouter := (pr_localEnvironmentsRouter w)(address \<mapsto> e)\<rparr>))"
    "en_registry env = besideRegistry (dnsOps ?res)" "en_HeartbeatResult env = \<lparr>hr_VersionStamp = 1, hr_HeartbeatTTL = 1, hr_ServerVersion = -1\<rparr>"
    "\<not> eo_ForceRemoteProcedureCalls (en_opts env)" "en_activationCache env = c" "as_actors (en_activations env) = Map.empty"
    "as_modules (en_activations env) = Map.empty" "as_goModules (en_activations env) = Map.empty" "\<not> as_locked (en_activations env)"
    "as_registry (en_activations env) = besideRegistry (dnsOps ?res)"
    and fresh: "as_objects (en_activations env) = Map.empty" "as_gcActorsAfter (en_activations env) = 60 * 10 ^ 9" "\<not> en_paused env" "\<not> en_closedCh env"
    using example_environment [of ?w c address port ?opts "besideRegistry (dnsOps ?res)" ?res e interfaceAddrs client] c(1) assms(4,5) by auto
  let ?a = "(en_activations env)\<lparr>as_goModules := Map.empty(?i \<mapsto> testModule)\<rparr>"
  let ?w1 = "setEnv e env (?w\<lparr>pr_localEnvironmentsRouter := (pr_localEnvironmentsRouter w)(address \<mapsto> e)\<rparr>)"
  let ?w2 = "setEnv e (env\<lparr>en_activations := ?a\<rparr>) ?w1"
  have "dnsEnvironmentOptions Localhost port zeroOptions = Ret ?opts"
    by (simp add: dnsEnvironmentOptions_def validateOptions_def validateDiscovery_def zeroOptions_def Let_def)
  then have "NewDNSRegistryEnvironment e interfaceAddrs netLookupIP net client Localhost port zeroOptions w = (Ret (), ?w1)"
    using d(1) env(1) by (simp add: NewDNSRegistryEnvironment_def createDNSRegistry_def andThen_def onError_def)
  moreover have "envRegisterGoModule e ?i testModule ?w1 = (Ret (), ?w2)"
    using env(2,8,9) by (simp add: envRegisterGoModule_def onEnv_def setEnv_def onRegistry_def onActivations_def registerGoModule_def
        besideRegistry_def dnsOps_def dnsRegisterModule_def andThen_def onError_def)
  ultimately have "exampleSetup e interfaceAddrs netLookupIP net client Localhost port w = (Ret (), ?w2)"
    by (simp add: exampleSetup_def andThen_def onError_def Localhost_def)
  moreover have "exampleTable ?res ?a" using env(7,9,10) fresh(2) by (simp add: exampleTable_def)
  moreover have "countersAt address 0 P ?a m" for P m using env(6) by (simp add: countersAt_def rounds_0)
  moreover have "recentObjects 0 now P ?a" for now P using fresh(1) by (simp add: recentObjects_def)
  moreover have "\<forall>ip. To4 ip = Some [127, 0, 0, 1] \<longrightarrow> addresses (d_port d) [ip] = [address]"
    using local_address d(5) assms(4) by simp
  ultimately show ?thesis
    using assms(1) d(2-4) c(2) env(2-5) fresh(3,4) by (auto simp: exampleReady_def setEnv_def)
qed

subsection \<open>Properties\<close>

text \<open>
  \<^bold>\<open>C34\<close> (the example counts). On a machine where every lookup of the local address returns the machine itself or fails (the first one does not), the example program, started for the host
  \<open>127.0.0.1\<close>, sets up its environment, and the loop of its client logs no error: in round \<open>i\<close> the actor \<open>i mod 10\<close> answers
  \<open>i div 10 + 1\<close>. This holds for every schedule of what runs beside the loop while the client waits, heartbeats, lookups and the timers that collect idle actors, as
  long as each round takes at most the six seconds that the sleep and the timeout of the invocation allow: an actor is invoked every ten rounds, and
  only one that has been idle for more than a minute is collected, which would lose its count. An actor is activated by its first invocation, every later one finds it, and no
  two actors share a counter; the activation cache may keep or forget what it likes.
\<close>

theorem dns_example_counts:
  assumes "cache_contract (pr_cache w)" "netLookupIP Localhost net = (Ret ips, net')" "localLookups (resolverFor netLookupIP Localhost)"
    and "pr_localEnvironmentsRouter w (Localhost @ '':'' @ decInt port) = None" "n \<le> 2 ^ 63"
    and "\<forall>i. fst (sched i) \<le> 6 * 10 ^ 9 \<and> (\<forall>(d, ev) \<in> set (snd (sched i)). d \<le> fst (sched i))"
  shows "\<exists>w1 w2. exampleSetup e interfaceAddrs netLookupIP net client Localhost port w = (Ret (), w1)
    \<and> clientLoop (resolverFor netLookupIP Localhost) e sched n 0 w1 = (Ret (map (\<lambda>i. Some (int (i div 10) + 1)) [0..<n]), w2)"
proof -
  have "LookupIP (resolverFor netLookupIP Localhost) Localhost net = (Ret ips, net')"
    using assms(2) by (simp add: resolverFor_def Localhost_def dnsLocalhost_def NewDNSResolver_def dnsLookupIP_def)
  then obtain ip where ip: "netLookupIP Localhost net = (Ret [ip], net')" "To4 ip = Some [127, 0, 0, 1]"
    using assms(2,3) by (fastforce simp: localLookups_def dest: spec [of _ net])
  obtain w1 where w1: "exampleSetup e interfaceAddrs netLookupIP net client Localhost port w = (Ret (), w1)"
    "exampleReady e (resolverFor netLookupIP Localhost) (Localhost @ '':'' @ decInt port) 0 w1"
    using example_setup [of w netLookupIP net ip net' _ port e interfaceAddrs client] assms(1,4) ip by blast
  with client_rounds [OF w1(2) _ assms(3,6), of n] assms(5) show ?thesis by auto
qed

definition emptyProcess :: "(unit dnsRegistry \<times> testMemory, bytes \<rightharpoonup> actorRef list) process" where
  "emptyProcess =
     \<lparr>pr_state = (\<lparr>d_resolverState = (), d_host = [], d_port = 0, d_resolveEvery = 0, d_ips = [], d_hashRing = None, d_discoveryRunning = False,
        d_closeCh = False, d_closedCh = False\<rparr>, \<lparr>tm_count = (\<lambda>_. 0), tm_next = 0\<rparr>),
      pr_envs = Map.empty, pr_localEnvironmentsRouter = Map.empty, pr_cache = mapCache, pr_wasm = (\<lambda>i b. Fail (Errorf ''no engine'' [])), pr_now = 0\<rparr>"

text \<open>Rounds of a second with a heartbeat, a lookup and two collection timers each.\<close>

definition exampleSchedule :: "nat \<Rightarrow> int \<times> (int \<times> unit background) list" where
  "exampleSchedule i = (10 ^ 9, [(0, HeartbeatTicker), (3, DiscoveryTicker ()), (10 ^ 9, GcTimer 1), (10 ^ 9, GcTimer 3)])"

theorem dns_example_counts_witness:
  "\<exists>w1 w2. exampleSetup 0 (Ret []) (\<lambda>_ s. (Ret [loopbackIP], s)) () (\<lambda>vs ref operation payload create. fail (Errorf ''unreachable'' [])) Localhost 9090 emptyProcess
      = (Ret (), w1)
    \<and> clientLoop (resolverFor (\<lambda>_ s. (Ret [loopbackIP], s)) Localhost) 0 exampleSchedule 12 0 w1
      = (Ret (map (\<lambda>i. Some (int (i div 10) + 1)) [0..<12]), w2)"
  by (rule dns_example_counts [where ips = "[loopbackIP]" and net' = "()"])
    (simp_all add: emptyProcess_def map_cache.cache_contract_axioms exampleSchedule_def localLookups_def resolverFor_def NewDNSResolver_def dnsLookupIP_def
      Localhost_def dnsLocalhost_def To4_def loopbackIP_def v4InV6Prefix_def)

end
