(* ===== verification/FDB_Store.thy ===== *)
theory FDB_Store
  imports Local_Registry
begin

section \<open>The FoundationDB store: \<open>virtual/registry/fdbregistry\<close>\<close>

text \<open>
  The binding of the registry to FoundationDB. The client library is a parameter: a record of the operations that are called, on handles
  \<open>'h\<close> of transactions; the definitions pass all of its errors on. The locale \<open>fdb_contract\<close> describes an ideal client: the only one of its
  database, with transactions that do not overlap and reads and commits that do not fail. From it the contract of the
  registry's store follows. It is not the behaviour of FoundationDB in general, where a transaction may conflict or time out; what the registry does then is left open.
\<close>

subsection \<open>What is used of the client library\<close>

record ('s, 'h) fdbClient =
  fd_MustAPIVersion :: "int \<Rightarrow> unit outcome"
  fd_OpenDatabase :: "string \<Rightarrow> ('s, unit) call"
  fd_CreateTransaction :: "('s, 'h) call"
  fd_Transact :: "('h \<Rightarrow> ('s, goany) call) \<Rightarrow> ('s, goany) call"
  fd_Set :: "'h \<Rightarrow> bytes \<Rightarrow> bytes \<Rightarrow> 's \<Rightarrow> 's"
  fd_Get :: "'h \<Rightarrow> bytes \<Rightarrow> ('s, bytes option) call"
  fd_PrefixRange :: "bytes \<Rightarrow> (bytes \<times> bytes) outcome"
  fd_GetRange :: "'h \<Rightarrow> bytes \<Rightarrow> bytes \<Rightarrow> 's \<Rightarrow> ((bytes \<times> bytes) list \<times> goerr option) \<times> 's"  \<comment> \<open>the pairs of the iterator and the error that ends it\<close>
  fd_ClearRange :: "'h \<Rightarrow> bytes \<Rightarrow> bytes \<Rightarrow> 's \<Rightarrow> 's"
  fd_GetReadVersion :: "'h \<Rightarrow> ('s, int) call"
  fd_Commit :: "'h \<Rightarrow> ('s, unit) call"
  fd_Cancel :: "'h \<Rightarrow> 's \<Rightarrow> 's"

subsection \<open>\<open>fdb_kv.go\<close>\<close>

definition fdbPut :: "('s, 'h) fdbClient \<Rightarrow> 'h \<Rightarrow> bytes \<Rightarrow> bytes \<Rightarrow> ('s, unit) call" where
  "fdbPut cl h k v s = (Ret (), fd_Set cl h k v s)"

definition fdbGet :: "('s, 'h) fdbClient \<Rightarrow> 'h \<Rightarrow> bytes \<Rightarrow> ('s, bytes option) call" where
  "fdbGet cl h k = fd_Get cl h k"

fun rangeLoop :: "(bytes \<Rightarrow> bytes \<Rightarrow> 'c \<Rightarrow> 'c outcome) \<Rightarrow> (bytes \<times> bytes) list \<Rightarrow> goerr option \<Rightarrow> 'c \<Rightarrow> 'c outcome" where
  "rangeLoop fn [] err acc = (case err of None \<Rightarrow> Ret acc | Some e \<Rightarrow> Fail e)"
| "rangeLoop fn ((k, v) # kvs) err acc = obind (fn k v acc) (rangeLoop fn kvs err)"

definition fdbIterPrefix ::
  "('s, 'h) fdbClient \<Rightarrow> 'h \<Rightarrow> bytes \<Rightarrow> (bytes \<Rightarrow> bytes \<Rightarrow> 'c \<Rightarrow> 'c outcome) \<Rightarrow> 'c \<Rightarrow> ('s, 'c) call" where
  "fdbIterPrefix cl h prfx fn acc =
     andThen (lift (fd_PrefixRange cl prfx)) (\<lambda>(b, e) s.
       case fd_GetRange cl h b e s of ((kvs, err), s') \<Rightarrow> (rangeLoop fn kvs err acc, s'))"

definition fdbGetVersionStamp :: "('s, 'h) fdbClient \<Rightarrow> 'h \<Rightarrow> ('s, int) call" where
  "fdbGetVersionStamp cl h = fd_GetReadVersion cl h"

definition fdbCommit :: "('s, 'h) fdbClient \<Rightarrow> 'h \<Rightarrow> ('s, unit) call" where
  "fdbCommit cl h = fd_Commit cl h"

definition fdbCancel :: "('s, 'h) fdbClient \<Rightarrow> 'h \<Rightarrow> ('s, unit) call" where
  "fdbCancel cl h s = (Ret (), fd_Cancel cl h s)"

definition fdbTransaction :: "('s, 'h) fdbClient \<Rightarrow> 'h \<Rightarrow> 's transaction" where
  "fdbTransaction cl h =
     \<lparr>tPut = fdbPut cl h, tGet = fdbGet cl h,
      tIterPrefix = (\<lambda>prfx. fdbIterPrefix cl h prfx (\<lambda>k v acc. Ret (acc @ [(k, v)])) []),
      tGetVersionStamp = fdbGetVersionStamp cl h, tCommit = fdbCommit cl h, tCancel = fdbCancel cl h\<rparr>"

definition fdbBeginTransaction :: "('s, 'h) fdbClient \<Rightarrow> ('s, 's transaction) call" where
  "fdbBeginTransaction cl =
     andThen (onError (wrap ''fdbKV: beginTransaction: error creating transaction: %w'') (fd_CreateTransaction cl)) (\<lambda>h. ret (fdbTransaction cl h))"

definition fdbTransact :: "('s, 'h) fdbClient \<Rightarrow> ('s transaction \<Rightarrow> ('s, goany) call) \<Rightarrow> ('s, goany) call" where
  "fdbTransact cl fn = fd_Transact cl (\<lambda>h. fn (fdbTransaction cl h))"

definition fdbClose :: "('s, unit) call" where
  "fdbClose = ret ()"

definition fdbUnsafeWipeAll :: "('s, 'h) fdbClient \<Rightarrow> ('s, unit) call" where
  "fdbUnsafeWipeAll cl =
     andThen (fd_Transact cl (\<lambda>h s. (Ret AnyNil, fd_ClearRange cl h [0x00] [0xFF] s))) (\<lambda>_. ret ())"

definition fdbStore :: "('s, 'h) fdbClient \<Rightarrow> ('s, goany) store" where
  "fdbStore cl =
     \<lparr>kBeginTransaction = fdbBeginTransaction cl, kTransact = fdbTransact cl, kClose = fdbClose, kUnsafeWipeAll = fdbUnsafeWipeAll cl\<rparr>"

definition newFDBKV :: "('s, 'h) fdbClient \<Rightarrow> string \<Rightarrow> ('s, ('s, goany) store) call" where
  "newFDBKV cl clusterFile =
     andThen (lift (fd_MustAPIVersion cl 710)) (\<lambda>_.
     andThen (onError (wrap ''error opening FDB database: %w'') (fd_OpenDatabase cl clusterFile)) (\<lambda>_. ret (fdbStore cl)))"

subsection \<open>\<open>fdb_registry.go\<close>\<close>

definition NewFoundationDBRegistry :: "('s, 'h) fdbClient \<Rightarrow> string \<Rightarrow> ('s, 's registry) call" where
  "NewFoundationDBRegistry cl clusterFile = andThen (newFDBKV cl clusterFile) (\<lambda>st. ret (NewKVRegistry st))"

subsection \<open>The contract of the client library\<close>

text \<open>
  For one client whose transactions do not overlap and do not fail: \<open>opened\<close> tells whether its transaction \<open>h\<close> is open, \<open>committed\<close> is the database, \<open>view\<close> what the transaction
  reads (the database and its own writes) and \<open>version\<close> its read version, or that of the next one. The versions grow with time. A transaction function that
  returns is committed, one that fails is given up and leaves the database as it was.
\<close>

locale fdb_contract =
  fixes cl :: "('s, 'h) fdbClient" and h :: 'h and opened :: "'s \<Rightarrow> bool" and committed :: "'s \<Rightarrow> bytes \<rightharpoonup> bytes"
    and view :: "'s \<Rightarrow> bytes \<rightharpoonup> bytes" and version :: "'s \<Rightarrow> int" and start :: "'s \<Rightarrow> 's" and finish :: "'s \<Rightarrow> 's"
    and abandon :: "'s \<Rightarrow> 's \<Rightarrow> 's"
  assumes create: "\<not> opened s \<Longrightarrow> fd_CreateTransaction cl s = (Ret h, start s)"
    and started: "\<not> opened s \<Longrightarrow> opened (start s) \<and> view (start s) = committed s \<and> committed (start s) = committed s \<and> version (start s) = version s"
    and transact_Ret: "\<not> opened s \<Longrightarrow> f h (start s) = (Ret r, s') \<Longrightarrow> opened s' \<Longrightarrow> fd_Transact cl f s = (Ret r, finish s')"
    and transact_Fail: "\<not> opened s \<Longrightarrow> f h (start s) = (Fail err, s') \<Longrightarrow> opened s' \<Longrightarrow> fd_Transact cl f s = (Fail err, abandon s s')"
    and commit: "opened s \<Longrightarrow> fd_Commit cl h s = (Ret (), finish s)"
    and finished: "opened s \<Longrightarrow> \<not> opened (finish s) \<and> committed (finish s) = view s \<and> version s \<le> version (finish s)"
    and abandoned: "\<not> opened s \<Longrightarrow> opened s' \<Longrightarrow> \<not> opened (abandon s s') \<and> committed (abandon s s') = committed s
      \<and> version s' \<le> version (abandon s s')"
    and cancelled: "opened s \<Longrightarrow> \<not> opened (fd_Cancel cl h s) \<and> committed (fd_Cancel cl h s) = committed s \<and> version s \<le> version (fd_Cancel cl h s)"
    and set: "opened s \<Longrightarrow> opened (fd_Set cl h k v s) \<and> view (fd_Set cl h k v s) = (view s)(k \<mapsto> v) \<and> committed (fd_Set cl h k v s) = committed s
      \<and> version (fd_Set cl h k v s) = version s"
    and clear: "opened s \<Longrightarrow> opened (fd_ClearRange cl h b e s) \<and> view (fd_ClearRange cl h b e s) = (\<lambda>k. if b \<le> k \<and> k < e then None else view s k)
      \<and> committed (fd_ClearRange cl h b e s) = committed s \<and> version (fd_ClearRange cl h b e s) = version s"
    and get: "opened s \<Longrightarrow> fd_Get cl h k s = (Ret (view s k), s)"
    and range: "opened s \<Longrightarrow> \<exists>kvs. fd_GetRange cl h b e s = ((kvs, None), s) \<and> sorted_wrt (<) (map fst kvs)
      \<and> (\<forall>k v. (k, v) \<in> List.set kvs \<longleftrightarrow> b \<le> k \<and> k < e \<and> view s k = Some v)"
    and prefix_range: "properPrefix p \<Longrightarrow> \<exists>b e. fd_PrefixRange cl p = Ret (b, e) \<and> (\<forall>k. b \<le> k \<and> k < e \<longleftrightarrow> prefix p k)"
    and read_version: "opened s \<Longrightarrow> fd_GetReadVersion cl h s = (Ret (version s), s)"
    and versions: "0 \<le> version s \<and> version s * 1000 < 2 ^ 63"

text \<open>The map that the next read sees.\<close>

definition fdbContents :: "('s \<Rightarrow> bool) \<Rightarrow> ('s \<Rightarrow> bytes \<rightharpoonup> bytes) \<Rightarrow> ('s \<Rightarrow> bytes \<rightharpoonup> bytes) \<Rightarrow> 's \<Rightarrow> bytes \<rightharpoonup> bytes" where
  "fdbContents opened committed view s = (if opened s then view s else committed s)"

lemma rangeLoop_iterCallback: "rangeLoop fn kvs None acc = iterCallback fn kvs acc"
proof (induction kvs arbitrary: acc)
  case (Cons kv kvs)
  obtain k v where "kv = (k, v)" by force
  then show ?case using Cons by (cases "fn k v acc") auto
qed simp

context fdb_contract
begin

lemma fdb_iter:
  assumes "opened s" "properPrefix p"
  shows "\<exists>kvs. fdbIterPrefix cl h p fn acc s = (iterCallback fn kvs acc, s) \<and> scan p (view s) kvs"
proof -
  obtain b e where be: "fd_PrefixRange cl p = Ret (b, e)" "\<And>k. b \<le> k \<and> k < e \<longleftrightarrow> prefix p k"
    using prefix_range [OF assms(2)] by blast
  obtain kvs where kvs: "fd_GetRange cl h b e s = ((kvs, None), s)" "sorted_wrt (<) (map fst kvs)"
    "\<And>k v. (k, v) \<in> List.set kvs \<longleftrightarrow> b \<le> k \<and> k < e \<and> view s k = Some v"
    using range [OF assms(1), of b e] by blast
  have "fdbIterPrefix cl h p fn acc s = (iterCallback fn kvs acc, s)"
    by (simp add: fdbIterPrefix_def andThen_def be(1) kvs(1) rangeLoop_iterCallback)
  moreover have "scan p (view s) kvs" using kvs(2,3) be(2) by (auto simp: scan_def)
  ultimately show ?thesis by blast
qed

lemma fdb_open_contract:
  "kv_open_transactions (fdbStore cl) (fdbTransaction cl h) (\<lambda>s. \<not> opened s) opened (fdbContents opened committed view) version
     (fd_Set cl h) (\<lambda>s. s) start finish abandon start (\<lambda>s. if opened s then Some (committed s) else None) finish (fd_Cancel cl h)"
proof (unfold_locales, goal_cases)
  case (3 s p)
  then show ?case
    using fdb_iter [of s p "\<lambda>k v acc. Ret (acc @ [(k, v)])" "[]"]
    by (auto simp: fdbTransaction_def fdbContents_def iterCallback_collect)
next
  case (5 s fn r s')
  then show ?case
    using transact_Ret [of s "\<lambda>h. fn (fdbTransaction cl h)" _ s'] transact_Fail [of s "\<lambda>h. fn (fdbTransaction cl h)" _ s']
    by (cases r) (auto simp: fdbStore_def fdbTransact_def)
next
  case (16 s)
  show ?case by (rule versions)
qed (auto simp: fdbTransaction_def fdbStore_def fdbContents_def fdbPut_def fdbGet_def fdbGetVersionStamp_def fdbCommit_def fdbCancel_def
    fdbBeginTransaction_def onError_def andThen_def create started commit finished abandoned cancelled set get read_version versions)

end

sublocale fdb_contract \<subseteq> fdb: kv_open_transactions "fdbStore cl" "fdbTransaction cl h" "\<lambda>s. \<not> opened s" opened
     "fdbContents opened committed view" version "fd_Set cl h" "\<lambda>s. s" start finish abandon start
     "\<lambda>s. if opened s then Some (committed s) else None" finish "fd_Cancel cl h"
  by (rule fdb_open_contract)

sublocale fdb_contract \<subseteq> reg: registry_open "fdbStore cl" "fdbTransaction cl h" "\<lambda>s. \<not> opened s" opened
     "fdbContents opened committed view" version "fd_Set cl h" "\<lambda>s. s" start finish abandon start
     "\<lambda>s. if opened s then Some (committed s) else None" finish "fd_Cancel cl h"
  by unfold_locales

text \<open>No transaction is open and the database holds the abstract state \<open>A\<close>.\<close>

definition fdbHolds :: "('s \<Rightarrow> bool) \<Rightarrow> ('s \<Rightarrow> bytes \<rightharpoonup> bytes) \<Rightarrow> ('s \<Rightarrow> int) \<Rightarrow> 's \<Rightarrow> regState \<Rightarrow> bool" where
  "fdbHolds opened committed version s A \<longleftrightarrow> \<not> opened s \<and> represents (committed s) A \<and> wfState (version s) A"

lemma registryKey_range: "registryKey k \<Longrightarrow> [0x00] \<le> k \<and> k < [0xFF]"
  by (auto simp: registryKey_def key_defs packed_encs stringCode_def)

context fdb_contract
begin

lemma fdb_good: "reg.good s A \<longleftrightarrow> fdbHolds opened committed version s A \<and> regInv (version s) A"
  by (auto simp: reg.good_def reg.holds_def fdbHolds_def fdbContents_def)

lemma fdb_empty:
  assumes "\<not> opened s" "committed s = Map.empty"
  shows "reg.good s emptyRegistry"
  using assms represents_empty versions [of s]
  unfolding fdb_good by (auto simp: fdbHolds_def wfState_def regInv_def versionsOk_def activationsKnown_def emptyRegistry_def)

lemma fdb_call:
  assumes "reg.good s A" "runs (NewKVRegistry (fdbStore cl)) s s'" "okCall c"
  shows "\<exists>r s'' A'. runCall (NewKVRegistry (fdbStore cl)) c s' = (r, s'') \<and> answered r
    \<and> fdbHolds opened committed version s'' A' \<and> regInv (version s'') A'"
proof -
  obtain A' where "reg.good s' A'" using reg.good_runs [OF assms(2,1)] by blast
  from reg.good_call [OF this assms(3)] show ?thesis unfolding fdb_good by (metis surj_pair)
qed

lemma fdb_wipe:
  assumes "reg.good s A" "runs (NewKVRegistry (fdbStore cl)) s s'"
  shows "\<exists>s''. rUnsafeWipeAll (NewKVRegistry (fdbStore cl)) s' = (Ret (), s'') \<and> fdbHolds opened committed version s'' emptyRegistry"
proof -
  obtain A' where A': "fdbHolds opened committed version s' A'" using reg.good_runs [OF assms(2,1)] by (auto simp: fdb_good)
  let ?t = "fd_ClearRange cl h [0x00] [0xFF] (start s')"
  have s': "\<not> opened s'" "represents (committed s') A'" using A' by (simp_all add: fdbHolds_def)
  have "fd_Transact cl (\<lambda>h s. (Ret AnyNil, fd_ClearRange cl h [0x00] [0xFF] s)) s' = (Ret AnyNil, finish ?t)"
    by (rule transact_Ret) (use s'(1) in \<open>simp_all add: clear started\<close>)
  then have r: "rUnsafeWipeAll (NewKVRegistry (fdbStore cl)) s' = (Ret (), finish ?t)"
    by (simp add: registry_simps kvUnsafeWipeAll_def fdbStore_def fdbUnsafeWipeAll_def andThen_def)
  have "committed (finish ?t) = (\<lambda>k. if [0x00] \<le> k \<and> k < [0xFF] then None else committed s' k)" "\<not> opened (finish ?t)"
    using s'(1) started [OF s'(1)] by (simp_all add: finished clear cong: if_cong)
  moreover have "committed s' k = None" if "\<not> ([0x00] \<le> k \<and> k < [0xFF])" for k
    using that registryKey_range [of k] representsD(5) [OF s'(2), of k] by (cases "committed s' k") auto
  ultimately have "\<not> opened (finish ?t)" "committed (finish ?t) = Map.empty" by auto
  from fdb_empty [OF this] r show ?thesis by (auto simp: fdb_good)
qed

lemma fdb_token:
  assumes "reg.good s1 A" "runs (NewKVRegistry (fdbStore cl)) s1 s2" "runs (NewKVRegistry (fdbStore cl)) s2 s3"
    and "runs (NewKVRegistry (fdbStore cl)) s3 s4" "sid \<noteq> []"
    and "\<exists>tr. fst (rBeginTransaction (NewKVRegistry (fdbStore cl)) ns a mid sid ver s2) = Ret tr"
    and "\<exists>e. fst (rBeginTransaction (NewKVRegistry (fdbStore cl)) ns a mid sid ver s3) = Fail e"
  shows "\<exists>e. fst (rBeginTransaction (NewKVRegistry (fdbStore cl)) ns a mid sid ver s4) = Fail e"
proof -
  obtain A' where "reg.good s2 A'" using reg.good_runs [OF assms(2,1)] by blast
  from reg.token_never_returns [OF this assms(3-7)] show ?thesis .
qed

end

lemma NewFoundationDBRegistry_opens:
  assumes "fd_MustAPIVersion cl 710 = Ret ()" "fd_OpenDatabase cl clusterFile s0 = (Ret (), s1)"
  shows "NewFoundationDBRegistry cl clusterFile s0 = (Ret (NewKVRegistry (fdbStore cl)), s1)"
  using assms by (simp add: NewFoundationDBRegistry_def newFDBKV_def andThen_def onError_def)

subsection \<open>A database for one client\<close>

text \<open>
  A database that keeps the contract: the pairs in a red-black tree, the transaction as a tree of its own that replaces the database when it is
  committed, and the time between two transactions as a sequence of microseconds. A prefix without its trailing bytes \<open>0xFF\<close>, with the last byte
  that is left increased, is the end of the prefix's range.
\<close>

record simDB =
  sd_pairs :: tree
  sd_open :: "tree option"
  sd_gaps :: "nat \<Rightarrow> nat"
  sd_count :: nat
  sd_now :: nat

definition strinc :: "bytes \<Rightarrow> bytes outcome" where
  "strinc p = (case dropWhile (\<lambda>b. b = 0xFF) (rev p) of [] \<Rightarrow> Fail (Sentinel ''Key must contain at least one byte not equal to 0xFF'')
     | b # bs \<Rightarrow> Ret (rev bs @ [b + 1]))"

definition simPass :: "simDB \<Rightarrow> simDB" where
  "simPass s = s\<lparr>sd_open := None, sd_count := sd_count s + 1, sd_now := sd_now s + sd_gaps s (sd_count s)\<rparr>"

definition simVersion :: "simDB \<Rightarrow> int" where
  "simVersion s = min (int (sd_now s)) (2 ^ 53)"

definition simView :: "simDB \<Rightarrow> tree" where
  "simView s = (case sd_open s of None \<Rightarrow> RBT.empty | Some t \<Rightarrow> t)"

definition simStart :: "simDB \<Rightarrow> simDB" where
  "simStart s = s\<lparr>sd_open := Some (sd_pairs s)\<rparr>"

definition simFinish :: "simDB \<Rightarrow> simDB" where
  "simFinish s = simPass (s\<lparr>sd_pairs := simView s\<rparr>)"

definition simAbandon :: "simDB \<Rightarrow> simDB \<Rightarrow> simDB" where
  "simAbandon s s' = simPass (s'\<lparr>sd_pairs := sd_pairs s\<rparr>)"

definition simClient :: "(simDB, unit) fdbClient" where
  "simClient =
     \<lparr>fd_MustAPIVersion = (\<lambda>_. Ret ()), fd_OpenDatabase = (\<lambda>_. ret ()),
      fd_CreateTransaction = (\<lambda>s. (Ret (), simStart s)),
      fd_Transact = (\<lambda>f s. case f () (simStart s) of (Ret r, s') \<Rightarrow> (Ret r, simFinish s') | (r, s') \<Rightarrow> (r, simAbandon s s')),
      fd_Set = (\<lambda>_ k v s. s\<lparr>sd_open := Some (RBT.insert k v (simView s))\<rparr>),
      fd_Get = (\<lambda>_ k s. (Ret (RBT.lookup (simView s) k), s)),
      fd_PrefixRange = (\<lambda>p. obind (strinc p) (\<lambda>e. Ret (p, e))),
      fd_GetRange = (\<lambda>_ b e s. ((filter (\<lambda>(k, v). b \<le> k \<and> k < e) (RBT.entries (simView s)), None), s)),
      fd_ClearRange = (\<lambda>_ b e s. s\<lparr>sd_open := Some (RBT.bulkload (filter (\<lambda>(k, v). \<not> (b \<le> k \<and> k < e)) (RBT.entries (simView s))))\<rparr>),
      fd_GetReadVersion = (\<lambda>_ s. (Ret (simVersion s), s)),
      fd_Commit = (\<lambda>_ s. (Ret (), simFinish s)),
      fd_Cancel = (\<lambda>_ s. simPass s)\<rparr>"

lemmas sim_defs = simClient_def simPass_def simView_def simStart_def simFinish_def simAbandon_def

lemma max_byte: "(0xFF :: 8 word) \<le> b \<longleftrightarrow> b = 0xFF" "\<not> (0xFF :: 8 word) < b" "b + 1 = (0 :: 8 word) \<longleftrightarrow> b = 0xFF"
proof -
  have m: "(- 1 :: 8 word) = 0xFF" by simp
  show "(0xFF :: 8 word) \<le> b \<longleftrightarrow> b = 0xFF" "\<not> (0xFF :: 8 word) < b"
    unfolding m [symmetric] using word_order.extremum_unique [of b] by (auto simp: not_less)
  show "b + 1 = (0 :: 8 word) \<longleftrightarrow> b = 0xFF" unfolding m [symmetric] by (simp add: eq_neg_iff_add_eq_0)
qed

lemma full_prefix: "replicate n 0xFF \<le> k \<longleftrightarrow> prefix (replicate n 0xFF) (k :: bytes)"
proof (induction n arbitrary: k)
  case (Suc n)
  then show ?case by (cases k) (auto simp: max_byte)
qed simp

lemma byte_between:
  fixes b :: "8 word"
  assumes "b \<noteq> 0xFF"
  shows "c < b + 1 \<longleftrightarrow> c \<le> b"
proof -
  have "1 + b \<noteq> 0" using assms max_byte(3) [of b] by (simp add: add.commute)
  from unatSuc [OF this] show ?thesis by (simp add: word_less_nat_alt word_le_nat_alt less_Suc_eq_le add.commute)
qed

lemma last_proper:
  assumes "properPrefix p"
  obtains q b n where "p = q @ b # replicate n 0xFF" "b \<noteq> 0xFF" "strinc p = Ret (q @ [b + 1])"
proof -
  let ?r = "rev p"
  obtain b bs where d: "dropWhile (\<lambda>b. b = 0xFF) ?r = b # bs"
    using assms by (cases "dropWhile (\<lambda>b. b = 0xFF) ?r") (auto simp: properPrefix_def)
  have "takeWhile (\<lambda>b. b = 0xFF) ?r = replicate (length (takeWhile (\<lambda>b. b = 0xFF) ?r)) 0xFF"
    by (metis (mono_tags, lifting) replicate_length_same set_takeWhileD)
  then have "?r = replicate (length (takeWhile (\<lambda>b. b = 0xFF) ?r)) 0xFF @ b # bs"
    using d by (metis takeWhile_dropWhile_id)
  then have "p = rev bs @ b # replicate (length (takeWhile (\<lambda>b. b = 0xFF) ?r)) 0xFF"
    by (metis append.assoc append_Cons append_Nil rev.simps(2) rev_append rev_replicate rev_rev_ident)
  moreover have "b \<noteq> 0xFF" using d by (metis (mono_tags, lifting) dropWhile_eq_Cons_conv)
  moreover have "strinc p = Ret (rev bs @ [b + 1])" using d by (simp add: strinc_def)
  ultimately show ?thesis by (rule that)
qed

lemma strinc_range:
  assumes "properPrefix p"
  obtains e where "strinc p = Ret e" "\<And>k. p \<le> k \<and> k < e \<longleftrightarrow> prefix p k"
proof -
  obtain q b n where p: "p = q @ b # replicate n 0xFF" "b \<noteq> 0xFF" "strinc p = Ret (q @ [b + 1])"
    by (rule last_proper [OF assms])
  have "p \<le> k \<and> k < q @ [b + 1] \<longleftrightarrow> prefix p k" for k
  proof (cases "prefix q k")
    case True
    then obtain k' where "k = q @ k'" by (auto simp: prefix_def)
    moreover have "q @ x \<le> q @ y \<longleftrightarrow> x \<le> y" for x y :: bytes by (simp flip: not_less)
    moreover have "\<not> q @ x \<le> q" if "x \<noteq> []" for x :: bytes using that by (simp add: not_le)
    ultimately show ?thesis using p(1,2) by (cases k') (auto simp: byte_between full_prefix)
  next
    case False
    then show ?thesis
      using prefix_convex [of q p "q @ [b + 1]" k] p(1) by (auto dest: append_prefixD less_imp_le)
  qed
  with p(3) that show ?thesis by blast
qed

lemma map_of_filter_distinct:
  "distinct (map fst xs) \<Longrightarrow> map_of (filter P xs) k = (case map_of xs k of None \<Rightarrow> None | Some v \<Rightarrow> if P (k, v) then Some v else None)"
  by (induction xs) (auto simp: map_of_eq_None_iff split: option.splits dest: map_of_SomeD)

interpretation sim: fdb_contract simClient "()" "\<lambda>s. sd_open s \<noteq> None" "\<lambda>s. RBT.lookup (sd_pairs s)" "\<lambda>s. RBT.lookup (simView s)"
  simVersion simStart simFinish simAbandon
proof (unfold_locales, goal_cases)
  case (10 s b e)
  have "map_of (filter P (RBT.entries t)) k = (case RBT.lookup t k of None \<Rightarrow> None | Some v \<Rightarrow> if P (k, v) then Some v else None)" for P k and t :: tree
    using RBT.distinct_entries [of t] by (simp add: map_of_filter_distinct flip: RBT.map_of_entries)
  then show ?case by (auto simp: simClient_def simView_def simVersion_def fun_eq_iff split: option.splits)
next
  case (12 s b e)
  have "sorted_wrt (<) (map fst (filter P (RBT.entries t)))" for P and t :: tree
    using rbt_ascend [of "[]" t] by (simp add: sorted_wrt_map sorted_wrt_filter)
  moreover have "(k, v) \<in> set (RBT.entries t) \<longleftrightarrow> RBT.lookup t k = Some v" for k v and t :: tree
    by (simp add: lookup_in_tree)
  ultimately show ?case by (auto simp: simClient_def)
next
  case (13 p)
  obtain e where "strinc p = Ret e" "\<And>k. p \<le> k \<and> k < e \<longleftrightarrow> prefix p k" using strinc_range [OF 13] by blast
  then show ?case by (auto simp: simClient_def)
next
  case (15 s)
  show ?case by (simp add: simVersion_def)
qed (auto simp: sim_defs simVersion_def)

subsection \<open>The registry on an ideal client\<close>

text \<open>
  On every client that keeps this contract, \<open>NewFoundationDBRegistry\<close> on an empty database
  gives a registry that never breaks: after any sequence of calls every further call returns a result or an error, leaves no transaction open, and the committed pairs
  hold a registry state in which every activation names a known server; \<open>UnsafeWipeAll\<close> empties the registry; and a fencing token that is lost is lost for good, as on the in-memory store.
\<close>

lemma fdb_registry:
  assumes "fdb_contract cl h opened committed view version start finish abandon"
    and "fd_MustAPIVersion cl 710 = Ret ()" "fd_OpenDatabase cl clusterFile s0 = (Ret (), s1)"
    and "\<not> opened s1" "committed s1 = Map.empty"
  shows "\<exists>R. NewFoundationDBRegistry cl clusterFile s0 = (Ret R, s1)
    \<and> (\<forall>s c. runs R s1 s \<longrightarrow> okCall c \<longrightarrow> (\<exists>r s' A. runCall R c s = (r, s') \<and> answered r
         \<and> fdbHolds opened committed version s' A \<and> regInv (version s') A))
    \<and> (\<forall>s. runs R s1 s \<longrightarrow> (\<exists>s'. rUnsafeWipeAll R s = (Ret (), s') \<and> fdbHolds opened committed version s' emptyRegistry))
    \<and> (\<forall>s2 s3 s4 ns a mid sid ver. runs R s1 s2 \<longrightarrow> runs R s2 s3 \<longrightarrow> runs R s3 s4 \<longrightarrow> sid \<noteq> []
         \<longrightarrow> (\<exists>tr. fst (rBeginTransaction R ns a mid sid ver s2) = Ret tr)
         \<longrightarrow> (\<exists>e. fst (rBeginTransaction R ns a mid sid ver s3) = Fail e)
         \<longrightarrow> (\<exists>e. fst (rBeginTransaction R ns a mid sid ver s4) = Fail e))"
proof -
  note good = fdb_contract.fdb_empty [OF assms(1,4,5)]
  show ?thesis
    using NewFoundationDBRegistry_opens [OF assms(2,3)] fdb_contract.fdb_call [OF assms(1) good] fdb_contract.fdb_wipe [OF assms(1) good]
      fdb_contract.fdb_token [OF assms(1) good]
    by blast
qed

end
