(* ===== verification/Server_App.thy ===== *)
theory Server_App
  imports DNS_Example FDB_Store
begin

section \<open>The server program: \<open>cmd/app/main.go\<close>\<close>

text \<open>
  The program that puts a registry, an environment and an HTTP server together. The flags are a record; \<open>log.Fatal\<close> is a failure. Both registries
  live in the world \<open>'s\<close>, as calls that create them. Serving HTTP is the last call of \<open>main\<close>: the result is the server that it starts.
\<close>

record appFlags =
  fl_port :: int
  fl_serverID :: string
  fl_discoveryType :: string
  fl_registryType :: string
  fl_foundationDBClusterFilePath :: string

definition appRegistry :: "('s, 's registry) call \<Rightarrow> (string \<Rightarrow> ('s, 's registry) call) \<Rightarrow> appFlags \<Rightarrow> ('s, 's registry) call" where
  "appRegistry newLocalRegistry newFoundationDBRegistry fl =
     (if fl_registryType fl = ''memory'' then newLocalRegistry
      else if fl_registryType fl = ''foundationdb'' then
        onError (wrap ''error creating FoundationDB registry: %v'') (newFoundationDBRegistry (fl_foundationDBClusterFilePath fl))
      else fail (Errorf ''unknown registry type: %v'' [AStr (fl_registryType fl)]))"

definition appMain ::
  "nat \<Rightarrow> ifaceAddr list outcome \<Rightarrow> ('s, 's registry) call \<Rightarrow> (string \<Rightarrow> ('s, 's registry) call) \<Rightarrow> 's remoteClient \<Rightarrow> appFlags
   \<Rightarrow> (('s, 'c) process, 's httpServer) call" where
  "appMain e interfaceAddrs newLocalRegistry newFoundationDBRegistry client fl =
     andThen (onRegistry (appRegistry newLocalRegistry newFoundationDBRegistry fl)) (\<lambda>reg.
     andThen (NewEnvironment e interfaceAddrs (fl_serverID fl) reg client
                (zeroOptions\<lparr>eo_Discovery := \<lparr>do_DiscoveryType = fl_discoveryType fl, do_Port = fl_port fl\<rparr>\<rparr>)) (\<lambda>_.
       ret (NewServer reg e)))"

text \<open>\<open>NewLocalRegistry\<close> as a call: the store is new.\<close>

definition createLocal :: "'t btree_ops \<Rightarrow> (nat \<Rightarrow> int) \<Rightarrow> ('t localKV, 't localKV registry) call" where
  "createLocal bt clock l = (Ret (NewLocalRegistry bt), newLocalKV bt clock)"

text \<open>
  A server with the registry in memory is ready when \<open>main\<close> begins to serve: the registry knows it, under its address and alive, the process routes that address to
  its environment, and the environment accepts invocations under the version that the registry gives out.
\<close>

lemma app_memory_ready:
  assumes "btree_contract bt m tinv" "mono clock" "ch_New (pr_cache w) = Ret c"
    and "fl_registryType fl = ''memory''" "fl_discoveryType fl = DiscoveryTypeLocalHost" "validId (fl_serverID fl)" "validString (fl_serverID fl)"
    and "address = Localhost @ '':'' @ decInt (fl_port fl)" "validString address" "validId address" "pr_localEnvironmentsRouter w address = None"
  shows "\<exists>w' env A ss. appMain e interfaceAddrs (createLocal bt clock) fdb client fl w = (Ret (NewServer (NewLocalRegistry bt) e), w')
    \<and> pr_envs w' e = Some env \<and> pr_localEnvironmentsRouter w' address = Some e \<and> localHolds m tinv (pr_state w') A
    \<and> a_servers A (fl_serverID fl) = Some ss \<and> hs_Address (ss_HeartbeatState ss) = address
    \<and> (\<forall>v. 0 < v \<longrightarrow> aliveAt v ss \<longrightarrow> accepts env v (fl_serverID fl) (ss_ServerVersion ss))"
proof -
  let ?i = "fl_serverID fl" and ?R = "NewLocalRegistry bt"
  let ?opts = "zeroOptions\<lparr>eo_Discovery := \<lparr>do_DiscoveryType = DiscoveryTypeLocalHost, do_Port = fl_port fl\<rparr>,
      eo_ActivationCacheTTL := defaultActivationsCacheTTL, eo_GCActorsAfter := 60 * 10 ^ 9\<rparr>"
  let ?hs = "\<lparr>hs_NumActivatedActors = 0, hs_Address = address\<rparr>" and ?l = "newLocalKV bt clock"
  obtain a where a: "newActivations ?R (eo_CustomHostFns ?opts) (60 * 10 ^ 9) = Ret a" "\<not> as_locked a" "as_actors a = Map.empty"
    by (simp add: newActivations_def)
  let ?env = "\<lparr>en_activations = a, en_activationCache = c, en_HeartbeatResult = \<lparr>hr_VersionStamp = 0, hr_HeartbeatTTL = 0, hr_ServerVersion = 0\<rparr>,
      en_frozen = False, en_paused = False, en_closeCh = False, en_closedCh = False, en_serverID = ?i, en_address = address,
      en_registry = ?R, en_client = client, en_opts = ?opts\<rparr>"
  have l: "localHolds m tinv ?l emptyRegistry" by (rule newLocalKV_holds [OF assms(1,2)])
  have "wfHeartbeat ?i ?hs" using assms(7,9) by (simp add: wfHeartbeat_def is_i64_def)
  with btree_contract.local_Heartbeat [OF assms(1) l, of ?i ?hs] assms(6,10) obtain t0 t t' l' where
    h: "rHeartbeat ?R ?i ?hs ?l = (Ret \<lparr>hr_VersionStamp = t', hr_HeartbeatTTL = 5000000, hr_ServerVersion = heartbeatVersion ?i t0 t emptyRegistry\<rparr>, l')"
    "localHolds m tinv l' (aHeartbeat ?i ?hs t0 t emptyRegistry)" "localStamp ?l \<le> t0" "t0 \<le> t" "t \<le> t'" "t' \<le> localStamp l'" by auto
  let ?r = "\<lparr>hr_VersionStamp = t', hr_HeartbeatTTL = 5000000, hr_ServerVersion = heartbeatVersion ?i t0 t emptyRegistry\<rparr>"
  let ?env' = "?env\<lparr>en_HeartbeatResult := ?r, en_activations := setServerState ?i (hr_ServerVersion ?r) a\<rparr>"
  let ?w0 = "w\<lparr>pr_state := ?l\<rparr>"
  let ?w' = "(setEnv e ?env' (setEnv e ?env ?w0\<lparr>pr_state := l'\<rparr>))\<lparr>pr_localEnvironmentsRouter := (pr_localEnvironmentsRouter w)(address \<mapsto> e)\<rparr>"
  have "heartbeat e (setEnv e ?env ?w0) = (Ret (), setEnv e ?env' (setEnv e ?env ?w0\<lparr>pr_state := l'\<rparr>))"
    using heartbeat_Ret [of "setEnv e ?env ?w0" e ?env ?r l'] a(2,3) h(1) by (simp add: setEnv_def)
  moreover have "validateOptions ?opts = Ret ()" by (simp add: validateOptions_def validateDiscovery_def)
  ultimately have "appMain e interfaceAddrs (createLocal bt clock) fdb client fl w = (Ret (NewServer ?R e), ?w')"
    using assms(3-5,8,11) a(1)
    by (simp add: appMain_def appRegistry_def createLocal_def onRegistry_def NewEnvironment_def zeroOptions_def Let_def andThen_def onError_def
        DiscoveryTypeLocalHost_def DiscoveryTypeRemote_def setEnv_def)
  moreover have "is_i64 (t' + 5000000)"
    using h(3-6) localHolds_stamp [OF l] localHolds_stamp [OF h(2)] by (simp add: is_i64_def)
  moreover have "?i \<noteq> []" using assms(6) by (auto simp: validId_def)
  ultimately show ?thesis
    using h(2,5)
    by (intro exI [of _ ?w'] exI [of _ ?env'] exI [of _ "aHeartbeat ?i ?hs t0 t emptyRegistry"]
        exI [of _ "the (a_servers (aHeartbeat ?i ?hs t0 t emptyRegistry) ?i)"])
      (auto simp: setEnv_def accepts_def aHeartbeat_def aliveAt_def)
qed

end
