(* ===== verification/File_Cache.thy ===== *)
theory File_Cache
  imports Activations Wapc_KV
begin

section \<open>The file cache: \<open>examples/file_cache/file_cache.go\<close>\<close>

text \<open>
  An actor that serves byte ranges of one file from a cache of chunks, and fetches what the cache lacks in larger
  ranges. The fetcher and the cache are interfaces that the user of the module
  implements: parameters, with their contracts as locales. The pipe that the range is written to
  collects what is written until its reader is closed. The singleflight group is the call that runs. Offsets are
  \<open>int\<close>, 64-bit: \<open>i64\<close> stands where a sum or a product can leave the range of the offsets.
\<close>

subsection \<open>Integer division\<close>

text \<open>Go's division truncates; by zero it panics.\<close>

definition goDiv :: "int \<Rightarrow> int \<Rightarrow> int" where
  "goDiv a b = (if 0 \<le> a \<longleftrightarrow> 0 \<le> b then \<bar>a\<bar> div \<bar>b\<bar> else - (\<bar>a\<bar> div \<bar>b\<bar>))"

definition goMod :: "int \<Rightarrow> int \<Rightarrow> int" where
  "goMod a b = a - goDiv a b * b"

definition divideError :: string where
  "divideError = ''runtime error: integer divide by zero''"

subsection \<open>State\<close>

type_synonym 'c Fetcher = "int \<Rightarrow> int \<Rightarrow> ('c, bytes) call"  \<comment> \<open>the bytes that the reader delivers\<close>

record 'c ChunkCache =
  cc_Get :: "int \<Rightarrow> ('c, bytes option) call"
  cc_Put :: "int \<Rightarrow> bytes \<Rightarrow> ('c, unit) call"

record 'c FileCacheModule =
  fm_chunkSize :: int
  fm_fetchSize :: int
  fm_fetcher :: "'c Fetcher"
  fm_chunkCache :: "'c ChunkCache"

definition NewFileCacheModule :: "int \<Rightarrow> int \<Rightarrow> 'c Fetcher \<Rightarrow> 'c ChunkCache \<Rightarrow> 'c FileCacheModule" where
  "NewFileCacheModule chunkSize fetchSize fetcher chunkCache =
     \<lparr>fm_chunkSize = chunkSize, fm_fetchSize = fetchSize, fm_fetcher = fetcher, fm_chunkCache = chunkCache\<rparr>"

record 'c FileCacheActor =
  fa_fileSize :: int
  fa_chunkSize :: int
  fa_fetchSize :: int
  fa_fetcher :: "'c Fetcher"
  fa_chunkCache :: "'c ChunkCache"

definition NewFileCacheActor :: "int \<Rightarrow> int \<Rightarrow> int \<Rightarrow> 'c Fetcher \<Rightarrow> 'c ChunkCache \<Rightarrow> 'c FileCacheActor outcome" where
  "NewFileCacheActor fileSize chunkSize fetchSize fetcher chunkCache =
     (if chunkSize = 0 then Panic divideError
      else if goMod fetchSize chunkSize \<noteq> 0 \<or> chunkSize > fetchSize then
        Fail (Errorf ''%d does not cleanly divide %d'' [AInt fetchSize, AInt chunkSize])
      else Ret \<lparr>fa_fileSize = fileSize, fa_chunkSize = chunkSize, fa_fetchSize = fetchSize, fa_fetcher = fetcher, fa_chunkCache = chunkCache\<rparr>)"

text \<open>The pipe: what was written, how it was closed, and after how many writes its reader is closed.\<close>

record pipe =
  pi_data :: bytes
  pi_closed :: "goerr option option"  \<comment> \<open>\<open>Some None\<close> after \<open>Close\<close>, \<open>Some (Some e)\<close> after \<open>CloseWithError\<close>\<close>
  pi_writes :: "nat option"

definition newPipe :: "nat option \<Rightarrow> pipe" where
  "newPipe n = \<lparr>pi_data = [], pi_closed = None, pi_writes = n\<rparr>"

definition pipeWrite :: "bytes \<Rightarrow> ('c \<times> pipe, unit) call" where
  "pipeWrite b sp =
     (let (s, p) = sp in
      case pi_writes p of
        Some 0 \<Rightarrow> (Fail (Errorf ''io: read/write on closed pipe'' []), sp)
      | Some (Suc n) \<Rightarrow> (Ret (), (s, p\<lparr>pi_data := pi_data p @ b, pi_writes := Some n\<rparr>))
      | None \<Rightarrow> (Ret (), (s, p\<lparr>pi_data := pi_data p @ b\<rparr>)))"

definition onCache :: "('c, 'a) call \<Rightarrow> ('c \<times> pipe, 'a) call" where
  "onCache f sp = (case f (fst sp) of (r, s') \<Rightarrow> (r, (s', snd sp)))"

subsection \<open>Chunks\<close>

record chunkToRead =
  cr_idx :: int
  cr_start :: int
  cr_end :: int

text \<open>The loop of \<open>rangeToChunkIndexes\<close>, behind its first iteration; it runs out of fuel only if it does not end.\<close>

fun chunkLoop :: "nat \<Rightarrow> int \<Rightarrow> int \<Rightarrow> int \<Rightarrow> chunkToRead list option" where
  "chunkLoop fuel chunkSize remaining cur =
     (if remaining \<le> 0 then Some []
      else case fuel of
        0 \<Rightarrow> None
      | Suc n \<Rightarrow>
          map_option (\<lambda>cs. \<lparr>cr_idx = goDiv cur chunkSize, cr_start = 0, cr_end = chunkSize\<rparr> # cs)
            (chunkLoop n chunkSize (remaining - chunkSize) (i64 (cur + chunkSize))))"

declare chunkLoop.simps [simp del]

definition firstChunk :: "int \<Rightarrow> int \<Rightarrow> int \<Rightarrow> chunkToRead" where
  "firstChunk chunkSize remaining cur =
     (let chunkStartOffset = goMod cur chunkSize in
      \<lparr>cr_idx = goDiv cur chunkSize, cr_start = chunkStartOffset,
       cr_end = (if chunkStartOffset + remaining < chunkSize then chunkStartOffset + remaining else chunkSize)\<rparr>)"

definition rangeToChunkIndexes :: "'c FileCacheActor \<Rightarrow> int \<Rightarrow> int \<Rightarrow> chunkToRead list outcome" where
  "rangeToChunkIndexes f start end =
     (let size = fa_chunkSize f; remaining = end - start in
      if remaining \<le> 0 then Panic ''runtime error: index out of range [-1]''
      else if size = 0 then Panic divideError
      else
        (let c = firstChunk size remaining start in
         case chunkLoop (nat remaining) size (remaining - (cr_end c - cr_start c)) (i64 (start + size)) of
           None \<Rightarrow> Blocked
         | Some cs \<Rightarrow>
             (let chunkIndexes = c # cs; last = last chunkIndexes in
              Ret (if i64 (size * (cr_idx last + 1)) > end
                   then butlast chunkIndexes @ [last\<lparr>cr_end := end - cr_idx last * size\<rparr>] else chunkIndexes))))"

definition offsetToChunkIndex :: "'c FileCacheActor \<Rightarrow> int \<Rightarrow> int" where
  "offsetToChunkIndex f offset = goDiv offset (fa_chunkSize f)"

definition chunkIndexToFetchRange :: "'c FileCacheActor \<Rightarrow> int \<Rightarrow> int \<times> int" where
  "chunkIndexToFetchRange f idx =
     (let start = goDiv (i64 (idx * fa_chunkSize f)) (fa_fetchSize f) * fa_fetchSize f;
          end = i64 (start + fa_fetchSize f) in
      (start, if end > fa_fileSize f then fa_fileSize f else end))"

subsection \<open>Copying chunks\<close>

text \<open>
  The loop that stores what was fetched, with the bytes that the reader still delivers; \<open>io.CopyN\<close> fails with
  \<open>io.EOF\<close> when there are too few. Each chunk is a copy: the buffer is reused, so that \<open>Put\<close> must not keep it.
\<close>

fun storeLoop :: "'c FileCacheActor \<Rightarrow> nat \<Rightarrow> int \<Rightarrow> int \<Rightarrow> bytes \<Rightarrow> ('c, unit) call" where
  "storeLoop f fuel remaining chunkIdx r =
     (if remaining \<le> 0 then ret ()
      else case fuel of
        0 \<Rightarrow> (\<lambda>s. (Blocked, s))
      | Suc n \<Rightarrow>
          (let toCopy = (if remaining > fa_chunkSize f then fa_chunkSize f else remaining) in
           if length r < nat toCopy then fail (wrap ''error copying from fetch: %w'' (Errorf ''EOF'' []))
           else
             andThen (onError (Wrapf ''error storing chunk: %d in cache: %w'' [AInt chunkIdx])
                        (cc_Put (fa_chunkCache f) chunkIdx (take (nat toCopy) r)))
               (\<lambda>_. storeLoop f n (remaining - toCopy) (chunkIdx + 1) (drop (nat toCopy) r))))"

declare storeLoop.simps [simp del]

definition fetchChunks :: "'c FileCacheActor \<Rightarrow> int \<Rightarrow> int \<Rightarrow> ('c, unit) call" where
  "fetchChunks f start end =
     andThen (fa_fetcher f start end)
       (\<lambda>r. storeLoop f (nat (end - start)) (end - start) (offsetToChunkIndex f start) r)"

text \<open>Writing the part of a chunk that was asked for.\<close>

definition writeChunk :: "chunkToRead \<Rightarrow> bytes \<Rightarrow> ('c \<times> pipe, unit) call" where
  "writeChunk toRead chunk =
     andThen (lift (slice chunk (cr_start toRead) (cr_end toRead)))
       (\<lambda>b. onError (wrap ''error writing chunk to output writer: %w'') (pipeWrite b))"

definition getChunk :: "'c FileCacheActor \<Rightarrow> int \<Rightarrow> ('c \<times> pipe, bytes option) call" where
  "getChunk f idx = onError (wrap ''error copying chunk from cache: %w'') (onCache (cc_Get (fa_chunkCache f) idx))"

definition copyChunk :: "'c FileCacheActor \<Rightarrow> chunkToRead \<Rightarrow> ('c \<times> pipe, unit) call" where
  "copyChunk f toRead =
     andThen (getChunk f (cr_idx toRead)) (\<lambda>found.
       case found of
         Some chunk \<Rightarrow> writeChunk toRead chunk
       | None \<Rightarrow>
           (let (start, end) = chunkIndexToFetchRange f (cr_idx toRead) in
            andThen (onError (Wrapf ''error fetching range: [%d:%d] for chunk idx: %d, err: %w''
                       [AInt start, AInt end, AInt (cr_idx toRead)]) (onCache (fetchChunks f start end))) (\<lambda>_.
            andThen (getChunk f (cr_idx toRead)) (\<lambda>found'.
              case found' of
                Some chunk \<Rightarrow> writeChunk toRead chunk
              | None \<Rightarrow> fail (Errorf ''chunk: %d was not in cache after fetch'' [AInt (cr_idx toRead)])))))"

fun copyChunks :: "'c FileCacheActor \<Rightarrow> chunkToRead list \<Rightarrow> ('c \<times> pipe, unit) call" where
  "copyChunks f [] = ret ()"
| "copyChunks f (chunk # rest) = andThen (copyChunk f chunk) (\<lambda>_. copyChunks f rest)"

definition closePipe :: "goerr option \<Rightarrow> 'c \<times> pipe \<Rightarrow> 'c \<times> pipe" where
  "closePipe e sp = (fst sp, (snd sp)\<lparr>pi_closed := Some e\<rparr>)"

definition getRange :: "'c FileCacheActor \<Rightarrow> int \<Rightarrow> int \<Rightarrow> ('c \<times> pipe, unit) call" where
  "getRange f start end sp =
     (case andThen (lift (rangeToChunkIndexes f start end)) (copyChunks f) sp of
        (Ret _, sp') \<Rightarrow> (Ret (), closePipe None sp')
      | (Fail e, sp') \<Rightarrow> (Ret (), closePipe (Some e) sp')
      | (Panic p, sp') \<Rightarrow> (Panic p, sp')
      | (Blocked, sp') \<Rightarrow> (Blocked, sp'))"

subsection \<open>The actor\<close>

record GetRangeRequest =
  gr_StartOffset :: int
  gr_EndOffset :: int

definition intoGetRangeRequest :: "json \<Rightarrow> GetRangeRequest \<Rightarrow> GetRangeRequest option" where
  "intoGetRangeRequest =
     intoStruct [(''start_offset'', field intoInt64 gr_StartOffset (\<lambda>x. gr_StartOffset_update (\<lambda>_. x))),
                 (''end_offset'', field intoInt64 gr_EndOffset (\<lambda>x. gr_EndOffset_update (\<lambda>_. x)))]"

text \<open>
  \<open>InvokeStream\<close>, with what the goroutine that it starts has written when it is done: \<open>None\<close> is the nil stream and the pipe is the
  reader that is returned.
\<close>

definition validRange :: "'c FileCacheActor \<Rightarrow> GetRangeRequest \<Rightarrow> bool" where
  "validRange f req \<longleftrightarrow> \<not> (gr_StartOffset req < 0 \<or> gr_EndOffset req < 0 \<or> gr_EndOffset req \<le> gr_StartOffset req
     \<or> gr_EndOffset req > fa_fileSize f)"

definition fileInvokeStream :: "'c FileCacheActor \<Rightarrow> nat option \<Rightarrow> string \<Rightarrow> bytes \<Rightarrow> ('c, pipe option) call" where
  "fileInvokeStream f writes operation payload s =
     (if operation = StartupOperationName \<or> operation = ShutdownOperationName then (Ret None, s)
      else if operation = ''getRange'' then
        (case unmarshal intoGetRangeRequest \<lparr>gr_StartOffset = 0, gr_EndOffset = 0\<rparr> payload of
           Ret req \<Rightarrow>
             if \<not> validRange f req then
               (Fail (Errorf ''invalid GetRangeRequest: %+v, f.fileSize: %d'' [AInt (gr_StartOffset req), AInt (gr_EndOffset req), AInt (fa_fileSize f)]), s)
             else
               (case getRange f (gr_StartOffset req) (gr_EndOffset req) (s, newPipe writes) of
                  (Ret _, (s', p)) \<Rightarrow> (Ret (Some p), s')
                | (Fail e, (s', p)) \<Rightarrow> (Fail e, s')
                | (Panic m, (s', p)) \<Rightarrow> (Panic m, s')
                | (Blocked, (s', p)) \<Rightarrow> (Blocked, s'))
         | Fail e \<Rightarrow> (Fail (wrap ''error unmarshaling GetRangeRequest: %w'' e), s)
         | Panic m \<Rightarrow> (Panic m, s)
         | Blocked \<Rightarrow> (Blocked, s))
      else (Fail (Errorf ''unhandled operation: %s'' [AStr operation]), s))"

definition intoFileCachePayload :: "json \<Rightarrow> int \<Rightarrow> int option" where
  "intoFileCachePayload = intoStruct [(''FileSize'', field intoInt64 id (\<lambda>x _. x))]"

definition fileInstantiate :: "'c FileCacheModule \<Rightarrow> bytes \<Rightarrow> 'c FileCacheActor outcome" where
  "fileInstantiate f payload =
     (case unmarshal intoFileCachePayload 0 payload of
        Ret fileSize \<Rightarrow>
          if fileSize \<le> 0 then Fail (Errorf ''filesize cannot be <= 0, but was: %d'' [AInt fileSize])
          else NewFileCacheActor fileSize (fm_chunkSize f) (fm_fetchSize f) (fm_fetcher f) (fm_chunkCache f)
      | Fail e \<Rightarrow> Fail (wrap ''error unmarshaling FileCacheInstantiatePayload: %w'' e)
      | Panic m \<Rightarrow> Panic m
      | Blocked \<Rightarrow> Blocked)"

definition fileClose :: "('c, unit) call" where
  "fileClose = ret ()"


subsection \<open>The ranges of the chunks\<close>

lemma goDiv_pos [simp]: "0 \<le> a \<Longrightarrow> 0 < b \<Longrightarrow> goDiv a b = a div b"
  by (simp add: goDiv_def)

lemma goMod_pos [simp]: "0 \<le> a \<Longrightarrow> 0 < b \<Longrightarrow> goMod a b = a mod b"
  by (simp add: goMod_def minus_div_mult_eq_mod)

lemma div_floor: "0 < n \<Longrightarrow> a div n * n \<le> (a :: int)"
  by (simp add: minus_mod_eq_div_mult [symmetric])

text \<open>The bytes of a file from one offset to another, and those that a list of chunks stands for.\<close>

definition fileRange :: "bytes \<Rightarrow> int \<Rightarrow> int \<Rightarrow> bytes" where
  "fileRange data a b = take (nat (b - a)) (drop (nat a) data)"

definition chunkOf :: "bytes \<Rightarrow> int \<Rightarrow> int \<Rightarrow> bytes" where
  "chunkOf data sz i = fileRange data (i * sz) ((i + 1) * sz)"

definition piece :: "bytes \<Rightarrow> int \<Rightarrow> chunkToRead \<Rightarrow> bytes" where
  "piece data sz c = fileRange data (cr_idx c * sz + cr_start c) (cr_idx c * sz + cr_end c)"

definition okChunk :: "int \<Rightarrow> int \<Rightarrow> chunkToRead \<Rightarrow> bool" where
  "okChunk sz limit c \<longleftrightarrow> 0 \<le> cr_idx c \<and> 0 \<le> cr_start c \<and> cr_start c < cr_end c \<and> cr_end c \<le> sz
     \<and> cr_idx c * sz + cr_end c \<le> limit"

lemma fileRange_append:
  assumes "0 \<le> a" "a \<le> b" "b \<le> c"
  shows "fileRange data a b @ fileRange data b c = fileRange data a c"
proof -
  have "nat (c - a) = nat (b - a) + nat (c - b)" "nat b = nat (b - a) + nat a" using assms by auto
  then show ?thesis by (simp add: fileRange_def take_add)
qed

lemma fileRange_length: "0 \<le> a \<Longrightarrow> b \<le> int (length data) \<Longrightarrow> length (fileRange data a b) = nat (b - a)"
  by (auto simp: fileRange_def)

lemma fileRange_part:
  assumes "0 \<le> a" "0 \<le> b" "b \<le> c" "a + c \<le> d"
  shows "take (nat (c - b)) (drop (nat b) (fileRange data a d)) = fileRange data (a + b) (a + c)"
proof -
  have "min (nat (c - b)) (nat (d - a) - nat b) = nat (c - b)" "nat (a + b) = nat b + nat a" "a + c - (a + b) = c - b"
    using assms by auto
  then show ?thesis by (simp add: fileRange_def drop_take)
qed

text \<open>The last chunk is cut off at the end of the range.\<close>

definition cutLast :: "int \<Rightarrow> int \<Rightarrow> chunkToRead list \<Rightarrow> chunkToRead list" where
  "cutLast sz e cs =
     (if sz * (cr_idx (last cs) + 1) > e then butlast cs @ [(last cs)\<lparr>cr_end := e - cr_idx (last cs) * sz\<rparr>] else cs)"

lemma cutLast_Cons: "cs \<noteq> [] \<Longrightarrow> cutLast sz e (c # cs) = c # cutLast sz e cs"
  by (simp add: cutLast_def)

definition covers :: "bytes \<Rightarrow> int \<Rightarrow> int \<Rightarrow> int \<Rightarrow> chunkToRead list \<Rightarrow> bool" where
  "covers data sz a b cs \<longleftrightarrow> list_all (okChunk sz b) cs \<and> concat (map (piece data sz) cs) = fileRange data a b"

lemma covers_Cons:
  assumes "okChunk sz b c" "a = cr_idx c * sz + cr_start c" "mid = cr_idx c * sz + cr_end c" "covers data sz mid b cs"
    "0 \<le> a" "a \<le> mid" "mid \<le> b"
  shows "covers data sz a b (c # cs)"
  using assms fileRange_append [of a mid b data] by (simp add: covers_def piece_def)

lemma covers_Nil [simp]: "covers data sz a b [] \<longleftrightarrow> fileRange data a b = []"
  by (auto simp: covers_def)

lemma chunkLoop_covers:
  assumes "0 < sz" "0 \<le> cur" "cur + remaining + sz < 2 ^ 63" "remaining \<le> int fuel"
  shows "\<exists>cs. chunkLoop fuel sz remaining cur = Some cs \<and> (remaining \<le> 0 \<longrightarrow> cs = [])
    \<and> (0 < remaining \<longrightarrow> cs \<noteq> [] \<and> 0 \<le> cr_idx (last cs) \<and> (cr_idx (last cs) + 1) * sz \<le> cur + remaining + sz
       \<and> covers data sz (cur div sz * sz) (cur div sz * sz + remaining) (cutLast sz (cur div sz * sz + remaining) cs))"
  using assms(2-)
proof (induction fuel arbitrary: cur remaining)
  case 0
  then show ?case by (simp add: chunkLoop.simps)
next
  case (Suc n)
  let ?k = "cur div sz" and ?c = "\<lparr>cr_idx = cur div sz, cr_start = 0, cr_end = sz\<rparr>" and ?e = "cur div sz * sz + remaining"
  have k: "0 \<le> ?k" "?k * sz \<le> cur" using Suc.prems(1) assms(1) by (simp_all add: pos_imp_zdiv_nonneg_iff div_floor)
  show ?case
  proof (cases "remaining \<le> 0")
    case True
    then show ?thesis by (simp add: chunkLoop.simps)
  next
    case False
    have next_k: "(cur + sz) div sz = ?k + 1" using assms(1) by (simp add: div_add_self2)
    have i: "i64 (cur + sz) = cur + sz" using Suc.prems(1,2) False assms(1) by (simp add: is_i64_def)
    obtain cs where cs: "chunkLoop n sz (remaining - sz) (cur + sz) = Some cs" "remaining - sz \<le> 0 \<longrightarrow> cs = []"
      "0 < remaining - sz \<longrightarrow> cs \<noteq> [] \<and> 0 \<le> cr_idx (last cs) \<and> (cr_idx (last cs) + 1) * sz \<le> cur + remaining + sz
         \<and> covers data sz ((?k + 1) * sz) ?e (cutLast sz ?e cs)"
      using Suc.IH [of "cur + sz" "remaining - sz"] Suc.prems assms(1)
      unfolding next_k by (auto simp: algebra_simps)
    have run: "chunkLoop (Suc n) sz remaining cur = Some (?c # cs)"
      using False Suc.prems(1) assms(1) cs(1) i by (simp add: chunkLoop.simps [of "Suc n"])
    show ?thesis
    proof (cases "remaining \<le> sz")
      case True
      then have "cs = []" using cs(2) by simp
      moreover have "covers data sz (?k * sz) ?e (cutLast sz ?e [?c])"
        using k(1) True False assms(1) by (auto simp: cutLast_def covers_def okChunk_def piece_def algebra_simps)
      ultimately show ?thesis using run False k by (auto simp: algebra_simps)
    next
      case more: False
      then have c: "cs \<noteq> []" "0 \<le> cr_idx (last cs)" "(cr_idx (last cs) + 1) * sz \<le> cur + remaining + sz"
        "covers data sz ((?k + 1) * sz) ?e (cutLast sz ?e cs)" using cs(3) by auto
      have "covers data sz (?k * sz) ?e (?c # cutLast sz ?e cs)"
        by (rule covers_Cons [OF _ _ _ c(4)]) (use k(1) more assms(1) in \<open>auto simp: okChunk_def algebra_simps\<close>)
      then show ?thesis using run False c by (simp add: cutLast_Cons)
    qed
  qed
qed

definition wfFile :: "'c FileCacheActor \<Rightarrow> bytes \<Rightarrow> bool" where
  "wfFile f data \<longleftrightarrow> 0 < fa_chunkSize f \<and> 0 < fa_fetchSize f \<and> fa_chunkSize f dvd fa_fetchSize f
     \<and> fa_fileSize f = int (length data) \<and> fa_fileSize f + 2 * fa_fetchSize f < 2 ^ 63"

lemma wfFile_chunk: "wfFile f data \<Longrightarrow> fa_chunkSize f \<le> fa_fetchSize f"
  by (auto simp: wfFile_def intro: zdvd_imp_le)

lemma rangeToChunkIndexes_covers:
  assumes "wfFile f data" "0 \<le> start" "start < e" "e \<le> fa_fileSize f"
  shows "\<exists>cs. rangeToChunkIndexes f start e = Ret cs \<and> covers data (fa_chunkSize f) start e cs"
proof -
  let ?n = "fa_chunkSize f" and ?k = "start div fa_chunkSize f" and ?o = "start mod fa_chunkSize f"
  have n: "0 < ?n" "e + 2 * ?n < 2 ^ 63"
    using assms(1,4) wfFile_chunk [OF assms(1)] by (simp_all add: wfFile_def)
  have o: "0 \<le> ?o" "?o < ?n" "?k * ?n + ?o = start" "0 \<le> ?k" using n(1) assms(2) by (simp_all add: pos_imp_zdiv_nonneg_iff)
  have i: "i64 (start + ?n) = start + ?n" using n assms by (simp add: is_i64_def)
  have next_k: "(start + ?n) div ?n = ?k + 1" using n(1) by (simp add: div_add_self2)
  let ?c = "firstChunk ?n (e - start) start" and ?rem = "e - start - (cr_end (firstChunk ?n (e - start) start) - cr_start (firstChunk ?n (e - start) start))"
  have c: "cr_idx ?c = ?k" "cr_start ?c = ?o" "cr_end ?c = (if ?o + (e - start) < ?n then ?o + (e - start) else ?n)"
    using n(1) assms(2) by (simp_all add: firstChunk_def Let_def)
  have rem: "0 \<le> ?rem" "?rem \<le> e - start" "0 < ?rem \<longrightarrow> cr_end ?c = ?n \<and> ?rem = e - (?k + 1) * ?n"
    using c o assms(3) by (auto simp: algebra_simps)
  obtain cs where cs: "chunkLoop (nat (e - start)) ?n ?rem (start + ?n) = Some cs" "?rem \<le> 0 \<longrightarrow> cs = []"
    "0 < ?rem \<longrightarrow> cs \<noteq> [] \<and> 0 \<le> cr_idx (last cs) \<and> (cr_idx (last cs) + 1) * ?n \<le> start + ?n + ?rem + ?n
       \<and> covers data ?n ((?k + 1) * ?n) ((?k + 1) * ?n + ?rem) (cutLast ?n ((?k + 1) * ?n + ?rem) cs)"
    using chunkLoop_covers [of ?n "start + ?n" ?rem "nat (e - start)" data] n assms(2,3) rem(1,2) unfolding next_k by auto
  have run: "rangeToChunkIndexes f start e =
      Ret (if i64 (?n * (cr_idx (last (?c # cs)) + 1)) > e
           then butlast (?c # cs) @ [(last (?c # cs))\<lparr>cr_end := e - cr_idx (last (?c # cs)) * ?n\<rparr>] else ?c # cs)"
    using n(1) assms(3) cs(1) i by (simp add: rangeToChunkIndexes_def Let_def)
  have "rangeToChunkIndexes f start e = Ret (cutLast ?n e (?c # cs))"
  proof -
    have "(cr_idx (last (?c # cs)) + 1) * ?n \<le> e + 2 * ?n"
    proof (cases "0 < ?rem")
      case True
      then show ?thesis using cs(3) rem(2) by auto
    next
      case False
      then show ?thesis using cs(2) c(1) div_floor [OF n(1), of start] assms(3) n(1) by (auto simp: algebra_simps)
    qed
    moreover have "0 \<le> (cr_idx (last (?c # cs)) + 1) * ?n"
      by (cases "0 < ?rem") (use cs(2,3) c(1) o(4) n(1) in auto)
    ultimately have "i64 (?n * (cr_idx (last (?c # cs)) + 1)) = ?n * (cr_idx (last (?c # cs)) + 1)"
      using n(2) by (simp add: is_i64_def algebra_simps)
    then show ?thesis unfolding run cutLast_def by simp
  qed
  moreover have "covers data ?n start e (cutLast ?n e (?c # cs))"
  proof (cases "0 < ?rem")
    case True
    with rem(3) have r: "cr_end ?c = ?n" "?rem = e - (?k + 1) * ?n" by auto
    have e: "(?k + 1) * ?n + ?rem = e" "(?k + 1) * ?n < e" using r(2) True by linarith+
    have t: "cs \<noteq> []" "covers data ?n ((?k + 1) * ?n) e (cutLast ?n e cs)" using cs(3) True unfolding e(1) by blast+
    have s: "start \<le> ?k * ?n + ?n" using o(2,3) by linarith
    have "covers data ?n start e (?c # cutLast ?n e cs)"
      by (rule covers_Cons [OF _ _ _ t(2)]) (use c r(1) e(2) o s n(1) assms(2) in \<open>auto simp: okChunk_def algebra_simps\<close>)
    then show ?thesis using t(1) by (simp add: cutLast_Cons)
  next
    case False
    then have cs0: "cs = []" and d: "cr_end ?c - cr_start ?c = e - start" using cs(2) rem(1) by auto
    have "cr_idx ?c * ?n + cr_start ?c = start" unfolding c(1,2) by (rule o(3))
    with d have ends: "cr_idx ?c * ?n + cr_start ?c = start" "cr_idx ?c * ?n + cr_end ?c = e" by simp_all
    then have "e - cr_idx ?c * ?n = cr_end ?c" by linarith
    then have "cutLast ?n e (?c # cs) = [?c]" using cs0 by (simp add: cutLast_def)
    moreover have "okChunk ?n e ?c" using ends c o assms(3) by (auto simp: okChunk_def)
    ultimately show ?thesis using ends by (simp add: covers_def piece_def)
  qed
  ultimately show ?thesis by blast
qed


subsection \<open>The contracts of the fetcher and of the cache\<close>

text \<open>
  A cache may forget what was put into it, and a fetcher may fail; neither invents bytes. Others may use them at the same
  time, as long as the cache only loses or repeats what it has.
\<close>

locale file_store =
  fixes data :: bytes and get :: "int \<Rightarrow> ('c, bytes option) call" and put :: "int \<Rightarrow> bytes \<Rightarrow> ('c, unit) call"
    and fetch :: "int \<Rightarrow> int \<Rightarrow> ('c, bytes) call" and inv :: "'c \<Rightarrow> bool" and content :: "'c \<Rightarrow> int \<rightharpoonup> bytes"
  assumes get: "inv s \<Longrightarrow> get i s = (rg, s') \<Longrightarrow>
      answered rg \<and> inv s' \<and> content s' \<subseteq>\<^sub>m content s \<and> (\<forall>b. rg = Ret (Some b) \<longrightarrow> content s i = Some b)"
    and put: "inv s \<Longrightarrow> b \<noteq> [] \<Longrightarrow> put i b s = (r, s') \<Longrightarrow> answered r \<and> inv s' \<and> content s' \<subseteq>\<^sub>m (content s)(i \<mapsto> b)"
    and fetch: "inv s \<Longrightarrow> 0 \<le> a \<Longrightarrow> a \<le> e \<Longrightarrow> e \<le> int (length data) \<Longrightarrow> fetch a e s = (rf, s') \<Longrightarrow>
      answered rf \<and> inv s' \<and> content s' \<subseteq>\<^sub>m content s \<and> (\<forall>b. rf = Ret b \<longrightarrow> take (nat (e - a)) b = fileRange data a e)"

text \<open>A cache that keeps what was put into it and a fetcher that does not fail.\<close>

locale reliable_store = file_store +
  assumes get_all: "inv s \<Longrightarrow> fst (get i s) = Ret (content s i) \<and> content (snd (get i s)) = content s"
    and put_all: "inv s \<Longrightarrow> b \<noteq> [] \<Longrightarrow> fst (put i b s) = Ret () \<and> content (snd (put i b s)) = (content s)(i \<mapsto> b)"
    and fetch_all: "inv s \<Longrightarrow> 0 \<le> a \<Longrightarrow> a \<le> e \<Longrightarrow> e \<le> int (length data) \<Longrightarrow>
      (\<exists>b. fst (fetch a e s) = Ret b) \<and> content (snd (fetch a e s)) = content s"

context file_store
begin

text \<open>Every chunk in the cache is the chunk of the file.\<close>

definition correct :: "int \<Rightarrow> 'c \<Rightarrow> bool" where
  "correct sz s \<longleftrightarrow> inv s \<and> (\<forall>i b. content s i = Some b \<longrightarrow> b = chunkOf data sz i)"

lemma correct_sub: "correct sz s \<Longrightarrow> inv s' \<Longrightarrow> content s' \<subseteq>\<^sub>m content s \<Longrightarrow> correct sz s'"
  unfolding correct_def map_le_def by (metis domIff option.distinct(1) option.inject)

lemma correct_put: "correct sz s \<Longrightarrow> inv s' \<Longrightarrow> content s' \<subseteq>\<^sub>m (content s)(i \<mapsto> chunkOf data sz i) \<Longrightarrow> correct sz s'"
  unfolding correct_def map_le_def by (metis domIff fun_upd_apply option.distinct(1) option.inject)

lemma chunkOf_last:
  assumes "0 < sz" "0 \<le> i" "0 < remaining" "i * sz + remaining = e" "e \<le> int (length data)" "sz dvd e \<or> e = int (length data)"
  shows "chunkOf data sz i = fileRange data (i * sz) (i * sz + (if remaining > sz then sz else remaining))"
proof -
  consider "remaining > sz" | "remaining = sz" | "remaining < sz" "e = int (length data)"
    using assms by (metis (no_types, lifting) add.commute dvd_add_left_iff dvd_triv_right linorder_cases zdvd_not_zless)
  then show ?thesis
    by cases (use assms in \<open>auto simp: chunkOf_def fileRange_def algebra_simps\<close>)
qed

end


lemma storeLoop_step:
  assumes "0 < remaining" "t = (if remaining > fa_chunkSize f then fa_chunkSize f else remaining)" "nat t \<le> length r"
  shows "storeLoop f (Suc n) remaining i r =
    andThen (onError (Wrapf ''error storing chunk: %d in cache: %w'' [AInt i]) (cc_Put (fa_chunkCache f) i (take (nat t) r)))
      (\<lambda>_. storeLoop f n (remaining - t) (i + 1) (drop (nat t) r))"
  using assms by (cases "remaining > fa_chunkSize f") (simp_all add: storeLoop.simps [of f "Suc n"] Let_def)

context file_store
begin

definition uses :: "'c FileCacheActor \<Rightarrow> bool" where
  "uses f \<longleftrightarrow> fa_fetcher f = fetch \<and> cc_Get (fa_chunkCache f) = get \<and> cc_Put (fa_chunkCache f) = put"

lemma chunk_taken:
  assumes "0 < sz" "0 \<le> i" "0 < remaining" "i * sz + remaining = e" "e \<le> int (length data)" "sz dvd e \<or> e = int (length data)"
    and "take (nat remaining) r = fileRange data (i * sz) e" "t = (if remaining > sz then sz else remaining)"
  shows "take (nat t) r = chunkOf data sz i" "nat t \<le> length r" "chunkOf data sz i \<noteq> []"
    "take (nat (remaining - t)) (drop (nat t) r) = fileRange data (i * sz + t) e"
proof -
  have i: "0 \<le> i * sz" "0 < t" "t \<le> remaining" using assms(1-3,8) by simp_all
  have "take (nat t) (take (nat remaining) r) = fileRange data (i * sz) (i * sz + t)"
    unfolding assms(7) using fileRange_part [of "i * sz" 0 t e data] i assms(4) by simp
  moreover have "take (nat t) (take (nat remaining) r) = take (nat t) r" using i by (simp add: min_absorb1)
  moreover have "chunkOf data sz i = fileRange data (i * sz) (i * sz + t)" unfolding assms(8) by (rule chunkOf_last [OF assms(1-6)])
  ultimately show t: "take (nat t) r = chunkOf data sz i" by simp
  have "length (take (nat remaining) r) = nat remaining"
    using fileRange_length [of "i * sz" e data] i assms(4,5,7) by auto
  then show l: "nat t \<le> length r" using i by simp
  show "chunkOf data sz i \<noteq> []" using t l i by auto
  have "take (nat (remaining - t)) (drop (nat t) r) = drop (nat t) (take (nat remaining) r)"
    using i by (simp add: drop_take nat_diff_distrib)
  also have "\<dots> = fileRange data (i * sz + t) e"
    using fileRange_part [of "i * sz" t remaining e data] i assms(4,7)
    by (simp add: fileRange_def add.commute drop_take nat_add_distrib nat_diff_distrib algebra_simps)
  finally show "take (nat (remaining - t)) (drop (nat t) r) = fileRange data (i * sz + t) e" .
qed

lemma storeLoop_correct:
  assumes "uses f" "sz = fa_chunkSize f" "0 < sz" "correct sz s" "0 \<le> i" "i * sz + remaining = e" "e \<le> int (length data)"
    and "sz dvd e \<or> e = int (length data)" "take (nat remaining) r = fileRange data (i * sz) e" "remaining \<le> int fuel"
    and "storeLoop f fuel remaining i r s = (res, s')"
  shows "answered res \<and> correct sz s'"
  using assms(4-)
proof (induction fuel arbitrary: i remaining r s)
  case 0
  then show ?case by (auto simp: storeLoop.simps)
next
  case (Suc n)
  let ?t = "if remaining > sz then sz else remaining"
  show ?case
  proof (cases "remaining \<le> 0")
    case True
    then show ?thesis using Suc.prems by (auto simp: storeLoop.simps)
  next
    case False
    then have pos: "0 < remaining" by simp
    note c = chunk_taken [OF assms(3) Suc.prems(2) pos Suc.prems(3-6) refl]
    obtain rp s1 where p: "put i (chunkOf data sz i) s = (rp, s1)" by force
    from put [OF _ c(3) p] Suc.prems(1) have ok: "answered rp" "correct sz s1"
      by (auto simp: correct_def intro: correct_put [OF Suc.prems(1)] dest: correct_put [OF Suc.prems(1)])
    have t: "?t = (if remaining > fa_chunkSize f then fa_chunkSize f else remaining)" using assms(2) by simp
    have step: "storeLoop f (Suc n) remaining i r s =
      andThen (onError (Wrapf ''error storing chunk: %d in cache: %w'' [AInt i]) (put i (chunkOf data sz i)))
        (\<lambda>_. storeLoop f n (remaining - ?t) (i + 1) (drop (nat ?t) r)) s"
      unfolding storeLoop_step [OF pos t c(2)] c(1) using assms(1) by (simp only: uses_def)
    show ?thesis
    proof (cases rp)
      case (Ret x)
      have rest: "storeLoop f n (remaining - ?t) (i + 1) (drop (nat ?t) r) s1 = (res, s')"
        using Suc.prems(8) p Ret unfolding step by (simp add: andThen_def onError_def)
      show ?thesis
      proof (cases "remaining > sz")
        case True
        show ?thesis
          by (rule Suc.IH [OF ok(2) _ _ Suc.prems(4,5) _ _ rest])
            (use True Suc.prems(2,3,7) c(4) assms(3) in \<open>auto simp: algebra_simps\<close>)
      next
        case no_more: False
        then show ?thesis using rest ok by (auto simp: storeLoop.simps)
      qed
    qed (use Suc.prems(8) p ok step in \<open>auto simp: andThen_def onError_def answered_def\<close>)
  qed
qed

end


lemma fetchRange_bounds:
  assumes "wfFile f data" "0 \<le> i" "i * fa_chunkSize f < int (length data)"
  obtains a e where "chunkIndexToFetchRange f i = (a, e)" "0 \<le> a" "a \<le> i * fa_chunkSize f" "i * fa_chunkSize f < e" "e \<le> int (length data)"
    "a div fa_chunkSize f * fa_chunkSize f = a" "fa_chunkSize f dvd e \<or> e = int (length data)"
proof -
  let ?c = "fa_chunkSize f" and ?F = "fa_fetchSize f" and ?x = "i * fa_chunkSize f"
  let ?a = "?x div ?F * ?F"
  have w: "0 < ?c" "0 < ?F" "?c dvd ?F" "fa_fileSize f = int (length data)" "int (length data) + 2 * ?F < 2 ^ 63"
    using assms(1) by (auto simp: wfFile_def)
  have x: "0 \<le> ?x" using assms(2) w(1) by simp
  have a: "0 \<le> ?a" "?a \<le> ?x" using x w(2) by (simp_all add: pos_imp_zdiv_nonneg_iff div_floor)
  have "?x < ?a + ?F" using w(2) by (metis (no_types, lifting) add_strict_left_mono div_mult_mod_eq pos_mod_bound)
  moreover have "i64 (?a + ?F) = ?a + ?F" "i64 ?x = ?x" using a x assms(3) w by (simp_all add: is_i64_def)
  moreover have "?c dvd ?a" using w(3) by simp
  ultimately show ?thesis
    using that [of ?a "if ?a + ?F > int (length data) then int (length data) else ?a + ?F"] a w x assms(3)
    by (auto simp: chunkIndexToFetchRange_def Let_def)
qed

lemma slice_piece:
  assumes "0 < sz" "okChunk sz (int (length data)) c"
  shows "slice (chunkOf data sz (cr_idx c)) (cr_start c) (cr_end c) = Ret (piece data sz c)"
proof -
  let ?b = "chunkOf data sz (cr_idx c)"
  have c: "0 \<le> cr_idx c * sz" "0 \<le> cr_start c" "cr_start c < cr_end c" "cr_end c \<le> sz" "cr_idx c * sz + cr_end c \<le> int (length data)"
    using assms by (auto simp: okChunk_def)
  have "cr_end c \<le> int (length ?b)"
    using c by (auto simp: chunkOf_def fileRange_def algebra_simps)
  moreover have "take (nat (cr_end c - cr_start c)) (drop (nat (cr_start c)) ?b) = piece data sz c"
    using fileRange_part [of "cr_idx c * sz" "cr_start c" "cr_end c" "(cr_idx c + 1) * sz" data] c
    by (simp add: chunkOf_def piece_def algebra_simps)
  ultimately show ?thesis using c by (simp add: slice_def nat_diff_distrib)
qed

lemma writeChunk_correct:
  assumes "0 < sz" "okChunk sz (int (length data)) c" "writeChunk c (chunkOf data sz (cr_idx c)) (s, p) = (res, (s', p'))"
  shows "answered res \<and> s' = s
    \<and> (if answered res \<and> res = Ret () then pi_data p' = pi_data p @ piece data sz c \<and> pi_closed p' = pi_closed p else p' = p)"
  using assms(3) slice_piece [OF assms(1,2)]
  by (auto simp: writeChunk_def andThen_def lift_def onError_def pipeWrite_def Let_def split: option.splits nat.splits)

lemma writeChunk_open:
  assumes "0 < sz" "okChunk sz (int (length data)) c" "pi_writes p = None"
  shows "writeChunk c (chunkOf data sz (cr_idx c)) (s, p) = (Ret (), (s, p\<lparr>pi_data := pi_data p @ piece data sz c\<rparr>))"
  using assms(3) slice_piece [OF assms(1,2)] by (simp add: writeChunk_def andThen_def lift_def onError_def pipeWrite_def)

context file_store
begin

lemma fetchChunks_correct:
  assumes "uses f" "wfFile f data" "correct (fa_chunkSize f) s" "0 \<le> i" "i * fa_chunkSize f < int (length data)"
    and "chunkIndexToFetchRange f i = (a, e)" "fetchChunks f a e s = (res, s')"
  shows "answered res \<and> correct (fa_chunkSize f) s'"
proof -
  obtain a' e' where "chunkIndexToFetchRange f i = (a', e')" "0 \<le> a'" "a' \<le> i * fa_chunkSize f" "i * fa_chunkSize f < e'" "e' \<le> int (length data)"
    "a' div fa_chunkSize f * fa_chunkSize f = a'" "fa_chunkSize f dvd e' \<or> e' = int (length data)"
    by (rule fetchRange_bounds [OF assms(2,4,5)])
  then have b: "0 \<le> a" "a \<le> i * fa_chunkSize f" "i * fa_chunkSize f < e" "e \<le> int (length data)"
    "a div fa_chunkSize f * fa_chunkSize f = a" "fa_chunkSize f dvd e \<or> e = int (length data)"
    using assms(6) by simp_all
  have c: "0 < fa_chunkSize f" using assms(2) by (simp add: wfFile_def)
  obtain rf s1 where f: "fetch a e s = (rf, s1)" by force
  have "a \<le> e" using b by simp
  from fetch [OF _ b(1) this b(4) f] assms(3) have ok: "answered rf" "correct (fa_chunkSize f) s1"
    "\<And>b. rf = Ret b \<Longrightarrow> take (nat (e - a)) b = fileRange data a e"
    using correct_sub [OF assms(3)] by (auto simp: correct_def)
  show ?thesis
  proof (cases rf)
    case (Ret r)
    have run: "storeLoop f (nat (e - a)) (e - a) (a div fa_chunkSize f) r s1 = (res, s')"
      using assms(1,7) f Ret b(1) c by (simp add: fetchChunks_def andThen_def uses_def offsetToChunkIndex_def)
    show ?thesis
      by (rule storeLoop_correct [OF assms(1) refl c ok(2) _ _ b(4,6) _ _ run])
        (use b c ok(3) Ret in \<open>auto simp: pos_imp_zdiv_nonneg_iff\<close>)
  qed (use assms(1,7) f ok in \<open>auto simp: fetchChunks_def andThen_def uses_def\<close>)
qed

text \<open>What copying chunks may do: write exactly what they stand for, or fail after a part of it.\<close>

definition copied :: "'c FileCacheActor \<Rightarrow> bytes \<Rightarrow> pipe \<Rightarrow> unit outcome \<times> 'c \<times> pipe \<Rightarrow> bool" where
  "copied f out p r \<longleftrightarrow> (case r of (res, (s', p')) \<Rightarrow>
     answered res \<and> correct (fa_chunkSize f) s' \<and> pi_closed p' = pi_closed p
     \<and> (\<exists>part. pi_data p' = pi_data p @ part \<and> prefix part out \<and> (res = Ret () \<longrightarrow> part = out)))"

lemma getChunk_correct:
  assumes "uses f" "correct (fa_chunkSize f) s" "getChunk f i (s, p) = (res, (s', p'))"
  shows "answered res \<and> correct (fa_chunkSize f) s' \<and> p' = p \<and> (\<forall>b. res = Ret (Some b) \<longrightarrow> b = chunkOf data (fa_chunkSize f) i)"
proof -
  obtain rg s1 where g: "get i s = (rg, s1)" by force
  from get [OF _ g] assms(2) have "answered rg" "correct (fa_chunkSize f) s1" "\<And>b. rg = Ret (Some b) \<Longrightarrow> b = chunkOf data (fa_chunkSize f) i"
    using correct_sub [OF assms(2)] by (auto simp: correct_def)
  then show ?thesis
    using assms(1,3) g
    by (cases rg) (auto simp: getChunk_def onError_def onCache_def uses_def)
qed

lemma write_copied:
  assumes "wfFile f data" "okChunk (fa_chunkSize f) (int (length data)) c" "correct (fa_chunkSize f) s"
    and "b = chunkOf data (fa_chunkSize f) (cr_idx c)"
  shows "copied f (piece data (fa_chunkSize f) c) p (writeChunk c b (s, p))"
proof -
  obtain res s' p' where w: "writeChunk c b (s, p) = (res, (s', p'))" by (metis prod_cases3)
  have "0 < fa_chunkSize f" using assms(1) by (simp add: wfFile_def)
  from writeChunk_correct [OF this assms(2) w [unfolded assms(4)]] w assms(3) show ?thesis
    by (cases res) (auto simp: copied_def split: if_splits)
qed

lemma copyChunk_copied:
  assumes "uses f" "wfFile f data" "correct (fa_chunkSize f) s" "okChunk (fa_chunkSize f) (int (length data)) c"
  shows "copied f (piece data (fa_chunkSize f) c) p (copyChunk f c (s, p))"
proof -
  let ?i = "cr_idx c" and ?n = "fa_chunkSize f"
  obtain res s1 p1 where g: "getChunk f ?i (s, p) = (res, (s1, p1))" by (metis prod_cases3)
  from getChunk_correct [OF assms(1,3) g] have ok: "answered res" "correct ?n s1" "p1 = p" "\<And>b. res = Ret (Some b) \<Longrightarrow> b = chunkOf data ?n ?i"
    by auto
  consider (hit) b where "res = Ret (Some b)" | (miss) "res = Ret None" | (err) err where "res = Fail err"
    using ok(1) by (cases res) (auto simp: not_None_eq)
  then show ?thesis
  proof cases
    case hit
    then have "copyChunk f c (s, p) = writeChunk c b (s1, p)" using g ok(3) by (simp add: copyChunk_def andThen_def)
    with write_copied [OF assms(2,4) ok(2)] ok(4) [OF hit] show ?thesis by simp
  next
    case err
    then show ?thesis using g ok by (simp add: copyChunk_def andThen_def copied_def)
  next
    case miss
    obtain a e where ae: "chunkIndexToFetchRange f ?i = (a, e)" by force
    have i: "0 \<le> ?i" "?i * ?n < int (length data)" using assms(4) by (auto simp: okChunk_def)
    obtain rf s2 where f: "fetchChunks f a e s1 = (rf, s2)" by force
    note fc = fetchChunks_correct [OF assms(1,2) ok(2) i ae f]
    obtain res2 s3 p3 where g2: "getChunk f ?i (s2, p) = (res2, (s3, p3))" by (metis prod_cases3)
    from fc getChunk_correct [OF assms(1) _ g2] have ok2: "answered res2" "correct ?n s3" "p3 = p"
      "\<And>b. res2 = Ret (Some b) \<Longrightarrow> b = chunkOf data ?n ?i" by auto
    show ?thesis
    proof (cases rf)
      case (Ret u)
      have "copyChunk f c (s, p) = (case res2 of Ret (Some b) \<Rightarrow> writeChunk c b (s3, p)
          | Ret None \<Rightarrow> (Fail (Errorf ''chunk: %d was not in cache after fetch'' [AInt ?i]), (s3, p))
          | Fail e \<Rightarrow> (Fail e, (s3, p)) | Panic m \<Rightarrow> (Panic m, (s3, p)) | Blocked \<Rightarrow> (Blocked, (s3, p)))"
        using g ok(3) miss ae f Ret g2 ok2(3)
        by (simp add: copyChunk_def andThen_def onError_def onCache_def split: outcome.split option.split)
      then show ?thesis
        using ok2 write_copied [OF assms(2,4) ok2(2)] by (cases res2) (auto simp: copied_def split: option.splits)
    qed (use g ok(3) miss ae f fc in \<open>auto simp: copyChunk_def andThen_def onError_def onCache_def copied_def\<close>)
  qed
qed

end


context file_store
begin

lemma copyChunks_copied:
  assumes "uses f" "wfFile f data" "correct (fa_chunkSize f) s" "list_all (okChunk (fa_chunkSize f) (int (length data))) cs"
  shows "copied f (concat (map (piece data (fa_chunkSize f)) cs)) p (copyChunks f cs (s, p))"
  using assms(3,4)
proof (induction cs arbitrary: s p)
  case (Cons c cs)
  obtain res s1 p1 where c: "copyChunk f c (s, p) = (res, (s1, p1))" by (metis prod_cases3)
  have one: "copied f (piece data (fa_chunkSize f) c) p (res, (s1, p1))"
    using copyChunk_copied [OF assms(1,2) Cons.prems(1), of c p] Cons.prems(2) c by simp
  then have ok: "answered res" "correct (fa_chunkSize f) s1" by (auto simp: copied_def)
  show ?case
  proof (cases res)
    case (Ret u)
    have "copied f (concat (map (piece data (fa_chunkSize f)) cs)) p1 (copyChunks f cs (s1, p1))"
      using Cons.IH [OF ok(2)] Cons.prems(2) by simp
    moreover have "pi_data p1 = pi_data p @ piece data (fa_chunkSize f) c" "pi_closed p1 = pi_closed p" using one Ret by (auto simp: copied_def)
    ultimately show ?thesis
      using c Ret by (fastforce simp: copied_def andThen_def split: prod.splits)
  next
    case (Fail e)
    then show ?thesis using one c by (auto simp: copied_def andThen_def prefix_def)
  qed (use ok(1) in simp_all)
qed (simp add: copied_def)

lemma getRange_safe:
  assumes "uses f" "wfFile f data" "correct (fa_chunkSize f) s" "0 \<le> start" "start < e" "e \<le> fa_fileSize f"
  shows "\<exists>s' p'. getRange f start e (s, newPipe n) = (Ret (), (s', p')) \<and> correct (fa_chunkSize f) s'
    \<and> prefix (pi_data p') (fileRange data start e)
    \<and> (\<exists>err. pi_closed p' = Some err \<and> (err = None \<longrightarrow> pi_data p' = fileRange data start e))"
proof -
  obtain cs where cs: "rangeToChunkIndexes f start e = Ret cs" "covers data (fa_chunkSize f) start e cs"
    using rangeToChunkIndexes_covers [OF assms(2,4-6)] by blast
  have "list_all (okChunk (fa_chunkSize f) (int (length data))) cs"
    using cs(2) assms(2,6) by (auto simp: covers_def wfFile_def okChunk_def list_all_iff)
  from copyChunks_copied [OF assms(1-3) this] cs(2)
  have "copied f (fileRange data start e) (newPipe n) (copyChunks f cs (s, newPipe n))" by (simp add: covers_def)
  then show ?thesis
    using cs(1)
    by (cases "copyChunks f cs (s, newPipe n)")
      (auto simp: getRange_def andThen_def lift_def copied_def closePipe_def newPipe_def answered_def split: outcome.splits prod.splits)
qed

end

context reliable_store
begin

lemma storeLoop_all:
  assumes "uses f" "sz = fa_chunkSize f" "0 < sz" "correct sz s" "0 \<le> i" "i * sz + remaining = e" "e \<le> int (length data)"
    and "sz dvd e \<or> e = int (length data)" "take (nat remaining) r = fileRange data (i * sz) e" "remaining \<le> int fuel"
  shows "fst (storeLoop f fuel remaining i r s) = Ret ()
    \<and> dom (content (snd (storeLoop f fuel remaining i r s))) = dom (content s) \<union> {j. i \<le> j \<and> j * sz < e}"
  using assms(4-)
proof (induction fuel arbitrary: i remaining r s)
  case 0
  then have "{j. i \<le> j \<and> j * sz < e} = {}" using assms(3) by (auto simp: mult_right_mono dest!: mult_right_mono [of i _ sz])
  then show ?case using 0 by (auto simp: storeLoop.simps)
next
  case (Suc n)
  let ?t = "if remaining > sz then sz else remaining"
  show ?case
  proof (cases "remaining \<le> 0")
    case True
    then have "{j. i \<le> j \<and> j * sz < e} = {}" using assms(3) Suc.prems(3) by (auto dest!: mult_right_mono [of i _ sz])
    then show ?thesis using True by (auto simp: storeLoop.simps)
  next
    case False
    then have pos: "0 < remaining" by simp
    note c = chunk_taken [OF assms(3) Suc.prems(2) pos Suc.prems(3-6) refl]
    have inv: "inv s" using Suc.prems(1) by (simp add: correct_def)
    obtain s1 where p: "put i (chunkOf data sz i) s = (Ret (), s1)" "content s1 = (content s)(i \<mapsto> chunkOf data sz i)"
      using put_all [OF inv c(3), of i] by (metis prod.collapse)
    have ok: "correct sz s1" using put [OF inv c(3) p(1)] correct_put [OF Suc.prems(1)] by blast
    have t: "?t = (if remaining > fa_chunkSize f then fa_chunkSize f else remaining)" using assms(2) by simp
    have step: "storeLoop f (Suc n) remaining i r s = storeLoop f n (remaining - ?t) (i + 1) (drop (nat ?t) r) s1"
      unfolding storeLoop_step [OF pos t c(2)] c(1) using assms(1) p(1) by (simp add: uses_def andThen_def onError_def)
    have split: "{j. i \<le> j \<and> j * sz < e} = insert i {j. i + 1 \<le> j \<and> j * sz < e}"
      using pos Suc.prems(3) by auto
    show ?thesis
    proof (cases "remaining > sz")
      case True
      have "fst (storeLoop f n (remaining - ?t) (i + 1) (drop (nat ?t) r) s1) = Ret ()
        \<and> dom (content (snd (storeLoop f n (remaining - ?t) (i + 1) (drop (nat ?t) r) s1))) = dom (content s1) \<union> {j. i + 1 \<le> j \<and> j * sz < e}"
        by (rule Suc.IH [OF ok _ _ Suc.prems(4,5)])
          (use True Suc.prems(2,3,7) c(4) assms(3) in \<open>auto simp: algebra_simps\<close>)
      then show ?thesis unfolding step split p(2) by auto
    next
      case no_more: False
      have "{j. i + 1 \<le> j \<and> j * sz < e} = {}"
      proof -
        have "e \<le> j * sz" if "i + 1 \<le> j" for j
          using mult_right_mono [OF that, of sz] assms(3) no_more Suc.prems(3) by (simp add: algebra_simps)
        then show ?thesis by force
      qed
      then show ?thesis using no_more unfolding step split p(2) by (auto simp: storeLoop.simps p(2))
    qed
  qed
qed

end


context reliable_store
begin

lemma fetchChunks_all:
  assumes "uses f" "wfFile f data" "correct (fa_chunkSize f) s" "0 \<le> i" "i * fa_chunkSize f < int (length data)"
    and "chunkIndexToFetchRange f i = (a, e)"
  shows "fst (fetchChunks f a e s) = Ret () \<and> i \<in> dom (content (snd (fetchChunks f a e s)))"
proof -
  let ?n = "fa_chunkSize f"
  obtain a' e' where "chunkIndexToFetchRange f i = (a', e')" "0 \<le> a'" "a' \<le> i * ?n" "i * ?n < e'" "e' \<le> int (length data)"
    "a' div ?n * ?n = a'" "?n dvd e' \<or> e' = int (length data)"
    by (rule fetchRange_bounds [OF assms(2,4,5)])
  then have b: "0 \<le> a" "a \<le> i * ?n" "i * ?n < e" "e \<le> int (length data)" "a div ?n * ?n = a" "?n dvd e \<or> e = int (length data)"
    using assms(6) by simp_all
  have c: "0 < ?n" using assms(2) by (simp add: wfFile_def)
  have ae: "a \<le> e" and inv: "inv s" using b assms(3) by (simp_all add: correct_def)
  obtain r s1 where f: "fetch a e s = (Ret r, s1)" using fetch_all [OF inv b(1) ae b(4)] by (metis prod.collapse)
  then have ok: "correct ?n s1" "take (nat (e - a)) r = fileRange data a e"
    using fetch [OF inv b(1) ae b(4) f] correct_sub [OF assms(3)] by auto
  have "fst (storeLoop f (nat (e - a)) (e - a) (a div ?n) r s1) = Ret ()
    \<and> dom (content (snd (storeLoop f (nat (e - a)) (e - a) (a div ?n) r s1))) = dom (content s1) \<union> {j. a div ?n \<le> j \<and> j * ?n < e}"
    by (rule storeLoop_all [OF assms(1) refl c ok(1) _ _ b(4,6)]) (use b c ok(2) ae in \<open>auto simp: pos_imp_zdiv_nonneg_iff\<close>)
  moreover have "a div ?n \<le> i" using b(2,5) c by (metis mult_le_cancel_right_pos)
  ultimately show ?thesis
    using assms(1) f b c by (simp add: fetchChunks_def andThen_def uses_def offsetToChunkIndex_def)
qed

lemma getChunk_all:
  assumes "uses f" "correct (fa_chunkSize f) s"
  shows "\<exists>s'. getChunk f i (s, p) = (Ret (content s i), (s', p)) \<and> correct (fa_chunkSize f) s'"
proof -
  have inv: "inv s" using assms(2) by (simp add: correct_def)
  obtain s' where g: "get i s = (Ret (content s i), s')" using get_all [OF inv, of i] by (metis prod.collapse)
  then have "correct (fa_chunkSize f) s'" using get [OF inv g] correct_sub [OF assms(2)] by blast
  then show ?thesis using g assms(1) by (simp add: getChunk_def onError_def onCache_def uses_def)
qed

lemma copyChunk_all:
  assumes "uses f" "wfFile f data" "correct (fa_chunkSize f) s" "okChunk (fa_chunkSize f) (int (length data)) c" "pi_writes p = None"
  shows "\<exists>s' p'. copyChunk f c (s, p) = (Ret (), (s', p')) \<and> correct (fa_chunkSize f) s' \<and> pi_writes p' = None"
proof -
  let ?i = "cr_idx c" and ?n = "fa_chunkSize f"
  have n: "0 < ?n" and i: "0 \<le> ?i" "?i * ?n < int (length data)" using assms(2,4) by (auto simp: wfFile_def okChunk_def)
  obtain s1 where g: "getChunk f ?i (s, p) = (Ret (content s ?i), (s1, p))" "correct ?n s1" using getChunk_all [OF assms(1,3)] by blast
  have wr: "writeChunk c b (s', p) = (Ret (), (s', p\<lparr>pi_data := pi_data p @ piece data ?n c\<rparr>))" if "content s'' ?i = Some b" "correct ?n s''" for b s' s''
    using writeChunk_open [OF n assms(4,5)] that by (auto simp: correct_def)
  show ?thesis
  proof (cases "content s ?i")
    case (Some b)
    then show ?thesis using g wr [OF Some assms(3), of s1] assms(5) by (simp add: copyChunk_def andThen_def)
  next
    case None
    obtain a e where ae: "chunkIndexToFetchRange f ?i = (a, e)" by force
    obtain s2 where f: "fetchChunks f a e s1 = (Ret (), s2)" "?i \<in> dom (content s2)"
      using fetchChunks_all [OF assms(1,2) g(2) i ae] by (metis prod.collapse)
    then obtain b where b: "content s2 ?i = Some b" by blast
    have ok: "correct ?n s2" using fetchChunks_correct [OF assms(1,2) g(2) i ae f(1)] by blast
    obtain s3 where g2: "getChunk f ?i (s2, p) = (Ret (Some b), (s3, p))" "correct ?n s3" using getChunk_all [OF assms(1) ok, of ?i p] b by auto
    then show ?thesis
      using g None ae f(1) wr [OF b ok, of s3] assms(5) by (simp add: copyChunk_def andThen_def onError_def onCache_def)
  qed
qed

lemma copyChunks_all:
  assumes "uses f" "wfFile f data" "correct (fa_chunkSize f) s" "list_all (okChunk (fa_chunkSize f) (int (length data))) cs" "pi_writes p = None"
  shows "fst (copyChunks f cs (s, p)) = Ret ()"
  using assms(3-5)
proof (induction cs arbitrary: s p)
  case (Cons c cs)
  then obtain s' p' where "copyChunk f c (s, p) = (Ret (), (s', p'))" "correct (fa_chunkSize f) s'" "pi_writes p' = None"
    using copyChunk_all [OF assms(1,2)] by (metis list.pred_inject(2))
  then show ?case using Cons.IH Cons.prems(2) by (simp add: andThen_def)
qed simp

lemma getRange_all:
  assumes "uses f" "wfFile f data" "correct (fa_chunkSize f) s" "0 \<le> start" "start < e" "e \<le> fa_fileSize f"
  shows "\<exists>s' p'. getRange f start e (s, newPipe None) = (Ret (), (s', p')) \<and> correct (fa_chunkSize f) s'
    \<and> pi_data p' = fileRange data start e \<and> pi_closed p' = Some None"
proof -
  obtain cs where cs: "rangeToChunkIndexes f start e = Ret cs" "covers data (fa_chunkSize f) start e cs"
    using rangeToChunkIndexes_covers [OF assms(2,4-6)] by blast
  have "list_all (okChunk (fa_chunkSize f) (int (length data))) cs"
    using cs(2) assms(2,6) by (auto simp: covers_def wfFile_def okChunk_def list_all_iff)
  from copyChunks_all [OF assms(1-3) this, of "newPipe None"] obtain sp where "copyChunks f cs (s, newPipe None) = (Ret (), sp)"
    by (metis newPipe_def pipe.select_convs(3) prod.collapse)
  then have "getRange f start e (s, newPipe None) = (Ret (), closePipe None sp)" using cs(1) by (simp add: getRange_def andThen_def lift_def)
  then show ?thesis using getRange_safe [OF assms, of None] by (auto simp: closePipe_def)
qed

end

subsection \<open>The store of the tests\<close>

text \<open>
  The cache and the fetcher of \<open>file_cache_test.go\<close> (without its injected faults) keep the contract, whatever the
  file.
\<close>

record testCache =
  tc_m :: "int \<rightharpoonup> bytes"
  tc_maxIdx :: int

definition newTestCache :: testCache where
  "newTestCache = \<lparr>tc_m = Map.empty, tc_maxIdx = 0\<rparr>"

definition testCacheGet :: "int \<Rightarrow> (testCache, bytes option) call" where
  "testCacheGet chunkIdx t =
     (case tc_m t chunkIdx of
        None \<Rightarrow> (Ret None, t)
      | Some existing \<Rightarrow> if existing = [] then (Panic ''should not be empty'', t) else (Ret (Some existing), t))"

definition testCachePut :: "int \<Rightarrow> bytes \<Rightarrow> (testCache, unit) call" where
  "testCachePut chunkIdx v t =
     (if v = [] then (Panic ''should not be empty'', t)
      else (Ret (), t\<lparr>tc_m := (tc_m t)(chunkIdx \<mapsto> v), tc_maxIdx := (if chunkIdx > tc_maxIdx t then chunkIdx else tc_maxIdx t)\<rparr>))"

definition testFetchRange :: "bytes \<Rightarrow> testCache Fetcher" where
  "testFetchRange data start end = lift (slice data start end)"

definition nonEmptyChunks :: "testCache \<Rightarrow> bool" where
  "nonEmptyChunks t \<longleftrightarrow> [] \<notin> ran (tc_m t)"

interpretation test_store: reliable_store data testCacheGet testCachePut "testFetchRange data" nonEmptyChunks tc_m for data
proof (unfold_locales, goal_cases)
  case (1 s i r s')
  then show ?case by (auto simp: testCacheGet_def nonEmptyChunks_def split: option.splits if_splits intro: ranI)
next
  case (2 s b i r s')
  then show ?case by (auto simp: testCachePut_def nonEmptyChunks_def ran_def split: if_splits)
next
  case (3 s a e r s')
  then show ?case by (auto simp: testFetchRange_def lift_def slice_def fileRange_def nat_diff_distrib)
next
  case (4 s i)
  then show ?case by (auto simp: testCacheGet_def nonEmptyChunks_def split: option.splits intro: ranI)
next
  case (5 s b i)
  then show ?case by (simp add: testCachePut_def)
next
  case (6 s a e)
  then show ?case by (simp add: testFetchRange_def lift_def slice_def)
qed


subsection \<open>Properties\<close>

lemma NewFileCacheActor_wf:
  assumes "NewFileCacheActor (int (length data)) chunkSize fetchSize fetch cache = Ret f" "0 < chunkSize"
    "int (length data) + 2 * fetchSize < 2 ^ 63"
  shows "wfFile f data" "fa_chunkSize f = chunkSize" "fa_fetcher f = fetch" "fa_chunkCache f = cache" "fa_fileSize f = int (length data)"
  using assms by (auto simp: NewFileCacheActor_def wfFile_def dvd_eq_mod_eq_0 split: if_splits)

definition rangePayload :: "int \<Rightarrow> int \<Rightarrow> bytes" where
  "rangePayload a e = marshal (JObj [(''start_offset'', JNum (decInt a)), (''end_offset'', JNum (decInt e))])"

lemma rangePayload_request:
  assumes "is_i64 a" "is_i64 e"
  shows "unmarshal intoGetRangeRequest \<lparr>gr_StartOffset = 0, gr_EndOffset = 0\<rparr> (rangePayload a e) = Ret \<lparr>gr_StartOffset = a, gr_EndOffset = e\<rparr>"
  unfolding rangePayload_def
  by (rule unmarshal_marshal)
    (use assms in \<open>simp_all add: validString_ascii maxNestingDepth_def intoGetRangeRequest_def into_defs parseInt64_decInt del: wfJ.simps(3)\<close>)

text \<open>
  \<^bold>\<open>C23\<close> (the file cache never serves wrong bytes). Whatever the cache forgets, whatever fetch fails and whenever the reader
  gives up: a request for a range inside the file yields a stream that is a prefix of exactly these bytes of
  the file, and all of them unless the stream ends with an error; the cache keeps only chunks of the file. Any
  other request is an error without effect.
\<close>

theorem file_cache_range:
  assumes "file_store data get put fetch ok content"
    and "NewFileCacheActor (int (length data)) chunkSize fetchSize fetch \<lparr>cc_Get = get, cc_Put = put\<rparr> = Ret f"
    and "0 < chunkSize" "int (length data) + 2 * fetchSize < 2 ^ 63"
    and "ok s" "\<forall>i b. content s i = Some b \<longrightarrow> b = chunkOf data chunkSize i"
    and "unmarshal intoGetRangeRequest \<lparr>gr_StartOffset = 0, gr_EndOffset = 0\<rparr> payload = Ret req"
  shows "if validRange f req
    then \<exists>s' p err. fileInvokeStream f n ''getRange'' payload s = (Ret (Some p), s') \<and> pi_closed p = Some err
      \<and> prefix (pi_data p) (fileRange data (gr_StartOffset req) (gr_EndOffset req))
      \<and> (err = None \<longrightarrow> pi_data p = fileRange data (gr_StartOffset req) (gr_EndOffset req))
      \<and> ok s' \<and> (\<forall>i b. content s' i = Some b \<longrightarrow> b = chunkOf data chunkSize i)
    else \<exists>err. fileInvokeStream f n ''getRange'' payload s = (Fail err, s)"
proof -
  note f = NewFileCacheActor_wf [OF assms(2-4)] and c_def = file_store.correct_def [OF assms(1)]
  have u: "file_store.uses get put fetch f" and c: "file_store.correct data ok content (fa_chunkSize f) s"
    using f assms(5,6) by (simp_all add: file_store.uses_def [OF assms(1)] c_def)
  show ?thesis
  proof (cases "validRange f req")
    case True
    then have "0 \<le> gr_StartOffset req" "gr_StartOffset req < gr_EndOffset req" "gr_EndOffset req \<le> fa_fileSize f"
      by (auto simp: validRange_def)
    from file_store.getRange_safe [OF assms(1) u f(1) c this, of n] True assms(7) f(2) show ?thesis
      by (auto simp: fileInvokeStream_def c_def StartupOperationName_def ShutdownOperationName_def)
  qed (use assms(7) in \<open>simp add: fileInvokeStream_def StartupOperationName_def ShutdownOperationName_def\<close>)
qed

text \<open>A file of five bytes in chunks of two, fetched by fours, with an empty cache.\<close>

definition exampleFile :: bytes where "exampleFile = [1, 2, 3, 4, 5]"

definition exampleFileActor :: "testCache FileCacheActor" where
  "exampleFileActor = \<lparr>fa_fileSize = 5, fa_chunkSize = 2, fa_fetchSize = 4, fa_fetcher = testFetchRange exampleFile,
     fa_chunkCache = \<lparr>cc_Get = testCacheGet, cc_Put = testCachePut\<rparr>\<rparr>"

lemma exampleFile_new:
  "NewFileCacheActor (int (length exampleFile)) 2 4 (testFetchRange exampleFile) \<lparr>cc_Get = testCacheGet, cc_Put = testCachePut\<rparr> = Ret exampleFileActor"
  "int (length exampleFile) + 2 * 4 < 2 ^ 63" "nonEmptyChunks newTestCache"
  "\<forall>i b. tc_m newTestCache i = Some b \<longrightarrow> b = chunkOf exampleFile 2 i"
  "unmarshal intoGetRangeRequest \<lparr>gr_StartOffset = 0, gr_EndOffset = 0\<rparr> (rangePayload 1 4) = Ret \<lparr>gr_StartOffset = 1, gr_EndOffset = 4\<rparr>"
  "validRange exampleFileActor \<lparr>gr_StartOffset = 1, gr_EndOffset = 4\<rparr>"
  by (simp_all add: NewFileCacheActor_def exampleFileActor_def exampleFile_def nonEmptyChunks_def newTestCache_def rangePayload_request is_i64_def
      validRange_def)

theorem file_cache_range_witness:
  "\<exists>s' p err. fileInvokeStream exampleFileActor (Some 1) ''getRange'' (rangePayload 1 4) newTestCache = (Ret (Some p), s') \<and> pi_closed p = Some err
     \<and> prefix (pi_data p) [2, 3, 4]"
  using file_cache_range [OF test_store.file_store_axioms exampleFile_new(1) _ exampleFile_new(2-5), of "Some 1"] exampleFile_new(6)
  by (auto simp: fileRange_def exampleFile_def)

text \<open>
  \<^bold>\<open>C24\<close> (the file cache serves whole ranges). With a cache that keeps its chunks, a fetcher that answers and a reader that
  reads to the end, every request for a range inside the file yields all its bytes and no error.
\<close>

theorem file_cache_complete:
  assumes "reliable_store data get put fetch ok content"
    and "NewFileCacheActor (int (length data)) chunkSize fetchSize fetch \<lparr>cc_Get = get, cc_Put = put\<rparr> = Ret f"
    and "0 < chunkSize" "int (length data) + 2 * fetchSize < 2 ^ 63"
    and "ok s" "\<forall>i b. content s i = Some b \<longrightarrow> b = chunkOf data chunkSize i"
    and "unmarshal intoGetRangeRequest \<lparr>gr_StartOffset = 0, gr_EndOffset = 0\<rparr> payload = Ret req" "validRange f req"
  shows "\<exists>s' p. fileInvokeStream f None ''getRange'' payload s = (Ret (Some p), s') \<and> pi_closed p = Some None
    \<and> pi_data p = fileRange data (gr_StartOffset req) (gr_EndOffset req)"
proof -
  have store: "file_store data get put fetch ok content" using assms(1) by (simp add: reliable_store_def)
  note f = NewFileCacheActor_wf [OF assms(2-4)] and c_def = file_store.correct_def [OF store]
  have u: "file_store.uses get put fetch f" and c: "file_store.correct data ok content (fa_chunkSize f) s"
    using f assms(5,6) by (simp_all add: file_store.uses_def [OF store] c_def)
  have "0 \<le> gr_StartOffset req" "gr_StartOffset req < gr_EndOffset req" "gr_EndOffset req \<le> fa_fileSize f"
    using assms(8) by (auto simp: validRange_def)
  from reliable_store.getRange_all [OF assms(1) u f(1) c this] assms(7,8) show ?thesis
    by (auto simp: fileInvokeStream_def StartupOperationName_def ShutdownOperationName_def)
qed

theorem file_cache_complete_witness:
  "\<exists>s' p. fileInvokeStream exampleFileActor None ''getRange'' (rangePayload 1 4) newTestCache = (Ret (Some p), s')
     \<and> pi_closed p = Some None \<and> pi_data p = [2, 3, 4]"
  using file_cache_complete [OF test_store.reliable_store_axioms exampleFile_new(1) _ exampleFile_new(2-6)]
  by (simp add: fileRange_def exampleFile_def)

end
