(* ===== verification/Semaphore.thy ===== *)
theory Semaphore
  imports KV_Registry "HOL-Library.Multiset"
begin

section \<open>The semaphore actor: \<open>examples/semaphore/main.go\<close>\<close>

text \<open>
  An actor that limits how many requests hold a key at the same time, for instance per user. Its memory is two maps; holders that do
  not release their keys expire. The JSON library \<open>jsonparser\<close> and the host call that schedules
  the next cleaning are parameters, and so are the clock and the order in which Go ranges over a map.
\<close>

record kv =
  kv_Key :: string
  kv_Value :: string

record requestIDState =
  rs_kvs :: "kv list"
  rs_expiresAt :: int

record semaphore =
  sm_kvCounts :: "kv \<rightharpoonup> int"
  sm_requestIDToKVs :: "string \<rightharpoonup> requestIDState"

definition emptySemaphore :: semaphore where
  "emptySemaphore = \<lparr>sm_kvCounts = Map.empty, sm_requestIDToKVs = Map.empty\<rparr>"

definition perKeyLimits :: "string \<rightharpoonup> int" where
  "perKeyLimits = [''user'' \<mapsto> 5, ''requestType'' \<mapsto> 100]"

definition limitOf :: "kv \<Rightarrow> int" where
  "limitOf k = (case perKeyLimits (kv_Key k) of Some n \<Rightarrow> n | None \<Rightarrow> 0)"

subsection \<open>Requests\<close>

record acquireRequest =
  aq_Keys :: "kv list"
  aq_RequestID :: string
  aq_TTLMillis :: int

text \<open>
  What the code uses of \<open>jsonparser\<close>: the members that \<open>ObjectEach\<close> delivers and the error that it ends with, the elements that
  \<open>ArrayEach\<close> delivers, and \<open>ParseInt\<close>. The errors of the inner calls are ignored.
\<close>

record jsonparser =
  jp_ObjectEach :: "bytes \<Rightarrow> (bytes \<times> bytes) list \<times> goerr option"
  jp_ArrayEach :: "bytes \<Rightarrow> bytes list"
  jp_ParseInt :: "bytes \<Rightarrow> int outcome"

definition setKV :: "bytes \<times> bytes \<Rightarrow> kv \<Rightarrow> kv" where
  "setKV m k =
     (if go_string (fst m) = ''key'' then k\<lparr>kv_Key := go_string (snd m)\<rparr>
      else if go_string (fst m) = ''value'' then k\<lparr>kv_Value := go_string (snd m)\<rparr>
      else k)"

definition parseKV :: "jsonparser \<Rightarrow> bytes \<Rightarrow> kv" where
  "parseKV jp v = fold setKV (fst (jp_ObjectEach jp v)) \<lparr>kv_Key = [], kv_Value = []\<rparr>"

text \<open>The conversion \<open>int(ttlMillis)\<close>: the actor is compiled by TinyGo for WebAssembly, where an \<open>int\<close> has 32 bits.\<close>

definition tinyInt :: "int \<Rightarrow> int" where
  "tinyInt n = signed_take_bit 31 n"

fun setMembers :: "jsonparser \<Rightarrow> (bytes \<times> bytes) list \<Rightarrow> acquireRequest \<Rightarrow> acquireRequest outcome" where
  "setMembers jp [] req = Ret req"
| "setMembers jp ((k, v) # ms) req =
     (if go_string k = ''keys'' then setMembers jp ms (req\<lparr>aq_Keys := aq_Keys req @ map (parseKV jp) (jp_ArrayEach jp v)\<rparr>)
      else if go_string k = ''request_id'' then setMembers jp ms (req\<lparr>aq_RequestID := go_string v\<rparr>)
      else if go_string k = ''ttl_millis'' then
        obind (jp_ParseInt jp v) (\<lambda>n. setMembers jp ms (req\<lparr>aq_TTLMillis := tinyInt n\<rparr>))
      else setMembers jp ms req)"

definition unmarshalAcquireRequest :: "jsonparser \<Rightarrow> bytes \<Rightarrow> acquireRequest outcome" where
  "unmarshalAcquireRequest jp payload =
     (case jp_ObjectEach jp payload of
        (ms, err) \<Rightarrow>
          obind (setMembers jp ms \<lparr>aq_Keys = [], aq_RequestID = [], aq_TTLMillis = 0\<rparr>)
            (\<lambda>req. case err of Some e \<Rightarrow> Fail e | None \<Rightarrow> Ret req))"

definition intoReleaseRequest :: "json \<Rightarrow> string \<Rightarrow> string option" where
  "intoReleaseRequest = intoStruct [(''request_id'', field intoString id (\<lambda>x _. x))]"

subsection \<open>Operations\<close>

definition decrKV :: "kv \<Rightarrow> (semaphore, unit) call" where
  "decrKV k s =
     (case sm_kvCounts s k of
        None \<Rightarrow> (Fail (Errorf ''[invariant violated] kv: %v had count of 0 in unwind'' [AStr (kv_Key k), AStr (kv_Value k)]), s)
      | Some existing \<Rightarrow>
          if existing \<le> 0 then
            (Fail (Errorf ''[invariant violated] kv: %v had count of: %d in unwind'' [AStr (kv_Key k), AStr (kv_Value k), AInt existing]), s)
          else if existing - 1 \<le> 0 then (Ret (), s\<lparr>sm_kvCounts := (sm_kvCounts s)(k := None)\<rparr>)
          else (Ret (), s\<lparr>sm_kvCounts := (sm_kvCounts s)(k \<mapsto> existing - 1)\<rparr>))"

fun decrAll :: "kv list \<Rightarrow> (semaphore, unit) call" where
  "decrAll [] = ret ()"
| "decrAll (k # ks) = andThen (decrKV k) (\<lambda>_. decrAll ks)"

text \<open>\<open>req.Keys[:i-1]\<close> leaves out the key before the one that failed.\<close>

definition unwind :: "acquireRequest \<Rightarrow> nat \<Rightarrow> (semaphore, unit) call" where
  "unwind req i = (if i = 0 then ret () else decrAll (take (i - 1) (aq_Keys req)))"

fun acquireLoop :: "acquireRequest \<Rightarrow> nat \<Rightarrow> kv list \<Rightarrow> (semaphore, unit) call" where
  "acquireLoop req i [] = ret ()"
| "acquireLoop req i (k # ks) = (\<lambda>s.
     let existing = sm_kvCounts s k; count = (case existing of None \<Rightarrow> 0 | Some n \<Rightarrow> n) in
     if existing \<noteq> None \<and> count \<ge> limitOf k then
       andThen (onError (wrap ''acquire: error unwinding: %w'') (unwind req i))
         (\<lambda>_. fail (Errorf ''acquire: limit of %d exceeded for key: %s'' [AInt (limitOf k), AStr (kv_Key k)])) s
     else acquireLoop req (i + 1) ks (s\<lparr>sm_kvCounts := (sm_kvCounts s)(k \<mapsto> count + 1)\<rparr>))"

definition acquireReq :: "int \<Rightarrow> acquireRequest \<Rightarrow> (semaphore, unit) call" where
  "acquireReq now req s =
     (if sm_requestIDToKVs s (aq_RequestID req) \<noteq> None then
        (Fail (Errorf ''acquire: requestID: %s already exists'' [AStr (aq_RequestID req)]), s)
      else case find (\<lambda>k. perKeyLimits (kv_Key k) = None) (aq_Keys req) of
        Some k \<Rightarrow> (Fail (Errorf ''acquire: unknown semaphore key: %s'' [AStr (kv_Key k)]), s)
      | None \<Rightarrow>
          andThen (acquireLoop req 0 (aq_Keys req)) (\<lambda>_ s'.
            (Ret (), s'\<lparr>sm_requestIDToKVs := (sm_requestIDToKVs s')(aq_RequestID req \<mapsto>
               \<lparr>rs_kvs = aq_Keys req, rs_expiresAt = now + i64 (aq_TTLMillis req * 10 ^ 6)\<rparr>)\<rparr>)) s)"

definition acquire :: "jsonparser \<Rightarrow> int \<Rightarrow> bytes \<Rightarrow> (semaphore, unit) call" where
  "acquire jp now payload =
     andThen (onError (wrap ''acquire: error unmarshaling acquire request: %w'') (lift (unmarshalAcquireRequest jp payload))) (acquireReq now)"

definition releaseReq :: "string \<Rightarrow> (semaphore, unit) call" where
  "releaseReq requestID s =
     (case sm_requestIDToKVs s requestID of
        None \<Rightarrow> (Ret (), s)
      | Some kvs \<Rightarrow>
          andThen (decrAll (rs_kvs kvs))
            (\<lambda>_ s'. (Ret (), s'\<lparr>sm_requestIDToKVs := (sm_requestIDToKVs s')(requestID := None)\<rparr>)) s)"

definition release :: "bytes \<Rightarrow> (semaphore, unit) call" where
  "release payload =
     andThen (onError (wrap ''acquire: error unmarshaling releaseRequest: %w'') (lift (unmarshal intoReleaseRequest [] payload))) releaseReq"

text \<open>
  One round of \<open>houseclean\<close> over the requests in some order; an entry that is not there any more is not visited. The deferred function
  schedules the next round and panics with the error of the host.
\<close>

fun housecleanLoop :: "int \<Rightarrow> string list \<Rightarrow> (semaphore, unit) call" where
  "housecleanLoop now [] = ret ()"
| "housecleanLoop now (requestID # order) = (\<lambda>s.
     case sm_requestIDToKVs s requestID of
       None \<Rightarrow> housecleanLoop now order s
     | Some state \<Rightarrow>
         if now < rs_expiresAt state then housecleanLoop now order s
         else andThen (releaseReq requestID) (\<lambda>_. housecleanLoop now order) s)"

definition scheduleNextHouseclean :: "unit outcome \<Rightarrow> (semaphore, unit) call" where
  "scheduleNextHouseclean hostCall = onError (wrap ''error scheduling next houseclean: %w'') (lift hostCall)"

definition houseclean :: "unit outcome \<Rightarrow> int \<Rightarrow> string list \<Rightarrow> (semaphore, unit) call" where
  "houseclean hostCall now order s =
     (let (r, s') = housecleanLoop now order s in
      case scheduleNextHouseclean hostCall s' of
        (Ret _, _) \<Rightarrow> (r, s')
      | (Fail e, _) \<Rightarrow> (Panic ''error scheduling next houseclean'', s')
      | (Panic p, _) \<Rightarrow> (Panic p, s')
      | (Blocked, _) \<Rightarrow> (Blocked, s'))"

definition startup :: "unit outcome \<Rightarrow> (semaphore, unit) call" where
  "startup hostCall = scheduleNextHouseclean hostCall"


text \<open>What can happen to the actor, and its histories.\<close>

datatype semaphoreEvent = Acquire int bytes | Release bytes | Houseclean int "string list"

fun semStep :: "jsonparser \<Rightarrow> semaphoreEvent \<Rightarrow> (semaphore, unit) call" where
  "semStep jp (Acquire now payload) = acquire jp now payload"
| "semStep jp (Release payload) = release payload"
| "semStep jp (Houseclean now order) = houseclean (Ret ()) now order"

inductive semRuns :: "jsonparser \<Rightarrow> semaphore \<Rightarrow> semaphore \<Rightarrow> bool" for jp where
  refl: "semRuns jp s s"
| step: "semRuns jp s s1 \<Longrightarrow> semStep jp ev s1 = (r, s2) \<Longrightarrow> semRuns jp s s2"

subsection \<open>The invariant\<close>

definition cnt :: "semaphore \<Rightarrow> kv \<Rightarrow> int" where
  "cnt s k = (case sm_kvCounts s k of None \<Rightarrow> 0 | Some n \<Rightarrow> n)"

text \<open>How often the requests that hold keys hold a key, and what is counted beyond that.\<close>

definition held :: "semaphore \<Rightarrow> kv \<Rightarrow> int" where
  "held s k = (\<Sum>i\<in>dom (sm_requestIDToKVs s). int (count (mset (rs_kvs (the (sm_requestIDToKVs s i)))) k))"

definition slack :: "semaphore \<Rightarrow> kv \<Rightarrow> int" where
  "slack s k = cnt s k - held s k"

definition wfCounts :: "semaphore \<Rightarrow> bool" where
  "wfCounts s \<longleftrightarrow> (\<forall>k n. sm_kvCounts s k = Some n \<longrightarrow> 0 < n)"

definition semInv :: "semaphore \<Rightarrow> bool" where
  "semInv s \<longleftrightarrow> finite (dom (sm_requestIDToKVs s)) \<and> wfCounts s \<and> (\<forall>k. 0 \<le> slack s k \<and> cnt s k \<le> limitOf k)"

lemma cnt_nonneg: "wfCounts s \<Longrightarrow> 0 \<le> cnt s k"
  by (auto simp: wfCounts_def cnt_def less_imp_le split: option.split)

lemma held_update:
  assumes "finite (dom (sm_requestIDToKVs s))" "sm_requestIDToKVs s i = None"
  shows "held (s\<lparr>sm_requestIDToKVs := (sm_requestIDToKVs s)(i \<mapsto> st)\<rparr>) k = held s k + int (count (mset (rs_kvs st)) k)"
proof -
  have "(\<Sum>j\<in>dom (sm_requestIDToKVs s). int (count (mset (rs_kvs (the (((sm_requestIDToKVs s)(i \<mapsto> st)) j)))) k)) = held s k"
    unfolding held_def by (intro sum.cong) (use assms(2) in auto)
  then show ?thesis using assms by (simp add: held_def domIff)
qed

lemma held_remove:
  assumes "finite (dom (sm_requestIDToKVs s))" "sm_requestIDToKVs s i = Some st"
  shows "held (s\<lparr>sm_requestIDToKVs := (sm_requestIDToKVs s)(i := None)\<rparr>) k = held s k - int (count (mset (rs_kvs st)) k)"
proof -
  have "held s k = int (count (mset (rs_kvs st)) k)
    + (\<Sum>j\<in>dom (sm_requestIDToKVs s) - {i}. int (count (mset (rs_kvs (the (sm_requestIDToKVs s j)))) k))"
    unfolding held_def by (subst sum.remove [OF assms(1), of i]) (use assms(2) in auto)
  moreover have "held (s\<lparr>sm_requestIDToKVs := (sm_requestIDToKVs s)(i := None)\<rparr>) k
    = (\<Sum>j\<in>dom (sm_requestIDToKVs s) - {i}. int (count (mset (rs_kvs (the (sm_requestIDToKVs s j)))) k))"
    unfolding held_def by (intro sum.cong) (auto split: if_splits)
  ultimately show ?thesis by simp
qed

lemma held_ge:
  assumes "finite (dom (sm_requestIDToKVs s))" "sm_requestIDToKVs s i = Some st"
  shows "int (count (mset (rs_kvs st)) k) \<le> held s k"
  unfolding held_def using member_le_sum [of i "dom (sm_requestIDToKVs s)" "\<lambda>j. int (count (mset (rs_kvs (the (sm_requestIDToKVs s j)))) k)"] assms
  by (simp add: domIff)

lemma decrKV_ok:
  assumes "wfCounts s" "1 \<le> cnt s k"
  obtains s' where "decrKV k s = (Ret (), s')" "wfCounts s'" "\<And>k'. cnt s' k' = cnt s k' - (if k' = k then 1 else 0)"
    "sm_requestIDToKVs s' = sm_requestIDToKVs s"
proof -
  obtain n where n: "sm_kvCounts s k = Some n" "1 \<le> n" using assms(2) by (auto simp: cnt_def split: option.splits)
  then show ?thesis
    by (intro that [of "snd (decrKV k s)"]) (use assms(1) in \<open>auto simp: decrKV_def wfCounts_def cnt_def split: if_splits\<close>)
qed

lemma decrAll_ok:
  assumes "wfCounts s" "\<And>k. int (count (mset ks) k) \<le> cnt s k"
  shows "\<exists>s'. decrAll ks s = (Ret (), s') \<and> wfCounts s' \<and> (\<forall>k. cnt s' k = cnt s k - int (count (mset ks) k))
    \<and> sm_requestIDToKVs s' = sm_requestIDToKVs s"
  using assms
proof (induction ks arbitrary: s)
  case (Cons k ks)
  have "1 \<le> cnt s k" using Cons.prems(2) [of k] by simp
  from decrKV_ok [OF Cons.prems(1) this] obtain s1 where s1: "decrKV k s = (Ret (), s1)" "wfCounts s1"
    "\<And>k'. cnt s1 k' = cnt s k' - (if k' = k then 1 else 0)" "sm_requestIDToKVs s1 = sm_requestIDToKVs s" by blast
  have "int (count (mset ks) k') \<le> cnt s1 k'" for k' using Cons.prems(2) [of k'] s1(3) [of k'] by (auto split: if_splits)
  from Cons.IH [OF s1(2) this] obtain s2 where s2: "decrAll ks s1 = (Ret (), s2)" "wfCounts s2"
    "\<forall>k'. cnt s2 k' = cnt s1 k' - int (count (mset ks) k')" "sm_requestIDToKVs s2 = sm_requestIDToKVs s1" by blast
  have "cnt s2 k' = cnt s k' - int (count (mset (k # ks)) k')" for k' using s2(3) s1(3) by simp
  then show ?case using s1 s2 by (simp add: andThen_def)
qed simp


text \<open>
  The loop of \<open>acquire\<close>: it takes all keys, or it fails at the index \<open>i\<close> and keeps the key before that.
\<close>

definition leaked :: "kv list \<Rightarrow> nat \<Rightarrow> kv \<Rightarrow> int" where
  "leaked ks i k = (if i \<noteq> 0 \<and> k = ks ! (i - 1) then 1 else 0)"

lemma unwind_ok:
  assumes "aq_Keys req = pre @ ks" "wfCounts s" "\<And>k. cnt s k = base k + int (count (mset pre) k)" "\<And>k. 0 \<le> base k"
  shows "\<exists>s'. unwind req (length pre) s = (Ret (), s') \<and> wfCounts s' \<and> (\<forall>k. cnt s' k = base k + leaked (aq_Keys req) (length pre) k)
    \<and> sm_requestIDToKVs s' = sm_requestIDToKVs s"
proof (cases pre rule: rev_cases)
  case Nil
  then show ?thesis using assms by (simp add: unwind_def leaked_def)
next
  case (snoc ys y)
  then have "int (count (mset ys) k) \<le> cnt s k" for k using assms(3,4) [of k] by simp
  from decrAll_ok [OF assms(2) this] obtain s' where s': "decrAll ys s = (Ret (), s')" "wfCounts s'"
    "\<forall>k. cnt s' k = cnt s k - int (count (mset ys) k)" "sm_requestIDToKVs s' = sm_requestIDToKVs s" by blast
  have "cnt s' k = base k + leaked (aq_Keys req) (length pre) k" for k
    using s'(3) assms(1,3) snoc by (simp add: leaked_def nth_append)
  then show ?thesis using s' snoc assms(1) by (simp add: unwind_def)
qed

lemma acquireLoop_ok:
  assumes "aq_Keys req = pre @ ks" "wfCounts s" "\<And>k. cnt s k = base k + int (count (mset pre) k)" "\<And>k. 0 \<le> base k"
    and "\<And>k. cnt s k \<le> limitOf k" "\<And>k. k \<in> set ks \<Longrightarrow> 1 \<le> limitOf k"
  shows "\<exists>r s'. acquireLoop req (length pre) ks s = (r, s') \<and> wfCounts s' \<and> sm_requestIDToKVs s' = sm_requestIDToKVs s
    \<and> (\<forall>k. cnt s' k \<le> limitOf k)
    \<and> ((r = Ret () \<and> (\<forall>k. cnt s' k = base k + int (count (mset (aq_Keys req)) k)))
       \<or> (\<exists>e i. r = Fail e \<and> i < length (aq_Keys req) \<and> (\<forall>k. cnt s' k = base k + leaked (aq_Keys req) i k)))"
  using assms
proof (induction ks arbitrary: pre s)
  case (Cons k ks)
  show ?case
  proof (cases "sm_kvCounts s k \<noteq> None \<and> cnt s k \<ge> limitOf k")
    case True
    obtain s' where s': "unwind req (length pre) s = (Ret (), s')" "wfCounts s'"
      "\<forall>k. cnt s' k = base k + leaked (aq_Keys req) (length pre) k" "sm_requestIDToKVs s' = sm_requestIDToKVs s"
      using unwind_ok [OF Cons.prems(1-4)] by blast
    have "leaked (aq_Keys req) (length pre) k' \<le> int (count (mset pre) k')" for k'
      using Cons.prems(1) by (auto simp: leaked_def nth_append Suc_le_eq count_greater_zero_iff in_set_conv_nth)
    then have "cnt s' k' \<le> limitOf k'" for k' using s'(3) Cons.prems(3,5) by (smt (verit))
    moreover have "length pre < length (aq_Keys req)" using Cons.prems(1) by simp
    ultimately show ?thesis using True s' by (auto simp: Let_def cnt_def andThen_def onError_def)
  next
    case False
    let ?s = "s\<lparr>sm_kvCounts := (sm_kvCounts s)(k \<mapsto> cnt s k + 1)\<rparr>"
    have cnt': "cnt ?s k' = cnt s k' + (if k' = k then 1 else 0)" for k' by (simp add: cnt_def)
    have lim: "cnt s k < limitOf k" using False Cons.prems(6) [of k] by (force simp: cnt_def)
    have "aq_Keys req = (pre @ [k]) @ ks" using Cons.prems(1) by simp
    moreover have "wfCounts ?s" using Cons.prems(2) cnt_nonneg [OF Cons.prems(2), of k] by (auto simp: wfCounts_def)
    moreover have "cnt ?s k' = base k' + int (count (mset (pre @ [k])) k')" for k' using cnt' Cons.prems(3) by simp
    moreover have "cnt ?s k' \<le> limitOf k'" for k' using cnt' lim Cons.prems(5) [of k'] by auto
    ultimately have "\<exists>r s'. acquireLoop req (length (pre @ [k])) ks ?s = (r, s') \<and> wfCounts s' \<and> sm_requestIDToKVs s' = sm_requestIDToKVs ?s
      \<and> (\<forall>k. cnt s' k \<le> limitOf k)
      \<and> ((r = Ret () \<and> (\<forall>k. cnt s' k = base k + int (count (mset (aq_Keys req)) k)))
         \<or> (\<exists>e i. r = Fail e \<and> i < length (aq_Keys req) \<and> (\<forall>k. cnt s' k = base k + leaked (aq_Keys req) i k)))"
      using Cons.IH [of "pre @ [k]" ?s] Cons.prems(4,6) by simp
    then show ?thesis using False by (auto simp: Let_def cnt_def)
  qed
qed auto

lemma counts_eq:
  assumes "wfCounts s" "wfCounts s'" "\<And>k. cnt s k = cnt s' k" "sm_requestIDToKVs s' = sm_requestIDToKVs s"
  shows "s' = s"
proof -
  have "sm_kvCounts s' k = sm_kvCounts s k" for k
    using assms(1,2) assms(3) [of k] by (force simp: wfCounts_def cnt_def split: option.splits)
  then show ?thesis using assms(4) by (cases s; cases s') auto
qed

lemma known_limit: "perKeyLimits (kv_Key k) \<noteq> None \<Longrightarrow> 1 \<le> limitOf k"
  by (auto simp: limitOf_def perKeyLimits_def split: if_splits)

lemma acquireReq_ok:
  assumes "semInv s" "acquireReq now req s = (r, s')"
  shows "semInv s' \<and> ((r = Ret () \<and> (\<forall>k. slack s' k = slack s k))
    \<or> (\<exists>e. r = Fail e \<and> (s' = s \<or> (\<exists>key \<in> set (aq_Keys req). \<forall>k. slack s' k = slack s k + (if k = key then 1 else 0)))))"
proof (cases "sm_requestIDToKVs s (aq_RequestID req) \<noteq> None \<or> (\<exists>k\<in>set (aq_Keys req). perKeyLimits (kv_Key k) = None)")
  case True
  then have "s' = s" "\<exists>e. r = Fail e"
    using assms(2) by (auto simp: acquireReq_def find_None_iff split: if_splits option.splits)
  then show ?thesis using assms(1) by auto
next
  case False
  note inv = assms(1) [unfolded semInv_def]
  from False have new: "sm_requestIDToKVs s (aq_RequestID req) = None" and known: "\<And>k. k \<in> set (aq_Keys req) \<Longrightarrow> 1 \<le> limitOf k"
    by (auto intro: known_limit)
  have none: "find (\<lambda>k. perKeyLimits (kv_Key k) = None) (aq_Keys req) = None" using False by (auto simp: find_None_iff)
  obtain r1 s1 where l: "acquireLoop req 0 (aq_Keys req) s = (r1, s1)" "wfCounts s1" "sm_requestIDToKVs s1 = sm_requestIDToKVs s"
    "\<forall>k. cnt s1 k \<le> limitOf k"
    "(r1 = Ret () \<and> (\<forall>k. cnt s1 k = cnt s k + int (count (mset (aq_Keys req)) k)))
       \<or> (\<exists>e i. r1 = Fail e \<and> i < length (aq_Keys req) \<and> (\<forall>k. cnt s1 k = cnt s k + leaked (aq_Keys req) i k))"
    using acquireLoop_ok [of req "[]" "aq_Keys req" s "cnt s"] inv known cnt_nonneg [of s] by auto
  have held1: "held s1 k = held s k" for k using l(3) by (simp add: held_def)
  have run: "acquireReq now req s = (case r1 of Ret _ \<Rightarrow> (Ret (), s1\<lparr>sm_requestIDToKVs := (sm_requestIDToKVs s1)(aq_RequestID req \<mapsto>
      \<lparr>rs_kvs = aq_Keys req, rs_expiresAt = now + i64 (aq_TTLMillis req * 10 ^ 6)\<rparr>)\<rparr>) | Fail e \<Rightarrow> (Fail e, s1) | Panic p \<Rightarrow> (Panic p, s1) | Blocked \<Rightarrow> (Blocked, s1))"
    using none new l(1) by (simp add: acquireReq_def andThen_def split: outcome.split)
  from l(5) show ?thesis
  proof (elim disjE exE conjE)
    assume ok: "r1 = Ret ()" "\<forall>k. cnt s1 k = cnt s k + int (count (mset (aq_Keys req)) k)"
    let ?st = "\<lparr>rs_kvs = aq_Keys req, rs_expiresAt = now + i64 (aq_TTLMillis req * 10 ^ 6)\<rparr>"
    have s': "r = Ret ()" "s' = s1\<lparr>sm_requestIDToKVs := (sm_requestIDToKVs s1)(aq_RequestID req \<mapsto> ?st)\<rparr>"
      using run assms(2) ok(1) by simp_all
    have "held s' k = held s k + int (count (mset (aq_Keys req)) k)" for k
      unfolding s'(2) using held_update [of s1 "aq_RequestID req" ?st k] inv new l(3) held1 by simp
    moreover have "cnt s' k = cnt s1 k" for k unfolding s'(2) by (simp add: cnt_def)
    ultimately show ?thesis using inv l(2,3,4) ok(2) s' by (auto simp: semInv_def slack_def wfCounts_def)
  next
    fix e i
    assume ok: "r1 = Fail e" "i < length (aq_Keys req)" "\<forall>k. cnt s1 k = cnt s k + leaked (aq_Keys req) i k"
    have s': "r = Fail e" "s' = s1" using run assms(2) ok(1) by simp_all
    have slack: "slack s1 k = slack s k + leaked (aq_Keys req) i k" for k using ok(3) held1 by (simp add: slack_def)
    have inv': "semInv s1" using inv l(2-4) slack by (auto simp: semInv_def leaked_def)
    show ?thesis
    proof (cases "i = 0")
      case True
      then have "s1 = s" using counts_eq [OF _ l(2) _ l(3)] inv ok(3) by (simp add: leaked_def)
      then show ?thesis using s' inv' by simp
    next
      case False
      then have "aq_Keys req ! (i - 1) \<in> set (aq_Keys req)" using ok(2) by simp
      then show ?thesis using s' inv' slack False by (auto simp: leaked_def)
    qed
  qed
qed

lemma releaseReq_ok:
  assumes "semInv s"
  shows "\<exists>s'. releaseReq i s = (Ret (), s') \<and> semInv s' \<and> (\<forall>k. slack s' k = slack s k)"
proof (cases "sm_requestIDToKVs s i")
  case None
  then show ?thesis using assms by (simp add: releaseReq_def)
next
  case (Some st)
  note inv = assms [unfolded semInv_def]
  have "int (count (mset (rs_kvs st)) k) \<le> cnt s k" for k
    using held_ge [OF conjunct1 [OF inv] Some, of k] inv by (simp add: slack_def) (metis diff_ge_0_iff_ge order_trans)
  with decrAll_ok [of s "rs_kvs st"] inv obtain s1 where s1: "decrAll (rs_kvs st) s = (Ret (), s1)" "wfCounts s1"
    "\<forall>k. cnt s1 k = cnt s k - int (count (mset (rs_kvs st)) k)" "sm_requestIDToKVs s1 = sm_requestIDToKVs s" by blast
  let ?s = "s1\<lparr>sm_requestIDToKVs := (sm_requestIDToKVs s1)(i := None)\<rparr>"
  have "held ?s k = held s k - int (count (mset (rs_kvs st)) k)" for k
    using held_remove [of s1 i st k] inv Some s1(4) by (simp add: held_def)
  moreover have "cnt ?s k = cnt s1 k" for k by (simp add: cnt_def)
  ultimately have "slack ?s k = slack s k" "cnt ?s k \<le> limitOf k" for k
    using s1(3) inv by (auto simp: slack_def intro: order_trans [of _ "cnt s k"])
  moreover have "semInv ?s" using inv s1(2,4) calculation by (auto simp: semInv_def wfCounts_def)
  ultimately show ?thesis using Some s1(1) by (simp add: releaseReq_def andThen_def)
qed

lemma housecleanLoop_ok:
  "semInv s \<Longrightarrow> \<exists>s'. housecleanLoop now order s = (Ret (), s') \<and> semInv s' \<and> (\<forall>k. slack s' k = slack s k)"
proof (induction order arbitrary: s)
  case (Cons i order)
  obtain s1 where "releaseReq i s = (Ret (), s1)" "semInv s1" "\<forall>k. slack s1 k = slack s k" using releaseReq_ok [OF Cons.prems] by blast
  then show ?case
    using Cons.IH [of s1] Cons.IH [OF Cons.prems] by (auto simp: andThen_def split: option.split)
qed simp

lemma houseclean_ok:
  "semInv s \<Longrightarrow> \<exists>s'. houseclean (Ret ()) now order s = (Ret (), s') \<and> semInv s' \<and> (\<forall>k. slack s' k = slack s k)"
  using housecleanLoop_ok [of s now order] by (auto simp: houseclean_def scheduleNextHouseclean_def onError_def lift_def)

lemma semStep_ok:
  assumes "semInv s" "semStep jp ev s = (r, s')"
  shows "semInv s' \<and> (\<forall>k. slack s k \<le> slack s' k)"
proof (cases ev)
  case (Acquire now payload)
  then show ?thesis
    using assms acquireReq_ok [OF assms(1), of now]
    by (auto simp: acquire_def andThen_def onError_def lift_def split: outcome.splits prod.splits) (force split: if_splits)+
next
  case (Release payload)
  then show ?thesis
    using assms releaseReq_ok [OF assms(1)]
    by (auto simp: release_def andThen_def onError_def lift_def split: outcome.splits prod.splits) (metis order_refl prod.inject)+
next
  case (Houseclean now order)
  then show ?thesis using assms houseclean_ok [OF assms(1), of now order] by auto
qed

lemma semRuns_ok:
  "semRuns jp s s' \<Longrightarrow> semInv s \<Longrightarrow> semInv s' \<and> (\<forall>k. slack s k \<le> slack s' k)"
proof (induction rule: semRuns.induct)
  case (step s s1 ev r s2)
  then show ?case using semStep_ok [OF _ step.hyps(2)] by (meson order_trans)
qed simp

lemma semInv_empty [simp]: "semInv emptySemaphore"
  by (simp add: semInv_def emptySemaphore_def wfCounts_def slack_def cnt_def held_def limitOf_def perKeyLimits_def)


subsection \<open>Properties\<close>

text \<open>
  \<^bold>\<open>C25\<close> (the semaphore keeps its limits). After every history of requests, releases and cleanings no key is held by more requests than its
  limit, and releasing and cleaning never fail: no count is found to be missing or zero.
\<close>

theorem semaphore_safe:
  assumes "semRuns jp emptySemaphore s"
  shows "held s k \<le> limitOf k \<and> fst (releaseReq i s) = Ret () \<and> fst (houseclean (Ret ()) now order s) = Ret ()"
proof -
  have inv: "semInv s" using semRuns_ok [OF assms] by simp
  then have "0 \<le> slack s k" "cnt s k \<le> limitOf k" by (simp_all add: semInv_def)
  then have "held s k \<le> limitOf k" by (simp add: slack_def)
  then show ?thesis using releaseReq_ok [OF inv, of i] houseclean_ok [OF inv, of now order] by auto
qed

definition userKey :: kv where "userKey = \<lparr>kv_Key = ''user'', kv_Value = ''u''\<rparr>"
definition typeKey :: kv where "typeKey = \<lparr>kv_Key = ''requestType'', kv_Value = ''t''\<rparr>"

text \<open>A parser that reads every payload as the request \<open>r\<close> for five times the key of one user.\<close>

definition exampleParser :: jsonparser where
  "exampleParser =
     \<lparr>jp_ObjectEach = (\<lambda>b. if b = [] then ([(go_bytes ''request_id'', go_bytes ''r''), (go_bytes ''keys'', [1])], None)
                             else ([(go_bytes ''key'', go_bytes ''user''), (go_bytes ''value'', go_bytes ''u'')], None)),
      jp_ArrayEach = (\<lambda>b. replicate 5 [2]), jp_ParseInt = (\<lambda>b. Ret 0)\<rparr>"

definition fullSemaphore :: semaphore where
  "fullSemaphore =
     \<lparr>sm_kvCounts = [userKey \<mapsto> 5], sm_requestIDToKVs = [''r'' \<mapsto> \<lparr>rs_kvs = replicate 5 userKey, rs_expiresAt = 0\<rparr>]\<rparr>"

lemma example_request: "unmarshalAcquireRequest exampleParser [] = Ret \<lparr>aq_Keys = replicate 5 userKey, aq_RequestID = ''r'', aq_TTLMillis = 0\<rparr>"
  by (simp add: unmarshalAcquireRequest_def exampleParser_def parseKV_def setKV_def userKey_def numeral_eq_Suc del: go_bytes_Cons go_bytes_Nil)

lemma fullSemaphore_runs: "semRuns exampleParser emptySemaphore fullSemaphore"
proof -
  have "acquire exampleParser 0 [] emptySemaphore = (Ret (), fullSemaphore)"
    by (simp add: acquire_def example_request andThen_def onError_def lift_def acquireReq_def emptySemaphore_def fullSemaphore_def
        limitOf_def perKeyLimits_def userKey_def numeral_eq_Suc i64_def)
  then show ?thesis using semRuns.step [OF semRuns.refl, of exampleParser "Acquire 0 []"] by simp
qed

theorem semaphore_safe_witness:
  "held fullSemaphore userKey \<le> limitOf userKey \<and> fst (releaseReq ''r'' fullSemaphore) = Ret ()
   \<and> fst (houseclean (Ret ()) 1 [''r''] fullSemaphore) = Ret ()"
  by (rule semaphore_safe [OF fullSemaphore_runs])

text \<open>
  \<^bold>\<open>C26\<close> (failed requests leak keys). An \<open>acquire\<close> that fails and yet changes the state has taken one of its keys for good: the
  key is counted although no request holds it, and in every later state, whatever is released and whatever
  expires, one request less can hold it. Enough such failures lock every caller out of the key.
\<close>

theorem semaphore_leak:
  assumes "semRuns jp emptySemaphore s" "acquireReq now req s = (Fail e, s1)" "s1 \<noteq> s"
  shows "\<exists>k \<in> set (aq_Keys req). slack s1 k = slack s k + 1
    \<and> (\<forall>s2. semRuns jp s1 s2 \<longrightarrow> held s2 k \<le> limitOf k - slack s k - 1)"
proof -
  have inv: "semInv s" using semRuns_ok [OF assms(1)] by simp
  from acquireReq_ok [OF inv assms(2)] assms(3) obtain k where k: "semInv s1" "k \<in> set (aq_Keys req)" "slack s1 k = slack s k + 1" by auto
  have "held s2 k \<le> limitOf k - slack s k - 1" if "semRuns jp s1 s2" for s2
  proof -
    have "semInv s2" "slack s1 k \<le> slack s2 k" using semRuns_ok [OF that k(1)] by simp_all
    then have "cnt s2 k \<le> limitOf k" "slack s1 k \<le> slack s2 k" by (simp_all add: semInv_def)
    then show ?thesis using k(3) by (simp add: slack_def)
  qed
  with k show ?thesis by blast
qed

theorem semaphore_leak_witness:
  "\<exists>e s1. acquireReq 0 \<lparr>aq_Keys = [typeKey, userKey], aq_RequestID = ''q'', aq_TTLMillis = 0\<rparr> fullSemaphore = (Fail e, s1)
     \<and> (\<exists>k \<in> {typeKey, userKey}. \<forall>s2. semRuns exampleParser s1 s2 \<longrightarrow> held s2 k \<le> limitOf k - slack fullSemaphore k - 1)"
proof -
  let ?req = "\<lparr>aq_Keys = [typeKey, userKey], aq_RequestID = ''q'', aq_TTLMillis = 0\<rparr>"
  obtain e s1 where a: "acquireReq 0 ?req fullSemaphore = (Fail e, s1)" "sm_kvCounts s1 typeKey = Some 1"
    by (simp add: acquireReq_def fullSemaphore_def typeKey_def userKey_def andThen_def onError_def limitOf_def perKeyLimits_def unwind_def)
  then have "s1 \<noteq> fullSemaphore" by (auto simp: fullSemaphore_def typeKey_def userKey_def)
  from semaphore_leak [OF fullSemaphore_runs a(1) this] a(1) show ?thesis by auto
qed

end
