(* ===== verification/Spec2Isabelle.thy ===== *)
theory Spec2Isabelle
  imports Tuple_Values Util_Guest Server_App File_Cache Semaphore
begin

text \<open>
  \<^bold>\<open>NOLA: a verification library for the virtual actor registry and environment\<close>

  NOLA runs virtual actors. Servers (\<open>virtual/environment.go\<close>, \<open>virtual/activations.go\<close>) host actors
  of WebAssembly or Go modules; a registry (\<open>virtual/registry\<close>) stores modules, actors, the storage of
  the actors and the heartbeats of the servers, and decides on which server an actor is active. The
  registry is written against a small interface of a transactional, ordered key-value store
  (\<open>virtual/registry/kv\<close>), with keys packed by a copy of FoundationDB's tuple layer.

  \<^bold>\<open>How code is modelled.\<close> A fallible function returns an \<open>outcome\<close>: \<open>Ret\<close>, \<open>Fail\<close> with a
  Go error, \<open>Panic\<close>, or \<open>Blocked\<close> for a call that waits for a lock that nobody releases. Code with
  state is a \<open>call\<close>, a function from a state to an outcome and a state, composed by \<open>andThen\<close>
  (\<open>Nola_Prelude\<close>). Interfaces are records of operations, as in Go. Integers have their width: \<open>uint64\<close>
  is a word, \<open>int64\<close> an \<open>int\<close> with \<open>i64\<close> where the code can wrap around.

  \<^bold>\<open>The theories.\<close>

  \<^item> \<open>Tuple_Layer\<close>: \<open>tuple.go\<close>, the packer and the unpacker. \<open>Tuple_Roundtrip\<close>: unpacking inverts
    packing, ends on every input (the fuel of \<open>decodeLoop\<close> is one more than the number of bytes, which every
    element consumes at least one of), and panics on truncated keys. \<open>Tuple_Order\<close>: the order of
    the packed keys is the order of the tuples; packing is injective; what a key prefix selects. \<open>Tuple_Values\<close>: ranges, key selectors
    and printers; the range of a tuple is exact, and what \<open>Printable\<close> prints can be read back.
  \<^item> \<open>KV_Store\<close>: the interfaces of \<open>kv.go\<close> and their contracts, the locales \<open>kv_store\<close> and
    \<open>kv_open_transactions\<close>. \<open>Local_KV\<close>: \<open>local_kv.go\<close>, a mutex around a B-tree. The B-tree package is a
    parameter with the contract \<open>btree_contract\<close>; the locale is a sublocale of the contract
    of the store and is interpreted on red-black trees.
  \<^item> \<open>Go_JSON\<close> and \<open>Go_JSON_Roundtrip\<close>: the part of \<open>encoding/json\<close>, \<open>encoding/base64\<close>, \<open>strconv\<close>
    and \<open>unicode/utf8\<close> that the registry stores its records with, and that decoding inverts encoding.
  \<^item> \<open>Virtual_Types\<close>: \<open>virtual/types\<close>, identifiers and references. \<open>Registry_Data\<close>: the stored records,
    their JSON form and their keys. \<open>KV_Registry\<close>: every operation of \<open>kv_registry.go\<close>.
    \<open>Registry_Validator\<close>: the interfaces of \<open>types.go\<close> and \<open>validator.go\<close>.
  \<^item> \<open>Registry_Spec\<close>: an abstract registry of four maps and, for every store that keeps its contract, that each
    operation refines its abstract counterpart. \<open>Registry_History\<close>: sequences of complete calls; the
    invariant of the registry; a fencing token that is lost never comes back. \<open>Close\<close>, and a transaction that is left open while other calls are made, are outside of
    these histories; \<open>UnsafeWipeAll\<close>, which is for tests, is in those of \<open>wipedRuns\<close>.
  \<^item> \<open>Local_Registry\<close>: \<open>local_registry.go\<close>; the contract of the registry interpreted on the
    in-memory store, and the properties of the whole stack.
  \<^item> \<open>FDB_Store\<close>: \<open>fdb_kv.go\<close> and \<open>fdb_registry.go\<close>. The client library is a parameter, whose errors the definitions pass on. The lemmas are about an ideal client
    (\<open>fdb_contract\<close>: the only one, without failures and conflicts), for which the contract of the registry's store follows; it is
    interpreted on a small database for one client.
  \<^item> \<open>Hash_Ring\<close>: \<open>consistent_hash.go\<close>, with CRC-32; a key keeps its server as long as the ring has it. \<open>DNS_Registry\<close>: \<open>dns_registry.go\<close> and
    \<open>dns_resolver.go\<close>; the ring follows the lookups, and registries agree on the placement of actors.
  \<^item> \<open>Host_Capabilities\<close>: \<open>host_capabilities.go\<close>, the lazy transaction of an invocation; an actor program runs as one transaction of the registry.
    \<open>Wapc_KV\<close>: \<open>wapcutils/kv.go\<close>, the binary form of a put.
  \<^item> \<open>Futures\<close>: \<open>virtual/futures\<close>. \<open>Activations\<close>: \<open>activations.go\<close>, modules and actors in memory. \<open>Activation_Races\<close>: the same code as the
    steps of goroutines between unlocks, for invocations, timers and garbage collections that run at the same time. In calm histories, in which no actor is collected
    just before its startup operation or just after that operation has failed, at most one instance of an actor is open and runs code; in the others there can be two
    (\<open>failed_startup_two_instances\<close>).
  \<^item> \<open>Environment\<close>: \<open>environment.go\<close>. A stream is what reading it to the end delivers, with the error that it breaks off with, if any. An invocation on any environment of a process runs on the server where the registry has placed the actor.
    \<open>HTTP_Transport\<close>: \<open>server.go\<close> and \<open>http_client.go\<close>; client, network and handler together are the direct invocation on the other machine.
  \<^item> \<open>Wasm_Host\<close>: \<open>wazero.go\<close>, the router of host calls and the adapters of durable modules; a guest program is an actor program of gets and puts.
    \<open>Durable_Objects\<close>: \<open>durable\<close> and \<open>durablewazero\<close>; one instance per identifier; snapshots and their loading (the loop of \<open>bytes.Buffer\<close> ends, as every read
    takes a part of what the reader delivers). \<open>Util_Guest\<close>: the test module \<open>testdata/tinygo/util\<close>, its variables and operations; its actors count
    separately, and what they store is what they read.
  \<^item> \<open>DNS_Example\<close>: \<open>NewDNSRegistryEnvironment\<close> and the program of \<open>examples/dnsregistry\<close>; the actors of the program are activated by their first
    invocation and count every one, whatever heartbeats, lookups and collection timers run between the rounds. \<open>Server_App\<close>: \<open>cmd/app/main.go\<close>; a server with the registry in memory is ready when it begins to serve.
  \<^item> \<open>File_Cache\<close> and \<open>Semaphore\<close>: the example actors. The fuel of the loops over chunks is the number of bytes, which every round
    consumes at least one of.

  \<^bold>\<open>Assumptions.\<close> Hypotheses of the properties name what the code relies on and does not check: the contracts of the packages that are parameters
  (the B-tree, the WebAssembly engine and its memory, the cache of the environment, the network); a monotone clock; namespaces outside the
  reserved prefix of the servers (\<open>okNs\<close>), module identifiers without NUL (\<open>okId\<close>) and identifiers of valid UTF-8, for which the
  scans and the JSON form are exact. Version stamps stay below the largest \<open>time.Duration\<close> in
  microseconds, which a \<open>time.Duration\<close> guarantees for 292 years.

  \<^bold>\<open>Not modelled.\<close> \<open>context.Context\<close> other than the values that it carries; logging; the transport settings of
  \<open>NewHTTPClient\<close>; the parsing of command lines; the tests that the registries share (\<open>test_common.go\<close>) and the experiment \<open>scratch/main.go\<close>;
  failures of FoundationDB and conflicts between the transactions of several clients. A timer that an actor starts is kept by the Go runtime outside of the state of an
  invocation; what it does when it fires is \<open>timerFired\<close>.
\<close>

end
